(* ===== verification/WinxPrelude.thy ===== *)
theory WinxPrelude
  imports Main "HOL-Library.Word" "HOL-Library.Monad_Syntax"
begin

text \<open>
  Shared vocabulary of the Winx development: the integer types of
  \<^verbatim>\<open>lib/stdint.h\<close> as words of the same width, memory as a function from
  32-bit addresses to bytes, the constants of \<^verbatim>\<open>lib/kernel/global.h\<close> that
  several components use, and the generic facts on words, lists and options that
  carry the component proofs.

  Conventions of every theory:
  \<^item> a C function that can stop in \<^verbatim>\<open>ASSERT\<close>/\<^verbatim>\<open>PANIC\<close> (both end in the endless loop of
    \<^verbatim>\<open>panic_spin\<close>) or loop for ever returns an \<open>option\<close>: \<open>None\<close> is
    "the call never returns";
  \<^item> a C integer is a word of its width; signed values are read with \<open>sint\<close>, and
    \<open>-1\<close> is the all-ones word, as in the code's comparisons with \<^verbatim>\<open>-1\<close>.
\<close>

unbundle bit_operations_syntax

type_synonym u8 = "8 word"
type_synonym u16 = "16 word"
type_synonym u32 = "32 word"
type_synonym u64 = "64 word"

type_synonym mem = "u32 \<Rightarrow> u8"

named_theorems word_nat \<open>facts that move a goal on words to natural numbers\<close>

section \<open>Words read as natural numbers\<close>

lemma unat_add_small [word_nat]:
  "unat (a :: 'a::len word) + unat b < 2 ^ LENGTH('a) \<Longrightarrow> unat (a + b) = unat a + unat b"
  by (simp add: unat_word_ariths)

lemma unat_inc_small [word_nat]:
  "unat (a :: 'a::len word) + 1 < 2 ^ LENGTH('a) \<Longrightarrow> unat (a + 1) = unat a + 1"
  by (simp add: unat_word_ariths)

lemma unat_sub_le [word_nat]:
  "b \<le> a \<Longrightarrow> unat (a - b) = unat a - unat b"
  by (simp add: unat_sub)

lemma unat_mult_small [word_nat]:
  "unat (a :: 'a::len word) * unat b < 2 ^ LENGTH('a) \<Longrightarrow> unat (a * b) = unat a * unat b"
  by (simp add: unat_word_ariths)

lemma unat_div_word [word_nat]: "unat ((a :: 'a::len word) div b) = unat a div unat b"
  by (simp add: unat_div)

lemma unat_mod_word [word_nat]: "unat ((a :: 'a::len word) mod b) = unat a mod unat b"
  by (simp add: unat_mod)

lemma unat_of_nat_small [word_nat]:
  "n < 2 ^ LENGTH('a) \<Longrightarrow> unat (of_nat n :: 'a::len word) = n"
  by (simp add: unat_of_nat take_bit_nat_eq_self)

text \<open>Masking with \<open>2 ^ n - 1\<close> is the remainder by \<open>2 ^ n\<close>.\<close>

lemma unat_and_mask: "unat ((a :: 'a::len word) AND mask n) = unat a mod 2 ^ n"
proof -
  have "a AND mask n = take_bit n a" by (simp add: take_bit_eq_mask)
  then show ?thesis by (simp only: unsigned_take_bit_eq) (simp only: take_bit_eq_mod)
qed

lemma unat_and_15: "unat ((a :: u32) AND 15) = unat a mod 16"
  using unat_and_mask [of a 4] by (simp add: mask_eq_exp_minus_1)

lemma unat_of_nat_32: "n < 2 ^ 32 \<Longrightarrow> unat (of_nat n :: u32) = n"
  by (simp add: unat_of_nat_small)

lemma unat_of_nat_64: "n < 2 ^ 64 \<Longrightarrow> unat (of_nat n :: u64) = n"
  by (simp add: unat_of_nat_small)

lemma unat_lt_32: "unat (a :: u32) < 2 ^ 32"
  using unsigned_less [of a] by simp

lemma zero_less_one_u32: "(0 :: u32) < 1"
  by simp

lemma unat_drop_bit: "unat (drop_bit i (n :: 'a::len word)) = unat n div 2 ^ i"
proof -
  have "unat (drop_bit i n) = drop_bit i (unat n)"
    by (simp only: unsigned_drop_bit_eq take_bit_nat_eq_self [OF unsigned_less])
  then show ?thesis by (simp add: drop_bit_eq_div)
qed

lemma unat_inc_less: "(a :: 'a::len word) < b \<Longrightarrow> unat (a + 1) = unat a + 1"
proof -
  assume "a < b"
  then have "unat a + 1 \<le> unat b" by (simp add: word_less_nat_alt)
  then have "unat a + 1 < 2 ^ LENGTH('a)" by (rule le_less_trans) (rule unsigned_less)
  then show ?thesis by (rule unat_inc_small)
qed

lemma sint_of_nat_small: "n < 2 ^ 31 \<Longrightarrow> sint (of_nat n :: u32) = int n"
  by (simp add: sint_uint signed_take_bit_int_eq_self uint_nat unat_of_nat_small)

lemma sint_small: "unat a < 2 ^ 31 \<Longrightarrow> sint (a :: u32) = int (unat a)"
  using sint_of_nat_small [of "unat a"] by simp

lemma word_eq_unat: "a = b \<longleftrightarrow> unat a = unat b"
  by (simp add: word_unat_eq_iff)

section \<open>Little-endian bytes\<close>

text \<open>How a number lies in memory and on the disk: \<open>le n x\<close> are the \<open>n\<close> bytes of \<open>x\<close>.\<close>

primrec le :: "nat \<Rightarrow> nat \<Rightarrow> u8 list" where
  "le 0 x = []"
| "le (Suc n) x = of_nat x # le n (x div 256)"

primrec of_le :: "u8 list \<Rightarrow> nat" where
  "of_le [] = 0"
| "of_le (b # bs) = unat b + 256 * of_le bs"

lemma length_le [simp]: "length (le n x) = n"
  by (induction n arbitrary: x) simp_all

lemma of_le_le: "x < 256 ^ n \<Longrightarrow> of_le (le n x) = x"
proof (induction n arbitrary: x)
  case (Suc n)
  then have "of_le (le n (x div 256)) = x div 256" by (simp add: less_mult_imp_div_less mult.commute)
  then show ?case by (simp add: unat_of_nat)
qed simp

definition le32 :: "u32 \<Rightarrow> u8 list" where
  "le32 w = le 4 (unat w)"

definition le64 :: "u64 \<Rightarrow> u8 list" where
  "le64 w = le 8 (unat w)"

definition rd32 :: "u8 list \<Rightarrow> nat \<Rightarrow> u32" where
  "rd32 bs off = of_nat (of_le (take 4 (drop off bs)))"

definition rd64 :: "u8 list \<Rightarrow> nat \<Rightarrow> u64" where
  "rd64 bs off = of_nat (of_le (take 8 (drop off bs)))"

lemma length_le32 [simp]: "length (le32 w) = 4" and length_le64 [simp]: "length (le64 v) = 8"
  by (simp_all add: le32_def le64_def)

lemma of_le_le32 [simp]: "of_nat (of_le (le32 w)) = w" and of_le_le64 [simp]: "of_nat (of_le (le64 v)) = v"
proof -
  have "unat w < 256 ^ 4" "unat v < 256 ^ 8"
    using unsigned_less [where w = w] unsigned_less [where w = v] by simp_all
  then show "of_nat (of_le (le32 w)) = w" "of_nat (of_le (le64 v)) = v"
    by (simp_all add: le32_def le64_def of_le_le)
qed

lemma rd32_le32: "rd32 (le32 w @ bs) 0 = w"
  by (simp add: rd32_def)

lemma rd64_le64: "rd64 (le64 v @ bs) 0 = v"
  by (simp add: rd64_def)

lemma rd32_append: "length as \<le> off \<Longrightarrow> rd32 (as @ bs) off = rd32 bs (off - length as)"
  and rd64_append: "length as \<le> off \<Longrightarrow> rd64 (as @ bs) off = rd64 bs (off - length as)"
  by (simp_all add: rd32_def rd64_def)

lemmas codec_simps = rd32_le32 rd64_le64 rd32_append rd64_append

text \<open>Copying \<open>bs\<close> over a buffer at an offset (\<^verbatim>\<open>memcpy\<close> into it).\<close>

definition splice :: "'a list \<Rightarrow> nat \<Rightarrow> 'a list \<Rightarrow> 'a list" where
  "splice buf off bs = take off buf @ bs @ drop (off + length bs) buf"

lemma length_splice [simp]: "off + length bs \<le> length buf \<Longrightarrow> length (splice buf off bs) = length buf"
  by (simp add: splice_def)

lemma nth_splice:
  "off + length bs \<le> length buf \<Longrightarrow> i < length buf \<Longrightarrow>
   splice buf off bs ! i = (if off \<le> i \<and> i < off + length bs then bs ! (i - off) else buf ! i)"
  by (auto simp: splice_def nth_append min_def)

text \<open>The C string that starts at the first byte.\<close>

definition cstr :: "u8 list \<Rightarrow> u8 list" where
  "cstr bs = takeWhile (\<lambda>b. b \<noteq> 0) bs"

fun decimal :: "nat \<Rightarrow> u8 list" where
  "decimal n = (if n < 10 then [of_nat (48 + n)] else decimal (n div 10) @ [of_nat (48 + n mod 10)])"

declare decimal.simps [simp del]

end
