(* ===== verification/KMath.thy ===== *)
theory KMath
  imports WinxPrelude
begin

text \<open>
  The 64-by-32-bit division routines of \<^verbatim>\<open>src/impl/math.c\<close> and the \<^verbatim>\<open>do_mod\<close>/\<^verbatim>\<open>do_div\<close> macros of
  \<^verbatim>\<open>lib/math.h\<close>. The three shift-and-subtract loops share one loop body; the last routine
  and the macros use the processor's \<^verbatim>\<open>divl\<close> instruction, which traps when the divisor
  is zero or the quotient needs more than 32 bits (\<open>None\<close>).
\<close>

fun divide_loop :: "nat \<Rightarrow> u64 \<Rightarrow> u32 \<Rightarrow> u64 \<Rightarrow> u64 \<Rightarrow> u64 \<times> u64" where
  "divide_loop 0 dividend divisor remainder quot = (quot, remainder)"
| "divide_loop (Suc i) dividend divisor remainder quot =
     (let shifted = push_bit 1 remainder;
          bit = drop_bit i dividend AND 1;
          remainder = shifted OR bit
      in if ucast divisor \<le> remainder
         then divide_loop i dividend divisor (remainder - ucast divisor) (quot OR push_bit i 1)
         else divide_loop i dividend divisor remainder quot)"

definition divide_u64_u32 :: "u64 \<Rightarrow> u32 \<Rightarrow> u64 \<Rightarrow> u64 \<times> u64" where
  "divide_u64_u32 dividend divisor remainder =
     (if divisor = 0 then (0, remainder) else divide_loop 64 dividend divisor remainder 0)"

definition divide_u64_u32_no_mod :: "u64 \<Rightarrow> u32 \<Rightarrow> u64" where
  "divide_u64_u32_no_mod dividend divisor =
     (if divisor = 0 then 0 else fst (divide_loop 64 dividend divisor 0 0))"

definition mod_u64_u32 :: "u64 \<Rightarrow> u32 \<Rightarrow> u64" where
  "mod_u64_u32 dividend divisor =
     (if divisor = 0 then 0 else snd (divide_loop 64 dividend divisor 0 0))"

text \<open>The processor's \<^verbatim>\<open>divl\<close>: \<open>edx:eax\<close> by a 32-bit divisor, quotient and remainder.\<close>

definition divl :: "u32 \<Rightarrow> u32 \<Rightarrow> u32 \<Rightarrow> (u32 \<times> u32) option" where
  "divl edx eax divisor =
     (let n = unat edx * 2 ^ 32 + unat eax
      in if divisor = 0 \<or> 2 ^ 32 \<le> n div unat divisor then None
         else Some (of_nat (n div unat divisor), of_nat (n mod unat divisor)))"

definition join64 :: "u32 \<Rightarrow> u32 \<Rightarrow> u64" where
  "join64 hi lo = push_bit 32 (ucast hi) OR ucast lo"

definition hi32 :: "u64 \<Rightarrow> u32" where
  "hi32 v = ucast (drop_bit 32 v)"

definition lo32 :: "u64 \<Rightarrow> u32" where
  "lo32 v = ucast v"

text \<open>C's unsigned \<^verbatim>\<open>/\<close> and \<^verbatim>\<open>%\<close>, which trap on zero.\<close>

definition udiv32 :: "u32 \<Rightarrow> u32 \<Rightarrow> (u32 \<times> u32) option" where
  "udiv32 a b = (if b = 0 then None else Some (a div b, a mod b))"

definition div_u64_rem :: "u64 \<Rightarrow> u32 \<Rightarrow> (u64 \<times> u32) option" where
  "div_u64_rem dividend divisor =
     (let upper = hi32 dividend in
      do { (high, upper) \<leftarrow> (if divisor \<le> upper then udiv32 upper divisor else Some (0, upper));
           (low, remainder) \<leftarrow> divl upper (lo32 dividend) divisor;
           Some (join64 high low, remainder) })"

text \<open>\<open>do_mod n base\<close> is the value of the macro and the value it leaves in \<open>n\<close>.\<close>

definition do_mod :: "u64 \<Rightarrow> u32 \<Rightarrow> (u32 \<times> u64) option" where
  "do_mod n base =
     do { (high, upper) \<leftarrow> (if hi32 n \<noteq> 0 then udiv32 (hi32 n) base else Some (hi32 n, hi32 n));
          (low, md) \<leftarrow> divl upper (lo32 n) base;
          Some (md, join64 high low) }"

definition do_div :: "u64 \<Rightarrow> u32 \<Rightarrow> (u32 \<times> u64) option" where
  "do_div n base =
     do { (high, upper) \<leftarrow> (if hi32 n \<noteq> 0 then udiv32 (hi32 n) base else Some (hi32 n, hi32 n));
          (quot, low) \<leftarrow> divl upper (lo32 n) base;
          Some (quot, join64 high low) }"

section \<open>The shift-and-subtract loop\<close>

lemma unat_power_eq:
  assumes "i < 64"
  shows "unat (2 ^ i :: u64) = 2 ^ i"
proof -
  have "unat (of_nat (2 ^ i) :: u64) = 2 ^ i"
    using power_strict_increasing [OF assms, of "2 :: nat"] by (intro unat_of_nat_small) simp
  then show ?thesis by simp
qed

lemma unat_or_shift_bit:
  "unat (r :: u64) < 2 ^ 63 \<Longrightarrow>
     unat (push_bit 1 r OR (drop_bit i n AND 1)) = 2 * unat r + unat n div 2 ^ i mod 2"
proof -
  assume r: "unat r < 2 ^ 63"
  have "push_bit 1 r AND (drop_bit i n AND 1) = 0"
    by (rule bit_word_eqI) (auto simp: bit_and_iff bit_1_iff mult.commute [of r] bit_double_iff)
  then have "push_bit 1 r OR (drop_bit i n AND 1) = push_bit 1 r + (drop_bit i n AND 1)"
    by (simp add: disjunctive_add_eq_or)
  moreover have "unat (push_bit 1 r) = 2 * unat r"
    using r by (simp add: push_bit_eq_mult unat_mult_small)
  moreover have "unat (drop_bit i n AND 1) = unat n div 2 ^ i mod 2"
  proof -
    have "unat (drop_bit i n AND 1) = unat (drop_bit i n) AND unat (1 :: u64)"
      by (rule unsigned_and_eq)
    then show ?thesis by (simp only: unsigned_1 and_one_eq unat_drop_bit)
  qed
  ultimately show ?thesis using r by (simp add: unat_add_small)
qed

lemma unat_or_new_bit:
  assumes "2 ^ Suc i dvd unat (q :: u64)" "i < 64"
  shows "unat (q OR push_bit i 1) = unat q + 2 ^ i"
proof -
  have b: "\<not> bit (unat q) i" using assms(1) by (auto simp: bit_iff_odd elim!: dvdE)
  have "q AND push_bit i 1 = 0"
    using b by (intro bit_word_eqI) (auto simp: bit_simps bit_1_iff simp del: push_bit_of_1)
  then have "q OR push_bit i 1 = q + push_bit i 1" by (simp add: disjunctive_add_eq_or)
  moreover have p: "unat (push_bit i 1 :: u64) = 2 ^ i"
    using assms(2) by (simp add: unat_power_eq)
  moreover have "unat q + 2 ^ i < 2 ^ 64"
  proof -
    obtain k where k: "unat q = 2 ^ Suc i * k" using assms(1) by (elim dvdE)
    have e: "(2::nat) ^ 64 = 2 ^ Suc i * 2 ^ (63 - i)" using assms(2) by (simp flip: power_add)
    have "unat q < 2 ^ 64" using unsigned_less [of q] by simp
    then have "2 ^ Suc i * k < 2 ^ Suc i * 2 ^ (63 - i)" using k e by metis
    then have "k < 2 ^ (63 - i)" by simp
    then have "2 ^ Suc i * Suc k \<le> (2::nat) ^ 64" unfolding e by (intro mult_le_mono) auto
    moreover have "2 ^ Suc i * k + 2 ^ i < (2 :: nat) ^ Suc i * Suc k" by simp
    ultimately show ?thesis unfolding k by (rule less_le_trans [rotated])
  qed
  ultimately show ?thesis by (simp add: unat_add_small)
qed

lemma divide_loop_correct:
  assumes "divisor \<noteq> 0" "i \<le> 64" "unat r < unat (divisor :: u32)" "2 ^ i dvd unat q"
    and "divide_loop i n divisor r q = (q', r')"
  shows "unat q' = unat q + (unat r * 2 ^ i + unat n mod 2 ^ i) div unat divisor \<and>
    unat r' = (unat r * 2 ^ i + unat n mod 2 ^ i) mod unat divisor"
  using assms(2-)
proof (induction i arbitrary: r q)
  case (Suc i)
  define b where "b = unat n div 2 ^ i mod 2"
  define r2 where "r2 = push_bit 1 r OR (drop_bit i n AND 1)"
  have d0: "0 < unat divisor" and d32: "unat divisor < 2 ^ 32"
    using assms(1) unat_lt_32 by (auto simp: unat_gt_0)
  have u2: "unat r2 = 2 * unat r + b"
    unfolding r2_def b_def using Suc.prems(2) d32 by (intro unat_or_shift_bit) simp
  have b1: "b \<le> 1" unfolding b_def by simp
  have nm: "unat n mod 2 ^ Suc i = b * 2 ^ i + unat n mod 2 ^ i"
    unfolding b_def by (metis add.commute mod_mult2_eq mult.commute power_Suc)
  have val: "unat r * 2 ^ Suc i + unat n mod 2 ^ Suc i = unat r2 * 2 ^ i + unat n mod 2 ^ i"
    unfolding nm u2 by (simp add: algebra_simps)
  have ud: "unat (ucast divisor :: u64) = unat divisor" by (simp add: unsigned_ucast_eq take_bit_nat_eq_self less_trans [OF unat_lt_32])
  have step: "divide_loop (Suc i) n divisor r q =
     (if unat divisor \<le> unat r2
      then divide_loop i n divisor (r2 - ucast divisor) (q OR push_bit i 1)
      else divide_loop i n divisor r2 q)"
    by (simp add: Let_def r2_def word_le_nat_alt ud)
  show ?case
  proof (cases "unat divisor \<le> unat r2")
    case False
    then show ?thesis using Suc.IH [of r2 q] Suc.prems step unfolding val
      by (auto intro: dvd_trans le_imp_power_dvd)
  next
    case True
    have r3: "unat (r2 - ucast divisor) = unat r2 - unat divisor"
      using True by (subst unat_sub) (simp_all add: word_le_nat_alt ud)
    have q3: "unat (q OR push_bit i 1) = unat q + 2 ^ i"
      using Suc.prems by (intro unat_or_new_bit) auto
    have lt: "unat (r2 - ucast divisor) < unat divisor"
      unfolding r3 u2 using True Suc.prems(2) b1 unfolding u2 by linarith
    have dv: "2 ^ i dvd unat (q OR push_bit i 1)"
      unfolding q3 using Suc.prems(3) by (auto intro!: dvd_add elim: dvd_trans [rotated])
    have eq: "unat r2 * 2 ^ i + unat n mod 2 ^ i =
      (unat r2 - unat divisor) * 2 ^ i + unat n mod 2 ^ i + unat divisor * 2 ^ i"
      using le_Suc_ex [OF True] by (auto simp: algebra_simps)
    have "divide_loop i n divisor (r2 - ucast divisor) (q OR push_bit i 1) = (q', r')"
      using Suc.prems(4) step True by simp
    from Suc.IH [OF _ lt dv this] Suc.prems(1)
    show ?thesis unfolding val r3 q3 eq using d0 by simp
  qed
qed simp

lemma divide_loop_64:
  assumes "divisor \<noteq> 0"
  shows "divide_loop 64 n divisor 0 0 =
    (of_nat (unat n div unat divisor), of_nat (unat n mod unat divisor))"
proof -
  obtain q r where qr: "divide_loop 64 n divisor 0 0 = (q, r)" by fastforce
  have "unat n < 2 ^ 64" using unsigned_less [of n] by simp
  then have "unat q = unat n div unat divisor \<and> unat r = unat n mod unat divisor"
    using divide_loop_correct [OF assms, of 64 0 0 n q r] qr assms by (simp add: unat_gt_0)
  moreover have "q = of_nat (unat q)" "r = of_nat (unat r)" by simp_all
  ultimately show ?thesis using qr by metis
qed
lemma unat_ucast_32_64: "unat (ucast (d :: u32) :: u64) = unat d"
  by (simp add: unsigned_ucast_eq take_bit_nat_eq_self less_trans [OF unat_lt_32])

lemma of_nat_div_word: "of_nat (unat n div unat d) = (n :: u64) div ucast (d :: u32)"
  by (simp add: word_eq_unat unat_of_nat_small unat_div unat_ucast_32_64
      le_less_trans [OF div_le_dividend unsigned_less [of n, simplified]])

lemma of_nat_mod_word: "of_nat (unat n mod unat d) = (n :: u64) mod ucast (d :: u32)"
  by (simp add: word_eq_unat unat_of_nat_small unat_mod unat_ucast_32_64
      le_less_trans [OF mod_less_eq_dividend unsigned_less [of n, simplified]])

section \<open>The routine built on the division instruction\<close>

lemma unat_hi_lo: "unat (n :: u64) = unat (hi32 n) * 2 ^ 32 + unat (lo32 n)"
proof -
  have n: "unat n < 2 ^ 64" using unsigned_less [of n] by simp
  have "unat (drop_bit 32 n) = unat n div 2 ^ 32"
    by (rule unat_drop_bit)
  then have "unat (hi32 n) = unat n div 2 ^ 32"
    using n by (simp only: hi32_def unsigned_ucast_eq take_bit_eq_mod)
      (simp add: less_mult_imp_div_less)
  moreover have "unat (lo32 n) = unat n mod 2 ^ 32"
    by (simp add: lo32_def unsigned_ucast_eq take_bit_eq_mod)
  ultimately show ?thesis by (simp add: div_mult_mod_eq)
qed

lemma unat_join64: "unat (join64 hi lo) = unat hi * 2 ^ 32 + unat lo"
proof -
  have "push_bit 32 (ucast hi :: u64) AND ucast lo = 0"
    by (rule bit_word_eqI) (auto simp: bit_simps dest: bit_imp_le_length)
  then have "join64 hi lo = push_bit 32 (ucast hi) + ucast lo"
    by (simp add: join64_def disjunctive_add_eq_or)
  moreover have "unat (push_bit 32 (ucast hi) :: u64) = unat hi * 2 ^ 32"
    using unat_lt_32 [of hi] by (simp add: push_bit_eq_mult unat_mult_small unat_ucast_32_64)
  ultimately show ?thesis
    using unat_lt_32 [of hi] unat_lt_32 [of lo] by (simp add: unat_add_small unat_ucast_32_64)
qed
lemma unat_hi32: "unat (hi32 n) = unat n div 2 ^ 32"
  using unat_lt_32 [of "lo32 n"] by (subst unat_hi_lo [of n]) simp

lemma join64_hi_lo: "join64 (hi32 n) (lo32 n) = n"
  by (simp add: word_eq_unat unat_join64 unat_hi_lo [of n])

lemma long_division:
  assumes d: "(0 :: nat) < d" "d < 2 ^ 32" and L: "L < 2 ^ 32"
  shows "((H mod d) * 2 ^ 32 + L) div d < 2 ^ 32"
    "(H * 2 ^ 32 + L) div d = (H div d) * 2 ^ 32 + ((H mod d) * 2 ^ 32 + L) div d"
    "(H * 2 ^ 32 + L) mod d = ((H mod d) * 2 ^ 32 + L) mod d"
proof -
  have "(H mod d) * 2 ^ 32 + L < (H mod d + 1) * 2 ^ 32" using L by simp
  also have "\<dots> \<le> d * 2 ^ 32" using d(1) by (intro mult_right_mono) (auto simp: Suc_leI)
  finally show "((H mod d) * 2 ^ 32 + L) div d < 2 ^ 32"
    by (simp add: less_mult_imp_div_less mult.commute)
  have "H * 2 ^ 32 + L = (d * (H div d) + H mod d) * 2 ^ 32 + L"
    by (simp only: mult_div_mod_eq)
  also have "\<dots> = d * (H div d * 2 ^ 32) + ((H mod d) * 2 ^ 32 + L)"
    by (simp only: add_mult_distrib mult.assoc add.assoc)
  finally have e: "H * 2 ^ 32 + L = d * (H div d * 2 ^ 32) + ((H mod d) * 2 ^ 32 + L)" .
  show "(H * 2 ^ 32 + L) div d = (H div d) * 2 ^ 32 + ((H mod d) * 2 ^ 32 + L) div d"
    unfolding e using d(1) by simp
  show "(H * 2 ^ 32 + L) mod d = ((H mod d) * 2 ^ 32 + L) mod d" unfolding e by simp
qed

lemma digits_unique:
  assumes "a * B + b = c * B + e" "b < B" "e < (B :: nat)"
  shows "e = b \<and> c = a"
proof -
  have "(a * B + b) div B = a" "(c * B + e) div B = c" using assms(2,3) by simp_all
  then have "c = a" using assms(1) by simp
  then show ?thesis using assms(1) by simp
qed

lemma divl_long_division:
  assumes "(d :: u32) \<noteq> 0"
  shows "divl (hi32 n mod d) (lo32 n) d =
      Some (lo32 (n div ucast d), ucast (n mod ucast d :: u64))"
    "hi32 n div d = hi32 (n div ucast d)"
proof -
  have d: "0 < unat d" using assms by (simp add: unat_gt_0)
  note ld = long_division [OF d unat_lt_32 unat_lt_32, of "unat (hi32 n)" "lo32 n",
      folded unat_hi_lo [of n]]
  have q: "unat (n div ucast d) = unat n div unat d" and r: "unat (n mod ucast d) = unat n mod unat d"
    by (simp_all add: unat_div unat_mod unat_ucast_32_64)
  have hq: "unat (n div ucast d) = unat (hi32 (n div ucast d)) * 2 ^ 32 + unat (lo32 (n div ucast d))"
    by (rule unat_hi_lo)
  have lo: "unat (lo32 (n div ucast d)) = ((unat (hi32 n) mod unat d) * 2 ^ 32 + unat (lo32 n)) div unat d"
    and hi: "unat (hi32 (n div ucast d)) = unat (hi32 n) div unat d"
    using digits_unique [OF hq [unfolded q, unfolded ld(2)] ld(1) unat_lt_32] by simp_all
  show "hi32 n div d = hi32 (n div ucast d)" by (simp add: word_eq_unat unat_div hi)
  have "unat (ucast (n mod ucast d) :: u32) = unat n mod unat d"
    using mod_less_divisor [OF d, of "unat n"] unat_lt_32 [of d]
    by (simp add: unsigned_ucast_eq take_bit_eq_mod r)
  then show "divl (hi32 n mod d) (lo32 n) d =
      Some (lo32 (n div ucast d), ucast (n mod ucast d :: u64))"
    using assms ld(1,3) lo mod_less_divisor [OF d, of "unat n"] unat_lt_32 [of d]
    by (simp add: divl_def Let_def word_eq_unat unat_of_nat_small unat_mod)
qed

lemma high_step:
  assumes "(d :: u32) \<noteq> 0"
  shows "(if d \<le> h then udiv32 h d else Some (0, h)) = Some (h div d, h mod d)"
    "(if h \<noteq> 0 then udiv32 h d else Some (h, h)) = Some (h div d, h mod d)"
  using assms by (auto simp: udiv32_def word_eq_unat unat_div unat_mod not_le word_less_nat_alt)

section \<open>Properties\<close>

text \<open>
  C32. The three shift-and-subtract routines compute the exact 64-bit quotient and
  remainder by a 32-bit divisor, and 0 for a zero divisor; \<^verbatim>\<open>divide_u64_u32\<close> does so
  when its caller passes a remainder cell that holds 0.
\<close>

theorem shift_subtract_division:
  "divide_u64_u32_no_mod n d = (if d = 0 then 0 else n div ucast d) \<and>
   mod_u64_u32 n d = (if d = 0 then 0 else n mod ucast d) \<and>
   divide_u64_u32 n d 0 = (if d = 0 then (0, 0) else (n div ucast d, n mod ucast d))"
  by (simp add: divide_u64_u32_no_mod_def mod_u64_u32_def divide_u64_u32_def divide_loop_64
      of_nat_div_word of_nat_mod_word)

text \<open>
  \<^verbatim>\<open>div_u64_rem\<close> traps exactly when the divisor is zero; otherwise its two chained
  divisions never overflow the 32-bit quotient of \<^verbatim>\<open>divl\<close> and give the exact 64-bit
  quotient and the remainder.
\<close>

theorem div_u64_rem_exact:
  "div_u64_rem n d =
     (if d = 0 then None else Some (n div ucast d, ucast (n mod ucast d)))"
proof (cases "d = 0")
  case True
  then show ?thesis by (simp add: div_u64_rem_def udiv32_def)
next
  case False
  then show ?thesis
    by (simp add: div_u64_rem_def Let_def high_step divl_long_division join64_hi_lo)
qed

lemma do_mod_exact:
  "do_mod n b = (if b = 0 then None else Some (ucast (n mod ucast b), n div ucast b))"
proof (cases "b = 0")
  case True
  then show ?thesis by (simp add: do_mod_def udiv32_def divl_def)
next
  case False
  then show ?thesis by (simp add: do_mod_def high_step divl_long_division join64_hi_lo)
qed

text \<open>
  The macro \<^verbatim>\<open>do_div\<close> names the remainder register \<^verbatim>\<open>__low\<close>, so what it leaves in \<open>n\<close> is the
  high half of the quotient over the remainder.
\<close>

lemma do_div_value:
  "do_div n b = (if b = 0 then None
     else Some (lo32 (n div ucast b), join64 (hi32 (n div ucast b)) (ucast (n mod ucast b))))"
proof (cases "b = 0")
  case True
  then show ?thesis by (simp add: do_div_def udiv32_def divl_def)
next
  case False
  then show ?thesis by (simp add: do_div_def high_step divl_long_division)
qed

end
