(* ===== verification/Cmos.thy ===== *)
theory Cmos
  imports KMath
begin

text \<open>
  The calendar of \<^verbatim>\<open>src/device/cmos.c\<close>: conversion between broken-down time and the
  seconds since 1970, and the CMOS clock read at boot. The clock's registers are a
  parameter: \<open>rd k a\<close> is the byte that the \<open>k\<close>-th read returns for register \<open>a\<close>.
\<close>

record tm =
  tm_sec :: u32
  tm_min :: u32
  tm_hour :: u32
  tm_mday :: u32
  tm_mon :: u32
  tm_year :: u32

text \<open>\<^verbatim>\<open>%\<close> is only compared with 0, where C's remainder and \<open>mod\<close> agree.\<close>

definition is_leap_year :: "int \<Rightarrow> bool" where
  "is_leap_year year \<longleftrightarrow> (year mod 4 = 0 \<and> year mod 100 \<noteq> 0) \<or> year mod 400 = 0"

definition days_in_month :: "int \<Rightarrow> int \<Rightarrow> int" where
  "days_in_month month year =
     (if month = 2 then (if is_leap_year year then 29 else 28)
      else if month = 4 \<or> month = 6 \<or> month = 9 \<or> month = 11 then 30
      else 31)"

function year_loop :: "u32 \<Rightarrow> u32 \<Rightarrow> u64 \<Rightarrow> u64" where
  "year_loop y lim total_seconds =
     (if y < lim
      then year_loop (y + 1) lim
             (total_seconds + (if is_leap_year (sint y) then 31622400 else 31536000))
      else total_seconds)"
  by pat_completeness auto
termination
  by (relation "measure (\<lambda>(y, lim, _). unat lim - unat y)")
    (auto simp: unat_inc_less, simp_all add: word_less_nat_alt)

function month_loop :: "u32 \<Rightarrow> u32 \<Rightarrow> int \<Rightarrow> u64 \<Rightarrow> u64" where
  "month_loop m lim year total_seconds =
     (if m < lim
      then month_loop (m + 1) lim year
             (total_seconds + of_int (days_in_month (sint (m + 1)) year * 24 * 60 * 60))
      else total_seconds)"
  by pat_completeness auto
termination
  by (relation "measure (\<lambda>(m, lim, _, _). unat lim - unat m)")
    (auto simp: unat_inc_less, simp_all add: word_less_nat_alt)

declare year_loop.simps [simp del] month_loop.simps [simp del]

definition datetime_to_timestamp :: "tm \<Rightarrow> u64" where
  "datetime_to_timestamp t =
     (let total_seconds = year_loop 1970 (tm_year t + 1900) 0;
          total_seconds = month_loop 0 (tm_mon t) (sint (tm_year t + 1900)) total_seconds;
          total_seconds = total_seconds + ucast ((tm_mday t - 1) * 24 * 60 * 60)
      in total_seconds + ucast (tm_hour t * 60 * 60 + tm_min t * 60 + tm_sec t))"

definition year_days :: "u32 \<Rightarrow> u32" where
  "year_days year =
     365 + (if year mod 4 = 0 \<and> (year mod 100 \<noteq> 0 \<or> year mod 400 = 0) then 1 else 0)"

lemma year_days_cases: "year_days y = 365 \<or> year_days y = 366"
  by (simp add: year_days_def)

function split_years :: "u32 \<Rightarrow> u32 \<Rightarrow> u32 \<times> u32" where
  "split_years days year =
     (if year_days year \<le> days then split_years (days - year_days year) (year + 1)
      else (days, year))"
  by pat_completeness auto
termination
proof (relation "measure (\<lambda>(days, _). unat days)", goal_cases)
  case (2 days year)
  then show ?case using year_days_cases [of year]
    by (auto simp: word_le_nat_alt unat_sub)
qed simp

lemma days_in_month_pos: "28 \<le> days_in_month m y" "days_in_month m y \<le> 31"
  by (auto simp: days_in_month_def)

lemma unat_days_in_month: "unat (of_int (days_in_month m y) :: u32) = nat (days_in_month m y)"
  using days_in_month_pos [of m y] unat_of_nat_small [of "nat (days_in_month m y)", where 'a = 32]
  by (simp add: of_nat_nat)

function split_months :: "u32 \<Rightarrow> u32 \<Rightarrow> u32 \<Rightarrow> u32 \<times> u32" where
  "split_months days month year =
     (let days_in_mon = of_int (days_in_month (sint month) (sint year))
      in if days_in_mon \<le> days then split_months (days - days_in_mon) (month + 1) year
         else (days, month))"
  by pat_completeness auto
termination
proof (relation "measure (\<lambda>(days, _, _). unat days)", goal_cases)
  case (2 days month year x)
  then show ?case using unat_days_in_month [of "sint month" "sint year"]
      days_in_month_pos [of "sint month" "sint year"]
    by (auto simp: word_le_nat_alt unat_sub)
qed simp

declare split_years.simps [simp del] split_months.simps [simp del]

definition timestamp_to_datetime :: "u64 \<Rightarrow> tm" where
  "timestamp_to_datetime timestamp =
     (let (days, year) = split_years (ucast (divide_u64_u32_no_mod timestamp (24 * 3600))) 1970;
          (days, month) = split_months days 1 year
      in \<lparr>tm_sec = ucast (mod_u64_u32 timestamp 60),
          tm_min = ucast (divide_u64_u32_no_mod (mod_u64_u32 timestamp 3600) 60),
          tm_hour = ucast (divide_u64_u32_no_mod (mod_u64_u32 timestamp (24 * 3600)) 3600),
          tm_mday = days + 1, tm_mon = month - 1, tm_year = year - 1900\<rparr>)"

definition bcd_to_bin :: "u32 \<Rightarrow> u32" where
  "bcd_to_bin val = (val AND 15) + drop_bit 4 val * 10"

text \<open>
  \<^verbatim>\<open>time_init\<close>: six registers are read until a seventh read sees the same second, then
  converted. The result is the value of \<^verbatim>\<open>time\<close> and of \<^verbatim>\<open>times.tv_sec\<close>.
\<close>

partial_function (option) cmos_sample :: "(nat \<Rightarrow> u8 \<Rightarrow> u8) \<Rightarrow> nat \<Rightarrow> tm option" where
  "cmos_sample rd k =
     (let sec = ucast (rd k 0)
      in if sec = (ucast (rd (k + 6) 0) :: u32)
         then Some \<lparr>tm_sec = sec, tm_min = ucast (rd (k + 1) 2), tm_hour = ucast (rd (k + 2) 4),
                    tm_mday = ucast (rd (k + 3) 7), tm_mon = ucast (rd (k + 4) 8),
                    tm_year = ucast (rd (k + 5) 9)\<rparr>
         else cmos_sample rd (k + 7))"

definition time_init :: "(nat \<Rightarrow> u8 \<Rightarrow> u8) \<Rightarrow> (tm \<times> u64) option" where
  "time_init rd =
     do { t \<leftarrow> cmos_sample rd 0;
          let t' = \<lparr>tm_sec = bcd_to_bin (tm_sec t), tm_min = bcd_to_bin (tm_min t),
                    tm_hour = bcd_to_bin (tm_hour t), tm_mday = bcd_to_bin (tm_mday t),
                    tm_mon = bcd_to_bin (tm_mon t) - 1, tm_year = bcd_to_bin (tm_year t) + 100\<rparr>;
          Some (t', datetime_to_timestamp t') }"

section \<open>Calendar arithmetic on natural numbers\<close>

definition ylen :: "nat \<Rightarrow> nat" where
  "ylen y = (if is_leap_year (int y) then 366 else 365)"

definition mlen :: "nat \<Rightarrow> nat \<Rightarrow> nat" where
  "mlen m y = nat (days_in_month (int m) (int y))"

lemma ylen_bounds: "365 \<le> ylen y" "ylen y \<le> 366"
  by (auto simp: ylen_def)

lemma mlen_bounds: "28 \<le> mlen m y" "mlen m y \<le> 31"
  using days_in_month_pos [of "int m" "int y"] by (auto simp: mlen_def)

lemma ylen_months: "(\<Sum>m = 1..<13. mlen m y) = ylen y"
  by (simp add: mlen_def ylen_def days_in_month_def numeral_eq_Suc atLeastLessThanSuc)

lemma year_loop_sum:
  assumes "unat lim < 2 ^ 31"
  shows "year_loop y lim acc = acc + of_nat (86400 * (\<Sum>k = unat y..<unat lim. ylen k))"
  using assms
proof (induction y lim acc rule: year_loop.induct)
  case (1 y lim acc)
  note assms = "1.prems"
  show ?case
  proof (cases "y < lim")
    case True
    have s: "sint y = int (unat y)"
      using True [unfolded word_less_nat_alt] assms by (intro sint_small) linarith
    have len: "(if is_leap_year (sint y) then 31622400 else 31536000) =
        (of_nat (86400 * ylen (unat y)) :: u64)"
      by (simp add: s ylen_def)
    have "year_loop y lim acc = year_loop (y + 1) lim (acc + of_nat (86400 * ylen (unat y)))"
      using True by (subst year_loop.simps) (simp only: len if_True)
    also have "\<dots> = acc + of_nat (86400 * ylen (unat y)) +
        of_nat (86400 * (\<Sum>k = Suc (unat y)..<unat lim. ylen k))"
      using "1.IH" [OF True assms] True by (simp only: len unat_inc_less Suc_eq_plus1)
    also have "\<dots> = acc + of_nat (86400 * (\<Sum>k = unat y..<unat lim. ylen k))"
      using True by (simp add: sum.atLeast_Suc_lessThan word_less_nat_alt distrib_left)
    finally show ?thesis .
  next
    case False
    then show ?thesis by (simp add: year_loop.simps word_less_nat_alt)
  qed
qed

lemma month_loop_sum:
  assumes "unat lim < 2 ^ 31"
  shows "month_loop m lim (int y) acc =
    acc + of_nat (86400 * (\<Sum>k = unat m..<unat lim. mlen (k + 1) y))"
  using assms
proof (induction m lim "int y" acc rule: month_loop.induct)
  case (1 m lim acc)
  note assms = "1.prems"
  show ?case
  proof (cases "m < lim")
    case True
    have "unat (m + 1) < 2 ^ 31"
      using True [unfolded word_less_nat_alt] assms unat_inc_less [OF True] by linarith
    then have s: "sint (m + 1) = int (unat m + 1)"
      using True by (simp add: sint_small unat_inc_less)
    have d: "(of_int (days_in_month (sint (m + 1)) (int y) * 24 * 60 * 60) :: u64) =
        of_nat (86400 * mlen (unat m + 1) y)"
      using days_in_month_pos(1) [of "int (unat m + 1)" "int y"]
      by (simp add: s mlen_def of_nat_nat)
    have "month_loop m lim (int y) acc =
        month_loop (m + 1) lim (int y) (acc + of_nat (86400 * mlen (unat m + 1) y))"
      using True by (subst month_loop.simps) (simp only: d if_True)
    also have "\<dots> = acc + of_nat (86400 * mlen (unat m + 1) y) +
        of_nat (86400 * (\<Sum>k = Suc (unat m)..<unat lim. mlen (k + 1) y))"
      using "1.hyps" [OF True assms] True by (simp only: d unat_inc_less Suc_eq_plus1)
    also have "\<dots> = acc + of_nat (86400 * (\<Sum>k = unat m..<unat lim. mlen (k + 1) y))"
      using True by (simp add: sum.atLeast_Suc_lessThan word_less_nat_alt distrib_left)
    finally show ?thesis .
  next
    case False
    then show ?thesis by (simp add: month_loop.simps word_less_nat_alt)
  qed
qed

lemma unat_year_days:
  assumes "y < 2 ^ 31"
  shows "unat (year_days (of_nat y)) = ylen y"
proof -
  have u: "unat (of_nat y :: u32) = y" using assms by (simp add: unat_of_nat_small)
  have m: "(of_nat y :: u32) mod k = 0 \<longleftrightarrow> y mod unat k = 0" for k
    by (simp only: word_eq_unat unat_mod_word u unsigned_0)
  have days: "year_days (of_nat y) =
      365 + (if y mod 4 = 0 \<and> (y mod 100 \<noteq> 0 \<or> y mod 400 = 0) then 1 else 0)"
    unfolding year_days_def m by simp
  have "400 dvd y \<Longrightarrow> 4 dvd y" by (rule dvd_trans [of 4 400]) auto
  moreover have "is_leap_year (int y) \<longleftrightarrow> 4 dvd y \<and> \<not> 100 dvd y \<or> 400 dvd y"
    using int_dvd_int_iff [of 4 y] int_dvd_int_iff [of 100 y] int_dvd_int_iff [of 400 y]
    by (simp only: is_leap_year_def mod_eq_0_iff_dvd of_nat_numeral not_False_eq_True)
  ultimately have "is_leap_year (int y) \<longleftrightarrow> y mod 4 = 0 \<and> (y mod 100 \<noteq> 0 \<or> y mod 400 = 0)"
    unfolding dvd_eq_mod_eq_0 by metis
  then show ?thesis unfolding days ylen_def by simp
qed

lemma split_years_sum:
  assumes "Y < 2 ^ 31" "r < ylen Y" "y \<le> Y" "(\<Sum>k = y..<Y. ylen k) + r < 2 ^ 32"
  shows "split_years (of_nat ((\<Sum>k = y..<Y. ylen k) + r)) (of_nat y) = (of_nat r, of_nat Y)"
  using assms(3,4)
proof (induction "Y - y" arbitrary: y)
  case 0
  then have "y = Y" by simp
  moreover have "\<not> year_days (of_nat Y) \<le> of_nat r"
    using assms(1,2) ylen_bounds(2) [of Y]
    by (simp add: word_le_nat_alt unat_year_days unat_of_nat_small)
  ultimately show ?case by (simp add: split_years.simps)
next
  case (Suc d)
  define s where "s = (\<Sum>k = Suc y..<Y. ylen k) + r"
  have lt: "y < Y" using Suc.hyps(2) by simp
  have sum: "(\<Sum>k = y..<Y. ylen k) + r = ylen y + s"
    using lt by (simp add: s_def sum.atLeast_Suc_lessThan)
  have yd: "year_days (of_nat y) = of_nat (ylen y)"
    using lt assms(1) ylen_bounds(2) [of y]
    by (simp add: word_eq_unat unat_year_days unat_of_nat_small)
  have "(of_nat (ylen y) :: u32) \<le> of_nat (ylen y + s)"
    using Suc.prems(2) sum by (simp add: word_le_nat_alt unat_of_nat_small del: of_nat_add)
  then have "split_years (of_nat (ylen y + s)) (of_nat y) = split_years (of_nat s) (of_nat (Suc y))"
    by (subst split_years.simps) (simp add: yd add.commute)
  also have "\<dots> = (of_nat r, of_nat Y)"
    unfolding s_def using Suc.hyps lt Suc.prems(2) sum s_def by (intro Suc.hyps(1)) auto
  finally show ?case by (simp only: sum)
qed

lemma split_months_sum:
  assumes "Y < 2 ^ 31" "M < 2 ^ 31" "r < mlen M Y" "m \<le> M" "(\<Sum>k = m..<M. mlen k Y) + r < 2 ^ 32"
  shows "split_months (of_nat ((\<Sum>k = m..<M. mlen k Y) + r)) (of_nat m) (of_nat Y) =
    (of_nat r, of_nat M)"
  using assms(4,5)
proof (induction "M - m" arbitrary: m)
  case 0
  then have "m = M" by simp
  moreover have "\<not> (of_int (days_in_month (sint (of_nat M :: u32)) (sint (of_nat Y :: u32))) :: u32) \<le> of_nat r"
    using assms(1-3) mlen_bounds(2) [of M Y]
    by (simp add: word_le_nat_alt unat_days_in_month unat_of_nat_small sint_of_nat_small mlen_def)
  ultimately show ?case by (simp add: split_months.simps)
next
  case (Suc d)
  define s where "s = (\<Sum>k = Suc m..<M. mlen k Y) + r"
  have lt: "m < M" using Suc.hyps(2) by simp
  have sum: "(\<Sum>k = m..<M. mlen k Y) + r = mlen m Y + s"
    using lt by (simp add: s_def sum.atLeast_Suc_lessThan)
  have md: "(of_int (days_in_month (sint (of_nat m :: u32)) (sint (of_nat Y :: u32))) :: u32) = of_nat (mlen m Y)"
    using lt assms(1,2) mlen_bounds(2) [of m Y]
    by (simp add: word_eq_unat unat_days_in_month unat_of_nat_small sint_of_nat_small mlen_def)
  have "(of_nat (mlen m Y) :: u32) \<le> of_nat (mlen m Y + s)"
    using Suc.prems(2) sum by (simp add: word_le_nat_alt unat_of_nat_small del: of_nat_add)
  then have "split_months (of_nat (mlen m Y + s)) (of_nat m) (of_nat Y) =
      split_months (of_nat s) (of_nat (Suc m)) (of_nat Y)"
    by (subst split_months.simps) (simp add: md add.commute)
  also have "\<dots> = (of_nat r, of_nat M)"
    unfolding s_def using Suc.hyps lt Suc.prems(2) sum s_def by (intro Suc.hyps(1)) auto
  finally show ?case by (simp only: sum)
qed
text \<open>A valid date: from 1970 on, every field in its range, the day within its month.\<close>

definition valid_tm :: "tm \<Rightarrow> bool" where
  "valid_tm t \<longleftrightarrow>
     70 \<le> unat (tm_year t) \<and> unat (tm_year t) < 100000 \<and> unat (tm_mon t) < 12 \<and>
     1 \<le> unat (tm_mday t) \<and> unat (tm_mday t) \<le> mlen (unat (tm_mon t) + 1) (unat (tm_year t) + 1900) \<and>
     unat (tm_hour t) < 24 \<and> unat (tm_min t) < 60 \<and> unat (tm_sec t) < 60"

definition days_of :: "nat \<Rightarrow> nat \<Rightarrow> nat \<Rightarrow> nat" where
  "days_of Y M D = (\<Sum>k = 1970..<Y. ylen k) + ((\<Sum>k = 1..<M. mlen k Y) + (D - 1))"

definition secs_of :: "nat \<Rightarrow> nat \<Rightarrow> nat \<Rightarrow> nat" where
  "secs_of h m s = h * 3600 + m * 60 + s"

lemma sum_ylen_bound: "(\<Sum>k = a..<b. ylen k) \<le> 366 * (b - a)"
  using sum_bounded_above [of "{a..<b}" ylen 366] ylen_bounds(2) by simp

lemma sum_mlen_bound: "(\<Sum>k = a..<b. mlen k y) \<le> 31 * (b - a)"
  using sum_bounded_above [of "{a..<b}" "\<lambda>k. mlen k y" 31] mlen_bounds(2) by simp

lemma day_in_year: "M \<le> 12 \<Longrightarrow> 1 \<le> M \<Longrightarrow> 1 \<le> D \<Longrightarrow> D \<le> mlen M Y \<Longrightarrow>
    (\<Sum>k = 1..<M. mlen k Y) + (D - 1) < ylen Y"
proof -
  assume a: "M \<le> 12" "1 \<le> M" "1 \<le> D" "D \<le> mlen M Y"
  have "(\<Sum>k = 1..<M. mlen k Y) + mlen M Y = (\<Sum>k = 1..<Suc M. mlen k Y)"
    using a(2) by simp
  also have "\<dots> \<le> (\<Sum>k = 1..<13. mlen k Y)" using a(1) by (intro sum_mono2) auto
  also have "\<dots> = ylen Y" by (rule ylen_months)
  finally show ?thesis using a(3,4) by linarith
qed

lemma ucast_day: "1 \<le> unat d \<Longrightarrow> unat d \<le> 31 \<Longrightarrow>
    (ucast ((d - 1) * 24 * 60 * 60 :: u32) :: u64) = of_nat (86400 * (unat d - 1))"
proof -
  assume d: "1 \<le> unat d" "unat d \<le> 31"
  have "(d - 1) * 24 * 60 * 60 = (of_nat (86400 * (unat d - 1)) :: u32)"
    using d(1) by (simp add: word_le_nat_alt of_nat_diff algebra_simps)
  moreover have b: "86400 * (unat d - 1) < 2 ^ 32" using d(2) by simp
  ultimately have "unat ((d - 1) * 24 * 60 * 60) = 86400 * (unat d - 1)"
    by (simp only: unat_of_nat_32)
  moreover have "86400 * (unat d - 1) < 2 ^ 64" using b by simp
  ultimately show ?thesis by (simp only: word_eq_unat unat_ucast_32_64 unat_of_nat_64)
qed

lemma ucast_secs: "unat h < 24 \<Longrightarrow> unat m < 60 \<Longrightarrow> unat s < 60 \<Longrightarrow>
    (ucast (h * 60 * 60 + m * 60 + s :: u32) :: u64) = of_nat (secs_of (unat h) (unat m) (unat s))"
proof -
  assume a: "unat h < 24" "unat m < 60" "unat s < 60"
  have "h * 60 * 60 + m * 60 + s = (of_nat (secs_of (unat h) (unat m) (unat s)) :: u32)"
    by (simp add: secs_of_def algebra_simps)
  moreover have b: "secs_of (unat h) (unat m) (unat s) < 2 ^ 32" using a by (simp add: secs_of_def)
  ultimately have "unat (h * 60 * 60 + m * 60 + s) = secs_of (unat h) (unat m) (unat s)"
    by (simp only: unat_of_nat_32)
  moreover have "secs_of (unat h) (unat m) (unat s) < 2 ^ 64" using b by simp
  ultimately show ?thesis by (simp only: word_eq_unat unat_ucast_32_64 unat_of_nat_64)
qed

lemma timestamp_value:
  assumes "valid_tm t"
  defines "Y \<equiv> unat (tm_year t) + 1900" and "M \<equiv> unat (tm_mon t) + 1" and "D \<equiv> unat (tm_mday t)"
    and "S \<equiv> secs_of (unat (tm_hour t)) (unat (tm_min t)) (unat (tm_sec t))"
  shows "unat (datetime_to_timestamp t) = 86400 * days_of Y M D + S"
    "days_of Y M D < 2 ^ 32"
proof -
  note v = assms(1) [unfolded valid_tm_def]
  have yr: "unat (tm_year t + 1900) = Y" using v by (simp add: Y_def unat_add_small)
  have Y31: "unat (tm_year t + 1900) < 2 ^ 31" and M31: "unat (tm_mon t) < 2 ^ 31"
    using v unfolding yr Y_def by simp_all
  have shift: "(\<Sum>k = 0..<unat (tm_mon t). mlen (k + 1) Y) = (\<Sum>k = 1..<M. mlen k Y)"
    using sum.shift_bounds_Suc_ivl [of "\<lambda>k. mlen k Y" 0 "unat (tm_mon t)"] by (simp add: M_def)
  have D: "1 \<le> D" "D \<le> 31"
    using v mlen_bounds(2) order_trans unfolding D_def by blast+
  have years: "year_loop 1970 (tm_year t + 1900) 0 = of_nat (86400 * (\<Sum>k = 1970..<Y. ylen k))"
    using year_loop_sum [OF Y31, of 1970 0] by (simp add: yr)
  have months: "month_loop 0 (tm_mon t) (sint (tm_year t + 1900)) a =
      a + of_nat (86400 * (\<Sum>k = 1..<M. mlen k Y))" for a
    using month_loop_sum [OF M31, of 0 Y a] shift by (simp only: sint_small [OF Y31] yr unsigned_0)
  have "datetime_to_timestamp t =
      of_nat (86400 * (\<Sum>k = 1970..<Y. ylen k)) + of_nat (86400 * (\<Sum>k = 1..<M. mlen k Y)) +
      of_nat (86400 * (D - 1)) + of_nat S"
    using v D unfolding datetime_to_timestamp_def Let_def years months
    by (simp only: ucast_day ucast_secs S_def D_def)
  also have "\<dots> = of_nat (86400 * days_of Y M D + S)"
    by (simp only: days_of_def of_nat_add distrib_left add.assoc)
  finally have ts: "datetime_to_timestamp t = of_nat (86400 * days_of Y M D + S)" .
  have "days_of Y M D \<le> 366 * 100000 + 31 * 12 + 31"
    using v sum_ylen_bound [of 1970 Y] sum_mlen_bound [of Y 1 M] D
    unfolding days_of_def Y_def M_def by linarith
  moreover have "S \<le> 86400" using v unfolding S_def secs_of_def by linarith
  ultimately have "86400 * days_of Y M D + S < 2 ^ 64" and "days_of Y M D < 2 ^ 32" by simp_all
  then show "unat (datetime_to_timestamp t) = 86400 * days_of Y M D + S" "days_of Y M D < 2 ^ 32"
    by (simp_all only: ts unat_of_nat_64)
qed

lemma clock_fields:
  assumes "h < 24" "m < 60" "s < (60 :: nat)"
  shows "(86400 * d + secs_of h m s) div 86400 = d"
    "(86400 * d + secs_of h m s) mod 86400 div 3600 = h"
    "(86400 * d + secs_of h m s) mod 3600 div 60 = m"
    "(86400 * d + secs_of h m s) mod 60 = s"
proof -
  have e: "86400 * d + secs_of h m s = 3600 * (24 * d + h) + (m * 60 + s)"
    "86400 * d + secs_of h m s = 60 * (1440 * d + 60 * h + m) + s"
    by (simp_all add: secs_of_def)
  have b: "secs_of h m s < 86400" "m * 60 + s < 3600" "secs_of h m s = 3600 * h + (m * 60 + s)"
    using assms by (simp_all add: secs_of_def)
  show "(86400 * d + secs_of h m s) div 86400 = d" using b(1) by simp
  have "(86400 * d + secs_of h m s) mod 86400 = secs_of h m s" using b(1) by simp
  then show "(86400 * d + secs_of h m s) mod 86400 div 3600 = h" using b(2,3) by simp
  have "(86400 * d + secs_of h m s) mod 3600 = m * 60 + s" unfolding e(1) using b(2) by (metis mod_less mod_mult_self4)
  then show "(86400 * d + secs_of h m s) mod 3600 div 60 = m" using assms by simp
  show "(86400 * d + secs_of h m s) mod 60 = s" unfolding e(2) by (simp only: mod_mult_self4 mod_less [OF assms(3)])
qed

lemma timestamp_to_datetime_fields:
  assumes n: "unat ts = 86400 * d + secs_of h m s" and d: "d < 2 ^ 32"
    and "h < 24" "m < 60" "s < 60"
    and yr: "split_years (of_nat d) 1970 = (r, y)" and mo: "split_months r 1 y = (q, mm)"
  shows "timestamp_to_datetime ts =
    \<lparr>tm_sec = of_nat s, tm_min = of_nat m, tm_hour = of_nat h, tm_mday = q + 1,
     tm_mon = mm - 1, tm_year = y - 1900\<rparr>"
proof -
  note cf = clock_fields [OF assms(3-5), of d, folded n]
  have uc: "(ucast (a :: u64) :: u32) = of_nat (unat a)" for a by simp
  have dv: "unat (divide_u64_u32_no_mod a k) = unat a div unat k"
    "unat (mod_u64_u32 a k) = unat a mod unat k" if "k \<noteq> 0" for a k
    using that by (simp_all add: shift_subtract_division unat_div unat_mod unat_ucast_32_64)
  show ?thesis
    using cf yr mo by (simp add: timestamp_to_datetime_def uc dv)
qed

section \<open>Properties\<close>

text \<open>
  C33. Round trip of the calendar: for every valid date from 1970 on (year offset below
  100000) \<^verbatim>\<open>timestamp_to_datetime\<close> recovers the date from its timestamp.
\<close>

theorem datetime_roundtrip:
  assumes "valid_tm t"
  shows "timestamp_to_datetime (datetime_to_timestamp t) = t"
proof -
  define Y where "Y = unat (tm_year t) + 1900"
  define M where "M = unat (tm_mon t) + 1"
  define D where "D = unat (tm_mday t)"
  note v = assms [unfolded valid_tm_def, folded Y_def M_def D_def]
  note ts = timestamp_value [OF assms, folded Y_def M_def D_def]
  have M: "1 \<le> M" "M \<le> 12" and Y: "1970 \<le> Y" "Y < 2 ^ 31" using v by (simp_all add: M_def Y_def)
  define r where "r = (\<Sum>k = 1..<M. mlen k Y) + (D - 1)"
  have rb: "r < ylen Y" unfolding r_def using v M by (intro day_in_year) auto
  have ys: "split_years (of_nat (days_of Y M D)) 1970 = (of_nat r, of_nat Y)"
    using split_years_sum [OF Y(2) rb Y(1)] ts(2) by (simp add: days_of_def r_def)
  have "D - 1 < mlen M Y" using v by linarith
  moreover have "M < 2 ^ 31" "r < 2 ^ 32" using M(2) rb ylen_bounds(2) [of Y] by simp_all
  ultimately have "split_months (of_nat r) 1 (of_nat Y) = (of_nat (D - 1), of_nat M)"
    using split_months_sum [OF Y(2) _ _ M(1), of "D - 1"] by (simp only: r_def of_nat_1)
  from timestamp_to_datetime_fields [OF ts(1) ts(2) _ _ _ ys this]
  show ?thesis using v by (simp add: Y_def M_def D_def of_nat_diff)
qed

definition leap_day_2024 :: tm where
  "leap_day_2024 = \<lparr>tm_sec = 59, tm_min = 58, tm_hour = 23, tm_mday = 29, tm_mon = 1, tm_year = 124\<rparr>"

theorem datetime_roundtrip_witness:
  "valid_tm leap_day_2024 \<and> timestamp_to_datetime (datetime_to_timestamp leap_day_2024) = leap_day_2024"
proof -
  have "valid_tm leap_day_2024"
    by (simp add: valid_tm_def leap_day_2024_def mlen_def days_in_month_def is_leap_year_def)
  then show ?thesis using datetime_roundtrip by blast
qed

lemma bcd_to_bin_digits:
  assumes "tens < 10" "ones < 10"
  shows "bcd_to_bin (of_nat (tens * 16 + ones)) = of_nat (tens * 10 + ones)"
proof -
  have "unat (of_nat (tens * 16 + ones) :: u32) = tens * 16 + ones"
    using assms by (intro unat_of_nat_32) simp
  then have "unat (of_nat (tens * 16 + ones) AND (15 :: u32)) = ones"
    and "unat (drop_bit 4 (of_nat (tens * 16 + ones) :: u32)) = tens"
    using assms by (simp_all only: unat_and_15 unat_drop_bit) simp_all
  then have "of_nat (tens * 16 + ones) AND (15 :: u32) = of_nat ones"
    and "drop_bit 4 (of_nat (tens * 16 + ones) :: u32) = of_nat tens"
    using assms by (simp_all only: word_eq_unat) (simp_all add: unat_of_nat_32)
  then show ?thesis by (simp only: bcd_to_bin_def) simp
qed

end
