(* ===== verification/KString.thy ===== *)
theory KString
  imports WinxPrelude
begin

text \<open>
  The string routines of \<^verbatim>\<open>src/impl/string.c\<close> and the number printing and formatting of
  \<^verbatim>\<open>src/impl/stdio.c\<close>, on byte memory. A failed \<^verbatim>\<open>assert\<close> calls \<^verbatim>\<open>user_spin\<close> and never
  returns (\<open>None\<close>); the loops that run to a NUL byte are \<open>partial_function\<close>s.
  \<^verbatim>\<open>char\<close> is signed in this build, so characters are compared as \<open>sint\<close>.
\<close>

section \<open>The memory routines\<close>

fun memset_loop :: "nat \<Rightarrow> mem \<Rightarrow> u32 \<Rightarrow> u8 \<Rightarrow> mem" where
  "memset_loop 0 m dst value = m"
| "memset_loop (Suc cnt) m dst value = memset_loop cnt (m(dst := value)) (dst + 1) value"

definition memset :: "mem \<Rightarrow> u32 \<Rightarrow> u8 \<Rightarrow> u32 \<Rightarrow> mem option" where
  "memset m dst value cnt = (if dst = 0 then None else Some (memset_loop (unat cnt) m dst value))"

fun memcpy_loop :: "nat \<Rightarrow> mem \<Rightarrow> u32 \<Rightarrow> u32 \<Rightarrow> mem" where
  "memcpy_loop 0 m dst src = m"
| "memcpy_loop (Suc cnt) m dst src = memcpy_loop cnt (m(dst := m src)) (dst + 1) (src + 1)"

definition memcpy :: "mem \<Rightarrow> u32 \<Rightarrow> u32 \<Rightarrow> u32 \<Rightarrow> mem option" where
  "memcpy m dst src cnt =
     (if dst = 0 \<or> src = 0 then None else Some (memcpy_loop (unat cnt) m dst src))"

fun memcmp_loop :: "nat \<Rightarrow> mem \<Rightarrow> u32 \<Rightarrow> u32 \<Rightarrow> int" where
  "memcmp_loop 0 m a b = 0"
| "memcmp_loop (Suc cnt) m a b =
     (if m a \<noteq> m b then (if sint (m b) < sint (m a) then 1 else -1)
      else memcmp_loop cnt m (a + 1) (b + 1))"

definition memcmp :: "mem \<Rightarrow> u32 \<Rightarrow> u32 \<Rightarrow> u32 \<Rightarrow> int option" where
  "memcmp m a b cnt = (if a = 0 \<and> b = 0 then None else Some (memcmp_loop (unat cnt) m a b))"

section \<open>The string routines\<close>

partial_function (option) strcpy_loop :: "mem \<Rightarrow> u32 \<Rightarrow> u32 \<Rightarrow> mem option" where
  "strcpy_loop m dst src =
     (let m' = m(dst := m src)
      in if m src \<noteq> 0 then strcpy_loop m' (dst + 1) (src + 1) else Some m')"

definition strcpy :: "mem \<Rightarrow> u32 \<Rightarrow> u32 \<Rightarrow> (u32 \<times> mem) option" where
  "strcpy m dst src =
     (if dst = 0 \<or> src = 0 then None else do { m' \<leftarrow> strcpy_loop m dst src; Some (dst, m') })"

partial_function (option) strlen_loop :: "mem \<Rightarrow> u32 \<Rightarrow> u32 option" where
  "strlen_loop m p = (if m p \<noteq> 0 then strlen_loop m (p + 1) else Some (p + 1))"

definition strlen :: "mem \<Rightarrow> u32 \<Rightarrow> u32 option" where
  "strlen m str = (if str = 0 then None else do { p \<leftarrow> strlen_loop m str; Some (p - str - 1) })"

partial_function (option) strcmp_loop :: "mem \<Rightarrow> u32 \<Rightarrow> u32 \<Rightarrow> int option" where
  "strcmp_loop m a b =
     (if m a \<noteq> 0 \<and> m a = m b then strcmp_loop m (a + 1) (b + 1)
      else Some (if sint (m a) < sint (m b) then -1 else if sint (m b) < sint (m a) then 1 else 0))"

definition strcmp :: "mem \<Rightarrow> u32 \<Rightarrow> u32 \<Rightarrow> int option" where
  "strcmp m a b = (if a = 0 \<or> b = 0 then None else strcmp_loop m a b)"

text \<open>
  \<^verbatim>\<open>*str == ch\<close> compares a signed \<^verbatim>\<open>char\<close> with a \<^verbatim>\<open>uint8_t\<close>, both promoted to \<^verbatim>\<open>int\<close>.
\<close>

definition char_eq :: "u8 \<Rightarrow> u8 \<Rightarrow> bool" where
  "char_eq c ch \<longleftrightarrow> sint c = uint ch"

partial_function (option) strchr_loop :: "mem \<Rightarrow> u32 \<Rightarrow> u8 \<Rightarrow> u32 option" where
  "strchr_loop m str ch =
     (if m str \<noteq> 0 then if char_eq (m str) ch then Some str else strchr_loop m (str + 1) ch
      else Some 0)"

definition strchr :: "mem \<Rightarrow> u32 \<Rightarrow> u8 \<Rightarrow> u32 option" where
  "strchr m str ch = (if str = 0 then None else strchr_loop m str ch)"

partial_function (option) strrchr_loop :: "mem \<Rightarrow> u32 \<Rightarrow> u8 \<Rightarrow> u32 \<Rightarrow> u32 option" where
  "strrchr_loop m str ch last_char =
     (if m str \<noteq> 0
      then strrchr_loop m (str + 1) ch (if char_eq (m str) ch then str else last_char)
      else Some last_char)"

definition strrchr :: "mem \<Rightarrow> u32 \<Rightarrow> u8 \<Rightarrow> u32 option" where
  "strrchr m str ch = (if str = 0 then None else strrchr_loop m str ch 0)"

definition strcat :: "mem \<Rightarrow> u32 \<Rightarrow> u32 \<Rightarrow> (u32 \<times> mem) option" where
  "strcat m dst src =
     (if dst = 0 \<or> src = 0 then None
      else do { str \<leftarrow> strlen_loop m dst; m' \<leftarrow> strcpy_loop m (str - 1) src; Some (dst, m') })"

partial_function (option) strchrs_loop :: "mem \<Rightarrow> u32 \<Rightarrow> u8 \<Rightarrow> u32 \<Rightarrow> u32 option" where
  "strchrs_loop m p ch ch_cnt =
     (if m p \<noteq> 0 then strchrs_loop m (p + 1) ch (if char_eq (m p) ch then ch_cnt + 1 else ch_cnt)
      else Some ch_cnt)"

definition strchrs :: "mem \<Rightarrow> u32 \<Rightarrow> u8 \<Rightarrow> u32 option" where
  "strchrs m str ch = (if str = 0 then None else strchrs_loop m str ch 0)"

section \<open>Printing numbers and formats\<close>

partial_function (option) itoa :: "mem \<Rightarrow> u32 \<Rightarrow> u32 \<Rightarrow> u8 \<Rightarrow> (mem \<times> u32) option" where
  "itoa mm val buf base =
     (if base = 0 then None
      else let m = val mod ucast base; i = val div ucast base
        in do { (mm, buf) \<leftarrow> (if i \<noteq> 0 then itoa mm i buf base else Some (mm, buf));
                Some (mm(buf := ucast (if m < 10 then m + 48 else m - 10 + 65)), buf + 1) })"

definition read32 :: "mem \<Rightarrow> u32 \<Rightarrow> u32" where
  "read32 m p = word_rcat [m (p + 3), m (p + 2), m (p + 1), m p]"

text \<open>
  \<open>ap\<close> points at the last argument read; \<^verbatim>\<open>va_arg\<close> advances it by 4 and reads there.
  An unknown conversion leaves \<^verbatim>\<open>index_char\<close> on the letter after the percent sign, which
  the next round of the loop handles as an ordinary character.
\<close>

partial_function (option) vsprintf_loop ::
  "mem \<Rightarrow> u32 \<Rightarrow> u32 \<Rightarrow> u8 \<Rightarrow> u32 \<Rightarrow> (mem \<times> u32) option" where
  "vsprintf_loop m buf_ptr index_ptr index_char ap =
     (if index_char = 0 then Some (m, buf_ptr)
      else if index_char \<noteq> 0x25 then
        (let m = m(buf_ptr := index_char)
         in vsprintf_loop m (buf_ptr + 1) (index_ptr + 1) (m (index_ptr + 1)) ap)
      else
        (let index_ptr = index_ptr + 1; index_char = m index_ptr
         in if index_char = 0x73 then
              do { let arg_str = read32 m (ap + 4);
                   (_, m) \<leftarrow> strcpy m buf_ptr arg_str;
                   n \<leftarrow> strlen m arg_str;
                   vsprintf_loop m (buf_ptr + n) (index_ptr + 1) (m (index_ptr + 1)) (ap + 4) }
            else if index_char = 0x63 then
              (let m = m(buf_ptr := m (ap + 4))
               in vsprintf_loop m (buf_ptr + 1) (index_ptr + 1) (m (index_ptr + 1)) (ap + 4))
            else if index_char = 0x64 then
              (let arg_int = read32 m (ap + 4);
                   neg = sint arg_int < 0;
                   m = (if neg then m(buf_ptr := 0x2d) else m)
               in do { (m, buf_ptr) \<leftarrow> itoa m (if neg then 0 - arg_int else arg_int)
                                          (if neg then buf_ptr + 1 else buf_ptr) 10;
                       vsprintf_loop m buf_ptr (index_ptr + 1) (m (index_ptr + 1)) (ap + 4) })
            else if index_char = 0x78 then
              do { (m, buf_ptr) \<leftarrow> itoa m (read32 m (ap + 4)) buf_ptr 16;
                   vsprintf_loop m buf_ptr (index_ptr + 1) (m (index_ptr + 1)) (ap + 4) }
            else vsprintf_loop m buf_ptr index_ptr index_char ap))"

definition vsprintf :: "mem \<Rightarrow> u32 \<Rightarrow> u32 \<Rightarrow> u32 \<Rightarrow> (u32 \<times> mem) option" where
  "vsprintf m str format ap =
     do { (m, _) \<leftarrow> vsprintf_loop m str format (m format) ap;
          n \<leftarrow> strlen m str;
          Some (n, m) }"

text \<open>
  \<^verbatim>\<open>sprintf\<close> starts \<open>ap\<close> at the address of its \<^verbatim>\<open>format\<close> parameter on the stack. \<^verbatim>\<open>printf\<close> and
  \<^verbatim>\<open>printk\<close> format into a zeroed buffer of 1024 bytes on their own stack frame (\<open>buf\<close>) and
  hand it to \<^verbatim>\<open>write\<close> or \<^verbatim>\<open>console_put_str\<close>; the result here is what they hand over.
\<close>

definition sprintf :: "mem \<Rightarrow> u32 \<Rightarrow> u32 \<Rightarrow> u32 \<Rightarrow> (u32 \<times> mem) option" where
  "sprintf m buf format format_addr = vsprintf m buf format format_addr"

definition printf_buffer :: "mem \<Rightarrow> u32 \<Rightarrow> u32 \<Rightarrow> u32 \<Rightarrow> (u32 \<times> mem) option" where
  "printf_buffer m buf format format_addr =
     vsprintf (memset_loop 1024 m buf 0) buf format format_addr"

section \<open>Byte blocks and C strings in memory\<close>

fun put_bytes :: "mem \<Rightarrow> u32 \<Rightarrow> u8 list \<Rightarrow> mem" where
  "put_bytes m p [] = m"
| "put_bytes m p (b # bs) = put_bytes (m(p := b)) (p + 1) bs"

fun get_bytes :: "mem \<Rightarrow> u32 \<Rightarrow> nat \<Rightarrow> u8 list" where
  "get_bytes m p 0 = []"
| "get_bytes m p (Suc n) = m p # get_bytes m (p + 1) n"

fun span :: "u32 \<Rightarrow> nat \<Rightarrow> u32 set" where
  "span p 0 = {}"
| "span p (Suc n) = insert p (span (p + 1) n)"

fun cstr :: "mem \<Rightarrow> u32 \<Rightarrow> u8 list \<Rightarrow> bool" where
  "cstr m p [] \<longleftrightarrow> m p = 0"
| "cstr m p (c # cs) \<longleftrightarrow> m p = c \<and> c \<noteq> 0 \<and> cstr m (p + 1) cs"

lemma in_span: "a \<in> span p n \<longleftrightarrow> (\<exists>i<n. a = p + of_nat i)"
proof (induction n arbitrary: p)
  case (Suc n)
  have "a \<in> span p (Suc n) \<longleftrightarrow> a = p \<or> (\<exists>i<n. a = p + 1 + of_nat i)" using Suc by simp
  also have "\<dots> \<longleftrightarrow> (\<exists>i<Suc n. a = p + of_nat i)"
    by (auto simp: less_Suc_eq_0_disj add.assoc)
  finally show ?case .
qed simp

lemma span_fresh: "n < 2 ^ 32 \<Longrightarrow> p \<notin> span (p + 1) n"
proof
  assume n: "n < 2 ^ 32" and "p \<in> span (p + 1) n"
  then obtain i where i: "i < n" "p = p + 1 + of_nat i" by (auto simp: in_span)
  then have "(of_nat (Suc i) :: u32) = 0" by (simp add: add.assoc)
  then have "unat (of_nat (Suc i) :: u32) = 0" by simp
  then show False using i(1) n unat_of_nat_32 [of "Suc i"] by simp
qed

lemma put_bytes_outside: "a \<notin> span p (length bs) \<Longrightarrow> put_bytes m p bs a = m a"
  by (induction bs arbitrary: m p) auto

lemma put_bytes_append: "put_bytes m p (bs @ cs) = put_bytes (put_bytes m p bs) (p + of_nat (length bs)) cs"
  by (induction bs arbitrary: m p) (simp_all add: add.assoc)

lemma get_put_bytes: "length bs \<le> 2 ^ 32 \<Longrightarrow> get_bytes (put_bytes m p bs) p (length bs) = bs"
proof (induction bs arbitrary: m p)
  case (Cons b bs)
  have "p \<notin> span (p + 1) (length bs)" using Cons.prems by (intro span_fresh) simp
  then show ?case using Cons by (simp add: put_bytes_outside)
qed simp

lemma get_bytes_cong: "(\<And>a. a \<in> span p n \<Longrightarrow> m' a = m a) \<Longrightarrow> get_bytes m' p n = get_bytes m p n"
  by (induction n arbitrary: p) auto

lemma length_get_bytes [simp]: "length (get_bytes m p n) = n"
  by (induction n arbitrary: p) auto

lemma memset_loop_put: "memset_loop n m p v = put_bytes m p (replicate n v)"
  by (induction n arbitrary: m p) auto

lemma memcpy_loop_put:
  "span dst n \<inter> span src n = {} \<Longrightarrow> n \<le> 2 ^ 32 \<Longrightarrow>
     memcpy_loop n m dst src = put_bytes m dst (get_bytes m src n)"
proof (induction n arbitrary: m dst src)
  case (Suc n)
  have "get_bytes (m(dst := m src)) (src + 1) n = get_bytes m (src + 1) n"
    using Suc.prems(1) by (intro get_bytes_cong) auto
  then show ?case using Suc by auto
qed simp

lemma cstr_cong: "(\<And>a. a \<in> span p (Suc (length s)) \<Longrightarrow> m' a = m a) \<Longrightarrow> cstr m' p s = cstr m p s"
proof (induction s arbitrary: p)
  case (Cons c s)
  have "cstr m' (p + 1) s = cstr m (p + 1) s"
    using Cons.prems by (intro Cons.IH) (simp only: span.simps list.size add_0_right add_Suc_right insert_iff, blast)
  then show ?case using Cons.prems [of p] by simp
qed simp

lemma cstr_unique: "cstr m p s \<Longrightarrow> cstr m p t \<Longrightarrow> s = t"
proof (induction s arbitrary: p t)
  case Nil
  then show ?case by (cases t) auto
next
  case (Cons c s)
  then show ?case by (cases t) auto
qed

lemma cstr_put: "length s < 2 ^ 32 \<Longrightarrow> 0 \<notin> set s \<Longrightarrow> cstr (put_bytes m p (s @ [0])) p s"
proof (induction s arbitrary: m p)
  case (Cons c s)
  have "p \<notin> span (p + 1) (length (s @ [0]))" using Cons.prems by (intro span_fresh) simp
  then have "put_bytes (m(p := c)) (p + 1) (s @ [0]) p = c" by (simp add: put_bytes_outside)
  then show ?case using Cons by auto
qed simp

section \<open>The string loops\<close>

lemma strlen_cstr: "cstr m p s \<Longrightarrow> strlen_loop m p = Some (p + of_nat (length s) + 1)"
proof (induction s arbitrary: p)
  case (Cons c s)
  then have "strlen_loop m (p + 1) = Some (p + 1 + of_nat (length s) + 1)" by auto
  then show ?case using Cons.prems by (subst strlen_loop.simps) (simp add: ac_simps)
qed (simp add: strlen_loop.simps)

lemma strcpy_cstr:
  "cstr m src s \<Longrightarrow> span dst (Suc (length s)) \<inter> span src (Suc (length s)) = {} \<Longrightarrow>
     strcpy_loop m dst src = Some (put_bytes m dst (s @ [0]))"
proof (induction s arbitrary: m dst src)
  case (Cons c s)
  have "cstr (m(dst := c)) (src + 1) s = cstr m (src + 1) s"
    using Cons.prems(2) by (intro cstr_cong) auto
  then have c: "cstr (m(dst := c)) (src + 1) s" using Cons.prems(1) by simp
  have "span (dst + 1) (Suc (length s)) \<inter> span (src + 1) (Suc (length s)) = {}"
    using Cons.prems(2) by auto
  from Cons.IH [OF c this] have "strcpy_loop (m(dst := c)) (dst + 1) (src + 1) =
      Some (put_bytes (m(dst := c)) (dst + 1) (s @ [0]))" .
  then show ?case using Cons.prems(1) by (subst strcpy_loop.simps) (auto simp: Let_def)
qed (simp add: strcpy_loop.simps Let_def)

text \<open>The order \<^verbatim>\<open>strcmp\<close> computes: signed bytes, a prefix before its extensions.\<close>

fun cmp_bytes :: "u8 list \<Rightarrow> u8 list \<Rightarrow> int" where
  "cmp_bytes [] [] = 0"
| "cmp_bytes [] (d # ds) = (if 0 < sint d then -1 else 1)"
| "cmp_bytes (c # cs) [] = (if sint c < 0 then -1 else 1)"
| "cmp_bytes (c # cs) (d # ds) =
     (if c = d then cmp_bytes cs ds else if sint c < sint d then -1 else 1)"

lemma sint_eq_iff: "sint (a :: 'a::len word) = sint b \<longleftrightarrow> a = b"
  by (metis signed_word_eqI)

lemma strcmp_cstr: "cstr m a s \<Longrightarrow> cstr m b t \<Longrightarrow> strcmp_loop m a b = Some (cmp_bytes s t)"
proof (induction s t arbitrary: a b rule: cmp_bytes.induct)
  case (2 d ds)
  then have "sint d \<noteq> 0" using sint_eq_iff [of d 0] by simp
  then show ?case using 2 by (subst strcmp_loop.simps) auto
next
  case (3 c cs)
  then have "sint c \<noteq> 0" using sint_eq_iff [of c 0] by simp
  then show ?case using 3 by (subst strcmp_loop.simps) auto
next
  case (4 c cs d ds)
  show ?case
  proof (cases "c = d")
    case True
    then show ?thesis using 4 by (subst strcmp_loop.simps) auto
  next
    case False
    then have "sint c \<noteq> sint d" by (simp add: sint_eq_iff)
    then show ?thesis using 4 False by (subst strcmp_loop.simps) auto
  qed
qed (simp add: strcmp_loop.simps)

lemma cmp_bytes_zero: "cmp_bytes s t = 0 \<longleftrightarrow> s = t"
  by (induction s t rule: cmp_bytes.induct) auto

lemma takeWhile_shorter: "\<exists>x\<in>set xs. \<not> P x \<Longrightarrow> length (takeWhile P xs) < length xs"
  by (induction xs) auto

lemma strrchr_cstr:
  "cstr m p s \<Longrightarrow> strrchr_loop m p ch d = Some (
     if \<exists>c\<in>set s. char_eq c ch
     then p + of_nat (length s - 1 - length (takeWhile (\<lambda>c. \<not> char_eq c ch) (rev s))) else d)"
proof (induction s arbitrary: p d)
  case (Cons c s)
  define tw where "tw = length (takeWhile (\<lambda>c. \<not> char_eq c ch) (rev s))"
  have IH: "strrchr_loop m (p + 1) ch d' = Some (if \<exists>c\<in>set s. char_eq c ch
      then p + 1 + of_nat (length s - 1 - tw) else d')" for d'
    using Cons by (simp add: tw_def)
  have step: "strrchr_loop m p ch d = strrchr_loop m (p + 1) ch (if char_eq c ch then p else d)"
    using Cons.prems by (subst strrchr_loop.simps) simp
  show ?case
  proof (cases "\<exists>x\<in>set s. char_eq x ch")
    case True
    then have t: "takeWhile (\<lambda>c. \<not> char_eq c ch) (rev s @ [c]) = takeWhile (\<lambda>c. \<not> char_eq c ch) (rev s)"
      by (auto simp: takeWhile_append1)
    have "tw < length s"
      using True takeWhile_shorter [of "rev s" "\<lambda>c. \<not> char_eq c ch"] by (simp add: tw_def)
    then have "length s - tw = Suc (length s - 1 - tw)" by linarith
    then have "p + 1 + of_nat (length s - 1 - tw) = p + of_nat (length s - tw)"
      by (simp only: of_nat_Suc add.assoc)
    then show ?thesis using step IH True t by (auto simp: tw_def)
  next
    case False
    then have "takeWhile (\<lambda>c. \<not> char_eq c ch) (rev s @ [c]) = rev s @ (if char_eq c ch then [] else [c])"
      by (subst takeWhile_append2) auto
    then show ?thesis using step IH False by auto
  qed
qed (simp add: strrchr_loop.simps)

section \<open>Numbers\<close>

function digits :: "nat \<Rightarrow> nat \<Rightarrow> nat list" where
  "digits base n = (if base \<le> 1 \<or> n < base then [n] else digits base (n div base) @ [n mod base])"
  by pat_completeness auto
termination
  by (relation "measure snd") (auto simp: div_less_dividend)

declare digits.simps [simp del]

definition digit_char :: "nat \<Rightarrow> u8" where
  "digit_char d = of_nat (if d < 10 then d + 48 else d + 55)"

definition char_digit :: "u8 \<Rightarrow> nat" where
  "char_digit c = (if unat c < 58 then unat c - 48 else unat c - 55)"

fun digits_value :: "nat \<Rightarrow> nat list \<Rightarrow> nat" where
  "digits_value base ds = foldl (\<lambda>acc d. acc * base + d) 0 ds"

lemma digits_less: "1 < base \<Longrightarrow> d \<in> set (digits base n) \<Longrightarrow> d < base"
proof (induction base n rule: digits.induct)
  case (1 base n)
  then show ?case by (cases "n < base") (auto simp: digits.simps [of base n])
qed

lemma digits_value_digits: "1 < base \<Longrightarrow> digits_value base (digits base n) = n"
proof (induction base n rule: digits.induct)
  case (1 base n)
  then show ?case
    by (cases "n < base") (simp_all add: digits.simps [of base n] div_mult_mod_eq)
qed

lemma length_digits: "1 < base \<Longrightarrow> n < base ^ Suc k \<Longrightarrow> length (digits base n) \<le> Suc k"
proof (induction k arbitrary: n)
  case 0
  then show ?case by (simp add: digits.simps)
next
  case (Suc k)
  have "n div base < base ^ Suc k"
    using Suc.prems by (simp add: less_mult_imp_div_less mult.commute)
  then have "length (digits base (n div base)) \<le> Suc k" using Suc by simp
  then show ?case by (simp add: digits.simps [of base n])
qed

lemma char_digit_inverse: "d < 36 \<Longrightarrow> char_digit (digit_char d) = d"
  by (simp add: char_digit_def digit_char_def unat_of_nat_small)

lemma ucast_of_nat_unat: "ucast (w :: u32) = (of_nat (unat w) :: u8)"
  by simp

lemma digit_word:
  assumes "unat m < 36"
  shows "ucast (if m < 10 then m + 48 else m - 10 + (65 :: u32)) = digit_char (unat m)"
proof -
  define k where "k = (if unat m < 10 then unat m + 48 else unat m + 55)"
  have "(if m < 10 then m + 48 else m - 10 + 65) = (of_nat k :: u32)"
    by (simp add: word_less_nat_alt k_def)
  moreover have "unat (of_nat k :: u32) = k"
    using assms by (intro unat_of_nat_32) (simp add: k_def)
  moreover have "digit_char (unat m) = of_nat k" by (simp add: digit_char_def k_def)
  ultimately show ?thesis by (simp only: ucast_of_nat_unat)
qed

lemma itoa_digits:
  assumes b: "2 \<le> unat base" "unat base \<le> 36"
  shows "itoa m v buf base =
    Some (put_bytes m buf (map digit_char (digits (unat base) (unat v))),
          buf + of_nat (length (digits (unat base) (unat v))))"
proof (induction "unat v" arbitrary: v rule: less_induct)
  case less
  have ub: "unat (ucast base :: u32) = unat base"
    by (simp only: unsigned_ucast_eq)
      (rule take_bit_nat_eq_self, rule less_trans [OF unsigned_less], simp)
  have b0: "base \<noteq> 0" using b by auto
  have md: "unat (v mod ucast base) = unat v mod unat base"
    and dv: "unat (v div ucast base) = unat v div unat base"
    by (simp_all add: unat_mod unat_div ub)
  have dig: "ucast (if v mod ucast base < 10 then v mod ucast base + 48
      else v mod ucast base - 10 + (65 :: u32)) = digit_char (unat v mod unat base)"
  proof -
    have "unat v mod unat base < unat base" using b by (intro mod_less_divisor) linarith
    then have "unat (v mod ucast base) < 36" using b by (simp only: md)
    from digit_word [OF this] show ?thesis by (simp only: md)
  qed
  show ?case
  proof (cases "unat v < unat base")
    case True
    then have "v div ucast base = 0" by (simp add: word_eq_unat dv)
    then show ?thesis using True b0 dig
      by (subst itoa.simps) (simp add: Let_def digits.simps [of "unat base" "unat v"])
  next
    case False
    then have ne: "v div ucast base \<noteq> 0" using b by (auto simp: word_eq_unat dv div_eq_0_iff)
    have "unat (v div ucast base) < unat v" using b False by (simp add: dv)
    from less.hyps [OF this] show ?thesis using False b0 dig ne b
      by (subst itoa.simps)
        (simp add: Let_def digits.simps [of "unat base" "unat v"] dv put_bytes_append)
  qed
qed

section \<open>Formats\<close>

lemma vsprintf_literal:
  "cstr m ip f \<Longrightarrow> 0x25 \<notin> set f \<Longrightarrow> span bp (length f) \<inter> span ip (Suc (length f)) = {} \<Longrightarrow>
     vsprintf_loop m bp ip (m ip) ap = Some (put_bytes m bp f, bp + of_nat (length f))"
proof (induction f arbitrary: m bp ip)
  case (Cons c f)
  define m1 where "m1 = m(bp := c)"
  have same: "m1 a = m a" if "a \<in> span (ip + 1) (Suc (length f))" for a
    using that Cons.prems(3) by (auto simp: m1_def)
  have "cstr m1 (ip + 1) f = cstr m (ip + 1) f" by (rule cstr_cong) (rule same)
  then have "cstr m1 (ip + 1) f" using Cons.prems(1) by simp
  moreover have "span (bp + 1) (length f) \<inter> span (ip + 1) (Suc (length f)) = {}"
    using Cons.prems(3) by auto
  ultimately have "vsprintf_loop m1 (bp + 1) (ip + 1) (m1 (ip + 1)) ap =
      Some (put_bytes m1 (bp + 1) f, bp + 1 + of_nat (length f))"
    using Cons.prems(2) by (intro Cons.IH) auto
  moreover have "m ip = c" "c \<noteq> 0" "c \<noteq> 0x25" using Cons.prems by auto
  ultimately show ?case by (subst vsprintf_loop.simps) (simp add: Let_def m1_def add.assoc)
qed (simp add: vsprintf_loop.simps)

section \<open>Properties\<close>


definition two_strings :: mem where
  "two_strings = put_bytes (put_bytes (\<lambda>_. 7) 100 [65, 66, 0]) 200 [65, 67, 68, 0]"


text \<open>
  \<^verbatim>\<open>itoa\<close> returns for every base from 2 to 36 and appends, at the buffer pointer, digits
  whose value in that base is the number: at most 10 characters in base 10 and at most 8
  in base 16.
\<close>

theorem itoa_roundtrip:
  assumes "2 \<le> unat base" "unat base \<le> 36"
  shows "\<exists>cs. itoa m v buf base = Some (put_bytes m buf cs, buf + of_nat (length cs)) \<and>
    digits_value (unat base) (map char_digit cs) = unat v \<and>
    (base = 10 \<longrightarrow> length cs \<le> 10) \<and> (base = 16 \<longrightarrow> length cs \<le> 8)"
proof -
  define ds where "ds = digits (unat base) (unat v)"
  have "\<forall>d\<in>set ds. char_digit (digit_char d) = d"
  proof
    fix d assume "d \<in> set ds"
    then have "d < unat base" using assms digits_less [of "unat base" d "unat v"] by (simp add: ds_def)
    then show "char_digit (digit_char d) = d" using assms by (intro char_digit_inverse) linarith
  qed
  then have inv: "map char_digit (map digit_char ds) = ds" by (simp add: map_idI)
  have v: "unat v < 2 ^ 32" by (rule unat_lt_32)
  have "base = 10 \<longrightarrow> length ds \<le> 10" using length_digits [of 10 "unat v" 9] v by (auto simp: ds_def)
  moreover have "base = 16 \<longrightarrow> length ds \<le> 8" using length_digits [of 16 "unat v" 7] v by (auto simp: ds_def)
  moreover have "digits_value (unat base) ds = unat v"
    using assms by (simp only: ds_def digits_value_digits)
  ultimately show ?thesis using itoa_digits [OF assms, of m v buf] inv
    by (intro exI [of _ "map digit_char ds"]) (simp add: ds_def)
qed

theorem itoa_roundtrip_witness:
  "\<exists>cs. itoa (\<lambda>_. 0) 305 1000 10 = Some (put_bytes (\<lambda>_. 0) 1000 cs, 1000 + of_nat (length cs)) \<and>
     length cs \<le> 10"
proof -
  have "2 \<le> unat (10 :: u8)" "unat (10 :: u8) \<le> 36" by simp_all
  from itoa_roundtrip [OF this, of "\<lambda>_. 0" 305 1000] show ?thesis by auto
qed

text \<open>
  \<^verbatim>\<open>vsprintf\<close> writes no terminator: for a format without conversions it leaves the byte
  behind the text as it was, so the length it returns runs to the first zero byte that
  happened to be in the buffer.
\<close>

theorem vsprintf_leaves_terminator:
  assumes "cstr m fmt f" "0x25 \<notin> set f" "str \<noteq> 0" "length f < 2 ^ 32"
    and "span str (length f) \<inter> span fmt (Suc (length f)) = {}"
  shows "vsprintf m str fmt ap = do { n \<leftarrow> strlen (put_bytes m str f) str; Some (n, put_bytes m str f) } \<and>
    put_bytes m str f (str + of_nat (length f)) = m (str + of_nat (length f))"
proof -
  have "str + of_nat (length f) \<notin> span str (length f)"
  proof
    assume "str + of_nat (length f) \<in> span str (length f)"
    then obtain i where "i < length f" "(of_nat (length f) :: u32) = of_nat i" by (auto simp: in_span)
    then show False using assms(4) unat_of_nat_32 [of "length f"] unat_of_nat_32 [of i] by simp
  qed
  then show ?thesis using vsprintf_literal [OF assms(1,2,5)]
    by (simp add: vsprintf_def put_bytes_outside)
qed

theorem vsprintf_leaves_terminator_witness:
  "vsprintf (put_bytes (put_bytes (\<lambda>_. 0) 100 [104, 105, 0]) 200 [120, 120, 120, 0]) 200 100 900 =
     Some (3, put_bytes (put_bytes (put_bytes (\<lambda>_. 0) 100 [104, 105, 0]) 200 [120, 120, 120, 0]) 200 [104, 105])"
proof -
  define m where "m = put_bytes (put_bytes (\<lambda>_. 0) 100 [104, 105, 0]) 200 [120, 120, 120, 0]"
  have "cstr m 100 [104, 105]" "0x25 \<notin> set [104, 105 :: u8]" "(200 :: u32) \<noteq> 0"
    "length [104, 105 :: u8] < 2 ^ 32"
    "span 200 (length [104, 105 :: u8]) \<inter> span 100 (Suc (length [104, 105 :: u8])) = {}"
    by (simp_all add: m_def)
  from vsprintf_leaves_terminator [OF this, of 900]
  have v: "vsprintf m 200 100 900 =
      do { n \<leftarrow> strlen (put_bytes m 200 [104, 105]) 200; Some (n, put_bytes m 200 [104, 105]) }" by simp
  have "cstr (put_bytes m 200 [104, 105]) 200 [104, 105, 120]" by (simp add: m_def)
  from strlen_cstr [OF this] have "strlen (put_bytes m 200 [104, 105]) 200 = Some 3"
    by (simp add: strlen_def del: put_bytes.simps)
  then show ?thesis using v by (simp add: m_def)
qed

end
