(* ===== verification/Paging.thy ===== *)
theory Paging
  imports WinxPrelude
begin

text \<open>
  Address translation of \<^verbatim>\<open>src/kernel/memory.c\<close>. The last entry of every page directory
  points at the directory itself, so the 1024 page tables appear as one array of words at
  \<^verbatim>\<open>0xffc00000\<close> and the directory as its last page, at \<^verbatim>\<open>0xfffff000\<close>. \<open>ptab\<close> is the word
  memory of this window.
\<close>

type_synonym ptab = "u32 \<Rightarrow> u32"

definition PG_SIZE :: u32 where
  "PG_SIZE = 4096"

definition PG_P_1 :: u32 where
  "PG_P_1 = 1"

definition PG_RW_W :: u32 where
  "PG_RW_W = 2"

definition PG_US_U :: u32 where
  "PG_US_U = 4"

definition PDE_IDX :: "u32 \<Rightarrow> u32" where
  "PDE_IDX addr = drop_bit 22 (addr AND 0xffc00000)"

definition PTE_IDX :: "u32 \<Rightarrow> u32" where
  "PTE_IDX addr = drop_bit 12 (addr AND 0x003ff000)"

definition pde_ptr :: "u32 \<Rightarrow> u32" where
  "pde_ptr vaddr = 0xfffff000 + PDE_IDX vaddr * 4"

definition pte_ptr :: "u32 \<Rightarrow> u32" where
  "pte_ptr vaddr = 0xffc00000 + drop_bit 10 (vaddr AND 0xffc00000) + PTE_IDX vaddr * 4"

definition addr_v2p :: "ptab \<Rightarrow> u32 \<Rightarrow> u32" where
  "addr_v2p t vaddr = (t (pte_ptr vaddr) AND 0xfffff000) + (vaddr AND 0xfff)"

definition page_table_pte_remove :: "ptab \<Rightarrow> u32 \<Rightarrow> ptab" where
  "page_table_pte_remove t vaddr =
     (let pte = pte_ptr vaddr in t(pte := t pte AND NOT PG_P_1))"

definition present :: "ptab \<Rightarrow> u32 \<Rightarrow> bool" where
  "present t p \<longleftrightarrow> t p AND 1 \<noteq> 0"

section \<open>The window as an array\<close>

lemma mask_high10: "(0xffc00000 :: u32) = push_bit 22 (mask 10)"
  by (simp add: mask_eq_exp_minus_1)

lemma mask_mid10: "(0x3ff000 :: u32) = push_bit 12 (mask 10)"
  by (simp add: mask_eq_exp_minus_1)

lemma mask_page: "(0xfffff000 :: u32) = push_bit 12 (mask 20)"
  by (simp add: mask_eq_exp_minus_1)

lemma PDE_IDX_div: "unat (PDE_IDX v) = unat v div 2 ^ 22"
proof -
  have "PDE_IDX v = drop_bit 22 v"
    unfolding PDE_IDX_def mask_high10
    by (rule bit_word_eqI)
      (auto simp: bit_drop_bit_eq bit_and_iff bit_push_bit_iff bit_mask_iff dest: bit_imp_le_length)
  then show ?thesis by (simp only: unat_drop_bit)
qed

lemma PTE_IDX_div: "unat (PTE_IDX v) = unat v div 2 ^ 12 mod 2 ^ 10"
proof -
  have "PTE_IDX v = take_bit 10 (drop_bit 12 v)"
    unfolding PTE_IDX_def mask_mid10
    by (rule bit_word_eqI)
      (auto simp: bit_drop_bit_eq bit_and_iff bit_push_bit_iff bit_mask_iff bit_take_bit_iff)
  then have "unat (PTE_IDX v) = take_bit 10 (unat v div 2 ^ 12)"
    by (simp only: unsigned_take_bit_eq unat_drop_bit)
  then show ?thesis by (simp only: take_bit_eq_mod)
qed

lemma high10_div: "unat (drop_bit 10 (v AND 0xffc00000 :: u32)) = unat v div 2 ^ 22 * 2 ^ 12"
proof -
  have "drop_bit 10 (v AND 0xffc00000) = push_bit 12 (drop_bit 22 v)"
    unfolding mask_high10
  proof (rule bit_word_eqI)
    fix n assume "n < LENGTH(32)"
    have "bit v (n + 10) \<Longrightarrow> n + 10 < 32" using bit_imp_le_length [of v "n + 10"] by simp
    then show "bit (drop_bit 10 (v AND push_bit 22 (mask 10))) n = bit (push_bit 12 (drop_bit 22 v)) n"
      by (auto simp: bit_drop_bit_eq bit_and_iff bit_push_bit_iff bit_mask_iff add.commute)
  qed
  then have "unat (drop_bit 10 (v AND 0xffc00000)) = take_bit 32 (push_bit 12 (unat v div 2 ^ 22))"
    by (simp only: unsigned_push_bit_eq unat_drop_bit) simp
  moreover have "push_bit 12 (unat v div 2 ^ 22) < 2 ^ 32"
    using unat_lt_32 [of v] by (simp add: push_bit_eq_mult)
  ultimately show ?thesis by (simp only: take_bit_nat_eq_self push_bit_eq_mult)
qed

lemma unat_pte_ptr: "unat (pte_ptr v) = 0xffc00000 + 4 * (unat v div 4096)"
proof -
  define q where "q = unat v div 4096"
  have qd: "unat v div 2 ^ 22 = q div 1024" by (simp add: q_def div_mult2_eq [symmetric])
  have lt: "q < 1048576" using unat_lt_32 [of v] by (simp add: q_def)
  have "4 * (q mod 1024) + q div 1024 * 4096 = 4 * q"
    using div_mult_mod_eq [of q 1024] by linarith
  then have sum: "unat v div 2 ^ 22 * 2 ^ 12 + (unat v div 2 ^ 12 mod 2 ^ 10) * 4 = 4 * q"
    unfolding qd by (simp add: q_def)
  define a where "a = drop_bit 10 (v AND 0xffc00000 :: u32)"
  define b where "b = PTE_IDX v * 4"
  have b: "unat b = (unat v div 2 ^ 12 mod 2 ^ 10) * 4"
    unfolding b_def by (subst unat_mult_small; simp add: PTE_IDX_div)
  have a: "unat a = unat v div 2 ^ 22 * 2 ^ 12" unfolding a_def by (rule high10_div)
  have ab: "unat (a + b) = 4 * q" using sum a b lt by (subst unat_add_small) simp_all
  have "unat (0xffc00000 + (a + b)) = 0xffc00000 + 4 * q"
    using ab lt by (subst unat_add_small) simp_all
  then show ?thesis by (simp add: pte_ptr_def a_def b_def q_def add.assoc)
qed

lemma pte_ptr_eq_iff: "pte_ptr v = pte_ptr w \<longleftrightarrow> unat v div 4096 = unat w div 4096"
  by (simp add: word_eq_unat unat_pte_ptr)

lemma unat_pde_ptr: "unat (pde_ptr v) = 0xfffff000 + 4 * (unat v div 2 ^ 22)"
proof -
  have "unat v div 2 ^ 22 < 1024" using unat_lt_32 [of v] by simp
  moreover from this have "unat (PDE_IDX v * 4) = 4 * (unat v div 2 ^ 22)"
    by (subst unat_mult_small; simp add: PDE_IDX_div)
  ultimately show ?thesis unfolding pde_ptr_def by (subst unat_add_small) simp_all
qed

lemma pde_is_pte: "pde_ptr v = pte_ptr (pte_ptr v)"
proof -
  have "unat (pte_ptr v) div 4096 = 0xffc00 + unat v div 2 ^ 22"
  proof -
    have "0xffc00000 + 4 * (unat v div 4096) = 4096 * 0xffc00 + 4 * (unat v div 4096)" by simp
    then have "(0xffc00000 + 4 * (unat v div 4096)) div 4096 = 0xffc00 + 4 * (unat v div 4096) div 4096"
      by (simp only: div_mult_self2 [of 4096] add.commute)
    moreover have "4 * (unat v div 4096) div 4096 = unat v div 4096 div 1024" by linarith
    moreover have "unat v div 4096 div 1024 = unat v div 2 ^ 22" by (simp add: div_mult2_eq [symmetric])
    ultimately show ?thesis by (simp only: unat_pte_ptr)
  qed
  then show ?thesis by (simp add: word_eq_unat unat_pde_ptr unat_pte_ptr [of "pte_ptr v"])
qed

section \<open>Translation\<close>

text \<open>What the two-level walk of the processor gives for an address outside the window.\<close>

definition translate :: "ptab \<Rightarrow> u32 \<Rightarrow> u32 option" where
  "translate t v = (if present t (pde_ptr v) \<and> present t (pte_ptr v) then Some (addr_v2p t v) else None)"

definition same_page :: "u32 \<Rightarrow> u32 \<Rightarrow> bool" where
  "same_page v w \<longleftrightarrow> unat v div 4096 = unat w div 4096"

definition page_aligned :: "u32 \<Rightarrow> bool" where
  "page_aligned p \<longleftrightarrow> unat p mod 4096 = 0"

definition page_entry :: "u32 \<Rightarrow> u32" where
  "page_entry phy = phy OR PG_US_U OR PG_RW_W OR PG_P_1"

definition clear_table :: "u32 \<Rightarrow> ptab \<Rightarrow> ptab" where
  "clear_table base t = (\<lambda>p. if p AND 0xfffff000 = base then 0 else t p)"

lemma bit_0xfffff000: "bit (0xfffff000 :: u32) n \<longleftrightarrow> 12 \<le> n \<and> n < 32"
  unfolding mask_page by (auto simp: bit_push_bit_iff bit_mask_iff)

lemma page_base_drop: "x AND 0xfffff000 = push_bit 12 (drop_bit 12 x)" for x :: u32
  unfolding mask_page
  by (rule bit_word_eqI) (auto simp: bit_and_iff bit_push_bit_iff bit_drop_bit_eq bit_mask_iff)

lemma page_base_eq_iff: "(x AND 0xfffff000 = y AND 0xfffff000) \<longleftrightarrow> unat x div 4096 = unat y div 4096"
  for x y :: u32
proof
  assume "x AND 0xfffff000 = y AND 0xfffff000"
  then have "drop_bit 12 (x AND 0xfffff000) = drop_bit 12 (y AND 0xfffff000)" by simp
  moreover have "drop_bit 12 (z AND 0xfffff000) = drop_bit 12 z" for z :: u32
  proof (rule bit_word_eqI)
    fix n assume "n < LENGTH(32)"
    have "bit z (12 + n) \<Longrightarrow> 12 + n < 32" using bit_imp_le_length [of z "12 + n"] by simp
    then show "bit (drop_bit 12 (z AND 0xfffff000)) n = bit (drop_bit 12 z) n"
      unfolding mask_page by (auto simp: bit_and_iff bit_push_bit_iff bit_drop_bit_eq bit_mask_iff)
  qed
  ultimately have "unat (drop_bit 12 x) = unat (drop_bit 12 y)" by simp
  then show "unat x div 4096 = unat y div 4096" by (simp only: unat_drop_bit) simp
next
  assume "unat x div 4096 = unat y div 4096"
  then have "unat (drop_bit 12 x) = unat (drop_bit 12 y)" by (simp only: unat_drop_bit) simp
  then have "drop_bit 12 x = drop_bit 12 y" by (simp add: word_eq_unat)
  then show "x AND 0xfffff000 = y AND 0xfffff000" by (simp only: page_base_drop)
qed

lemma aligned_bits: "page_aligned f \<Longrightarrow> n < 12 \<Longrightarrow> \<not> bit f n"
proof -
  assume f: "page_aligned f" and n: "n < 12"
  have "take_bit 12 (unat f) = 0" using f by (simp add: page_aligned_def take_bit_eq_mod)
  then have "\<not> bit (take_bit 12 (unat f)) n" by simp
  then show ?thesis using n bit_imp_le_length [of f n] by (auto simp: bit_take_bit_iff bit_unsigned_iff)
qed

lemma page_entry_frame: "page_aligned f \<Longrightarrow> page_entry f AND 0xfffff000 = f"
proof (rule bit_word_eqI)
  fix n assume f: "page_aligned f"
  have e: "PG_US_U = 2 ^ 2" "PG_RW_W = 2 ^ 1" "PG_P_1 = 2 ^ 0"
    by (simp_all add: PG_US_U_def PG_RW_W_def PG_P_1_def)
  have "\<not> bit PG_US_U n" "\<not> bit PG_RW_W n" "\<not> bit PG_P_1 n" if "12 \<le> n"
    unfolding e bit_exp_iff using that by auto
  moreover have "bit f n \<longrightarrow> 12 \<le> n" using aligned_bits [OF f, of n] by (cases "n < 12") auto
  ultimately show "bit (page_entry f AND 0xfffff000) n = bit f n"
    unfolding page_entry_def mask_page using bit_imp_le_length [of f n]
    by (auto simp: bit_and_iff bit_or_iff bit_push_bit_iff bit_mask_iff not_le)
qed

lemma page_entry_present: "page_entry f AND 1 \<noteq> 0"
proof
  assume z: "page_entry f AND 1 = 0"
  have "bit (page_entry f AND 1) 0" by (simp add: page_entry_def PG_P_1_def bit_and_iff bit_or_iff)
  then show False using z by simp
qed

lemma window_div: "unat (pte_ptr v) div 4096 = 0xffc00 + unat v div 2 ^ 22"
proof -
  have "unat (pde_ptr v) = unat (pte_ptr (pte_ptr v))" by (simp only: pde_is_pte)
  then show ?thesis unfolding unat_pde_ptr unat_pte_ptr by linarith
qed

lemma same_table: "pte_ptr v AND 0xfffff000 = pte_ptr w AND 0xfffff000 \<longleftrightarrow> pde_ptr v = pde_ptr w"
  unfolding page_base_eq_iff window_div word_eq_unat [of "pde_ptr v"] unat_pde_ptr by simp

lemma same_page_pde: "same_page v w \<Longrightarrow> pde_ptr v = pde_ptr w"
proof -
  assume "same_page v w"
  then have "unat v div 4096 div 1024 = unat w div 4096 div 1024" by (simp add: same_page_def)
  then have "unat v div 2 ^ 22 = unat w div 2 ^ 22" by (simp add: div_mult2_eq [symmetric])
  then show ?thesis by (simp only: word_eq_unat unat_pde_ptr)
qed

lemma same_page_pte: "pte_ptr v = pte_ptr w \<longleftrightarrow> same_page v w"
  by (simp only: pte_ptr_eq_iff same_page_def)

text \<open>Below the window, directory entries and table entries are different words.\<close>

definition low_addr :: "u32 \<Rightarrow> bool" where
  "low_addr v \<longleftrightarrow> unat v < 0xffc00000"

lemma pde_not_pte: "low_addr w \<Longrightarrow> pde_ptr v \<noteq> pte_ptr w"
proof
  assume "low_addr w" "pde_ptr v = pte_ptr w"
  then have "unat (pde_ptr v) = unat (pte_ptr w)" "unat w div 4096 < 0xffc00"
    by (simp_all add: low_addr_def)
  then show False unfolding unat_pde_ptr unat_pte_ptr by linarith
qed

lemma pde_table: "low_addr v \<Longrightarrow> pde_ptr w AND 0xfffff000 \<noteq> pte_ptr v AND 0xfffff000"
proof
  assume v: "low_addr v" and e: "pde_ptr w AND 0xfffff000 = pte_ptr v AND 0xfffff000"
  have "unat (pde_ptr w) div 4096 = unat (pte_ptr v) div 4096" using e by (simp only: page_base_eq_iff)
  moreover have "unat w div 2 ^ 22 < 1024" using unat_lt_32 [of w] by simp
  then have "unat (pde_ptr w) div 4096 = 0xfffff" unfolding unat_pde_ptr by linarith
  moreover have "unat v div 2 ^ 22 < 1023" using v by (simp add: low_addr_def)
  then have "unat (pte_ptr v) div 4096 < 0xfffff" unfolding window_div by linarith
  ultimately show False by simp
qed

text \<open>
  \<open>map_page t v f\<close>: the window after \<^verbatim>\<open>page_table_add\<close>, whether or not the page table was
  there; \<open>d\<close> is the frame of a new page table.
\<close>

definition map_page :: "ptab \<Rightarrow> u32 \<Rightarrow> u32 \<Rightarrow> u32 \<Rightarrow> ptab" where
  "map_page t v f d =
     (if present t (pde_ptr v) then t(pte_ptr v := page_entry f)
      else (clear_table (pte_ptr v AND 0xfffff000) (t(pde_ptr v := page_entry d)))(pte_ptr v := page_entry f))"

lemma translate_map_page:
  assumes v: "low_addr v" and w: "low_addr w" and f: "page_aligned f" and un: "translate t v = None"
  shows "translate (map_page t v f d) w =
    (if same_page v w then Some (f + (w AND 0xfff)) else translate t w)"
proof (cases "present t (pde_ptr v)")
  case True
  have "pde_ptr w \<noteq> pte_ptr v" using pde_not_pte [OF v] by blast
  moreover have "present t (pde_ptr w)" if "same_page v w" using same_page_pde [OF that] True by simp
  ultimately show ?thesis using True same_page_pte [of v w]
    by (auto simp: map_page_def translate_def addr_v2p_def present_def page_entry_frame [OF f]
        page_entry_present)
next
  case False
  define t' where "t' = map_page t v f d"
  have ne: "pde_ptr w \<noteq> pte_ptr v" "pde_ptr w \<noteq> pte_ptr w"
    using pde_not_pte [OF v] pde_not_pte [OF w] by blast+
  have pde: "t' (pde_ptr w) = (if pde_ptr w = pde_ptr v then page_entry d else t (pde_ptr w))"
    using False ne pde_table [OF v] by (simp add: t'_def map_page_def clear_table_def)
  have pte: "t' (pte_ptr w) = (if same_page v w then page_entry f
      else if pde_ptr w = pde_ptr v then 0 else t (pte_ptr w))"
    using False same_page_pte [of v w] same_table [of w v] pde_not_pte [OF w, of v]
    by (auto simp: t'_def map_page_def clear_table_def)
  show ?thesis
  proof (cases "pde_ptr w = pde_ptr v")
    case True
    then have "translate t w = None" using False by (simp add: translate_def)
    then show ?thesis using True unfolding t'_def [symmetric] translate_def addr_v2p_def present_def pde pte
      by (simp add: page_entry_present page_entry_frame [OF f])
  next
    case neq: False
    then have "\<not> same_page v w" using same_page_pde by metis
    then show ?thesis using neq unfolding t'_def [symmetric] translate_def addr_v2p_def present_def pde pte
      by simp
  qed
qed

lemma translate_pte_remove:
  assumes v: "low_addr v" and w: "low_addr w"
  shows "translate (page_table_pte_remove t v) w = (if same_page v w then None else translate t w)"
proof -
  have "(t (pte_ptr v) AND NOT PG_P_1) AND 1 = 0"
    by (rule bit_word_eqI) (auto simp: bit_and_iff bit_not_iff bit_1_iff PG_P_1_def)
  then show ?thesis using pde_not_pte [OF v, of w] same_page_pte [of v w]
    by (auto simp: page_table_pte_remove_def translate_def present_def addr_v2p_def Let_def)
qed

end
