(* ===== verification/KList.thy ===== *)
theory KList
  imports WinxPrelude
begin

text \<open>
  The doubly linked list of \<^verbatim>\<open>src/kernel/list.c\<close> on a heap of link cells, with the
  interrupt flag that its mutators save and restore. \<open>list_repr h l xs\<close> relates a heap to
  the abstract list: from \<^verbatim>\<open>&plist->head\<close> the \<^verbatim>\<open>next\<close> links run through \<open>xs\<close> to
  \<^verbatim>\<open>&plist->tail\<close>, the \<^verbatim>\<open>prev\<close> links run back, and the cells are distinct.
\<close>

datatype intr_status = INTR_OFF | INTR_ON

record kheap =
  prev_of :: "u32 \<Rightarrow> u32"
  next_of :: "u32 \<Rightarrow> u32"
  eflags_if :: intr_status

definition intr_get_status :: "kheap \<Rightarrow> intr_status" where
  "intr_get_status h = eflags_if h"

definition intr_enable :: "kheap \<Rightarrow> intr_status \<times> kheap" where
  "intr_enable h =
     (if INTR_ON = intr_get_status h then (INTR_ON, h) else (INTR_OFF, h\<lparr>eflags_if := INTR_ON\<rparr>))"

definition intr_disable :: "kheap \<Rightarrow> intr_status \<times> kheap" where
  "intr_disable h =
     (if INTR_ON = intr_get_status h then (INTR_ON, h\<lparr>eflags_if := INTR_OFF\<rparr>) else (INTR_OFF, h))"

definition intr_set_status :: "intr_status \<Rightarrow> kheap \<Rightarrow> intr_status \<times> kheap" where
  "intr_set_status status h = (if status = INTR_ON then intr_enable h else intr_disable h)"

text \<open>\<^verbatim>\<open>struct list\<close> is two cells of 8 bytes: \<^verbatim>\<open>head\<close> at its address, \<^verbatim>\<open>tail\<close> behind it.\<close>

definition list_head :: "u32 \<Rightarrow> u32" where
  "list_head l = l"

definition list_tail :: "u32 \<Rightarrow> u32" where
  "list_tail l = l + 8"

definition list_init :: "u32 \<Rightarrow> kheap \<Rightarrow> kheap" where
  "list_init l h =
     h\<lparr>prev_of := (prev_of h)(list_head l := 0, list_tail l := list_head l),
       next_of := (next_of h)(list_head l := list_tail l, list_tail l := 0)\<rparr>"

definition list_insert_before :: "u32 \<Rightarrow> u32 \<Rightarrow> kheap \<Rightarrow> kheap" where
  "list_insert_before before elem h =
     (let (old_status, h) = intr_disable h;
          h = h\<lparr>next_of := (next_of h)(prev_of h before := elem)\<rparr>;
          h = h\<lparr>prev_of := (prev_of h)(elem := prev_of h before)\<rparr>;
          h = h\<lparr>next_of := (next_of h)(elem := before)\<rparr>;
          h = h\<lparr>prev_of := (prev_of h)(before := elem)\<rparr>
      in snd (intr_set_status old_status h))"

definition list_push :: "u32 \<Rightarrow> u32 \<Rightarrow> kheap \<Rightarrow> kheap" where
  "list_push l elem h = list_insert_before (next_of h (list_head l)) elem h"

definition list_append :: "u32 \<Rightarrow> u32 \<Rightarrow> kheap \<Rightarrow> kheap" where
  "list_append l elem h = list_insert_before (list_tail l) elem h"

definition list_remove :: "u32 \<Rightarrow> kheap \<Rightarrow> kheap" where
  "list_remove pelem h =
     (let (old_status, h) = intr_disable h;
          h = h\<lparr>next_of := (next_of h)(prev_of h pelem := next_of h pelem)\<rparr>;
          h = h\<lparr>prev_of := (prev_of h)(next_of h pelem := prev_of h pelem)\<rparr>
      in snd (intr_set_status old_status h))"

definition list_pop :: "u32 \<Rightarrow> kheap \<Rightarrow> u32 \<times> kheap" where
  "list_pop l h = (let elem = next_of h (list_head l) in (elem, list_remove elem h))"

definition list_empty :: "u32 \<Rightarrow> kheap \<Rightarrow> bool" where
  "list_empty l h \<longleftrightarrow> next_of h (list_head l) = list_tail l"

text \<open>The three walks; a walk over a corrupted or cyclic chain does not return.\<close>

partial_function (option) elem_find_from :: "kheap \<Rightarrow> u32 \<Rightarrow> u32 \<Rightarrow> u32 \<Rightarrow> bool option" where
  "elem_find_from h tail obj_elem elem =
     (if elem \<noteq> tail
      then if elem = obj_elem then Some True else elem_find_from h tail obj_elem (next_of h elem)
      else Some False)"

definition elem_find :: "u32 \<Rightarrow> u32 \<Rightarrow> kheap \<Rightarrow> bool option" where
  "elem_find l obj_elem h = elem_find_from h (list_tail l) obj_elem (next_of h (list_head l))"

partial_function (option) list_traversal_from ::
  "kheap \<Rightarrow> u32 \<Rightarrow> (u32 \<Rightarrow> bool) \<Rightarrow> u32 \<Rightarrow> u32 option" where
  "list_traversal_from h tail func elem =
     (if elem \<noteq> tail
      then if func elem then Some elem else list_traversal_from h tail func (next_of h elem)
      else Some 0)"

definition list_traversal :: "u32 \<Rightarrow> (u32 \<Rightarrow> bool) \<Rightarrow> kheap \<Rightarrow> u32 option" where
  "list_traversal l func h =
     (if list_empty l h then Some 0
      else list_traversal_from h (list_tail l) func (next_of h (list_head l)))"

partial_function (option) list_len_from :: "kheap \<Rightarrow> u32 \<Rightarrow> u32 \<Rightarrow> u32 \<Rightarrow> u32 option" where
  "list_len_from h tail elem len =
     (if elem \<noteq> tail then list_len_from h tail (next_of h elem) (len + 1) else Some len)"

definition list_len :: "u32 \<Rightarrow> kheap \<Rightarrow> u32 option" where
  "list_len l h = list_len_from h (list_tail l) (next_of h (list_head l)) 0"

section \<open>Chains of cells\<close>

text \<open>\<open>chain h a xs b\<close>: the cells \<open>a, xs, b\<close> are linked both ways, in this order.\<close>

fun chain :: "kheap \<Rightarrow> u32 \<Rightarrow> u32 list \<Rightarrow> u32 \<Rightarrow> bool" where
  "chain h a [] b \<longleftrightarrow> next_of h a = b \<and> prev_of h b = a"
| "chain h a (x # xs) b \<longleftrightarrow> next_of h a = x \<and> prev_of h x = a \<and> chain h x xs b"

definition list_repr :: "kheap \<Rightarrow> u32 \<Rightarrow> u32 list \<Rightarrow> bool" where
  "list_repr h l xs \<longleftrightarrow>
     chain h (list_head l) xs (list_tail l) \<and> distinct (list_head l # xs @ [list_tail l])"

definition list_cells :: "u32 \<Rightarrow> u32 list \<Rightarrow> u32 set" where
  "list_cells l xs = insert (list_head l) (insert (list_tail l) (set xs))"

lemma chain_append:
  "chain h a (xs @ x # ys) b \<longleftrightarrow> chain h a xs x \<and> chain h x ys b"
  by (induction xs arbitrary: a) auto

text \<open>A chain only depends on the links inside it.\<close>

lemma chain_cong:
  assumes "\<And>c. c \<in> insert a (set xs) \<Longrightarrow> next_of h' c = next_of h c"
    and "\<And>c. c \<in> insert b (set xs) \<Longrightarrow> prev_of h' c = prev_of h c"
  shows "chain h' a xs b = chain h a xs b"
  using assms by (induction xs arbitrary: a) auto

lemma head_neq_tail [simp]: "list_head l \<noteq> list_tail l"
  by (simp add: list_head_def list_tail_def)

lemma intr_restored [simp]: "eflags_if (list_insert_before b e h) = eflags_if h"
  "eflags_if (list_remove e h) = eflags_if h"
  by (cases "eflags_if h"; simp add: list_insert_before_def list_remove_def intr_disable_def
      intr_set_status_def intr_enable_def intr_get_status_def)+

lemma links_insert_before:
  "next_of (list_insert_before b e h) = (next_of h)(prev_of h b := e, e := b)"
  "prev_of (list_insert_before b e h) = (prev_of h)(e := prev_of h b, b := e)"
  by (cases "eflags_if h"; simp add: list_insert_before_def intr_disable_def
      intr_set_status_def intr_enable_def intr_get_status_def)+

lemma links_remove:
  "next_of (list_remove e h) = (next_of h)(prev_of h e := next_of h e)"
  "prev_of (list_remove e h) =
     (prev_of h)(((next_of h)(prev_of h e := next_of h e)) e := prev_of h e)"
  by (cases "eflags_if h"; simp add: list_remove_def intr_disable_def
      intr_set_status_def intr_enable_def intr_get_status_def)+
lemma chain_prev_last: "chain h a xs b \<Longrightarrow> prev_of h b = last (a # xs)"
  by (induction xs arbitrary: a) auto

lemma chain_next_first: "chain h a xs b \<Longrightarrow> next_of h a = hd (xs @ [b])"
  by (cases xs) auto

lemma chain_retarget:
  assumes "chain h a xs e" "distinct (a # xs)"
    and "\<And>c. c \<in> set (butlast (a # xs)) \<Longrightarrow> next_of h' c = next_of h c"
    and "\<And>c. c \<in> set xs \<Longrightarrow> prev_of h' c = prev_of h c"
    and "next_of h' (last (a # xs)) = b" "prev_of h' b = last (a # xs)"
  shows "chain h' a xs b"
  using assms by (induction xs arbitrary: a) (auto split: if_splits)

lemma last_notin: "distinct (a # xs @ ys) \<Longrightarrow> c \<in> set ys \<Longrightarrow> last (a # xs) \<noteq> c"
  by (metis disjoint_iff distinct_append append_Cons last_in_set list.discI)

lemma last_notin_butlast: "distinct xs \<Longrightarrow> c \<in> set (butlast xs) \<Longrightarrow> c \<noteq> last xs"
  by (induction xs) (auto split: if_splits)

text \<open>The cells an operation on one list writes.\<close>

lemma insert_chain:
  assumes c: "chain h a (xs @ ys) b" and d: "distinct (a # (xs @ ys) @ [b])"
    and e: "e \<notin> insert a (insert b (set (xs @ ys)))"
  defines "h' \<equiv> list_insert_before (hd (ys @ [b])) e h"
  shows "chain h' a (xs @ e # ys) b"
proof -
  define y where "y = hd (ys @ [b])"
  have front: "chain h a xs y"
    using c by (cases ys) (auto simp: y_def chain_append)
  have p: "prev_of h y = last (a # xs)" by (rule chain_prev_last [OF front])
  have yin: "y \<in> set (ys @ [b])" by (cases ys) (auto simp: y_def)
  have pne: "last (a # xs) \<noteq> c" if "c \<in> set (ys @ [b])" for c
    using last_notin [of a xs "ys @ [b]" c] d that by simp
  have nx: "next_of h' = (next_of h)(last (a # xs) := e, e := y)"
    and pv: "prev_of h' = (prev_of h)(e := last (a # xs), y := e)"
    by (simp_all add: h'_def links_insert_before flip: y_def) (simp_all add: p)
  have ye: "y \<noteq> e" using yin e by auto
  have "chain h' a xs e"
  proof (rule chain_retarget [OF front])
    show "distinct (a # xs)" using d by auto
    show "next_of h' c = next_of h c" if "c \<in> set (butlast (a # xs))" for c
      using that e last_notin_butlast [of "a # xs" c] d in_set_butlastD [OF that] unfolding nx by auto
    show "prev_of h' c = prev_of h c" if "c \<in> set xs" for c
      using that e d yin unfolding pv by auto
    show "next_of h' (last (a # xs)) = e" using last_in_set [of "a # xs"] e unfolding nx by auto
    show "prev_of h' e = last (a # xs)" using ye unfolding pv by simp
  qed
  moreover have "chain h' e ys b"
  proof (cases ys)
    case Nil
    then show ?thesis by (simp add: nx pv y_def)
  next
    case (Cons z zs)
    then have yz: "y = z" by (simp add: y_def)
    have "chain h z zs b" using c Cons by (simp add: chain_append)
    moreover have "chain h' z zs b = chain h z zs b"
    proof (rule chain_cong)
      show "next_of h' c = next_of h c" if "c \<in> insert z (set zs)" for c
        using pne [of c] that e Cons unfolding nx by auto
      show "prev_of h' c = prev_of h c" if "c \<in> insert b (set zs)" for c
        using that e d Cons unfolding pv yz by auto
    qed
    ultimately show ?thesis using Cons by (simp add: nx pv yz)
  qed
  ultimately show ?thesis by (simp add: chain_append)
qed

lemma remove_chain:
  assumes c: "chain h a (xs @ e # ys) b" and d: "distinct (a # (xs @ e # ys) @ [b])"
  defines "h' \<equiv> list_remove e h"
  shows "chain h' a (xs @ ys) b"
proof -
  define y where "y = hd (ys @ [b])"
  have front: "chain h a xs e" and rear: "chain h e ys b" using c by (simp_all add: chain_append)
  have p: "prev_of h e = last (a # xs)" by (rule chain_prev_last [OF front])
  have n: "next_of h e = y" using chain_next_first [OF rear] by (simp add: y_def)
  have yin: "y \<in> set (ys @ [b])" by (cases ys) (auto simp: y_def)
  have pne: "last (a # xs) \<noteq> c" if "c \<in> set (e # ys @ [b])" for c
    using last_notin [of a xs "e # ys @ [b]" c] d that by simp
  have nx: "next_of h' = (next_of h)(last (a # xs) := y)"
    and pv: "prev_of h' = (prev_of h)(y := last (a # xs))"
    using pne [of e] by (simp_all add: h'_def links_remove p n)
  have first: "chain h' a xs y"
  proof (rule chain_retarget [OF front])
    show "distinct (a # xs)" using d by auto
    show "next_of h' c = next_of h c" if "c \<in> set (butlast (a # xs))" for c
      using that last_notin_butlast [of "a # xs" c] d unfolding nx by auto
    show "prev_of h' c = prev_of h c" if "c \<in> set xs" for c
      using that d yin unfolding pv by auto
    show "next_of h' (last (a # xs)) = y" unfolding nx by simp
    show "prev_of h' y = last (a # xs)" unfolding pv by simp
  qed
  show ?thesis
  proof (cases ys)
    case Nil
    then show ?thesis using first by (simp add: y_def)
  next
    case (Cons z zs)
    then have yz: "y = z" by (simp add: y_def)
    have "chain h z zs b" using rear Cons by simp
    moreover have "chain h' z zs b = chain h z zs b"
    proof (rule chain_cong)
      show "next_of h' c = next_of h c" if "c \<in> insert z (set zs)" for c
        using pne [of c] that Cons unfolding nx by auto
      show "prev_of h' c = prev_of h c" if "c \<in> insert b (set zs)" for c
        using that d Cons unfolding pv yz by auto
    qed
    ultimately show ?thesis using first Cons yz by (simp add: chain_append)
  qed
qed

lemma frame_insert:
  assumes c: "chain h a (xs @ ys) b" and other: "chain h a' zs b'"
    and disj: "insert a' (insert b' (set zs)) \<inter> insert e (insert a (insert b (set (xs @ ys)))) = {}"
  shows "chain (list_insert_before (hd (ys @ [b])) e h) a' zs b'"
proof -
  define y where "y = hd (ys @ [b])"
  have front: "chain h a xs y" using c by (cases ys) (auto simp: y_def chain_append)
  define S where "S = insert e (insert a (insert b (set (xs @ ys))))"
  have p: "last (a # xs) \<in> S" using last_in_set [of "a # xs"] by (auto simp: S_def)
  have y: "y \<in> S" by (cases ys) (auto simp: y_def S_def)
  have e: "e \<in> S" by (simp add: S_def)
  have ne: "c \<noteq> last (a # xs)" "c \<noteq> y" "c \<noteq> e" if "c \<in> insert a' (insert b' (set zs))" for c
    using that p y e disj unfolding S_def [symmetric] by blast+
  have "chain (list_insert_before y e h) a' zs b' = chain h a' zs b'"
  proof (rule chain_cong)
    show "next_of (list_insert_before y e h) c = next_of h c" if "c \<in> insert a' (set zs)" for c
    proof -
      have "c \<in> insert a' (insert b' (set zs))" using that by blast
      from ne [OF this] show ?thesis
        by (simp only: links_insert_before chain_prev_last [OF front] fun_upd_apply if_False)
    qed
    show "prev_of (list_insert_before y e h) c = prev_of h c" if "c \<in> insert b' (set zs)" for c
    proof -
      have "c \<in> insert a' (insert b' (set zs))" using that by blast
      from ne [OF this] show ?thesis
        by (simp only: links_insert_before fun_upd_apply if_False)
    qed
  qed
  then show ?thesis using other by (simp add: y_def)
qed

lemma frame_remove:
  assumes c: "chain h a (xs @ e # ys) b" and other: "chain h a' zs b'"
    and disj: "insert a' (insert b' (set zs)) \<inter> insert a (insert b (set (xs @ e # ys))) = {}"
    and d: "distinct (a # (xs @ e # ys) @ [b])"
  shows "chain (list_remove e h) a' zs b'"
proof -
  have front: "chain h a xs e" and rear: "chain h e ys b" using c by (simp_all add: chain_append)
  have p: "prev_of h e = last (a # xs)" by (rule chain_prev_last [OF front])
  have n: "next_of h e = hd (ys @ [b])" by (rule chain_next_first [OF rear])
  define S where "S = insert a (insert b (set (xs @ e # ys)))"
  have pS: "last (a # xs) \<in> S" using last_in_set [of "a # xs"] by (auto simp: S_def)
  have nS: "hd (ys @ [b]) \<in> S" by (cases ys) (auto simp: S_def)
  have ne: "c \<noteq> last (a # xs)" "c \<noteq> hd (ys @ [b])" if "c \<in> insert a' (insert b' (set zs))" for c
    using that pS nS disj unfolding S_def [symmetric] by blast+
  have pe: "last (a # xs) \<noteq> e" using last_notin [of a xs "e # ys @ [b]" e] d by simp
  have "chain (list_remove e h) a' zs b' = chain h a' zs b'"
  proof (rule chain_cong)
    show "next_of (list_remove e h) c = next_of h c" if "c \<in> insert a' (set zs)" for c
    proof -
      have "c \<in> insert a' (insert b' (set zs))" using that by blast
      from ne [OF this] show ?thesis
        by (simp only: links_remove p fun_upd_apply if_False)
    qed
    show "prev_of (list_remove e h) c = prev_of h c" if "c \<in> insert b' (set zs)" for c
    proof -
      have "c \<in> insert a' (insert b' (set zs))" using that by blast
      from ne [OF this] show ?thesis using pe
        by (simp only: links_remove p n fun_upd_apply if_False if_cancel)
    qed
  qed
  then show ?thesis using other by simp
qed

section \<open>The operations on represented lists\<close>

lemma push_repr:
  assumes r: "list_repr h l xs" and e: "e \<notin> list_cells l xs"
  shows "list_repr (list_push l e h) l (e # xs)"
proof -
  have "next_of h (list_head l) = hd (xs @ [list_tail l])"
    using r by (simp add: list_repr_def chain_next_first)
  then show ?thesis
    using insert_chain [of h "list_head l" "[]" xs "list_tail l" e] r e
    by (auto simp: list_push_def list_repr_def list_cells_def)
qed

lemma append_repr:
  assumes r: "list_repr h l xs" and e: "e \<notin> list_cells l xs"
  shows "list_repr (list_append l e h) l (xs @ [e])"
  using insert_chain [of h "list_head l" xs "[]" "list_tail l" e] r e
  by (auto simp add: list_append_def list_repr_def list_cells_def)

lemma remove_repr:
  assumes r: "list_repr h l (xs @ e # ys)"
  shows "list_repr (list_remove e h) l (xs @ ys)"
  using remove_chain [of h "list_head l" xs e ys "list_tail l"] r by (simp add: list_repr_def)

lemma pop_repr:
  assumes r: "list_repr h l (x # xs)"
  shows "list_pop l h = (x, list_remove x h)" "list_repr (list_remove x h) l xs"
  using r remove_repr [of h l "[]" x xs] by (simp_all add: list_pop_def list_repr_def Let_def)

lemma empty_repr: "list_repr h l xs \<Longrightarrow> list_empty l h \<longleftrightarrow> xs = []"
  by (cases xs) (auto simp: list_empty_def list_repr_def)

lemma init_repr: "list_repr (list_init l h) l []"
  by (simp add: list_init_def list_repr_def)

lemma push_frame:
  assumes "list_repr h l xs" "list_repr h l' zs" "list_cells l' zs \<inter> insert e (list_cells l xs) = {}"
  shows "list_repr (list_push l e h) l' zs"
proof -
  have "next_of h (list_head l) = hd (xs @ [list_tail l])"
    using assms(1) by (simp add: list_repr_def chain_next_first)
  then show ?thesis
    using frame_insert [of h "list_head l" "[]" xs "list_tail l" "list_head l'" zs "list_tail l'" e] assms
    by (simp add: list_push_def list_repr_def list_cells_def)
qed

lemma append_frame:
  assumes "list_repr h l xs" "list_repr h l' zs" "list_cells l' zs \<inter> insert e (list_cells l xs) = {}"
  shows "list_repr (list_append l e h) l' zs"
  using frame_insert [of h "list_head l" xs "[]" "list_tail l" "list_head l'" zs "list_tail l'" e] assms
  by (simp add: list_append_def list_repr_def list_cells_def)

lemma remove_frame:
  assumes "list_repr h l (xs @ e # ys)" "list_repr h l' zs"
    "list_cells l' zs \<inter> list_cells l (xs @ e # ys) = {}"
  shows "list_repr (list_remove e h) l' zs"
  using frame_remove [of h "list_head l" xs e ys "list_tail l" "list_head l'" zs "list_tail l'"] assms
  by (simp add: list_repr_def list_cells_def)

section \<open>The walks\<close>

lemma elem_find_chain:
  "chain h a xs b \<Longrightarrow> b \<notin> set xs \<Longrightarrow> elem_find_from h b obj (next_of h a) = Some (obj \<in> set xs)"
proof (induction xs arbitrary: a)
  case (Cons x xs)
  then have "elem_find_from h b obj (next_of h x) = Some (obj \<in> set xs)" by auto
  then show ?case using Cons.prems by (subst elem_find_from.simps) auto
qed (simp add: elem_find_from.simps)

lemma traversal_chain:
  "chain h a xs b \<Longrightarrow> b \<notin> set xs \<Longrightarrow> list_traversal_from h b func (next_of h a) =
     Some (case find func xs of None \<Rightarrow> 0 | Some x \<Rightarrow> x)"
proof (induction xs arbitrary: a)
  case (Cons x xs)
  then have "list_traversal_from h b func (next_of h x) =
      Some (case find func xs of None \<Rightarrow> 0 | Some x \<Rightarrow> x)" by auto
  then show ?case using Cons.prems by (subst list_traversal_from.simps) auto
qed (simp add: list_traversal_from.simps)

lemma len_chain:
  "chain h a xs b \<Longrightarrow> b \<notin> set xs \<Longrightarrow>
     list_len_from h b (next_of h a) n = Some (n + of_nat (length xs))"
proof (induction xs arbitrary: a n)
  case (Cons x xs)
  then have "list_len_from h b (next_of h x) (n + 1) = Some (n + 1 + of_nat (length xs))" by auto
  then show ?case using Cons.prems by (subst list_len_from.simps) (auto simp: add.assoc)
qed (simp add: list_len_from.simps)

lemma walks_repr:
  assumes "list_repr h l xs"
  shows "elem_find l obj h = Some (obj \<in> set xs)"
    "list_traversal l func h = Some (case find func xs of None \<Rightarrow> 0 | Some x \<Rightarrow> x)"
    "list_len l h = Some (of_nat (length xs))"
proof -
  have c: "chain h (list_head l) xs (list_tail l)" and b: "list_tail l \<notin> set xs"
    using assms by (auto simp: list_repr_def)
  show "elem_find l obj h = Some (obj \<in> set xs)"
    unfolding elem_find_def by (rule elem_find_chain [OF c b])
  show "list_traversal l func h = Some (case find func xs of None \<Rightarrow> 0 | Some x \<Rightarrow> x)"
    using traversal_chain [OF c b] empty_repr [OF assms] by (auto simp: list_traversal_def)
  show "list_len l h = Some (of_nat (length xs))"
    using len_chain [OF c b, of 0] by (simp add: list_len_def)
qed

section \<open>The list interface\<close>

text \<open>
  What the scheduler, the semaphores and the inode cache rely on: a list that is
  represented before a call is represented after it, with the abstract effect, and
  lists that share no cell with it are not disturbed.
\<close>

locale linked_lists =
  fixes repr :: "'h \<Rightarrow> 'l \<Rightarrow> 'e list \<Rightarrow> bool"
    and cells :: "'l \<Rightarrow> 'e list \<Rightarrow> 'e set"
    and push :: "'l \<Rightarrow> 'e \<Rightarrow> 'h \<Rightarrow> 'h"
    and append :: "'l \<Rightarrow> 'e \<Rightarrow> 'h \<Rightarrow> 'h"
    and remove :: "'e \<Rightarrow> 'h \<Rightarrow> 'h"
    and pop :: "'l \<Rightarrow> 'h \<Rightarrow> 'e \<times> 'h"
    and contains :: "'l \<Rightarrow> 'e \<Rightarrow> 'h \<Rightarrow> bool option"
  assumes cells_sub: "set xs \<subseteq> cells l xs" "set xs \<subseteq> set ys \<Longrightarrow> cells l xs \<subseteq> cells l ys"
    and cells_insert: "cells l (xs @ e # ys) = insert e (cells l (xs @ ys))"
    and repr_distinct: "repr h l xs \<Longrightarrow> distinct xs"
    and repr_removed: "repr h l (xs @ e # ys) \<Longrightarrow> e \<notin> cells l (xs @ ys)"
    and push_law: "repr h l xs \<Longrightarrow> e \<notin> cells l xs \<Longrightarrow> repr (push l e h) l (e # xs)"
    and append_law: "repr h l xs \<Longrightarrow> e \<notin> cells l xs \<Longrightarrow> repr (append l e h) l (xs @ [e])"
    and remove_law: "repr h l (xs @ e # ys) \<Longrightarrow> repr (remove e h) l (xs @ ys)"
    and pop_law: "repr h l (x # xs) \<Longrightarrow> pop l h = (x, remove x h)"
    and contains_law: "repr h l xs \<Longrightarrow> contains l e h = Some (e \<in> set xs)"
    and push_other: "repr h l xs \<Longrightarrow> repr h l' zs \<Longrightarrow> cells l' zs \<inter> insert e (cells l xs) = {} \<Longrightarrow>
      repr (push l e h) l' zs"
    and append_other: "repr h l xs \<Longrightarrow> repr h l' zs \<Longrightarrow> cells l' zs \<inter> insert e (cells l xs) = {} \<Longrightarrow>
      repr (append l e h) l' zs"
    and remove_other: "repr h l (xs @ e # ys) \<Longrightarrow> repr h l' zs \<Longrightarrow>
      cells l' zs \<inter> cells l (xs @ e # ys) = {} \<Longrightarrow> repr (remove e h) l' zs"
begin

text \<open>An element moves from the front of one list to another, as a woken thread does.\<close>

lemma move_front:
  assumes "repr h l (x # xs)" "repr h l' ys" "cells l' ys \<inter> cells l (x # xs) = {}"
    and "pop l h = (y, h1)"
  shows "y = x" "repr (push l' y h1) l xs" "repr (push l' y h1) l' (x # ys)"
proof -
  have y: "y = x" and h1: "h1 = remove x h" using pop_law [OF assms(1)] assms(4) by simp_all
  have l: "repr h1 l xs" using remove_law [of h l "[]" x xs] assms(1) by (simp add: h1)
  have l': "repr h1 l' ys" using remove_other [of h l "[]" x xs l' ys] assms(1-3) by (simp add: h1)
  have x: "x \<in> cells l (x # xs)" using cells_sub(1) [of "x # xs" l] by auto
  have sub: "cells l xs \<subseteq> cells l (x # xs)" by (rule cells_sub(2)) auto
  have xn: "x \<notin> cells l xs" using repr_removed [of h l "[]" x xs] assms(1) by simp
  show "y = x" by (rule y)
  show "repr (push l' y h1) l xs" unfolding y
    by (rule push_other [OF l' l]) (use x sub assms(3) xn in blast)
  show "repr (push l' y h1) l' (x # ys)" unfolding y
    by (rule push_law [OF l']) (use x assms(3) in blast)
qed

lemma append_then_found:
  assumes "repr h l xs" "e \<notin> cells l xs"
  shows "contains l e h = Some False" "contains l e (append l e h) = Some True"
    "contains l e (remove e (append l e h)) = Some False"
proof -
  have a: "repr (append l e h) l (xs @ [e])" by (rule append_law [OF assms])
  have r: "repr (remove e (append l e h)) l xs" using remove_law [of _ l xs e "[]"] a by simp
  have "e \<notin> set xs" using assms(2) cells_sub(1) by blast
  then show "contains l e h = Some False" "contains l e (append l e h) = Some True"
    "contains l e (remove e (append l e h)) = Some False"
    by (simp_all add: contains_law [OF assms(1)] contains_law [OF a] contains_law [OF r])
qed

end

lemma list_cells_facts:
  "set xs \<subseteq> list_cells l xs" "set xs \<subseteq> set ys \<Longrightarrow> list_cells l xs \<subseteq> list_cells l ys"
  "list_cells l (xs @ e # ys) = insert e (list_cells l (xs @ ys))"
  by (auto simp: list_cells_def)

lemma repr_facts:
  "list_repr h l xs \<Longrightarrow> distinct xs"
  "list_repr h l (xs @ e # ys) \<Longrightarrow> e \<notin> list_cells l (xs @ ys)"
  by (auto simp: list_repr_def list_cells_def)

interpretation dll: linked_lists list_repr list_cells list_push list_append list_remove list_pop elem_find
  by unfold_locales
    (fact list_cells_facts repr_facts walks_repr pop_repr push_repr append_repr remove_repr
      push_frame append_frame remove_frame)+

section \<open>Properties\<close>

definition two_lists :: kheap where
  "two_lists = list_append 100 300 (list_append 100 200 (list_init 500 (list_init 100
     \<lparr>prev_of = (\<lambda>_. 0), next_of = (\<lambda>_. 0), eflags_if = INTR_ON\<rparr>)))"

lemmas list_eval = list_repr_def list_cells_def list_head_def list_tail_def list_init_def
  list_append_def list_push_def links_insert_before links_remove


text \<open>
  C40. On a represented list the three walks return: \<^verbatim>\<open>elem_find\<close> decides membership,
  \<^verbatim>\<open>list_traversal\<close> gives the first element that satisfies the callback (NULL if none),
  \<^verbatim>\<open>list_len\<close> the number of elements modulo \<open>2 ^ 32\<close>, and \<^verbatim>\<open>list_empty\<close> decides emptiness.
\<close>

theorem list_walks_return:
  assumes "list_repr h l xs"
  shows "elem_find l obj h = Some (obj \<in> set xs) \<and>
    list_traversal l func h = Some (case find func xs of None \<Rightarrow> 0 | Some x \<Rightarrow> x) \<and>
    list_len l h = Some (of_nat (length xs)) \<and> (list_empty l h \<longleftrightarrow> xs = [])"
  using walks_repr [OF assms] empty_repr [OF assms] by simp

theorem list_walks_return_witness:
  "elem_find 100 300 two_lists = Some True \<and> list_len 100 two_lists = Some 2 \<and>
   list_traversal 100 (\<lambda>e. 250 < e) two_lists = Some 300"
proof -
  have "list_repr two_lists 100 [200, 300]" by (simp add: two_lists_def list_eval)
  from list_walks_return [OF this] show ?thesis by simp
qed

end
