(* ===== verification/Sched.thy ===== *)
theory Sched
  imports Paging KList
begin

text \<open>
  The scheduler: \<^verbatim>\<open>src/thread/thread.c\<close> (\<^verbatim>\<open>schedule\<close>, \<^verbatim>\<open>thread_block\<close>,
  \<^verbatim>\<open>thread_unblock\<close>, \<^verbatim>\<open>thread_yield\<close>), \<^verbatim>\<open>process_activate\<close> of \<^verbatim>\<open>src/userprog/process.c\<close>,
  \<^verbatim>\<open>update_tss_esp\<close> of \<^verbatim>\<open>src/userprog/tss.c\<close> and the clock of \<^verbatim>\<open>src/device/timer.c\<close>.

  A thread is the address of its \<^verbatim>\<open>task_struct\<close>. The two thread lists hold thread
  addresses; theory KList proves that the pointer lists of the code are such sequences. The
  processor part of the state is the running thread (the page \<^verbatim>\<open>esp\<close> is in), the
  interrupt flag, \<^verbatim>\<open>cr3\<close> and \<^verbatim>\<open>tss.esp0\<close>. \<^verbatim>\<open>switch_to\<close> makes the next thread the running one:
  a function that switches returns the state in which that thread continues, and the
  statements behind the switch belong to the later resumption of the old thread.
\<close>

section \<open>State\<close>

datatype task_status = TASK_RUNNING | TASK_READY | TASK_BLOCKED | TASK_WAITING | TASK_HANGING | TASK_DIED

record task_struct =
  self_kstack :: u32
  pid :: u16
  status :: task_status
  priority :: u8
  task_name :: "u8 list"
  task_ticks :: u8
  elapsed_ticks :: u32
  pgdir :: u32
  fd_table :: "u32 list"
  cwd_inode_nr :: u32
  parent_pid :: u16
  exit_status :: u8
  stack_magic :: u32

record sched =
  ptab :: ptab
  tasks :: "u32 \<Rightarrow> task_struct"
  running :: u32
  thread_ready_list :: "u32 list"
  thread_all_list :: "u32 list"
  main_thread :: u32
  idle_thread :: u32
  intr :: intr_status
  cr3 :: u32
  tss_esp0 :: u32
  ticks :: u32

definition upd_task :: "u32 \<Rightarrow> (task_struct \<Rightarrow> task_struct) \<Rightarrow> 'a sched_scheme \<Rightarrow> 'a sched_scheme" where
  "upd_task t f s = s\<lparr>tasks := (tasks s)(t := f (tasks s t))\<rparr>"

abbreviation stat :: "'a sched_scheme \<Rightarrow> u32 \<Rightarrow> task_status" where
  "stat s t \<equiv> status (tasks s t)"

definition set_status :: "u32 \<Rightarrow> task_status \<Rightarrow> 'a sched_scheme \<Rightarrow> 'a sched_scheme" where
  "set_status t st s = upd_task t (\<lambda>p. p\<lparr>status := st\<rparr>) s"

text \<open>\<^verbatim>\<open>running_thread\<close>: the kernel stack of a thread lies in the page of its \<^verbatim>\<open>task_struct\<close>.\<close>

definition running_thread :: "u32 \<Rightarrow> u32" where
  "running_thread esp = esp AND 0xfffff000"

definition cpu_intr_disable :: "'a sched_scheme \<Rightarrow> intr_status \<times> 'a sched_scheme" where
  "cpu_intr_disable s = (intr s, s\<lparr>intr := INTR_OFF\<rparr>)"

definition cpu_intr_set_status :: "intr_status \<Rightarrow> 'a sched_scheme \<Rightarrow> 'a sched_scheme" where
  "cpu_intr_set_status st s = s\<lparr>intr := st\<rparr>"

section \<open>Scheduling\<close>

definition page_dir_activate :: "u32 \<Rightarrow> 'a sched_scheme \<Rightarrow> 'a sched_scheme" where
  "page_dir_activate p_thread s =
     (let pagedir_phy_addr =
            (if pgdir (tasks s p_thread) \<noteq> 0 then addr_v2p (ptab s) (pgdir (tasks s p_thread)) else 0x100000)
      in s\<lparr>cr3 := pagedir_phy_addr\<rparr>)"

definition update_tss_esp :: "u32 \<Rightarrow> 'a sched_scheme \<Rightarrow> 'a sched_scheme" where
  "update_tss_esp pthread s = s\<lparr>tss_esp0 := pthread + PG_SIZE\<rparr>"

definition process_activate :: "u32 \<Rightarrow> 'a sched_scheme \<Rightarrow> 'a sched_scheme option" where
  "process_activate p_thread s =
     (if p_thread = 0 then None
      else let s = page_dir_activate p_thread s
        in Some (if pgdir (tasks s p_thread) \<noteq> 0 then update_tss_esp p_thread s else s))"

definition thread_unblock :: "u32 \<Rightarrow> 'a sched_scheme \<Rightarrow> 'a sched_scheme option" where
  "thread_unblock pthread s =
     (let (old_status, s) = cpu_intr_disable s
      in if stat s pthread \<notin> {TASK_BLOCKED, TASK_WAITING, TASK_HANGING} then None
         else if stat s pthread \<noteq> TASK_READY then
           (if pthread \<in> set (thread_ready_list s) then None
            else let s = s\<lparr>thread_ready_list := pthread # thread_ready_list s\<rparr>;
                     s = set_status pthread TASK_READY s
              in Some (cpu_intr_set_status old_status s))
         else Some (cpu_intr_set_status old_status s))"

definition switch_to :: "u32 \<Rightarrow> 'a sched_scheme \<Rightarrow> 'a sched_scheme" where
  "switch_to next_thread s = s\<lparr>running := next_thread\<rparr>"

definition schedule :: "'a sched_scheme \<Rightarrow> 'a sched_scheme option" where
  "schedule s =
     (if intr s \<noteq> INTR_OFF then None
      else do {
        let cur = running s;
        s \<leftarrow> (if stat s cur = TASK_RUNNING then
                if cur \<in> set (thread_ready_list s) then None
                else let s = s\<lparr>thread_ready_list := thread_ready_list s @ [cur]\<rparr>;
                         s = upd_task cur (\<lambda>p. p\<lparr>task_ticks := priority p\<rparr>) s
                     in Some (set_status cur TASK_READY s)
              else Some s);
        s \<leftarrow> (if thread_ready_list s = [] then thread_unblock (idle_thread s) s else Some s);
        (case thread_ready_list s of
           [] \<Rightarrow> None
         | next_thread # rest \<Rightarrow>
             do { let s = s\<lparr>thread_ready_list := rest\<rparr>;
                  let s = set_status next_thread TASK_RUNNING s;
                  s \<leftarrow> process_activate next_thread s;
                  Some (switch_to next_thread s) }) })"

definition thread_block :: "task_status \<Rightarrow> 'a sched_scheme \<Rightarrow> 'a sched_scheme option" where
  "thread_block st s =
     (if st \<notin> {TASK_BLOCKED, TASK_WAITING, TASK_HANGING} then None
      else let (old_status, s) = cpu_intr_disable s
        in schedule (set_status (running s) st s))"

definition thread_yield :: "'a sched_scheme \<Rightarrow> 'a sched_scheme option" where
  "thread_yield s =
     (let (old_status, s) = cpu_intr_disable s; cur = running s
      in if cur \<in> set (thread_ready_list s) then None
         else let s = s\<lparr>thread_ready_list := thread_ready_list s @ [cur]\<rparr>;
                  s = set_status cur TASK_READY s
           in schedule s)"

text \<open>The idle thread gives the processor back whenever it gets it (first half of its loop).\<close>

definition idle_iteration :: "'a sched_scheme \<Rightarrow> 'a sched_scheme option" where
  "idle_iteration s = thread_block TASK_BLOCKED s"

section \<open>The clock\<close>

text \<open>The handler runs with interrupts off; \<^verbatim>\<open>stack_magic\<close> guards against stack overflow.\<close>

definition intr_timer_handler :: "'a sched_scheme \<Rightarrow> 'a sched_scheme option" where
  "intr_timer_handler s =
     (let cur_thread = running s
      in if stack_magic (tasks s cur_thread) \<noteq> 0x19870916 then None
         else let s = upd_task cur_thread (\<lambda>p. p\<lparr>elapsed_ticks := elapsed_ticks p + 1\<rparr>) s;
                  s = s\<lparr>ticks := ticks s + 1\<rparr>
           in if task_ticks (tasks s cur_thread) = 0 then schedule s
              else Some (upd_task cur_thread (\<lambda>p. p\<lparr>task_ticks := task_ticks p - 1\<rparr>) s))"

definition counter0_value :: u16 where
  "counter0_value = 1193180 div 100"

text \<open>The three port writes of \<^verbatim>\<open>frequency_set\<close>, in order, as (port, byte).\<close>

definition frequency_set :: "u8 \<Rightarrow> u8 \<Rightarrow> u8 \<Rightarrow> u8 \<Rightarrow> u16 \<Rightarrow> (u16 \<times> u8) list" where
  "frequency_set counter_port counter_no rwl counter_mode counter_value =
     [(0x43, push_bit 6 counter_no OR push_bit 4 rwl OR push_bit 1 counter_mode),
      (ucast counter_port, ucast counter_value),
      (ucast counter_port, ucast (drop_bit 8 counter_value))]"

definition timer_init_ports :: "(u16 \<times> u8) list" where
  "timer_init_ports = frequency_set 0x40 0 3 2 counter0_value"

definition sleep_ticks :: "u32 \<Rightarrow> u32" where
  "sleep_ticks m_seconds = (m_seconds + 10 - 1) div 10"

definition mtime_sleep :: "u32 \<Rightarrow> 'a sched_scheme \<Rightarrow> (u32 \<times> u32) option" where
  "mtime_sleep m_seconds s =
     (if sleep_ticks m_seconds > 0 then Some (ticks s, sleep_ticks m_seconds) else None)"

text \<open>One pass of the loop of \<^verbatim>\<open>ticks_to_sleep\<close>: give way, or leave the loop (\<open>True\<close>).\<close>

definition ticks_to_sleep_pass :: "u32 \<Rightarrow> u32 \<Rightarrow> 'a sched_scheme \<Rightarrow> (bool \<times> 'a sched_scheme) option" where
  "ticks_to_sleep_pass start_tick n s =
     (if ticks s - start_tick < n then do { s \<leftarrow> thread_yield s; Some (False, s) } else Some (True, s))"

section \<open>The scheduler invariant\<close>

text \<open>
  \<open>sched_core\<close>: the ready list is duplicate free and holds exactly the threads in state
  \<^verbatim>\<open>TASK_READY\<close>, only the running thread can be \<^verbatim>\<open>TASK_RUNNING\<close>, and the idle thread
  exists and is never waiting for a child or hanging. \<open>sched_inv\<close> adds that the running
  thread is \<^verbatim>\<open>TASK_RUNNING\<close>; inside \<open>thread_block\<close> and \<open>thread_yield\<close> only the core holds.
\<close>

definition sched_core :: "'a sched_scheme \<Rightarrow> bool" where
  "sched_core s \<longleftrightarrow>
     distinct (thread_ready_list s) \<and> set (thread_ready_list s) \<subseteq> set (thread_all_list s) \<and>
     (\<forall>t\<in>set (thread_all_list s). stat s t = TASK_READY \<longleftrightarrow> t \<in> set (thread_ready_list s)) \<and>
     (\<forall>t\<in>set (thread_all_list s). stat s t = TASK_RUNNING \<longrightarrow> t = running s) \<and>
     running s \<in> set (thread_all_list s) \<and> 0 \<notin> set (thread_all_list s) \<and>
     idle_thread s \<in> set (thread_all_list s) \<and>
     stat s (idle_thread s) \<in> {TASK_RUNNING, TASK_READY, TASK_BLOCKED}"

definition sched_inv :: "'a sched_scheme \<Rightarrow> bool" where
  "sched_inv s \<longleftrightarrow> sched_core s \<and> stat s (running s) = TASK_RUNNING"

text \<open>The queue \<open>schedule\<close> takes the next thread from.\<close>

definition run_queue :: "'a sched_scheme \<Rightarrow> u32 list" where
  "run_queue s = (let q = thread_ready_list s @ (if stat s (running s) = TASK_RUNNING then [running s] else [])
                  in if q = [] then [idle_thread s] else q)"

lemma stat_set_status [simp]: "stat (set_status t st s) u = (if u = t then st else stat s u)"
  by (simp add: set_status_def upd_task_def)

lemma set_status_other [simp]:
  "running (set_status t st s) = running s" "intr (set_status t st s) = intr s"
  "thread_ready_list (set_status t st s) = thread_ready_list s"
  "thread_all_list (set_status t st s) = thread_all_list s"
  "idle_thread (set_status t st s) = idle_thread s" "ptab (set_status t st s) = ptab s"
  "ticks (set_status t st s) = ticks s" "main_thread (set_status t st s) = main_thread s"
  by (simp_all add: set_status_def upd_task_def)

lemma upd_task_other [simp]:
  "running (upd_task t f s) = running s" "intr (upd_task t f s) = intr s"
  "thread_ready_list (upd_task t f s) = thread_ready_list s"
  "thread_all_list (upd_task t f s) = thread_all_list s"
  "idle_thread (upd_task t f s) = idle_thread s" "ptab (upd_task t f s) = ptab s"
  "ticks (upd_task t f s) = ticks s" "main_thread (upd_task t f s) = main_thread s"
  "tasks (upd_task t f s) u = (if u = t then f (tasks s u) else tasks s u)"
  by (simp_all add: upd_task_def)

lemma process_activate_ok:
  assumes "t \<noteq> 0"
  shows "\<exists>s'. process_activate t s = Some s' \<and> (\<exists>c e. s' = s\<lparr>cr3 := c, tss_esp0 := e\<rparr>)"
proof (cases "pgdir (tasks s t) = 0")
  case True
  then have "process_activate t s = Some (s\<lparr>cr3 := 0x100000\<rparr>)"
    using assms by (simp add: process_activate_def page_dir_activate_def)
  moreover have "s\<lparr>cr3 := 0x100000\<rparr> = s\<lparr>cr3 := 0x100000, tss_esp0 := tss_esp0 s\<rparr>" by simp
  ultimately show ?thesis by metis
next
  case False
  then show ?thesis using assms
    by (simp add: process_activate_def page_dir_activate_def update_tss_esp_def Let_def) blast
qed

lemma thread_unblock_eq:
  assumes "stat s t \<in> {TASK_BLOCKED, TASK_WAITING, TASK_HANGING}" "t \<notin> set (thread_ready_list s)"
  shows "thread_unblock t s = Some (set_status t TASK_READY (s\<lparr>thread_ready_list := t # thread_ready_list s\<rparr>))"
  using assms by (auto simp: thread_unblock_def cpu_intr_disable_def cpu_intr_set_status_def
      set_status_def upd_task_def)

text \<open>\<open>dispatch s q\<close>: the state in which the head of the queue \<open>q\<close> runs and the rest is ready.\<close>

definition dispatched :: "'a sched_scheme \<Rightarrow> u32 list \<Rightarrow> 'a sched_scheme \<Rightarrow> bool" where
  "dispatched s q s' \<longleftrightarrow>
     running s' = hd q \<and> thread_ready_list s' = tl q \<and> thread_all_list s' = thread_all_list s \<and>
     idle_thread s' = idle_thread s \<and> main_thread s' = main_thread s \<and> intr s' = INTR_OFF \<and>
     ticks s' = ticks s \<and> ptab s' = ptab s \<and> sched.more s' = sched.more s \<and>
     (\<forall>t. stat s' t = (if t = hd q then TASK_RUNNING
        else if t = running s \<and> stat s t = TASK_RUNNING then TASK_READY else stat s t)) \<and>
     (\<forall>t. priority (tasks s' t) = priority (tasks s t) \<and> pid (tasks s' t) = pid (tasks s t) \<and>
        stack_magic (tasks s' t) = stack_magic (tasks s t) \<and>
        task_ticks (tasks s' t) = (if t = running s \<and> stat s t = TASK_RUNNING
           then priority (tasks s t) else task_ticks (tasks s t)))"

lemma sched_coreD:
  assumes "sched_core s"
  shows "distinct (thread_ready_list s)" "set (thread_ready_list s) \<subseteq> set (thread_all_list s)"
    "0 \<notin> set (thread_all_list s)" "running s \<in> set (thread_all_list s)"
    "idle_thread s \<in> set (thread_all_list s)"
    "stat s (idle_thread s) \<in> {TASK_RUNNING, TASK_READY, TASK_BLOCKED}"
    "\<And>t. t \<in> set (thread_all_list s) \<Longrightarrow> stat s t = TASK_READY \<longleftrightarrow> t \<in> set (thread_ready_list s)"
    "\<And>t. t \<in> set (thread_all_list s) \<Longrightarrow> stat s t = TASK_RUNNING \<Longrightarrow> t = running s"
  using assms unfolding sched_core_def by blast+

lemma run_queue_threads: "sched_core s \<Longrightarrow> set (run_queue s) \<subseteq> set (thread_all_list s)"
  using sched_coreD(2,4,5) [of s] by (simp add: run_queue_def)

lemma schedule_dispatch:
  assumes core: "sched_core s" and off: "intr s = INTR_OFF"
  shows "\<exists>s'. schedule s = Some s' \<and> dispatched s (run_queue s) s'"
proof -
  have nz: "t \<noteq> 0" if "t \<in> set (run_queue s)" for t
    using that run_queue_threads [OF core] sched_coreD(3) [OF core] by blast
  show ?thesis
  proof (cases "stat s (running s) = TASK_RUNNING")
    case True
    then have nin: "running s \<notin> set (thread_ready_list s)" using sched_coreD(4,7) [OF core] by fastforce
    obtain n r where q: "thread_ready_list s @ [running s] = n # r" by (cases "thread_ready_list s") auto
    then have rq: "run_queue s = n # r" using True by (simp add: run_queue_def)
    define s1 where "s1 = set_status n TASK_RUNNING (set_status (running s) TASK_READY
      (upd_task (running s) (\<lambda>p. p\<lparr>task_ticks := priority p\<rparr>) (s\<lparr>thread_ready_list := r\<rparr>)))"
    obtain c e where "process_activate n s1 = Some (s1\<lparr>cr3 := c, tss_esp0 := e\<rparr>)"
      using process_activate_ok [of n s1] nz rq by auto
    then have "schedule s = Some (switch_to n (s1\<lparr>cr3 := c, tss_esp0 := e\<rparr>))"
      using True off nin q by (simp add: schedule_def Let_def s1_def set_status_def upd_task_def)
    moreover have "dispatched s (n # r) (switch_to n (s1\<lparr>cr3 := c, tss_esp0 := e\<rparr>))"
      using True off by (auto simp: dispatched_def switch_to_def s1_def set_status_def upd_task_def)
    ultimately show ?thesis using rq by auto
  next
    case False
    define s0 where "s0 = (if thread_ready_list s = []
      then set_status (idle_thread s) TASK_READY (s\<lparr>thread_ready_list := [idle_thread s]\<rparr>) else s)"
    have ub: "(if thread_ready_list s = [] then thread_unblock (idle_thread s) s else Some s) = Some s0"
    proof (cases "thread_ready_list s = []")
      case True
      then have "stat s (idle_thread s) \<noteq> TASK_READY" using sched_coreD(5,7) [OF core] by simp
      moreover have "stat s (idle_thread s) \<noteq> TASK_RUNNING"
        using False sched_coreD(5,8) [OF core] by metis
      ultimately have "stat s (idle_thread s) = TASK_BLOCKED" using sched_coreD(6) [OF core] by simp
      then show ?thesis using True by (simp add: thread_unblock_eq s0_def)
    qed (simp add: s0_def)
    obtain n r where rq: "run_queue s = n # r" "thread_ready_list s0 = n # r"
      using False by (cases "thread_ready_list s") (auto simp: run_queue_def s0_def)
    define s1 where "s1 = set_status n TASK_RUNNING (s0\<lparr>thread_ready_list := r\<rparr>)"
    obtain c e where "process_activate n s1 = Some (s1\<lparr>cr3 := c, tss_esp0 := e\<rparr>)"
      using process_activate_ok [of n s1] nz rq by auto
    then have "schedule s = Some (switch_to n (s1\<lparr>cr3 := c, tss_esp0 := e\<rparr>))"
      using False off ub rq by (simp add: schedule_def s1_def)
    moreover have "dispatched s (n # r) (switch_to n (s1\<lparr>cr3 := c, tss_esp0 := e\<rparr>))"
      using False off rq by (auto simp: dispatched_def switch_to_def s1_def s0_def set_status_def
          upd_task_def run_queue_def)
    ultimately show ?thesis using rq by auto
  qed
qed

lemma run_queue_distinct: "sched_core s \<Longrightarrow> distinct (run_queue s)"
proof -
  assume core: "sched_core s"
  have "stat s (running s) = TASK_RUNNING \<Longrightarrow> running s \<notin> set (thread_ready_list s)"
    using sched_coreD(4,7) [OF core] by fastforce
  then show ?thesis using sched_coreD(1) [OF core] by (simp add: run_queue_def)
qed

lemma run_queue_nonempty: "run_queue s \<noteq> []"
  by (simp add: run_queue_def Let_def)

lemma run_queue_ready:
  "sched_core s \<Longrightarrow> t \<in> set (thread_all_list s) \<Longrightarrow> t \<noteq> hd (run_queue s) \<Longrightarrow>
     t \<in> set (run_queue s) \<longleftrightarrow>
       t \<in> set (thread_ready_list s) \<or> t = running s \<and> stat s t = TASK_RUNNING"
  by (auto simp: run_queue_def Let_def)

lemma dispatched_inv:
  assumes core: "sched_core s" and d: "dispatched s (run_queue s) s'"
  shows "sched_inv s'"
proof -
  define q where "q = run_queue s"
  obtain n r where q: "q = n # r" using run_queue_nonempty [of s] by (cases q) (auto simp: q_def)
  have dist: "distinct (n # r)" and sub: "set (n # r) \<subseteq> set (thread_all_list s)"
    using run_queue_distinct [OF core] run_queue_threads [OF core] q by (simp_all add: q_def [symmetric])
  have s': "running s' = n" "thread_ready_list s' = r" "thread_all_list s' = thread_all_list s"
    "idle_thread s' = idle_thread s"
    and st: "\<And>t. stat s' t = (if t = n then TASK_RUNNING
        else if t = running s \<and> stat s t = TASK_RUNNING then TASK_READY else stat s t)"
    using d q by (auto simp: dispatched_def q_def)
  have ready: "stat s' t = TASK_READY \<longleftrightarrow> t \<in> set r" if t: "t \<in> set (thread_all_list s)" for t
  proof (cases "t = n")
    case False
    then have "t \<in> set (n # r) \<longleftrightarrow> t \<in> set (thread_ready_list s) \<or> t = running s \<and> stat s t = TASK_RUNNING"
      using run_queue_ready [OF core t] q by (simp add: q_def)
    then show ?thesis using False st sched_coreD(7) [OF core t] by auto
  qed (use st dist in auto)
  have run: "stat s' t = TASK_RUNNING \<Longrightarrow> t = n" if "t \<in> set (thread_all_list s)" for t
    using st [of t] sched_coreD(8) [OF core that] by (auto split: if_splits)
  have "stat s' (idle_thread s) \<in> {TASK_RUNNING, TASK_READY, TASK_BLOCKED}"
    using st [of "idle_thread s"] sched_coreD(6) [OF core] by (auto split: if_splits)
  then show ?thesis
    unfolding sched_inv_def sched_core_def s'
    using dist sub ready run sched_coreD(3,5) [OF core] st [of n] by auto
qed

lemma set_status_core:
  assumes inv: "sched_inv s" and st: "st \<in> {TASK_BLOCKED, TASK_WAITING, TASK_HANGING}"
    and idle: "running s = idle_thread s \<longrightarrow> st = TASK_BLOCKED"
  shows "sched_core (set_status (running s) st s)"
proof -
  have core: "sched_core s" and r: "stat s (running s) = TASK_RUNNING" using inv by (auto simp: sched_inv_def)
  have nin: "running s \<notin> set (thread_ready_list s)" using sched_coreD(4,7) [OF core] r by fastforce
  have "(stat (set_status (running s) st s) t = TASK_READY) = (t \<in> set (thread_ready_list s))"
    if "t \<in> set (thread_all_list s)" for t
    using nin st sched_coreD(7) [OF core that] by auto
  moreover have "stat (set_status (running s) st s) t = TASK_RUNNING \<Longrightarrow> t = running s"
    if "t \<in> set (thread_all_list s)" for t
    using sched_coreD(8) [OF core that] by (simp split: if_splits)
  moreover have "stat (set_status (running s) st s) (idle_thread s) \<in> {TASK_RUNNING, TASK_READY, TASK_BLOCKED}"
    using sched_coreD(6) [OF core] idle by simp
  ultimately show ?thesis
    unfolding sched_core_def set_status_other using sched_coreD(1-5) [OF core] by blast
qed

lemma sched_core_intr [simp]: "sched_core (s\<lparr>intr := i\<rparr>) = sched_core s"
  by (simp add: sched_core_def)

lemma sched_inv_intr [simp]: "sched_inv (s\<lparr>intr := i\<rparr>) = sched_inv s"
  by (simp add: sched_inv_def)

lemma thread_block_spec:
  assumes inv: "sched_inv s" and st: "st \<in> {TASK_BLOCKED, TASK_WAITING, TASK_HANGING}"
    and idle: "running s = idle_thread s \<longrightarrow> st = TASK_BLOCKED"
  defines "b \<equiv> set_status (running s) st (s\<lparr>intr := INTR_OFF\<rparr>)"
  shows "\<exists>s'. thread_block st s = Some s' \<and> dispatched b (run_queue b) s' \<and> sched_inv s'"
proof -
  have core: "sched_core b"
    using set_status_core [of "s\<lparr>intr := INTR_OFF\<rparr>" st] inv st idle by (simp add: b_def)
  moreover have "intr b = INTR_OFF" by (simp add: b_def)
  moreover have "thread_block st s = schedule b"
    using st by (simp add: thread_block_def cpu_intr_disable_def b_def)
  ultimately show ?thesis using schedule_dispatch [of b] dispatched_inv [OF core] by auto
qed

lemma thread_yield_spec:
  assumes inv: "sched_inv s"
  shows "\<exists>s'. thread_yield s = Some s' \<and> sched_inv s' \<and>
    running s' # thread_ready_list s' = thread_ready_list s @ [running s]"
proof -
  have core: "sched_core s" and r: "stat s (running s) = TASK_RUNNING" using inv by (auto simp: sched_inv_def)
  have nin: "running s \<notin> set (thread_ready_list s)" using sched_coreD(4,7) [OF core] r by fastforce
  define y where "y = set_status (running s) TASK_READY
    (s\<lparr>intr := INTR_OFF, thread_ready_list := thread_ready_list s @ [running s]\<rparr>)"
  have st: "stat y t = (if t = running s then TASK_READY else stat s t)" for t by (simp add: y_def)
  have "(stat y t = TASK_READY) = (t \<in> set (thread_ready_list s @ [running s]))"
    if "t \<in> set (thread_all_list s)" for t
    using sched_coreD(7) [OF core that] by (simp add: st)
  moreover have "stat y t = TASK_RUNNING \<Longrightarrow> t = running s" if "t \<in> set (thread_all_list s)" for t
    using sched_coreD(8) [OF core that] by (simp add: st split: if_splits)
  moreover have "stat y (idle_thread s) \<in> {TASK_RUNNING, TASK_READY, TASK_BLOCKED}"
    using sched_coreD(6) [OF core] by (simp add: st)
  moreover have "distinct (thread_ready_list s @ [running s])"
    "set (thread_ready_list s @ [running s]) \<subseteq> set (thread_all_list s)"
    using nin sched_coreD(1,2,4) [OF core] by auto
  moreover have y: "thread_ready_list y = thread_ready_list s @ [running s]" "running y = running s"
    "thread_all_list y = thread_all_list s" "idle_thread y = idle_thread s" "intr y = INTR_OFF"
    by (simp_all add: y_def)
  ultimately have cy: "sched_core y"
    unfolding sched_core_def y using sched_coreD(3-5) [OF core] by blast
  have "run_queue y = thread_ready_list s @ [running s]" using y st by (simp add: run_queue_def)
  moreover have "thread_yield s = schedule y"
    using nin by (simp add: thread_yield_def cpu_intr_disable_def y_def Let_def)
  ultimately show ?thesis using schedule_dispatch [OF cy y(5)] dispatched_inv [OF cy]
    by (auto simp: dispatched_def)
qed

lemma thread_unblock_inv:
  assumes inv: "sched_inv s" and t: "t \<in> set (thread_all_list s)"
    and st: "stat s t \<in> {TASK_BLOCKED, TASK_WAITING, TASK_HANGING}"
  shows "\<exists>s'. thread_unblock t s = Some s' \<and> sched_inv s' \<and>
    thread_ready_list s' = t # thread_ready_list s \<and> running s' = running s \<and>
    thread_all_list s' = thread_all_list s \<and> idle_thread s' = idle_thread s \<and> intr s' = intr s \<and>
    (\<forall>u. stat s' u = (if u = t then TASK_READY else stat s u))"
proof -
  have core: "sched_core s" and r: "stat s (running s) = TASK_RUNNING" using inv by (auto simp: sched_inv_def)
  have nin: "t \<notin> set (thread_ready_list s)" using sched_coreD(7) [OF core t] st by auto
  define u where "u = set_status t TASK_READY (s\<lparr>thread_ready_list := t # thread_ready_list s\<rparr>)"
  have su: "stat u x = (if x = t then TASK_READY else stat s x)" for x by (simp add: u_def)
  have u: "thread_ready_list u = t # thread_ready_list s" "running u = running s"
    "thread_all_list u = thread_all_list s" "idle_thread u = idle_thread s" "intr u = intr s"
    by (simp_all add: u_def)
  have "(stat u x = TASK_READY) = (x \<in> set (t # thread_ready_list s))"
    if "x \<in> set (thread_all_list s)" for x
    using sched_coreD(7) [OF core that] by (simp add: su)
  moreover have "stat u x = TASK_RUNNING \<Longrightarrow> x = running s" if "x \<in> set (thread_all_list s)" for x
    using sched_coreD(8) [OF core that] by (simp add: su split: if_splits)
  moreover have "stat u (idle_thread s) \<in> {TASK_RUNNING, TASK_READY, TASK_BLOCKED}"
    using sched_coreD(6) [OF core] by (simp add: su)
  moreover have "distinct (t # thread_ready_list s)" using nin sched_coreD(1) [OF core] by simp
  moreover have "set (t # thread_ready_list s) \<subseteq> set (thread_all_list s)"
    using t sched_coreD(2) [OF core] by simp
  ultimately have "sched_core u" unfolding sched_core_def u using sched_coreD(3-5) [OF core] by blast
  moreover have "t \<noteq> running s" using r st by auto
  ultimately have "sched_inv u" using r su u by (simp add: sched_inv_def)
  moreover have "thread_unblock t s = Some u" using thread_unblock_eq [OF st nin] by (simp add: u_def)
  ultimately show ?thesis using u su by auto
qed

section \<open>Time slices\<close>

text \<open>The clock interrupt as the processor delivers it: flag cleared on entry, set by \<^verbatim>\<open>iret\<close>.\<close>

definition timer_interrupt :: "'a sched_scheme \<Rightarrow> 'a sched_scheme option" where
  "timer_interrupt s = do { s \<leftarrow> intr_timer_handler (s\<lparr>intr := INTR_OFF\<rparr>); Some (s\<lparr>intr := INTR_ON\<rparr>) }"

fun timer_run :: "nat \<Rightarrow> 'a sched_scheme \<Rightarrow> 'a sched_scheme option" where
  "timer_run 0 s = Some s"
| "timer_run (Suc n) s = do { s \<leftarrow> timer_interrupt s; timer_run n s }"

lemma timer_run_add: "timer_run (m + n) s = do { s \<leftarrow> timer_run m s; timer_run n s }"
  by (induction m arbitrary: s) (auto split: bind_splits)

definition magic_ok :: "'a sched_scheme \<Rightarrow> bool" where
  "magic_ok s \<longleftrightarrow> (\<forall>t\<in>set (thread_all_list s). stack_magic (tasks s t) = 0x19870916)"

lemma sched_core_cong:
  assumes "thread_ready_list s' = thread_ready_list s" "thread_all_list s' = thread_all_list s"
    "running s' = running s" "idle_thread s' = idle_thread s" "\<And>t. stat s' t = stat s t"
  shows "sched_core s' = sched_core s"
  unfolding sched_core_def assms by (rule refl)

lemma sched_inv_cong:
  assumes "thread_ready_list s' = thread_ready_list s" "thread_all_list s' = thread_all_list s"
    "running s' = running s" "idle_thread s' = idle_thread s" "\<And>t. stat s' t = stat s t"
  shows "sched_inv s' = sched_inv s"
  unfolding sched_inv_def sched_core_cong [OF assms] assms by (rule refl)

text \<open>A tick inside the slice changes the counters only; the last one dispatches the next thread.\<close>

lemma timer_tick:
  assumes inv: "sched_inv s" and m: "magic_ok s" and nz: "task_ticks (tasks s (running s)) \<noteq> 0"
  shows "\<exists>s'. timer_interrupt s = Some s' \<and> sched_inv s' \<and> magic_ok s' \<and> running s' = running s \<and>
    thread_ready_list s' = thread_ready_list s \<and> thread_all_list s' = thread_all_list s \<and>
    (\<forall>t. task_ticks (tasks s' t) = (if t = running s then task_ticks (tasks s t) - 1 else task_ticks (tasks s t)))"
proof -
  have r: "running s \<in> set (thread_all_list s)" using inv sched_coreD(4) by (auto simp: sched_inv_def)
  define f where "f = (\<lambda>p :: task_struct. p\<lparr>elapsed_ticks := elapsed_ticks p + 1\<rparr>)"
  define g where "g = (\<lambda>p :: task_struct. p\<lparr>task_ticks := task_ticks p - 1\<rparr>)"
  define s1 where "s1 = upd_task (running s) g ((upd_task (running s) f s)\<lparr>ticks := ticks s + 1\<rparr>)"
  have "timer_interrupt s = Some (s1\<lparr>intr := INTR_ON\<rparr>)"
    using m r nz by (simp add: timer_interrupt_def intr_timer_handler_def magic_ok_def Let_def s1_def
        f_def g_def upd_task_def)
  moreover have "sched_inv s1"
    using inv by (subst sched_inv_cong [of _ s]) (simp_all add: s1_def f_def g_def)
  moreover have "magic_ok s1" using m by (simp add: magic_ok_def s1_def f_def g_def)
  ultimately show ?thesis by (simp add: s1_def f_def g_def magic_ok_def)
qed

lemma timer_switch:
  assumes inv: "sched_inv s" and m: "magic_ok s" and z: "task_ticks (tasks s (running s)) = 0"
  shows "\<exists>s'. timer_interrupt s = Some s' \<and> sched_inv s' \<and> magic_ok s' \<and>
    running s' # thread_ready_list s' = thread_ready_list s @ [running s] \<and>
    thread_all_list s' = thread_all_list s \<and>
    (\<forall>t. task_ticks (tasks s' t) = (if t = running s then priority (tasks s t) else task_ticks (tasks s t)))"
proof -
  have core: "sched_core s" and r: "stat s (running s) = TASK_RUNNING" using inv by (auto simp: sched_inv_def)
  define f where "f = (\<lambda>p :: task_struct. p\<lparr>elapsed_ticks := elapsed_ticks p + 1\<rparr>)"
  define s1 where "s1 = (upd_task (running s) f (s\<lparr>intr := INTR_OFF\<rparr>))\<lparr>ticks := ticks s + 1\<rparr>"
  have inv1: "sched_inv s1" using inv by (subst sched_inv_cong [of _ s]) (simp_all add: s1_def f_def)
  then have core1: "sched_core s1" by (simp add: sched_inv_def)
  have s1: "intr s1 = INTR_OFF" "running s1 = running s" "thread_ready_list s1 = thread_ready_list s"
    "stat s1 (running s) = TASK_RUNNING" "thread_all_list s1 = thread_all_list s"
    "\<And>t. priority (tasks s1 t) = priority (tasks s t)" "\<And>t. task_ticks (tasks s1 t) = task_ticks (tasks s t)"
    "\<And>t. stack_magic (tasks s1 t) = stack_magic (tasks s t)"
    using r by (simp_all add: s1_def f_def)
  have h: "intr_timer_handler (s\<lparr>intr := INTR_OFF\<rparr>) = schedule s1"
    using m z sched_coreD(4) [OF core]
    by (simp add: intr_timer_handler_def magic_ok_def Let_def s1_def f_def)
  obtain s' where s': "schedule s1 = Some s'" "dispatched s1 (run_queue s1) s'" "sched_inv s'"
    using schedule_dispatch [OF core1 s1(1)] dispatched_inv [OF core1] by blast
  have "run_queue s1 = thread_ready_list s @ [running s]" using s1 by (simp add: run_queue_def)
  then have "running s' # thread_ready_list s' = thread_ready_list s @ [running s]"
    "thread_all_list s' = thread_all_list s"
    "\<And>t. stack_magic (tasks s' t) = stack_magic (tasks s t)"
    "\<And>t. task_ticks (tasks s' t) = (if t = running s then priority (tasks s t) else task_ticks (tasks s t))"
    using s'(2) s1 by (auto simp: dispatched_def)
  then show ?thesis using s'(1,3) h m by (auto simp: timer_interrupt_def magic_ok_def)
qed

lemma slice_end:
  assumes "sched_inv s" "magic_ok s"
  shows "\<exists>s'. timer_run (unat (task_ticks (tasks s (running s))) + 1) s = Some s' \<and>
    sched_inv s' \<and> magic_ok s' \<and>
    running s' # thread_ready_list s' = thread_ready_list s @ [running s] \<and>
    thread_all_list s' = thread_all_list s \<and>
    (\<forall>t. t \<noteq> running s \<longrightarrow> task_ticks (tasks s' t) = task_ticks (tasks s t))"
  using assms
proof (induction "unat (task_ticks (tasks s (running s)))" arbitrary: s)
  case 0
  then have "task_ticks (tasks s (running s)) = 0" by (metis unat_eq_zero)
  then show ?case using timer_switch [OF 0(2,3)] by auto
next
  case (Suc n)
  then have nz: "task_ticks (tasks s (running s)) \<noteq> 0" by auto
  obtain s1 where s1: "timer_interrupt s = Some s1" "sched_inv s1" "magic_ok s1" "running s1 = running s"
    "thread_ready_list s1 = thread_ready_list s" "thread_all_list s1 = thread_all_list s"
    "\<And>t. task_ticks (tasks s1 t) = (if t = running s then task_ticks (tasks s t) - 1 else task_ticks (tasks s t))"
    using timer_tick [OF Suc.prems nz] by blast
  have "unat (task_ticks (tasks s1 (running s1))) = n"
    using Suc.hyps(2) nz by (simp add: s1(4,7) unat_minus_one)
  then obtain s2 where s2: "timer_run (n + 1) s1 = Some s2" "sched_inv s2" "magic_ok s2"
    "running s2 # thread_ready_list s2 = thread_ready_list s @ [running s]"
    "thread_all_list s2 = thread_all_list s"
    "\<forall>t. t \<noteq> running s \<longrightarrow> task_ticks (tasks s2 t) = task_ticks (tasks s1 t)"
    using Suc.hyps(1) [of s1] s1 by auto
  have "timer_run (Suc n + 1) s = Some s2" using s1(1) s2(1) by simp
  then show ?case using s2 s1(7) Suc.hyps(2) by auto
qed

definition slices :: "'a sched_scheme \<Rightarrow> u32 list \<Rightarrow> nat" where
  "slices s ts = (\<Sum>t\<leftarrow>ts. unat (task_ticks (tasks s t)) + 1)"

lemma round_robin:
  "sched_inv s \<Longrightarrow> magic_ok s \<Longrightarrow> i < length (thread_ready_list s) \<Longrightarrow>
     \<exists>s'. timer_run (slices s (running s # take i (thread_ready_list s))) s = Some s' \<and>
       running s' = thread_ready_list s ! i \<and> sched_inv s' \<and> magic_ok s'"
proof (induction i arbitrary: s)
  case 0
  then obtain s' where s': "timer_run (unat (task_ticks (tasks s (running s))) + 1) s = Some s'"
    "sched_inv s'" "magic_ok s'" "running s' # thread_ready_list s' = thread_ready_list s @ [running s]"
    using slice_end by blast
  then have "running s' = thread_ready_list s ! 0" using 0(3) by (cases "thread_ready_list s") auto
  then show ?case using s' by (simp add: slices_def)
next
  case (Suc i)
  obtain s1 where s1: "timer_run (unat (task_ticks (tasks s (running s))) + 1) s = Some s1"
    "sched_inv s1" "magic_ok s1" "running s1 # thread_ready_list s1 = thread_ready_list s @ [running s]"
    "\<forall>t. t \<noteq> running s \<longrightarrow> task_ticks (tasks s1 t) = task_ticks (tasks s t)"
    using slice_end [OF Suc.prems(1,2)] by blast
  obtain n r where q: "thread_ready_list s = n # r" using Suc.prems(3) by (cases "thread_ready_list s") auto
  then have s1q: "running s1 = n" "thread_ready_list s1 = r @ [running s]" using s1(4) by auto
  have i: "i < length r" using Suc.prems(3) q by simp
  have core: "sched_core s" and run: "stat s (running s) = TASK_RUNNING"
    using Suc.prems(1) by (auto simp: sched_inv_def)
  have nin: "running s \<notin> set (n # r)" using sched_coreD(4,7) [OF core] run q by fastforce
  have nt: "x \<noteq> running s" if "x \<in> set (n # take i r)" for x
    using that nin in_set_takeD [of x i r] by auto
  have "slices s1 (n # take i r) = slices s (n # take i r)"
    unfolding slices_def using nt s1(5)
    by (intro arg_cong [of _ _ sum_list] map_cong) auto
  moreover have "running s1 # take i (thread_ready_list s1) = n # take i r" using s1q i by simp
  ultimately obtain s2 where s2: "timer_run (slices s (n # take i r)) s1 = Some s2"
    "running s2 = r ! i" "sched_inv s2" "magic_ok s2"
    using Suc.IH [OF s1(2,3)] i s1q by (auto simp: nth_append)
  have "slices s (running s # take (Suc i) (thread_ready_list s)) =
      (unat (task_ticks (tasks s (running s))) + 1) + slices s (n # take i r)"
    by (simp add: slices_def q)
  then have "timer_run (slices s (running s # take (Suc i) (thread_ready_list s))) s = Some s2"
    using s1(1) s2(1) by (simp only: timer_run_add) simp
  then show ?case using s2 q by auto
qed

text \<open>Sleeping counts ticks modulo \<open>2 ^ 32\<close>, so a wrap of the counter does no harm.\<close>

lemma sleep_wraps: "k < 2 ^ 32 \<Longrightarrow> ticks s = start + of_nat k \<Longrightarrow> ticks s - start < n \<longleftrightarrow> k < unat n"
  by (simp add: word_less_nat_alt unat_of_nat_32)

section \<open>Properties\<close>

definition demo_sched :: sched where
  "demo_sched = \<lparr>ptab = (\<lambda>_. 0),
     tasks = (\<lambda>t. \<lparr>self_kstack = 0, pid = 0,
        status = (if t = 0x1000 then TASK_RUNNING else if t = 0x2000 then TASK_BLOCKED else TASK_READY),
        priority = 31, task_name = [], task_ticks = 2, elapsed_ticks = 0, pgdir = 0, fd_table = [],
        cwd_inode_nr = 0, parent_pid = 0, exit_status = 0, stack_magic = 0x19870916\<rparr>),
     running = 0x1000, thread_ready_list = [0x3000, 0x4000],
     thread_all_list = [0x1000, 0x2000, 0x3000, 0x4000], main_thread = 0x1000, idle_thread = 0x2000,
     intr = INTR_OFF, cr3 = 0, tss_esp0 = 0, ticks = 0\<rparr>"

lemma demo_sched_inv: "sched_inv demo_sched" "magic_ok demo_sched"
  by (simp_all add: demo_sched_def sched_inv_def sched_core_def magic_ok_def)

text \<open>
  C14. With interrupts off and the scheduler's core invariant, \<^verbatim>\<open>schedule\<close> fails none of its
  assertions, gives the processor to the head of the queue (the running thread goes to the
  end of it when it was \<^verbatim>\<open>TASK_RUNNING\<close>, the idle thread is woken when it is empty) and
  establishes the full invariant.
\<close>

theorem schedule_safe:
  assumes "sched_core s" "intr s = INTR_OFF"
  shows "\<exists>s'. schedule s = Some s' \<and> sched_inv s' \<and>
    running s' # thread_ready_list s' =
      (if thread_ready_list s = [] \<and> stat s (running s) \<noteq> TASK_RUNNING then [idle_thread s]
       else thread_ready_list s @ (if stat s (running s) = TASK_RUNNING then [running s] else []))"
proof -
  obtain s' where s': "schedule s = Some s'" "dispatched s (run_queue s) s'"
    using schedule_dispatch [OF assms] by blast
  moreover have "running s' # thread_ready_list s' = run_queue s"
    using s'(2) run_queue_nonempty [of s] by (simp add: dispatched_def)
  ultimately show ?thesis using dispatched_inv [OF assms(1)] by (auto simp: run_queue_def Let_def)
qed

theorem schedule_safe_witness:
  "\<exists>s'. schedule demo_sched = Some s' \<and> running s' = 0x3000 \<and> thread_ready_list s' = [0x4000, 0x1000]"
proof -
  have "sched_core demo_sched" "intr demo_sched = INTR_OFF"
    using demo_sched_inv(1) by (simp_all add: sched_inv_def demo_sched_def)
  from schedule_safe [OF this] show ?thesis by (auto simp: demo_sched_def)
qed

text \<open>
  Blocking and waking: \<^verbatim>\<open>thread_block\<close> with one of its three states never fails (the idle
  thread may only take \<^verbatim>\<open>TASK_BLOCKED\<close>), and takes the caller off the processor without making
  it ready unless it is the idle thread; \<^verbatim>\<open>thread_unblock\<close> of a blocked thread puts it at the
  front of the ready list. Both keep the invariant.
\<close>

theorem block_unblock_safe:
  assumes "sched_inv s" "st \<in> {TASK_BLOCKED, TASK_WAITING, TASK_HANGING}"
    and "running s = idle_thread s \<longrightarrow> st = TASK_BLOCKED"
    and "t \<in> set (thread_all_list s)" "stat s t \<in> {TASK_BLOCKED, TASK_WAITING, TASK_HANGING}"
  shows "(\<exists>s'. thread_block st s = Some s' \<and> sched_inv s' \<and>
      (running s \<noteq> idle_thread s \<longrightarrow> stat s' (running s) = st)) \<and>
    (\<exists>s'. thread_unblock t s = Some s' \<and> sched_inv s' \<and> running s' = running s \<and>
      thread_ready_list s' = t # thread_ready_list s)"
proof -
  define b where "b = set_status (running s) st (s\<lparr>intr := INTR_OFF\<rparr>)"
  obtain s' where s': "thread_block st s = Some s'" "dispatched b (run_queue b) s'" "sched_inv s'"
    using thread_block_spec [OF assms(1-3)] by (auto simp: b_def)
  have core: "sched_core s" and run: "stat s (running s) = TASK_RUNNING"
    using assms(1) by (auto simp: sched_inv_def)
  have nin: "running s \<notin> set (thread_ready_list s)" using sched_coreD(4,7) [OF core] run by fastforce
  have "stat s' (running s) = st" if ne: "running s \<noteq> idle_thread s"
  proof -
    have "stat b (running b) \<noteq> TASK_RUNNING" using assms(2) by (auto simp: b_def)
    then have "hd (run_queue b) \<in> insert (idle_thread s) (set (thread_ready_list s))"
      by (cases "thread_ready_list s") (simp_all add: run_queue_def b_def Let_def)
    then have "running s \<noteq> hd (run_queue b)" using nin ne by auto
    then show ?thesis using s'(2) assms(2) by (auto simp: dispatched_def b_def)
  qed
  then show ?thesis using s' thread_unblock_inv [OF assms(1,4,5)] by blast
qed

theorem block_unblock_safe_witness:
  "(\<exists>s'. thread_block TASK_BLOCKED demo_sched = Some s' \<and> sched_inv s') \<and>
   (\<exists>s'. thread_unblock 0x2000 demo_sched = Some s' \<and> sched_inv s')"
proof -
  have "TASK_BLOCKED \<in> {TASK_BLOCKED, TASK_WAITING, TASK_HANGING}" by simp
  moreover have "running demo_sched = idle_thread demo_sched \<longrightarrow> TASK_BLOCKED = TASK_BLOCKED" by simp
  moreover have "0x2000 \<in> set (thread_all_list demo_sched)"
    "stat demo_sched 0x2000 \<in> {TASK_BLOCKED, TASK_WAITING, TASK_HANGING}"
    by (simp_all add: demo_sched_def)
  ultimately show ?thesis using block_unblock_safe [OF demo_sched_inv(1)] by blast
qed

text \<open>
  C15. No starvation between runnable threads: if no thread blocks, the thread at position
  \<open>i\<close> of the ready list has the processor after exactly the clock interrupts that the
  slices of the running thread and of the \<open>i\<close> threads before it take
  (\<^verbatim>\<open>ticks + 1\<close> each), and no interrupt fails an assertion on the way.
\<close>

theorem no_starvation:
  assumes "sched_inv s" "magic_ok s" "i < length (thread_ready_list s)"
  shows "\<exists>s'. timer_run (\<Sum>t\<leftarrow>running s # take i (thread_ready_list s).
      unat (task_ticks (tasks s t)) + 1) s = Some s' \<and> running s' = thread_ready_list s ! i \<and> sched_inv s'"
  using round_robin [OF assms] by (auto simp: slices_def)

theorem no_starvation_witness:
  "\<exists>s'. timer_run 6 demo_sched = Some s' \<and> running s' = 0x4000"
proof -
  have "1 < length (thread_ready_list demo_sched)" by (simp add: demo_sched_def)
  from no_starvation [OF demo_sched_inv this] show ?thesis by (auto simp: demo_sched_def)
qed

end
