(* ===== verification/Sync.thy ===== *)
theory Sync
  imports Sched
begin

text \<open>
  Semaphores and locks: \<^verbatim>\<open>src/thread/sync.c\<close>. A semaphore operation runs with interrupts
  off, so it is one step up to the point where it blocks; \<^verbatim>\<open>lock_acquire\<close> and
  \<^verbatim>\<open>lock_release\<close> do not, so the clock can switch threads between any two of their
  statements. \<open>lock_step\<close> is the resulting interleaving of all threads over one lock.
\<close>

section \<open>The operations\<close>

record semaphore =
  sem_value :: u8
  waiters :: "u32 list"

record lock =
  holder :: u32
  sem :: semaphore
  holder_repeat_nr :: u32

definition sema_init :: "u8 \<Rightarrow> semaphore" where
  "sema_init value = \<lparr>sem_value = value, waiters = []\<rparr>"

definition lock_init :: lock where
  "lock_init = \<lparr>holder = 0, sem = sema_init 1, holder_repeat_nr = 0\<rparr>"

text \<open>
  One pass of the loop of \<^verbatim>\<open>sema_down\<close>: \<open>False\<close> when the caller went to sleep (it makes
  the next pass when it is woken), \<open>True\<close> when the semaphore was taken. \<open>old_status\<close> is the
  interrupt state at entry, restored on return.
\<close>

definition sema_down_pass ::
  "intr_status \<Rightarrow> semaphore \<Rightarrow> 'a sched_scheme \<Rightarrow> (bool \<times> semaphore \<times> 'a sched_scheme) option" where
  "sema_down_pass old_status psema s =
     (let s = snd (cpu_intr_disable s)
      in if sem_value psema = 0 then
           if running s \<in> set (waiters psema) then None
           else let psema = psema\<lparr>waiters := waiters psema @ [running s]\<rparr>
             in do { s \<leftarrow> thread_block TASK_BLOCKED s; Some (False, psema, s) }
         else let psema = psema\<lparr>sem_value := sem_value psema - 1\<rparr>
           in if sem_value psema = 0 then Some (True, psema, cpu_intr_set_status old_status s) else None)"

definition sema_up :: "semaphore \<Rightarrow> 'a sched_scheme \<Rightarrow> (semaphore \<times> 'a sched_scheme) option" where
  "sema_up psema s =
     (let (old_status, s) = cpu_intr_disable s
      in if sem_value psema \<noteq> 0 then None
         else do {
           (psema, s) \<leftarrow> (case waiters psema of
               [] \<Rightarrow> Some (psema, s)
             | thread_blocked # rest \<Rightarrow>
                 do { s \<leftarrow> thread_unblock thread_blocked s; Some (psema\<lparr>waiters := rest\<rparr>, s) });
           let psema = psema\<lparr>sem_value := sem_value psema + 1\<rparr>;
           if sem_value psema = 1 then Some (psema, cpu_intr_set_status old_status s) else None })"

text \<open>
  \<^verbatim>\<open>lock_acquire\<close> and \<^verbatim>\<open>lock_release\<close> when nothing intervenes; \<open>lock_acquire\<close> gives
  \<open>None\<close> when it would sleep or fails an assertion.
\<close>

definition lock_acquire :: "lock \<Rightarrow> 'a sched_scheme \<Rightarrow> (lock \<times> 'a sched_scheme) option" where
  "lock_acquire plock s =
     (if holder plock \<noteq> running s then
        do { (taken, psema, s) \<leftarrow> sema_down_pass (intr s) (sem plock) s;
             if taken then
               (let plock = plock\<lparr>sem := psema, holder := running s\<rparr>
                in if holder_repeat_nr plock = 0 then Some (plock\<lparr>holder_repeat_nr := 1\<rparr>, s) else None)
             else None }
      else Some (plock\<lparr>holder_repeat_nr := holder_repeat_nr plock + 1\<rparr>, s))"

definition lock_release :: "lock \<Rightarrow> 'a sched_scheme \<Rightarrow> (lock \<times> 'a sched_scheme) option" where
  "lock_release plock s =
     (if holder plock \<noteq> running s then None
      else if holder_repeat_nr plock > 1 then
        Some (plock\<lparr>holder_repeat_nr := holder_repeat_nr plock - 1\<rparr>, s)
      else if holder_repeat_nr plock \<noteq> 1 then None
      else let plock = plock\<lparr>holder := 0, holder_repeat_nr := 0\<rparr>
        in do { (psema, s) \<leftarrow> sema_up (sem plock) s; Some (plock\<lparr>sem := psema\<rparr>, s) })"

text \<open>A lock nobody holds or waits for.\<close>

definition lock_free :: "lock \<Rightarrow> bool" where
  "lock_free l \<longleftrightarrow> l = lock_init"

lemma lock_init_free [simp]: "lock_free lock_init"
  by (simp add: lock_free_def)

definition held_once :: "u32 \<Rightarrow> lock" where
  "held_once t = \<lparr>holder = t, sem = \<lparr>sem_value = 0, waiters = []\<rparr>, holder_repeat_nr = 1\<rparr>"

lemma lock_acquire_free [simp]:
  "running s \<noteq> 0 \<Longrightarrow> lock_acquire lock_init s = Some (held_once (running s), s)"
  by (simp add: lock_acquire_def lock_init_def sema_init_def sema_down_pass_def
      cpu_intr_disable_def cpu_intr_set_status_def held_once_def)

lemma lock_release_once [simp]:
  "lock_release (held_once (running s)) s = Some (lock_init, s)"
  by (simp add: lock_release_def held_once_def sema_up_def cpu_intr_disable_def
      cpu_intr_set_status_def lock_init_def sema_init_def)

section \<open>All threads over one lock\<close>

text \<open>
  Where a thread is in the code of the lock: outside; in \<^verbatim>\<open>sema_down\<close>; behind it, before
  \<^verbatim>\<open>holder\<close> is set; before \<^verbatim>\<open>holder_repeat_nr\<close> is set; in the critical section; in
  \<^verbatim>\<open>lock_release\<close> after \<^verbatim>\<open>holder = NULL\<close>, and after \<^verbatim>\<open>holder_repeat_nr = 0\<close>.
\<close>

datatype lock_pc = Out | Down | Got | Named | Crit | Rel1 | Rel2

record lstate =
  sch :: sched
  lk :: lock
  pc :: "u32 \<Rightarrow> lock_pc"

definition set_pc :: "u32 \<Rightarrow> lock_pc \<Rightarrow> lstate \<Rightarrow> lstate" where
  "set_pc t p st = st\<lparr>pc := (pc st)(t := p)\<rparr>"

text \<open>The next statement of the running thread \<open>t\<close>, one definition per point of the code.\<close>

definition do_test :: "u32 \<Rightarrow> lstate \<Rightarrow> lstate option" where
  "do_test t st =
     (if holder (lk st) \<noteq> t then Some (set_pc t Down st)
      else Some (st\<lparr>lk := (lk st)\<lparr>holder_repeat_nr := holder_repeat_nr (lk st) + 1\<rparr>\<rparr>))"

definition do_down :: "u32 \<Rightarrow> lstate \<Rightarrow> lstate option" where
  "do_down t st =
     do { (taken, psema, s) \<leftarrow> sema_down_pass (intr (sch st)) (sem (lk st)) (sch st);
          let st = st\<lparr>lk := (lk st)\<lparr>sem := psema\<rparr>, sch := s\<rparr>;
          Some (if taken then set_pc t Got st else st) }"

definition do_name :: "u32 \<Rightarrow> lstate \<Rightarrow> lstate option" where
  "do_name t st = Some (set_pc t Named (st\<lparr>lk := (lk st)\<lparr>holder := t\<rparr>\<rparr>))"

definition do_count :: "u32 \<Rightarrow> lstate \<Rightarrow> lstate option" where
  "do_count t st =
     (if holder_repeat_nr (lk st) \<noteq> 0 then None
      else Some (set_pc t Crit (st\<lparr>lk := (lk st)\<lparr>holder_repeat_nr := 1\<rparr>\<rparr>)))"

definition do_release :: "u32 \<Rightarrow> lstate \<Rightarrow> lstate option" where
  "do_release t st =
     (if holder (lk st) \<noteq> t then None
      else if holder_repeat_nr (lk st) > 1 then
        Some (st\<lparr>lk := (lk st)\<lparr>holder_repeat_nr := holder_repeat_nr (lk st) - 1\<rparr>\<rparr>)
      else if holder_repeat_nr (lk st) \<noteq> 1 then None
      else Some (set_pc t Rel1 (st\<lparr>lk := (lk st)\<lparr>holder := 0\<rparr>\<rparr>)))"

definition do_uncount :: "u32 \<Rightarrow> lstate \<Rightarrow> lstate option" where
  "do_uncount t st = Some (set_pc t Rel2 (st\<lparr>lk := (lk st)\<lparr>holder_repeat_nr := 0\<rparr>\<rparr>))"

definition do_up :: "u32 \<Rightarrow> lstate \<Rightarrow> lstate option" where
  "do_up t st =
     do { (psema, s) \<leftarrow> sema_up (sem (lk st)) (sch st);
          Some (set_pc t Out (st\<lparr>lk := (lk st)\<lparr>sem := psema\<rparr>, sch := s\<rparr>)) }"

definition do_sched :: "(sched \<Rightarrow> sched option) \<Rightarrow> lstate \<Rightarrow> lstate option" where
  "do_sched f st = map_option (\<lambda>s. st\<lparr>sch := s\<rparr>) (f (sch st))"

definition preempt :: "sched \<Rightarrow> sched option" where
  "preempt s = schedule (s\<lparr>intr := INTR_OFF\<rparr>)"

text \<open>
  The actions the state allows, as (label, result): the running thread executes its next
  statement or calls \<^verbatim>\<open>lock_acquire\<close>/\<^verbatim>\<open>lock_release\<close>, the clock switches threads, a
  thread blocks for another reason, or such a thread is woken. The idle thread uses no lock.
  A holder nests its acquisitions less than \<open>2 ^ 32 - 1\<close> deep.
\<close>

datatype action = ATest | ADown | AName | ACount | ARelease | AUncount | AUp
  | APreempt | ABlock task_status | AWake u32

fun enabled :: "lstate \<Rightarrow> action \<Rightarrow> bool" where
  "enabled st ATest \<longleftrightarrow> running (sch st) \<noteq> idle_thread (sch st) \<and>
     pc st (running (sch st)) \<in> {Out, Crit} \<and> holder_repeat_nr (lk st) \<noteq> -1"
| "enabled st ADown \<longleftrightarrow> pc st (running (sch st)) = Down"
| "enabled st AName \<longleftrightarrow> pc st (running (sch st)) = Got"
| "enabled st ACount \<longleftrightarrow> pc st (running (sch st)) = Named"
| "enabled st ARelease \<longleftrightarrow> pc st (running (sch st)) = Crit"
| "enabled st AUncount \<longleftrightarrow> pc st (running (sch st)) = Rel1"
| "enabled st AUp \<longleftrightarrow> pc st (running (sch st)) = Rel2"
| "enabled st APreempt \<longleftrightarrow> True"
| "enabled st (ABlock b) \<longleftrightarrow> b \<in> {TASK_BLOCKED, TASK_WAITING, TASK_HANGING} \<and>
     pc st (running (sch st)) \<in> {Out, Crit} \<and>
     (running (sch st) = idle_thread (sch st) \<longrightarrow> b = TASK_BLOCKED)"
| "enabled st (AWake t) \<longleftrightarrow> t \<in> set (thread_all_list (sch st)) \<and> pc st t \<noteq> Down \<and>
     stat (sch st) t \<in> {TASK_BLOCKED, TASK_WAITING, TASK_HANGING}"

fun execute :: "lstate \<Rightarrow> action \<Rightarrow> lstate option" where
  "execute st ATest = do_test (running (sch st)) st"
| "execute st ADown = do_down (running (sch st)) st"
| "execute st AName = do_name (running (sch st)) st"
| "execute st ACount = do_count (running (sch st)) st"
| "execute st ARelease = do_release (running (sch st)) st"
| "execute st AUncount = do_uncount (running (sch st)) st"
| "execute st AUp = do_up (running (sch st)) st"
| "execute st APreempt = do_sched preempt st"
| "execute st (ABlock b) = do_sched (thread_block b) st"
| "execute st (AWake t) = do_sched (thread_unblock t) st"

inductive lock_step :: "lstate \<Rightarrow> lstate \<Rightarrow> bool" where
  step: "enabled st a \<Longrightarrow> execute st a = Some st' \<Longrightarrow> lock_step st st'"

inductive_cases lock_stepE: "lock_step st st'"

inductive reachable :: "lstate \<Rightarrow> bool" where
  init: "sched_inv s \<Longrightarrow> reachable \<lparr>sch = s, lk = lock_init, pc = (\<lambda>_. Out)\<rparr>"
| next_state: "reachable st \<Longrightarrow> lock_step st st' \<Longrightarrow> reachable st'"

section \<open>The lock invariant\<close>

definition owns :: "lock_pc \<Rightarrow> bool" where
  "owns p \<longleftrightarrow> p \<in> {Got, Named, Crit, Rel1, Rel2}"

definition runnable :: "'a sched_scheme \<Rightarrow> u32 \<Rightarrow> bool" where
  "runnable s t \<longleftrightarrow> stat s t \<in> {TASK_READY, TASK_RUNNING}"

text \<open>What the lock's fields are when the thread \<open>t\<close> owns the semaphore at point \<open>p\<close>.\<close>

fun owner_fields :: "lock_pc \<Rightarrow> u32 \<Rightarrow> lock \<Rightarrow> bool" where
  "owner_fields Got t l \<longleftrightarrow> holder l = 0 \<and> holder_repeat_nr l = 0"
| "owner_fields Named t l \<longleftrightarrow> holder l = t \<and> holder_repeat_nr l = 0"
| "owner_fields Crit t l \<longleftrightarrow> holder l = t \<and> holder_repeat_nr l \<noteq> 0"
| "owner_fields Rel1 t l \<longleftrightarrow> holder l = 0 \<and> holder_repeat_nr l = 1"
| "owner_fields Rel2 t l \<longleftrightarrow> holder l = 0 \<and> holder_repeat_nr l = 0"
| "owner_fields p t l \<longleftrightarrow> False"

definition owner_ok :: "lstate \<Rightarrow> u32 option \<Rightarrow> bool" where
  "owner_ok st ow \<longleftrightarrow> (\<forall>t. owns (pc st t) \<longleftrightarrow> ow = Some t) \<and>
     (case ow of
        None \<Rightarrow> sem_value (sem (lk st)) = 1 \<and> holder (lk st) = 0 \<and> holder_repeat_nr (lk st) = 0
      | Some t \<Rightarrow> sem_value (sem (lk st)) = 0 \<and> t \<in> set (thread_all_list (sch st)) \<and>
          owner_fields (pc st t) t (lk st))"

definition waiters_ok :: "lstate \<Rightarrow> bool" where
  "waiters_ok st \<longleftrightarrow> distinct (waiters (sem (lk st))) \<and>
     (\<forall>t\<in>set (waiters (sem (lk st))). pc st t = Down \<and> stat (sch st) t = TASK_BLOCKED) \<and>
     (\<forall>t. pc st t = Down \<longrightarrow> t \<in> set (thread_all_list (sch st)) \<and>
        (t \<notin> set (waiters (sem (lk st))) \<longrightarrow> runnable (sch st) t))"

definition no_lost_wakeup :: "lstate \<Rightarrow> bool" where
  "no_lost_wakeup st \<longleftrightarrow> (sem_value (sem (lk st)) = 1 \<and> waiters (sem (lk st)) \<noteq> [] \<longrightarrow>
     (\<exists>t. pc st t = Down \<and> runnable (sch st) t))"

definition lock_inv :: "lstate \<Rightarrow> bool" where
  "lock_inv st \<longleftrightarrow> sched_inv (sch st) \<and> pc st (idle_thread (sch st)) = Out \<and>
     (\<exists>ow. owner_ok st ow) \<and> waiters_ok st \<and> no_lost_wakeup st"

section \<open>The invariant is kept\<close>

lemma lock_invD:
  assumes "lock_inv st"
  shows "sched_inv (sch st)" "sched_core (sch st)" "running (sch st) \<in> set (thread_all_list (sch st))"
    "running (sch st) \<noteq> 0" "stat (sch st) (running (sch st)) = TASK_RUNNING"
    "pc st (idle_thread (sch st)) = Out" "waiters_ok st" "no_lost_wakeup st"
  using assms sched_coreD(3,4) [of "sch st"] by (auto simp: lock_inv_def sched_inv_def)

lemma hd_run_queue:
  "hd (run_queue s) \<in> set (thread_ready_list s) \<or> hd (run_queue s) = idle_thread s \<or>
     hd (run_queue s) = running s \<and> stat s (running s) = TASK_RUNNING"
  by (cases "thread_ready_list s") (auto simp: run_queue_def)

lemma dispatch_mono:
  assumes core: "sched_core s" and d: "dispatched s (run_queue s) s'"
  shows "\<lbrakk>t \<in> set (thread_all_list s); t \<noteq> idle_thread s; stat s t = TASK_BLOCKED\<rbrakk> \<Longrightarrow> stat s' t = TASK_BLOCKED"
    and "runnable s t \<Longrightarrow> runnable s' t"
proof -
  assume t: "t \<in> set (thread_all_list s)" "t \<noteq> idle_thread s" "stat s t = TASK_BLOCKED"
  then have "t \<noteq> hd (run_queue s)" using hd_run_queue [of s] sched_coreD(7) [OF core t(1)] by auto
  then show "stat s' t = TASK_BLOCKED" using d t(3) by (simp add: dispatched_def)
next
  assume "runnable s t"
  then show "runnable s' t" using d by (auto simp: dispatched_def runnable_def)
qed

text \<open>A change of the scheduler state alone that leaves the threads in \<^verbatim>\<open>sema_down\<close> as they are.\<close>

lemma lock_inv_sched:
  assumes inv: "lock_inv st" and si: "sched_inv s'"
    and all: "thread_all_list s' = thread_all_list (sch st)" and idle: "idle_thread s' = idle_thread (sch st)"
    and blk: "\<And>t. pc st t = Down \<Longrightarrow> stat (sch st) t = TASK_BLOCKED \<Longrightarrow> stat s' t = TASK_BLOCKED"
    and run: "\<And>t. pc st t = Down \<Longrightarrow> runnable (sch st) t \<Longrightarrow> runnable s' t"
  shows "lock_inv (st\<lparr>sch := s'\<rparr>)"
proof -
  obtain ow where "owner_ok st ow" using inv by (auto simp: lock_inv_def)
  then have "owner_ok (st\<lparr>sch := s'\<rparr>) ow" using all by (simp add: owner_ok_def split: option.splits)
  moreover have "waiters_ok (st\<lparr>sch := s'\<rparr>)"
    using lock_invD(7) [OF inv] blk run by (simp add: waiters_ok_def all)
  moreover have "no_lost_wakeup (st\<lparr>sch := s'\<rparr>)"
    using lock_invD(8) [OF inv] run by (auto simp: no_lost_wakeup_def)
  ultimately show ?thesis using lock_invD(6) [OF inv] si idle by (auto simp: lock_inv_def)
qed

lemma down_not_idle: "lock_inv st \<Longrightarrow> pc st t = Down \<Longrightarrow>
    t \<noteq> idle_thread (sch st) \<and> t \<in> set (thread_all_list (sch st))"
  using lock_invD(6,7) by (fastforce simp: waiters_ok_def)

lemma preempt_ok:
  assumes inv: "lock_inv st"
  shows "\<exists>st'. do_sched preempt st = Some st' \<and> lock_inv st'"
proof -
  define b where "b = (sch st)\<lparr>intr := INTR_OFF\<rparr>"
  have core: "sched_core b" and off: "intr b = INTR_OFF" using lock_invD(2) [OF inv] by (simp_all add: b_def)
  obtain s' where s': "schedule b = Some s'" "dispatched b (run_queue b) s'"
    using schedule_dispatch [OF core off] by blast
  have "lock_inv (st\<lparr>sch := s'\<rparr>)"
  proof (rule lock_inv_sched [OF inv dispatched_inv [OF core s'(2)]])
    show "thread_all_list s' = thread_all_list (sch st)" "idle_thread s' = idle_thread (sch st)"
      using s'(2) by (simp_all add: dispatched_def b_def)
    show "pc st t = Down \<Longrightarrow> stat (sch st) t = TASK_BLOCKED \<Longrightarrow> stat s' t = TASK_BLOCKED" for t
      using dispatch_mono(1) [OF core s'(2)] down_not_idle [OF inv] by (simp add: b_def)
    show "runnable (sch st) t \<Longrightarrow> runnable s' t" for t
      using dispatch_mono(2) [OF core s'(2)] by (simp add: b_def runnable_def)
  qed
  then show ?thesis using s'(1) by (simp add: do_sched_def preempt_def b_def)
qed

lemma block_ok:
  assumes inv: "lock_inv st" and en: "enabled st (ABlock b)"
  shows "\<exists>st'. do_sched (thread_block b) st = Some st' \<and> lock_inv st'"
proof -
  let ?s = "sch st"
  define c where "c = set_status (running ?s) b (?s\<lparr>intr := INTR_OFF\<rparr>)"
  have b: "b \<in> {TASK_BLOCKED, TASK_WAITING, TASK_HANGING}" and p: "pc st (running ?s) \<noteq> Down"
    and idle: "running ?s = idle_thread ?s \<longrightarrow> b = TASK_BLOCKED" using en by auto
  obtain s' where s': "thread_block b ?s = Some s'" "dispatched c (run_queue c) s'" "sched_inv s'"
    using thread_block_spec [OF lock_invD(1) [OF inv] b idle] by (auto simp: c_def)
  have core: "sched_core c" using set_status_core [of "?s\<lparr>intr := INTR_OFF\<rparr>" b] lock_invD(1) [OF inv] b idle
    by (simp add: c_def)
  have st: "stat c t = stat ?s t" if "pc st t = Down" for t using that p by (auto simp: c_def)
  have "lock_inv (st\<lparr>sch := s'\<rparr>)"
  proof (rule lock_inv_sched [OF inv s'(3)])
    show "thread_all_list s' = thread_all_list ?s" "idle_thread s' = idle_thread ?s"
      using s'(2) by (simp_all add: dispatched_def c_def)
    show "pc st t = Down \<Longrightarrow> stat ?s t = TASK_BLOCKED \<Longrightarrow> stat s' t = TASK_BLOCKED" for t
      using dispatch_mono(1) [OF core s'(2), of t] down_not_idle [OF inv, of t] st [of t] by (simp add: c_def)
    show "pc st t = Down \<Longrightarrow> runnable ?s t \<Longrightarrow> runnable s' t" for t
      using dispatch_mono(2) [OF core s'(2), of t] st [of t] by (simp add: runnable_def)
  qed
  then show ?thesis using s'(1) by (simp add: do_sched_def)
qed

lemma wake_ok:
  assumes inv: "lock_inv st" and en: "enabled st (AWake t)"
  shows "\<exists>st'. do_sched (thread_unblock t) st = Some st' \<and> lock_inv st'"
proof -
  obtain s' where s': "thread_unblock t (sch st) = Some s'" "sched_inv s'"
    "thread_all_list s' = thread_all_list (sch st)" "idle_thread s' = idle_thread (sch st)"
    "\<forall>u. stat s' u = (if u = t then TASK_READY else stat (sch st) u)"
    using thread_unblock_inv [OF lock_invD(1) [OF inv], of t] en by auto
  have "lock_inv (st\<lparr>sch := s'\<rparr>)"
    using s' en by (intro lock_inv_sched [OF inv]) (auto simp: runnable_def)
  then show ?thesis using s'(1) by (simp add: do_sched_def)
qed

lemma owner_unique: "owner_ok st ow \<Longrightarrow> owns (pc st t) \<Longrightarrow> ow = Some t"
  by (simp add: owner_ok_def)

lemma owner_is:
  assumes "lock_inv st" "owns (pc st t)"
  shows "owner_ok st (Some t)" "t \<noteq> idle_thread (sch st)" "pc st t \<noteq> Down"
    "sem_value (sem (lk st)) = 0" "owner_fields (pc st t) t (lk st)"
proof -
  obtain ow where ow: "owner_ok st ow" using assms(1) by (auto simp: lock_inv_def)
  then show o': "owner_ok st (Some t)" using owner_unique [OF ow assms(2)] by simp
  show "t \<noteq> idle_thread (sch st)" "pc st t \<noteq> Down"
    using assms lock_invD(6) [OF assms(1)] by (auto simp: owns_def)
  show "sem_value (sem (lk st)) = 0" "owner_fields (pc st t) t (lk st)"
    using o' by (simp_all add: owner_ok_def)
qed

text \<open>A step of the owner that changes its point and the two fields of the lock.\<close>

lemma lock_inv_owner_step:
  assumes inv: "lock_inv st" and own: "owns (pc st t)" "owns p"
    and l: "sem l = sem (lk st)" "owner_fields p t l"
  shows "lock_inv (set_pc t p (st\<lparr>lk := l\<rparr>))"
proof -
  let ?st = "set_pc t p (st\<lparr>lk := l\<rparr>)"
  have p: "p \<noteq> Down" using own(2) by (auto simp: owns_def)
  have pcs: "pc ?st u = Down \<longleftrightarrow> pc st u = Down" for u
    using p owner_is(3) [OF inv own(1)] by (simp add: set_pc_def)
  have "owner_ok ?st (Some t)"
    using owner_is(1) [OF inv own(1)] own l by (auto simp: owner_ok_def set_pc_def)
  moreover have "waiters_ok ?st" using lock_invD(7) [OF inv] l(1)
    unfolding waiters_ok_def pcs by (simp add: set_pc_def)
  moreover have "no_lost_wakeup ?st" using lock_invD(8) [OF inv] l(1)
    unfolding no_lost_wakeup_def pcs by (simp add: set_pc_def)
  ultimately show ?thesis using lock_invD(1,6) [OF inv] owner_is(2) [OF inv own(1)]
    by (auto simp: lock_inv_def set_pc_def)
qed

lemma set_pc_same: "pc st t = p \<Longrightarrow> set_pc t p (st\<lparr>lk := l\<rparr>) = st\<lparr>lk := l\<rparr>"
  by (simp add: set_pc_def fun_upd_idem)

lemma nonzero_less1: "(1 :: u32) < n \<longleftrightarrow> n \<noteq> 0 \<and> n \<noteq> 1"
proof
  assume "n \<noteq> 0 \<and> n \<noteq> 1"
  then have "unat n \<noteq> 0" "unat n \<noteq> 1" using word_eq_unat [of n 0] word_eq_unat [of n 1] by auto
  then show "1 < n" by (simp add: word_less_nat_alt)
qed auto

lemma owner_steps_ok:
  assumes inv: "lock_inv st" and en: "enabled st a" and a: "a \<in> {AName, ACount, ARelease, AUncount}"
  shows "\<exists>st'. execute st a = Some st' \<and> lock_inv st'"
proof -
  let ?t = "running (sch st)" and ?l = "lk st"
  have own: "owns (pc st ?t)" using en a by (auto simp: owns_def)
  note f = owner_is(5) [OF inv own]
  consider "a = AName" | "a = ACount" | "a = ARelease" | "a = AUncount" using a by auto
  then show ?thesis
  proof cases
    case 1
    then have "lock_inv (set_pc ?t Named (st\<lparr>lk := ?l\<lparr>holder := ?t\<rparr>\<rparr>))"
      using f en own by (intro lock_inv_owner_step [OF inv]) (auto simp: owns_def)
    then show ?thesis using 1 by (simp add: do_name_def)
  next
    case 2
    then have "lock_inv (set_pc ?t Crit (st\<lparr>lk := ?l\<lparr>holder_repeat_nr := 1\<rparr>\<rparr>))"
      using f en own by (intro lock_inv_owner_step [OF inv]) (auto simp: owns_def)
    then show ?thesis using 2 f en by (simp add: do_count_def)
  next
    case 3
    then have pc: "pc st ?t = Crit" using en by simp
    then have h: "holder ?l = ?t" "holder_repeat_nr ?l \<noteq> 0" using f by auto
    show ?thesis
    proof (cases "holder_repeat_nr ?l = 1")
      case True
      have "lock_inv (set_pc ?t Rel1 (st\<lparr>lk := ?l\<lparr>holder := 0\<rparr>\<rparr>))"
        using True own by (intro lock_inv_owner_step [OF inv]) (auto simp: owns_def)
      then show ?thesis using 3 True h by (simp add: do_release_def)
    next
      case False
      have "lock_inv (set_pc ?t Crit (st\<lparr>lk := ?l\<lparr>holder_repeat_nr := holder_repeat_nr ?l - 1\<rparr>\<rparr>))"
        using False h own by (intro lock_inv_owner_step [OF inv]) (auto simp: owns_def)
      then show ?thesis using 3 False h pc by (simp add: do_release_def set_pc_same nonzero_less1)
    qed
  next
    case 4
    then have "lock_inv (set_pc ?t Rel2 (st\<lparr>lk := ?l\<lparr>holder_repeat_nr := 0\<rparr>\<rparr>))"
      using f en own by (intro lock_inv_owner_step [OF inv]) (auto simp: owns_def)
    then show ?thesis using 4 by (simp add: do_uncount_def)
  qed
qed

lemma running_not_waiting: "lock_inv st \<Longrightarrow> running (sch st) \<notin> set (waiters (sem (lk st)))"
  using lock_invD(5,7) by (fastforce simp: waiters_ok_def)

lemma test_ok:
  assumes inv: "lock_inv st" and en: "enabled st ATest"
  shows "\<exists>st'. execute st ATest = Some st' \<and> lock_inv st'"
proof -
  let ?t = "running (sch st)" and ?l = "lk st"
  have ti: "?t \<noteq> idle_thread (sch st)" and r: "holder_repeat_nr ?l \<noteq> -1"
    and p: "pc st ?t = Out \<or> pc st ?t = Crit" using en by auto
  obtain ow where ow: "owner_ok st ow" using inv by (auto simp: lock_inv_def)
  show ?thesis
  proof (cases "pc st ?t = Crit")
    case True
    then have own: "owns (pc st ?t)" by (simp add: owns_def)
    then have h: "holder ?l = ?t" using owner_is(5) [OF inv own] True by simp
    have "holder_repeat_nr ?l + 1 \<noteq> 0" using r by (metis add_eq_0_iff minus_equation_iff)
    then have "lock_inv (set_pc ?t Crit (st\<lparr>lk := ?l\<lparr>holder_repeat_nr := holder_repeat_nr ?l + 1\<rparr>\<rparr>))"
      using h own by (intro lock_inv_owner_step [OF inv]) (auto simp: owns_def)
    then show ?thesis using h True by (simp add: do_test_def set_pc_same)
  next
    case False
    then have out: "pc st ?t = Out" using p by simp
    have "holder ?l \<noteq> ?t"
    proof
      assume h: "holder ?l = ?t"
      then obtain u where u: "ow = Some u" using ow lock_invD(4) [OF inv] by (cases ow) (auto simp: owner_ok_def)
      then have "owner_fields (pc st u) u ?l" using ow by (simp add: owner_ok_def)
      then have "u = ?t" using h lock_invD(4) [OF inv] by (cases "pc st u") auto
      then show False using ow u out by (auto simp: owner_ok_def owns_def)
    qed
    then have ex: "execute st ATest = Some (set_pc ?t Down st)" by (simp add: do_test_def)
    let ?st = "set_pc ?t Down st"
    have "owner_ok ?st ow" using ow out
      by (auto simp: owner_ok_def set_pc_def owns_def split: option.splits)
    moreover have "waiters_ok ?st"
      using lock_invD(3,5,7) [OF inv] by (auto simp: waiters_ok_def set_pc_def runnable_def)
    moreover have "runnable (sch st) ?t" using lock_invD(5) [OF inv] by (simp add: runnable_def)
    then have "no_lost_wakeup ?st"
      using lock_invD(8) [OF inv] by (auto simp: no_lost_wakeup_def set_pc_def)
    ultimately have "lock_inv ?st" using lock_invD(1,6) [OF inv] ti by (auto simp: lock_inv_def set_pc_def)
    then show ?thesis using ex by auto
  qed
qed

lemma thread_block_self:
  assumes inv: "sched_inv s" and ne: "running s \<noteq> idle_thread s"
  shows "\<exists>s'. thread_block TASK_BLOCKED s = Some s' \<and> sched_inv s' \<and>
    thread_all_list s' = thread_all_list s \<and> idle_thread s' = idle_thread s \<and>
    stat s' (running s) = TASK_BLOCKED \<and>
    (\<forall>t\<in>set (thread_all_list s). t \<noteq> idle_thread s \<longrightarrow> stat s t = TASK_BLOCKED \<longrightarrow> stat s' t = TASK_BLOCKED) \<and>
    (\<forall>t. t \<noteq> running s \<longrightarrow> runnable s t \<longrightarrow> runnable s' t)"
proof -
  define c where "c = set_status (running s) TASK_BLOCKED (s\<lparr>intr := INTR_OFF\<rparr>)"
  obtain s' where s': "thread_block TASK_BLOCKED s = Some s'" "dispatched c (run_queue c) s'" "sched_inv s'"
    using thread_block_spec [OF inv, of TASK_BLOCKED] by (auto simp: c_def)
  have core: "sched_core c" using set_status_core [of "s\<lparr>intr := INTR_OFF\<rparr>" TASK_BLOCKED] inv
    by (simp add: c_def)
  have r: "running s \<in> set (thread_all_list s)" using inv sched_coreD(4) by (auto simp: sched_inv_def)
  have c: "thread_all_list c = thread_all_list s" "idle_thread c = idle_thread s"
    "\<And>t. stat c t = (if t = running s then TASK_BLOCKED else stat s t)" by (simp_all add: c_def)
  have "stat s' (running s) = TASK_BLOCKED"
    using dispatch_mono(1) [OF core s'(2), of "running s"] r ne c by simp
  moreover have "stat s' t = TASK_BLOCKED"
    if "t \<in> set (thread_all_list s)" "t \<noteq> idle_thread s" "stat s t = TASK_BLOCKED" for t
    using dispatch_mono(1) [OF core s'(2), of t] that c by simp
  moreover have "runnable s' t" if "t \<noteq> running s" "runnable s t" for t
    using dispatch_mono(2) [OF core s'(2), of t] that c by (simp add: runnable_def)
  moreover have "thread_all_list s' = thread_all_list s" "idle_thread s' = idle_thread s"
    using s'(2) c by (simp_all add: dispatched_def)
  ultimately show ?thesis using s'(1,3) by (intro exI [of _ s']) simp
qed

lemma owner_fields_sem [simp]: "owner_fields p t (l\<lparr>sem := x\<rparr>) = owner_fields p t l"
  by (cases p) simp_all

lemma down_sleeps_ok:
  assumes inv: "lock_inv st" and pc: "pc st (running (sch st)) = Down" and v: "sem_value (sem (lk st)) = 0"
  shows "\<exists>st'. do_down (running (sch st)) st = Some st' \<and> lock_inv st'"
proof -
  let ?s = "sch st" and ?t = "running (sch st)" and ?w = "waiters (sem (lk st))"
  have nw: "?t \<notin> set ?w" by (rule running_not_waiting [OF inv])
  define s0 where "s0 = ?s\<lparr>intr := INTR_OFF\<rparr>"
  have s0: "sched_inv s0" "running s0 = ?t" "idle_thread s0 = idle_thread ?s"
    "thread_all_list s0 = thread_all_list ?s" "\<And>t. stat s0 t = stat ?s t" "\<And>t. runnable s0 t = runnable ?s t"
    using lock_invD(1) [OF inv] by (simp_all add: s0_def runnable_def)
  have ne: "running s0 \<noteq> idle_thread s0" using down_not_idle [OF inv pc] s0 by simp
  from thread_block_self [OF s0(1) ne] obtain s' where s': "thread_block TASK_BLOCKED s0 = Some s'" "sched_inv s'"
    "thread_all_list s' = thread_all_list ?s" "idle_thread s' = idle_thread ?s" "stat s' ?t = TASK_BLOCKED"
    "\<forall>t\<in>set (thread_all_list ?s). t \<noteq> idle_thread ?s \<longrightarrow> stat ?s t = TASK_BLOCKED \<longrightarrow> stat s' t = TASK_BLOCKED"
    "\<forall>t. t \<noteq> ?t \<longrightarrow> runnable ?s t \<longrightarrow> runnable s' t"
    unfolding s0(2-6) by blast
  define st' where "st' = st\<lparr>lk := (lk st)\<lparr>sem := (sem (lk st))\<lparr>waiters := ?w @ [?t]\<rparr>\<rparr>, sch := s'\<rparr>"
  have "do_down ?t st = Some st'"
    using v nw s'(1) by (simp add: do_down_def sema_down_pass_def cpu_intr_disable_def st'_def s0_def)
  moreover obtain ow where "owner_ok st ow" using inv by (auto simp: lock_inv_def)
  then have "owner_ok st' ow" using v s'(3) by (simp add: owner_ok_def st'_def split: option.splits)
  moreover have "stat s' u = TASK_BLOCKED" if "u \<in> set (?w @ [?t])" for u
    using that lock_invD(7) [OF inv] s'(5,6) down_not_idle [OF inv, of u] by (auto simp: waiters_ok_def)
  then have "waiters_ok st'"
    using lock_invD(7) [OF inv] pc nw s'(3,7) by (auto simp: waiters_ok_def st'_def)
  moreover have "no_lost_wakeup st'" using v by (simp add: no_lost_wakeup_def st'_def)
  ultimately show ?thesis using s'(2,4) lock_invD(6) [OF inv] by (auto simp: lock_inv_def st'_def)
qed

lemma lock_inv_intr: "lock_inv (st\<lparr>lk := l, sch := (sch st)\<lparr>intr := i\<rparr>, pc := p\<rparr>) = lock_inv (st\<lparr>lk := l, pc := p\<rparr>)"
  by (simp add: lock_inv_def owner_ok_def waiters_ok_def no_lost_wakeup_def runnable_def
      cong: option.case_cong)

lemma down_takes_ok:
  assumes inv: "lock_inv st" and pc: "pc st (running (sch st)) = Down" and v: "sem_value (sem (lk st)) \<noteq> 0"
  shows "\<exists>st'. do_down (running (sch st)) st = Some st' \<and> lock_inv st'"
proof -
  let ?s = "sch st" and ?t = "running (sch st)"
  obtain ow where ow: "owner_ok st ow" using inv by (auto simp: lock_inv_def)
  then have none: "ow = None" using v by (auto simp: owner_ok_def split: option.splits)
  then have f: "sem_value (sem (lk st)) = 1" "holder (lk st) = 0" "holder_repeat_nr (lk st) = 0"
    and no: "\<And>t. \<not> owns (pc st t)" using ow by (simp_all add: owner_ok_def)
  define l where "l = (lk st)\<lparr>sem := (sem (lk st))\<lparr>sem_value := 0\<rparr>\<rparr>"
  define st1 where "st1 = st\<lparr>lk := l, pc := (pc st)(?t := Got)\<rparr>"
  define st' where "st' = st\<lparr>lk := l, sch := ?s\<lparr>intr := intr ?s\<rparr>, pc := (pc st)(?t := Got)\<rparr>"
  have ex: "do_down ?t st = Some st'"
    using f by (simp add: do_down_def sema_down_pass_def cpu_intr_disable_def cpu_intr_set_status_def
        set_pc_def l_def st'_def)
  have "owner_ok st1 (Some ?t)"
    using no f lock_invD(3) [OF inv] by (auto simp: owner_ok_def st1_def l_def owns_def)
  moreover have "waiters_ok st1"
    using lock_invD(7) [OF inv] running_not_waiting [OF inv] by (auto simp: waiters_ok_def st1_def l_def)
  moreover have "no_lost_wakeup st1" by (simp add: no_lost_wakeup_def st1_def l_def)
  ultimately have "lock_inv st1"
    using lock_invD(1,6) [OF inv] down_not_idle [OF inv pc] by (auto simp: lock_inv_def st1_def)
  then show ?thesis using ex by (auto simp: st1_def st'_def lock_inv_intr)
qed

lemma up_ok:
  assumes inv: "lock_inv st" and pc: "pc st (running (sch st)) = Rel2"
  shows "\<exists>st'. do_up (running (sch st)) st = Some st' \<and> lock_inv st'"
proof -
  let ?s = "sch st" and ?t = "running (sch st)" and ?w = "waiters (sem (lk st))"
  have own: "owns (pc st ?t)" using pc by (simp add: owns_def)
  note o = owner_is [OF inv own]
  have f: "holder (lk st) = 0" "holder_repeat_nr (lk st) = 0" using o(5) pc by simp_all
  have pcs: "owns (pc st u) \<longleftrightarrow> u = ?t" for u using o(1) by (auto simp: owner_ok_def)
  show ?thesis
  proof (cases ?w)
    case Nil
    define st1 where "st1 = st\<lparr>lk := (lk st)\<lparr>sem := (sem (lk st))\<lparr>sem_value := 1\<rparr>\<rparr>, pc := (pc st)(?t := Out)\<rparr>"
    have "do_up ?t st = Some (st1\<lparr>sch := ?s\<lparr>intr := intr ?s\<rparr>\<rparr>)"
      using Nil o(4) by (simp add: do_up_def sema_up_def cpu_intr_disable_def cpu_intr_set_status_def
          set_pc_def st1_def)
    moreover have "owner_ok st1 None" using pcs f by (auto simp: owner_ok_def st1_def owns_def)
    moreover have "waiters_ok st1" using lock_invD(7) [OF inv] Nil by (auto simp: waiters_ok_def st1_def)
    moreover have "no_lost_wakeup st1" using Nil by (simp add: no_lost_wakeup_def st1_def)
    ultimately show ?thesis using lock_invD(1,6) [OF inv]
      by (auto simp: lock_inv_def st1_def)
  next
    case (Cons u rest)
    define s0 where "s0 = ?s\<lparr>intr := INTR_OFF\<rparr>"
    have s0: "sched_inv s0" "thread_all_list s0 = thread_all_list ?s" "\<And>x. stat s0 x = stat ?s x"
      "idle_thread s0 = idle_thread ?s"
      using lock_invD(1) [OF inv] by (simp_all add: s0_def)
    have u: "pc st u = Down" "stat ?s u = TASK_BLOCKED" "u \<in> set (thread_all_list ?s)"
      using lock_invD(7) [OF inv] Cons by (auto simp: waiters_ok_def)
    obtain s1 where s1: "thread_unblock u s0 = Some s1" "sched_inv s1"
      "thread_all_list s1 = thread_all_list ?s" "idle_thread s1 = idle_thread ?s"
      "\<forall>x. stat s1 x = (if x = u then TASK_READY else stat ?s x)"
      using thread_unblock_inv [OF s0(1), of u] u s0(2-4) by auto
    define s' where "s' = s1\<lparr>intr := intr ?s\<rparr>"
    have s': "sched_inv s'" "thread_all_list s' = thread_all_list ?s" "idle_thread s' = idle_thread ?s"
      "\<And>x. stat s' x = (if x = u then TASK_READY else stat ?s x)"
      using s1 by (simp_all add: s'_def)
    define st1 where "st1 = st\<lparr>lk := (lk st)\<lparr>sem := \<lparr>sem_value = 1, waiters = rest\<rparr>\<rparr>, sch := s', pc := (pc st)(?t := Out)\<rparr>"
    have "do_up ?t st = Some st1"
      using Cons o(4) s1(1) by (simp add: do_up_def sema_up_def cpu_intr_disable_def cpu_intr_set_status_def
          set_pc_def st1_def s0_def s'_def)
    moreover have "owner_ok st1 None" using pcs f by (auto simp: owner_ok_def st1_def owns_def)
    moreover have "u \<noteq> ?t" using u pc by auto
    moreover have "waiters_ok st1"
      using lock_invD(7) [OF inv] Cons s' pc unfolding waiters_ok_def st1_def
      by (auto simp: runnable_def)
    moreover have "no_lost_wakeup st1"
      using u s' pc by (auto simp: no_lost_wakeup_def st1_def runnable_def intro!: exI [of _ u])
    ultimately show ?thesis using s'(1,3) lock_invD(6) [OF inv]
      by (auto simp: lock_inv_def st1_def)
  qed
qed

lemma lock_progress:
  assumes inv: "lock_inv st" and en: "enabled st a"
  shows "\<exists>st'. execute st a = Some st' \<and> lock_inv st'"
proof (cases a)
  case ADown
  then show ?thesis using en down_sleeps_ok [OF inv] down_takes_ok [OF inv]
    by (cases "sem_value (sem (lk st)) = 0") simp_all
next
  case AUp
  then show ?thesis using en up_ok [OF inv] by simp
qed (use en test_ok [OF inv] owner_steps_ok [OF inv, of a] preempt_ok [OF inv] block_ok [OF inv]
    wake_ok [OF inv] in simp_all)

lemma reachable_inv: "reachable st \<Longrightarrow> lock_inv st"
proof (induction rule: reachable.induct)
  case (init s)
  then show ?case
    by (auto simp: lock_inv_def owner_ok_def waiters_ok_def no_lost_wakeup_def lock_init_def
        sema_init_def owns_def intro!: exI [of _ None])
next
  case (next_state st st')
  then show ?case using lock_progress [of st] by (elim lock_stepE) force
qed

section \<open>Properties\<close>

text \<open>
  C16. Mutual exclusion: in every interleaving of every number of threads, at most one
  thread is between taking a lock's semaphore in \<^verbatim>\<open>lock_acquire\<close> and giving it back in
  \<^verbatim>\<open>lock_release\<close>, and a thread in its critical section is the lock's holder.
\<close>

theorem lock_mutual_exclusion:
  assumes "reachable st" "owns (pc st t)" "owns (pc st u)"
  shows "t = u \<and> (pc st t = Crit \<longrightarrow> holder (lk st) = t \<and> sem_value (sem (lk st)) = 0)"
proof -
  note inv = reachable_inv [OF assms(1)]
  have "t = u" using owner_is(1) [OF inv assms(2)] assms(3) by (simp add: owner_ok_def)
  then show ?thesis using owner_is(4,5) [OF inv assms(2)] by auto
qed

definition demo_lock :: lstate where
  "demo_lock = \<lparr>sch = demo_sched, lk = lock_init, pc = (\<lambda>_. Out)\<rparr>"

fun run_actions :: "action list \<Rightarrow> lstate \<Rightarrow> lstate option" where
  "run_actions [] st = Some st"
| "run_actions (a # as) st =
     (if enabled st a then do { st \<leftarrow> execute st a; run_actions as st } else None)"

lemma run_actions_reachable: "run_actions as st = Some st' \<Longrightarrow> reachable st \<Longrightarrow> reachable st'"
proof (induction as arbitrary: st)
  case (Cons a as)
  then obtain x where x: "enabled st a" "execute st a = Some x" "run_actions as x = Some st'"
    by (auto split: if_splits bind_splits)
  have "reachable x" by (rule reachable.next_state [OF Cons.prems(2) lock_step.step [OF x(1,2)]])
  then show ?case by (rule Cons.IH [OF x(3)])
qed simp

lemma demo_lock_reachable: "reachable demo_lock"
  unfolding demo_lock_def by (rule reachable.init [OF demo_sched_inv(1)])

text \<open>One thread in its critical section; then two others asleep and the lock given back.\<close>

definition demo_taken :: lstate where
  "demo_taken = the (run_actions [ATest, ADown, AName, ACount] demo_lock)"

definition demo_contended :: lstate where
  "demo_contended = the (run_actions [ATest, ADown, AName, ACount, APreempt, ATest, ADown, ATest, ADown,
     ARelease, AUncount, AUp] demo_lock)"

lemma demo_taken_reachable: "reachable demo_taken"
proof -
  have "run_actions [ATest, ADown, AName, ACount] demo_lock \<noteq> None" by code_simp
  then show ?thesis using run_actions_reachable [OF _ demo_lock_reachable] unfolding demo_taken_def by fastforce
qed

lemma demo_taken_facts: "pc demo_taken 0x1000 = Crit" "enabled demo_taken ARelease" "enabled demo_taken APreempt"
  by code_simp+

lemma demo_contended_reachable: "reachable demo_contended"
proof -
  have "run_actions [ATest, ADown, AName, ACount, APreempt, ATest, ADown, ATest, ADown,
     ARelease, AUncount, AUp] demo_lock \<noteq> None" by code_simp
  then show ?thesis
    using run_actions_reachable [OF _ demo_lock_reachable] unfolding demo_contended_def by fastforce
qed

lemma demo_contended_facts: "sem_value (sem (lk demo_contended)) = 1" "waiters (sem (lk demo_contended)) = [0x4000]"
  by code_simp+

theorem lock_mutual_exclusion_witness:
  "holder (lk demo_taken) = 0x1000 \<and> sem_value (sem (lk demo_taken)) = 0"
proof -
  have "owns (pc demo_taken 0x1000)" using demo_taken_facts(1) by (simp add: owns_def)
  from lock_mutual_exclusion [OF demo_taken_reachable this this] show ?thesis
    using demo_taken_facts(1) by simp
qed

text \<open>
  C31. No assertion of the lock code or of the scheduler fails: in every reachable state
  every statement that the running thread, the clock or a waking thread can execute next
  succeeds.
\<close>

theorem lock_assertions_hold:
  assumes "reachable st" "enabled st a"
  shows "execute st a \<noteq> None"
  using lock_progress [OF reachable_inv [OF assms(1)] assms(2)] by auto

theorem lock_assertions_hold_witness:
  "execute demo_taken ARelease \<noteq> None \<and> execute demo_taken APreempt \<noteq> None"
  using lock_assertions_hold [OF demo_taken_reachable] demo_taken_facts(2,3) by blast

text \<open>
  C17. No lost wakeup: whenever a lock is free while threads still sleep in its waiters
  list, a runnable thread is inside \<^verbatim>\<open>sema_down\<close> and will try the semaphore again; a
  sleeping thread is never also in the ready list.
\<close>

theorem lock_no_lost_wakeup:
  assumes "reachable st" "sem_value (sem (lk st)) \<noteq> 0" "waiters (sem (lk st)) \<noteq> []"
  shows "(\<exists>t. pc st t = Down \<and> stat (sch st) t \<in> {TASK_READY, TASK_RUNNING}) \<and>
    set (waiters (sem (lk st))) \<inter> set (thread_ready_list (sch st)) = {}"
proof -
  note inv = reachable_inv [OF assms(1)]
  obtain ow where "owner_ok st ow" using inv by (auto simp: lock_inv_def)
  then have "sem_value (sem (lk st)) = 1" using assms(2) by (auto simp: owner_ok_def split: option.splits)
  then have "\<exists>t. pc st t = Down \<and> stat (sch st) t \<in> {TASK_READY, TASK_RUNNING}"
    using lock_invD(8) [OF inv] assms(3) by (simp add: no_lost_wakeup_def runnable_def)
  moreover have "t \<notin> set (thread_ready_list (sch st))" if "t \<in> set (waiters (sem (lk st)))" for t
    using that lock_invD(7) [OF inv] sched_coreD(2,7) [OF lock_invD(2) [OF inv]]
    by (fastforce simp: waiters_ok_def)
  ultimately show ?thesis by blast
qed

theorem lock_no_lost_wakeup_witness:
  "\<exists>t. pc demo_contended t = Down \<and> stat (sch demo_contended) t \<in> {TASK_READY, TASK_RUNNING}"
proof -
  have "sem_value (sem (lk demo_contended)) \<noteq> 0" "waiters (sem (lk demo_contended)) \<noteq> []"
    by (simp_all add: demo_contended_facts)
  from lock_no_lost_wakeup [OF demo_contended_reachable this] show ?thesis by blast
qed

end
