(* ===== verification/Ioqueue.thy ===== *)
theory Ioqueue
  imports Sync "HOL-Library.Signed_Division"
begin

text \<open>
  The bounded byte queue of \<^verbatim>\<open>src/device/ioqueue.c\<close>, used by the keyboard and by pipes, and
  the transfer loops of \<^verbatim>\<open>src/shell/pipe.c\<close>. The ring buffer refines a FIFO list of at most
  2047 bytes; a producer that finds it full, or a consumer that finds it empty, registers
  itself and sleeps.
\<close>

section \<open>The code\<close>

record ioqueue =
  ioq_lock :: lock
  producer :: u32
  consumer :: u32
  buf :: "u32 \<Rightarrow> u8"
  head_pos :: u32
  tail_pos :: u32

definition ioqueue_init :: "ioqueue \<Rightarrow> ioqueue" where
  "ioqueue_init ioq =
     ioq\<lparr>ioq_lock := lock_init, producer := 0, consumer := 0, head_pos := 0, tail_pos := 0\<rparr>"

definition next_pos :: "u32 \<Rightarrow> u32" where
  "next_pos pos = word_of_int (sint (pos + 1) smod 2048)"

definition ioq_full :: "ioqueue \<Rightarrow> 'a sched_scheme \<Rightarrow> bool option" where
  "ioq_full ioq s = (if intr s \<noteq> INTR_OFF then None else Some (next_pos (head_pos ioq) = tail_pos ioq))"

definition ioq_empty :: "ioqueue \<Rightarrow> 'a sched_scheme \<Rightarrow> bool option" where
  "ioq_empty ioq s = (if intr s \<noteq> INTR_OFF then None else Some (head_pos ioq = tail_pos ioq))"

text \<open>\<open>ioq_wait\<close> and \<open>wakeup\<close> take the waiter field and return its new value.\<close>

definition ioq_wait :: "u32 \<Rightarrow> 'a sched_scheme \<Rightarrow> (u32 \<times> 'a sched_scheme) option" where
  "ioq_wait waiter s =
     (if waiter \<noteq> 0 then None else do { s' \<leftarrow> thread_block TASK_BLOCKED s; Some (running s, s') })"

definition wakeup :: "u32 \<Rightarrow> 'a sched_scheme \<Rightarrow> (u32 \<times> 'a sched_scheme) option" where
  "wakeup waiter s = (if waiter = 0 then None else do { s \<leftarrow> thread_unblock waiter s; Some (0, s) })"

definition ioq_store :: "u8 \<Rightarrow> ioqueue \<Rightarrow> ioqueue" where
  "ioq_store byte ioq =
     ioq\<lparr>buf := (buf ioq)(head_pos ioq := byte), head_pos := next_pos (head_pos ioq)\<rparr>"

definition ioq_fetch :: "ioqueue \<Rightarrow> u8 \<times> ioqueue" where
  "ioq_fetch ioq = (buf ioq (tail_pos ioq), ioq\<lparr>tail_pos := next_pos (tail_pos ioq)\<rparr>)"

text \<open>
  One pass of the loop of \<^verbatim>\<open>ioq_getchar\<close> and \<^verbatim>\<open>ioq_putchar\<close>: the byte (or the fact that it
  was stored), or \<open>None\<close> when the caller registered itself and went to sleep inside its
  \<^verbatim>\<open>lock\<close>; \<open>ioq_resume\<close> is what it does when it wakes, before its next pass. (The outer
  option is a failed assertion, or sleeping on the lock another sleeper holds.)
\<close>

definition ioq_getchar :: "ioqueue \<Rightarrow> 'a sched_scheme \<Rightarrow> (u8 option \<times> ioqueue \<times> 'a sched_scheme) option" where
  "ioq_getchar ioq s =
     (if intr s \<noteq> INTR_OFF then None
      else do {
        empty \<leftarrow> ioq_empty ioq s;
        if empty then
          do { (l, s) \<leftarrow> lock_acquire (ioq_lock ioq) s;
               (w, s) \<leftarrow> ioq_wait (consumer ioq) s;
               Some (None, ioq\<lparr>ioq_lock := l, consumer := w\<rparr>, s) }
        else
          do { let (byte, ioq) = ioq_fetch ioq;
               (w, s) \<leftarrow> (if producer ioq \<noteq> 0 then wakeup (producer ioq) s else Some (producer ioq, s));
               Some (Some byte, ioq\<lparr>producer := w\<rparr>, s) } })"

definition ioq_putchar :: "u8 \<Rightarrow> ioqueue \<Rightarrow> 'a sched_scheme \<Rightarrow> (unit option \<times> ioqueue \<times> 'a sched_scheme) option" where
  "ioq_putchar byte ioq s =
     (if intr s \<noteq> INTR_OFF then None
      else do {
        full \<leftarrow> ioq_full ioq s;
        if full then
          do { (l, s) \<leftarrow> lock_acquire (ioq_lock ioq) s;
               (w, s) \<leftarrow> ioq_wait (producer ioq) s;
               Some (None, ioq\<lparr>ioq_lock := l, producer := w\<rparr>, s) }
        else
          do { let ioq = ioq_store byte ioq;
               (w, s) \<leftarrow> (if consumer ioq \<noteq> 0 then wakeup (consumer ioq) s else Some (consumer ioq, s));
               Some (Some (), ioq\<lparr>consumer := w\<rparr>, s) } })"

definition ioq_resume :: "ioqueue \<Rightarrow> 'a sched_scheme \<Rightarrow> (ioqueue \<times> 'a sched_scheme) option" where
  "ioq_resume ioq s = do { (l, s) \<leftarrow> lock_release (ioq_lock ioq) s; Some (ioq\<lparr>ioq_lock := l\<rparr>, s) }"

definition ioq_length :: "ioqueue \<Rightarrow> u32" where
  "ioq_length ioq =
     (if sint (tail_pos ioq) \<le> sint (head_pos ioq) then head_pos ioq - tail_pos ioq
      else 2048 - (tail_pos ioq - head_pos ioq))"

text \<open>
  The loops of \<^verbatim>\<open>pipe_read\<close> and \<^verbatim>\<open>pipe_write\<close> on the queue behind the descriptor. The flag
  is \<open>False\<close> when the process went to sleep in the middle of the call.
\<close>

fun pipe_read_loop :: "nat \<Rightarrow> ioqueue \<Rightarrow> 'a sched_scheme \<Rightarrow> (bool \<times> u8 list \<times> ioqueue \<times> 'a sched_scheme) option" where
  "pipe_read_loop 0 ioq s = Some (True, [], ioq, s)"
| "pipe_read_loop (Suc n) ioq s =
     do { (got, ioq, s) \<leftarrow> ioq_getchar ioq s;
          case got of
            None \<Rightarrow> Some (False, [], ioq, s)
          | Some byte \<Rightarrow> do { (finished, bs, ioq, s) \<leftarrow> pipe_read_loop n ioq s;
                            Some (finished, byte # bs, ioq, s) } }"

definition pipe_read :: "u32 \<Rightarrow> ioqueue \<Rightarrow> 'a sched_scheme \<Rightarrow> (bool \<times> u8 list \<times> ioqueue \<times> 'a sched_scheme) option" where
  "pipe_read count ioq s =
     (let ioq_len = ioq_length ioq; size = (if ioq_len > count then count else ioq_len)
      in pipe_read_loop (unat size) ioq s)"

fun pipe_write_loop :: "u8 list \<Rightarrow> ioqueue \<Rightarrow> 'a sched_scheme \<Rightarrow> (bool \<times> nat \<times> ioqueue \<times> 'a sched_scheme) option" where
  "pipe_write_loop [] ioq s = Some (True, 0, ioq, s)"
| "pipe_write_loop (b # bs) ioq s =
     do { (put, ioq, s) \<leftarrow> ioq_putchar b ioq s;
          case put of
            None \<Rightarrow> Some (False, 0, ioq, s)
          | Some _ \<Rightarrow> do { (finished, n, ioq, s) \<leftarrow> pipe_write_loop bs ioq s;
                         Some (finished, Suc n, ioq, s) } }"

definition pipe_write :: "u8 list \<Rightarrow> ioqueue \<Rightarrow> 'a sched_scheme \<Rightarrow> (bool \<times> nat \<times> ioqueue \<times> 'a sched_scheme) option" where
  "pipe_write bytes ioq s =
     (let count = of_nat (length bytes); ioq_left = 2048 - ioq_length ioq;
          size = (if ioq_left > count then count else ioq_left)
      in pipe_write_loop (take (unat size) bytes) ioq s)"

section \<open>The queue interface\<close>

fun put_all :: "('b \<Rightarrow> 'q \<Rightarrow> 'q option) \<Rightarrow> 'b list \<Rightarrow> 'q \<Rightarrow> 'q option" where
  "put_all put [] q = Some q"
| "put_all put (b # bs) q = do { q \<leftarrow> put b q; put_all put bs q }"

fun get_many :: "('q \<Rightarrow> ('b \<times> 'q) option) \<Rightarrow> nat \<Rightarrow> 'q \<Rightarrow> ('b list \<times> 'q) option" where
  "get_many get 0 q = Some ([], q)"
| "get_many get (Suc n) q =
     do { (b, q) \<leftarrow> get q; (bs, q) \<leftarrow> get_many get n q; Some (b # bs, q) }"

locale bounded_fifo =
  fixes put :: "'b \<Rightarrow> 'q \<Rightarrow> 'q option" and get :: "'q \<Rightarrow> ('b \<times> 'q) option"
    and contents :: "'q \<Rightarrow> 'b list" and ok :: "'q \<Rightarrow> bool" and cap :: nat
  assumes put_ok: "ok q \<Longrightarrow> length (contents q) < cap \<Longrightarrow>
      \<exists>q'. put b q = Some q' \<and> ok q' \<and> contents q' = contents q @ [b]"
    and put_full: "ok q \<Longrightarrow> cap \<le> length (contents q) \<Longrightarrow> put b q = None"
    and get_ok: "ok q \<Longrightarrow> contents q = b # bs \<Longrightarrow> \<exists>q'. get q = Some (b, q') \<and> ok q' \<and> contents q' = bs"
    and get_empty: "ok q \<Longrightarrow> contents q = [] \<Longrightarrow> get q = None"
begin

lemma put_all_contents:
  "ok q \<Longrightarrow> length (contents q) + length bs \<le> cap \<Longrightarrow>
     \<exists>q'. put_all put bs q = Some q' \<and> ok q' \<and> contents q' = contents q @ bs"
proof (induction bs arbitrary: q)
  case (Cons b bs)
  then obtain q1 where "put b q = Some q1" "ok q1" "contents q1 = contents q @ [b]"
    using put_ok [of q b] by auto
  then show ?case using Cons.IH [of q1] Cons.prems by auto
qed simp

lemma put_all_overflow:
  "ok q \<Longrightarrow> length (contents q) \<le> cap \<Longrightarrow> cap < length (contents q) + length bs \<Longrightarrow> put_all put bs q = None"
proof (induction bs arbitrary: q)
  case (Cons b bs)
  show ?case
  proof (cases "length (contents q) < cap")
    case True
    then obtain q1 where "put b q = Some q1" "ok q1" "contents q1 = contents q @ [b]"
      using put_ok [of q b] Cons.prems(1) by auto
    then show ?thesis using Cons.IH [of q1] Cons.prems True by simp
  qed (use Cons.prems put_full [of q b] in simp)
qed simp

lemma get_many_contents:
  "ok q \<Longrightarrow> contents q = bs @ cs \<Longrightarrow>
     \<exists>q'. get_many get (length bs) q = Some (bs, q') \<and> ok q' \<and> contents q' = cs"
proof (induction bs arbitrary: q)
  case (Cons b bs)
  then obtain q1 where "get q = Some (b, q1)" "ok q1" "contents q1 = bs @ cs"
    using get_ok [of q b "bs @ cs"] by auto
  then show ?case using Cons.IH [of q1] by auto
qed simp

lemma fifo_order:
  assumes "ok q" "length (contents q) + length bs \<le> cap"
  shows "\<exists>q1 q2. put_all put bs q = Some q1 \<and>
    get_many get (length (contents q) + length bs) q1 = Some (contents q @ bs, q2) \<and>
    ok q2 \<and> contents q2 = []"
proof -
  obtain q1 where q1: "put_all put bs q = Some q1" "ok q1" "contents q1 = contents q @ bs"
    using put_all_contents [OF assms] by blast
  then show ?thesis using get_many_contents [OF q1(2), of "contents q @ bs" "[]"] by simp
qed

end

section \<open>The ring buffer implements it\<close>

definition ring_ok :: "ioqueue \<Rightarrow> bool" where
  "ring_ok ioq \<longleftrightarrow> unat (head_pos ioq) < 2048 \<and> unat (tail_pos ioq) < 2048"

definition ring_len :: "ioqueue \<Rightarrow> nat" where
  "ring_len ioq = (let h = unat (head_pos ioq); t = unat (tail_pos ioq)
                   in if t \<le> h then h - t else h + 2048 - t)"

definition ring_at :: "ioqueue \<Rightarrow> nat \<Rightarrow> nat" where
  "ring_at ioq i = (let p = unat (tail_pos ioq) + i in if p < 2048 then p else p - 2048)"

definition ring_contents :: "ioqueue \<Rightarrow> u8 list" where
  "ring_contents ioq = map (\<lambda>i. buf ioq (of_nat (ring_at ioq i))) [0..<ring_len ioq]"

definition ring_put :: "u8 \<Rightarrow> ioqueue \<Rightarrow> ioqueue option" where
  "ring_put b ioq = (if next_pos (head_pos ioq) = tail_pos ioq then None else Some (ioq_store b ioq))"

definition ring_get :: "ioqueue \<Rightarrow> (u8 \<times> ioqueue) option" where
  "ring_get ioq = (if head_pos ioq = tail_pos ioq then None else Some (ioq_fetch ioq))"

lemma length_ring_contents [simp]: "length (ring_contents ioq) = ring_len ioq"
  by (simp add: ring_contents_def)

lemma unat_next_pos:
  assumes "unat pos < 2048"
  shows "unat (next_pos pos) = (if unat pos = 2047 then 0 else unat pos + 1)"
proof -
  define n where "n = (if unat pos = 2047 then 0 else unat pos + 1)"
  have "unat (pos + 1) = unat pos + 1" using assms by (intro unat_inc_small) simp
  moreover from this have "sint (pos + 1) = int (unat pos + 1)" using assms by (subst sint_small) simp_all
  moreover have "int (unat pos + 1) smod 2048 = int n"
  proof -
    have "int (unat pos + 1) smod 2048 = int (unat pos + 1) mod 2048"
      by (rule smod_mod_positive) simp_all
    also have "\<dots> = int ((unat pos + 1) mod 2048)" by (simp only: of_nat_mod of_nat_numeral)
    also have "(unat pos + 1) mod 2048 = n" using assms by (auto simp: n_def)
    finally show ?thesis .
  qed
  ultimately have "next_pos pos = of_nat n" by (simp only: next_pos_def) simp
  moreover have "n < 2 ^ 32" using assms by (simp add: n_def)
  ultimately show ?thesis unfolding n_def by (simp only: unat_of_nat_32)
qed

lemma ring_full_iff: "ring_ok q \<Longrightarrow> next_pos (head_pos q) = tail_pos q \<longleftrightarrow> ring_len q = 2047"
  by (auto simp: word_eq_unat unat_next_pos ring_ok_def ring_len_def Let_def)

lemma ring_empty_iff: "ring_ok q \<Longrightarrow> head_pos q = tail_pos q \<longleftrightarrow> ring_len q = 0"
  by (auto simp: word_eq_unat ring_ok_def ring_len_def Let_def)

lemma ring_len_le: "ring_ok q \<Longrightarrow> ring_len q \<le> 2047"
  by (auto simp: ring_ok_def ring_len_def Let_def)

lemma ring_at_len: "ring_ok q \<Longrightarrow> ring_at q (ring_len q) = unat (head_pos q)"
  by (auto simp: ring_at_def ring_len_def ring_ok_def Let_def)

lemma ring_at_less: "ring_ok q \<Longrightarrow> i \<le> 2047 \<Longrightarrow> ring_at q i < 2048"
  by (auto simp: ring_at_def ring_ok_def Let_def)

lemma ring_at_neq: "ring_ok q \<Longrightarrow> i < ring_len q \<Longrightarrow> ring_at q i \<noteq> unat (head_pos q)"
  by (auto simp: ring_at_def ring_len_def ring_ok_def Let_def split: if_splits)

lemma ring_store:
  assumes q: "ring_ok q" and l: "ring_len q < 2047"
  shows "ring_ok (ioq_store b q) \<and> ring_contents (ioq_store b q) = ring_contents q @ [b]"
proof -
  have h: "unat (next_pos (head_pos q)) = (if unat (head_pos q) = 2047 then 0 else unat (head_pos q) + 1)"
    using q by (intro unat_next_pos) (simp add: ring_ok_def)
  have ok: "ring_ok (ioq_store b q)" using q h by (simp add: ring_ok_def ioq_store_def)
  have len: "ring_len (ioq_store b q) = Suc (ring_len q)"
    using q l h by (auto simp: ring_ok_def ring_len_def ioq_store_def Let_def split: if_splits)
  have at: "ring_at (ioq_store b q) i = ring_at q i" for i by (simp add: ring_at_def ioq_store_def)
  have old: "of_nat (ring_at q i) \<noteq> head_pos q" if "i < ring_len q" for i
  proof
    assume "of_nat (ring_at q i) = head_pos q"
    then have "unat (of_nat (ring_at q i) :: u32) = unat (head_pos q)" by simp
    moreover have "ring_at q i < 2 ^ 32" using ring_at_less [OF q, of i] that l by simp
    ultimately show False using ring_at_neq [OF q that] by (simp only: unat_of_nat_32)
  qed
  have "map (\<lambda>i. buf (ioq_store b q) (of_nat (ring_at q i))) [0..<ring_len q] =
      map (\<lambda>i. buf q (of_nat (ring_at q i))) [0..<ring_len q]"
    using old by (intro map_cong) (auto simp: ioq_store_def)
  moreover have "buf (ioq_store b q) (of_nat (ring_at q (ring_len q))) = b"
    by (simp add: ring_at_len [OF q] ioq_store_def)
  ultimately show ?thesis using ok by (simp add: ring_contents_def len at)
qed

lemma ring_fetch:
  assumes q: "ring_ok q" and l: "ring_len q \<noteq> 0"
  shows "ring_ok (snd (ioq_fetch q)) \<and> ring_contents q = fst (ioq_fetch q) # ring_contents (snd (ioq_fetch q))"
proof -
  let ?q = "snd (ioq_fetch q)"
  have t: "unat (next_pos (tail_pos q)) = (if unat (tail_pos q) = 2047 then 0 else unat (tail_pos q) + 1)"
    using q by (intro unat_next_pos) (simp add: ring_ok_def)
  have ok: "ring_ok ?q" using q t by (simp add: ring_ok_def ioq_fetch_def)
  have len: "ring_len q = Suc (ring_len ?q)"
    using q l t by (auto simp: ring_ok_def ring_len_def ioq_fetch_def Let_def split: if_splits)
  have at: "ring_at ?q i = ring_at q (Suc i)" if "i < ring_len ?q" for i
    using q t that len ring_len_le [OF q] by (auto simp: ring_at_def ioq_fetch_def ring_ok_def Let_def)
  have a0: "ring_at q 0 = unat (tail_pos q)" using q by (simp add: ring_at_def ring_ok_def)
  have "ring_contents q = fst (ioq_fetch q) #
      map (\<lambda>i. buf q (of_nat (ring_at q (Suc i)))) [0..<ring_len ?q]"
    unfolding ring_contents_def len by (simp only: upt_conv_Cons zero_less_Suc list.map a0 map_Suc_upt [symmetric] map_map)
      (simp add: ioq_fetch_def comp_def)
  also have "map (\<lambda>i. buf q (of_nat (ring_at q (Suc i)))) [0..<ring_len ?q] = ring_contents ?q"
    unfolding ring_contents_def by (intro map_cong) (simp_all add: at, simp add: ioq_fetch_def)
  finally show ?thesis using ok by simp
qed

interpretation ring: bounded_fifo ring_put ring_get ring_contents ring_ok 2047
proof
  fix q b assume "ring_ok q" "length (ring_contents q) < 2047"
  then show "\<exists>q'. ring_put b q = Some q' \<and> ring_ok q' \<and> ring_contents q' = ring_contents q @ [b]"
    using ring_store [of q b] by (simp add: ring_put_def ring_full_iff)
next
  fix q b assume "ring_ok q" "2047 \<le> length (ring_contents q)"
  then show "ring_put b q = None" using ring_len_le [of q] by (simp add: ring_put_def ring_full_iff)
next
  fix q b bs assume a: "ring_ok q" "ring_contents q = b # bs"
  then have "ring_len q \<noteq> 0" using length_ring_contents [of q] by simp
  then show "\<exists>q'. ring_get q = Some (b, q') \<and> ring_ok q' \<and> ring_contents q' = bs"
    using ring_fetch [OF a(1)] a by (cases "ioq_fetch q") (auto simp: ring_get_def ring_empty_iff)
next
  fix q assume a: "ring_ok q" "ring_contents q = []"
  then have "ring_len q = 0" using length_ring_contents [of q] by simp
  then show "ring_get q = None" using a(1) by (simp add: ring_get_def ring_empty_iff)
qed

section \<open>The calls of the kernel\<close>

text \<open>A queue nobody sleeps on.\<close>

definition quiet :: "ioqueue \<Rightarrow> bool" where
  "quiet ioq \<longleftrightarrow> ring_ok ioq \<and> ioq_lock ioq = lock_init \<and> producer ioq = 0 \<and> consumer ioq = 0"

lemma quiet_store: "quiet q \<Longrightarrow> ring_len q < 2047 \<Longrightarrow> quiet (ioq_store b q)"
  using ring_store [of q b] by (simp add: quiet_def) (simp add: ioq_store_def)

lemma quiet_fetch: "quiet q \<Longrightarrow> ring_len q \<noteq> 0 \<Longrightarrow> quiet (snd (ioq_fetch q))"
  using ring_fetch [of q] by (simp add: quiet_def) (simp add: ioq_fetch_def)

lemma putchar_quiet:
  "quiet q \<Longrightarrow> intr s = INTR_OFF \<Longrightarrow> ring_len q < 2047 \<Longrightarrow>
     ioq_putchar b q s = Some (Some (), ioq_store b q, s)"
  by (simp add: ioq_putchar_def ioq_full_def quiet_def ring_full_iff) (simp add: ioq_store_def)

lemma getchar_quiet:
  "quiet q \<Longrightarrow> intr s = INTR_OFF \<Longrightarrow> ring_len q \<noteq> 0 \<Longrightarrow>
     ioq_getchar q s = Some (Some (fst (ioq_fetch q)), snd (ioq_fetch q), s)"
  by (simp add: ioq_getchar_def ioq_empty_def quiet_def ring_empty_iff case_prod_beta)
    (simp add: ioq_fetch_def)

lemma unat_ioq_length: "ring_ok q \<Longrightarrow> unat (ioq_length q) = ring_len q"
proof -
  assume q: "ring_ok q"
  have "sint (head_pos q) = int (unat (head_pos q))" "sint (tail_pos q) = int (unat (tail_pos q))"
    using q by (simp_all add: ring_ok_def sint_small)
  then have s: "sint (tail_pos q) \<le> sint (head_pos q) \<longleftrightarrow> unat (tail_pos q) \<le> unat (head_pos q)"
    by (simp only: of_nat_le_iff)
  show ?thesis
  proof (cases "unat (tail_pos q) \<le> unat (head_pos q)")
    case True
    then have "tail_pos q \<le> head_pos q" by (simp add: word_le_nat_alt)
    then show ?thesis using True by (simp add: ioq_length_def s ring_len_def unat_sub)
  next
    case False
    then have "head_pos q \<le> tail_pos q" by (simp add: word_le_nat_alt)
    then have d: "unat (tail_pos q - head_pos q) = unat (tail_pos q) - unat (head_pos q)" by (simp add: unat_sub)
    then have "tail_pos q - head_pos q \<le> 2048" using q by (simp add: word_le_nat_alt ring_ok_def) linarith
    then have "unat (2048 - (tail_pos q - head_pos q)) = 2048 - (unat (tail_pos q) - unat (head_pos q))"
      by (simp add: unat_sub d)
    then show ?thesis using False q by (simp add: ioq_length_def s ring_len_def ring_ok_def)
  qed
qed

lemma pipe_write_loop_fits:
  "quiet q \<Longrightarrow> intr s = INTR_OFF \<Longrightarrow> ring_len q + length bs \<le> 2047 \<Longrightarrow>
     \<exists>q'. pipe_write_loop bs q s = Some (True, length bs, q', s) \<and> quiet q' \<and>
       ring_contents q' = ring_contents q @ bs"
proof (induction bs arbitrary: q)
  case (Cons b bs)
  then have l: "ring_len q < 2047" by simp
  have q1: "quiet (ioq_store b q)" and c: "ring_contents (ioq_store b q) = ring_contents q @ [b]"
    using quiet_store [OF Cons.prems(1) l] ring_store [OF _ l] Cons.prems(1) by (auto simp: quiet_def)
  have "ring_len (ioq_store b q) = Suc (ring_len q)"
    using c length_ring_contents [of "ioq_store b q"] by simp
  then show ?case using Cons.IH [OF q1 Cons.prems(2)] Cons.prems putchar_quiet [OF Cons.prems(1,2) l, of b] c
    by auto
qed simp

lemma pipe_read_loop_gets:
  "quiet q \<Longrightarrow> intr s = INTR_OFF \<Longrightarrow> ring_contents q = bs @ cs \<Longrightarrow>
     \<exists>q'. pipe_read_loop (length bs) q s = Some (True, bs, q', s) \<and> quiet q' \<and> ring_contents q' = cs"
proof (induction bs arbitrary: q)
  case (Cons b bs)
  then have l: "ring_len q \<noteq> 0" using length_ring_contents [of q] by simp
  have q1: "quiet (snd (ioq_fetch q))" and c: "fst (ioq_fetch q) = b" "ring_contents (snd (ioq_fetch q)) = bs @ cs"
    using quiet_fetch [OF Cons.prems(1) l] ring_fetch [OF _ l] Cons.prems(1,3) by (auto simp: quiet_def)
  then show ?case using Cons.IH [OF q1 Cons.prems(2)] getchar_quiet [OF Cons.prems(1,2) l] by auto
qed simp

lemma putchar_full_sleeps:
  assumes q: "quiet q" and full: "ring_len q = 2047" and s: "sched_inv s" "intr s = INTR_OFF"
    and ne: "running s \<noteq> idle_thread s"
  shows "\<exists>q' s'. ioq_putchar b q s = Some (None, q', s') \<and> producer q' = running s \<and>
    ring_contents q' = ring_contents q \<and> stat s' (running s) = TASK_BLOCKED \<and> sched_inv s'"
proof -
  have "running s \<noteq> 0" using s(1) sched_coreD(3,4) by (fastforce simp: sched_inv_def)
  then have a: "lock_acquire (ioq_lock q) s = Some (held_once (running s), s)" using q by (simp add: quiet_def)
  obtain s' where s': "thread_block TASK_BLOCKED s = Some s'" "sched_inv s'" "stat s' (running s) = TASK_BLOCKED"
    using thread_block_self [OF s(1) ne] by blast
  have "ioq_putchar b q s = Some (None, q\<lparr>ioq_lock := held_once (running s), producer := running s\<rparr>, s')"
    using q full s a s'(1) by (simp add: ioq_putchar_def ioq_full_def quiet_def ring_full_iff ioq_wait_def)
  then show ?thesis using s' by (simp add: ring_contents_def ring_len_def ring_at_def)
qed

lemma pipe_write_loop_overflow:
  assumes "quiet q" "sched_inv s" "intr s = INTR_OFF" "running s \<noteq> idle_thread s"
    and "2047 < ring_len q + length bs"
  shows "\<exists>q' s'. pipe_write_loop bs q s = Some (False, 2047 - ring_len q, q', s') \<and>
    stat s' (running s) = TASK_BLOCKED \<and> sched_inv s' \<and> ring_contents q' = ring_contents q @ take (2047 - ring_len q) bs"
  using assms
proof (induction bs arbitrary: q)
  case Nil
  then show ?case using ring_len_le [of q] by (simp add: quiet_def)
next
  case (Cons b bs)
  show ?case
  proof (cases "ring_len q = 2047")
    case True
    then show ?thesis using putchar_full_sleeps [OF Cons.prems(1) True Cons.prems(2-4), of b] by auto
  next
    case False
    then have l: "ring_len q < 2047" using ring_len_le [of q] Cons.prems(1) by (simp add: quiet_def)
    have q1: "quiet (ioq_store b q)" and c: "ring_contents (ioq_store b q) = ring_contents q @ [b]"
      using quiet_store [OF Cons.prems(1) l] ring_store [OF _ l] Cons.prems(1) by (auto simp: quiet_def)
    have n: "ring_len (ioq_store b q) = Suc (ring_len q)"
      using c length_ring_contents [of "ioq_store b q"] by simp
    have d: "2047 - ring_len q = Suc (2047 - Suc (ring_len q))" using l by simp
    show ?thesis using Cons.IH [OF q1 Cons.prems(2-4)] Cons.prems(5) n c d
        putchar_quiet [OF Cons.prems(1,3) l, of b] by auto
  qed
qed

lemma unat_pipe_left: "ring_ok q \<Longrightarrow> unat (2048 - ioq_length q) = 2048 - ring_len q"
  using ring_len_le [of q] unat_ioq_length [of q] by (simp add: unat_sub word_le_nat_alt)

section \<open>Properties\<close>


definition empty_queue :: ioqueue where
  "empty_queue = \<lparr>ioq_lock = lock_init, producer = 0, consumer = 0, buf = (\<lambda>_. 0), head_pos = 2046, tail_pos = 2046\<rparr>"

lemma empty_queue_quiet: "quiet empty_queue" "ring_len empty_queue = 0" "ring_contents empty_queue = []"
  by (simp_all add: quiet_def empty_queue_def ring_ok_def ring_len_def ring_contents_def)


text \<open>
  \<^verbatim>\<open>pipe_write\<close> takes 2048 minus the length for the free space, but the ring holds only
  2047 bytes: a write that fills the pipe stores the bytes that fit and then puts the writer
  to sleep, instead of returning a short count as its size computation intends.
\<close>

theorem pipe_write_full_sleeps:
  assumes "quiet q" "sched_inv s" "intr s = INTR_OFF" "running s \<noteq> idle_thread s"
    and "2048 \<le> ring_len q + length bs" "length bs < 2 ^ 32"
  shows "\<exists>q' s'. pipe_write bs q s = Some (False, 2047 - ring_len q, q', s') \<and>
    stat s' (running s) = TASK_BLOCKED \<and>
    ring_contents q' = ring_contents q @ take (2047 - ring_len q) bs"
proof -
  have ok: "ring_ok q" using assms(1) by (simp add: quiet_def)
  have lb: "unat (of_nat (length bs) :: u32) = length bs" using assms(6) by (intro unat_of_nat_32)
  define bs' where "bs' = take (2048 - ring_len q) bs"
  have "\<not> (of_nat (length bs) :: u32) < 2048 - ioq_length q"
    using lb unat_pipe_left [OF ok] assms(5) by (simp add: word_less_nat_alt)
  then have "pipe_write bs q s = pipe_write_loop bs' q s"
    using unat_pipe_left [OF ok] by (simp add: pipe_write_def Let_def bs'_def)
  moreover have "2047 < ring_len q + length bs'" using assms(5) ring_len_le [OF ok] by (simp add: bs'_def)
  moreover have "take (2047 - ring_len q) bs' = take (2047 - ring_len q) bs" by (simp add: bs'_def)
  ultimately show ?thesis using pipe_write_loop_overflow [OF assms(1-4)] by metis
qed

theorem pipe_write_full_sleeps_witness:
  "\<exists>q' s'. pipe_write (replicate 2048 7) empty_queue demo_sched = Some (False, 2047, q', s') \<and>
     stat s' 0x1000 = TASK_BLOCKED"
proof -
  have s: "intr demo_sched = INTR_OFF" "running demo_sched \<noteq> idle_thread demo_sched" "running demo_sched = 0x1000"
    by (simp_all add: demo_sched_def)
  have "2048 \<le> ring_len empty_queue + length (replicate 2048 (7 :: u8))" "length (replicate 2048 (7 :: u8)) < 2 ^ 32"
    by simp_all
  from pipe_write_full_sleeps [OF empty_queue_quiet(1) demo_sched_inv(1) s(1,2) this]
  show ?thesis by (auto simp: empty_queue_quiet s(3))
qed

end
