(* ===== verification/Keyboard.thy ===== *)
theory Keyboard
  imports Ioqueue "HOL-Library.Char_ord"
begin

text \<open>
  The keyboard driver, \<^verbatim>\<open>src/device/keyboard.c\<close>: a state machine over the scan codes that the
  controller delivers one byte per interrupt. It tracks the modifier keys and puts the
  characters of the other keys into the queue \<^verbatim>\<open>kbd_buf\<close>, from which \<^verbatim>\<open>read\<close> on descriptor 0
  takes them. Interrupts are off in the handler.
\<close>

section \<open>The driver\<close>

record kbd =
  ctrl_status :: u32
  shift_status :: u32
  alt_status :: u32
  caps_lock_status :: u32
  ext_scancode :: u32
  kbd_buf :: ioqueue
  kbd_msgs :: "string list"

definition shift_l_make :: u16 where "shift_l_make = 0x2a"
definition shift_r_make :: u16 where "shift_r_make = 0x36"
definition alt_l_make :: u16 where "alt_l_make = 0x38"
definition alt_r_make :: u16 where "alt_r_make = 0xe038"
definition ctrl_l_make :: u16 where "ctrl_l_make = 0x1d"
definition ctrl_r_make :: u16 where "ctrl_r_make = 0xe01d"
definition caps_lock_make :: u16 where "caps_lock_make = 0x3a"

text \<open>The characters of a key without and with shift; 0 is \<^verbatim>\<open>char_invisible\<close>.\<close>

definition keymap :: "(u8 \<times> u8) list" where
  "keymap =
     [(0, 0), (0x1b, 0x1b)] @
     zip (map of_char ''1234567890-='') (map of_char ''!@#$%^&*()_+'') @
     [(8, 8), (9, 9)] @
     zip (map of_char ''qwertyuiop[]'') (map of_char ''QWERTYUIOP{}'') @
     [(13, 13), (0, 0)] @
     zip (map of_char ''asdfghjkl;'') (map of_char ''ASDFGHJKL:'') @
     [(0x27, 0x22), (0x60, 0x7e), (0, 0), (0x5c, 0x7c)] @
     zip (map of_char ''zxcvbnm,./'') (map of_char ''ZXCVBNM<>?'') @
     [(0, 0), (0x2a, 0x2a), (0, 0), (0x20, 0x20), (0, 0)]"

definition symbol_code :: "u16 \<Rightarrow> bool" where
  "symbol_code scancode \<longleftrightarrow> scancode < 0x0e \<or> scancode = 0x29 \<or> scancode = 0x1a \<or> scancode = 0x1b \<or> scancode = 0x2b \<or>
     scancode = 0x27 \<or> scancode = 0x28 \<or> scancode = 0x33 \<or> scancode = 0x34 \<or> scancode = 0x35"

definition key_break :: "u16 \<Rightarrow> kbd \<Rightarrow> kbd" where
  "key_break make_code k =
     (if make_code = ctrl_l_make \<or> make_code = ctrl_r_make then k\<lparr>ctrl_status := 0\<rparr>
      else if make_code = shift_l_make \<or> make_code = shift_r_make then k\<lparr>shift_status := 0\<rparr>
      else if make_code = alt_l_make \<or> make_code = alt_r_make then k\<lparr>alt_status := 0\<rparr>
      else k)"

definition key_char :: "u16 \<Rightarrow> kbd \<Rightarrow> u8" where
  "key_char scancode k =
     (let shift = (if symbol_code scancode then shift_status k \<noteq> 0 else shift_status k + caps_lock_status k = 1);
          entry = keymap ! unat (scancode AND 0xff)
      in if shift then snd entry else fst entry)"

definition key_make :: "u16 \<Rightarrow> kbd \<Rightarrow> 'a sched_scheme \<Rightarrow> (kbd \<times> 'a sched_scheme) option" where
  "key_make scancode k s =
     (if scancode = ctrl_l_make \<or> scancode = ctrl_r_make then Some (k\<lparr>ctrl_status := 1\<rparr>, s)
      else if scancode = shift_l_make \<or> scancode = shift_r_make then Some (k\<lparr>shift_status := 1\<rparr>, s)
      else if scancode = alt_l_make \<or> scancode = alt_r_make then Some (k\<lparr>alt_status := 1\<rparr>, s)
      else if scancode = caps_lock_make then
        Some (k\<lparr>caps_lock_status := (if caps_lock_status k = 0 then 1 else 0)\<rparr>, s)
      else do {
        let cur_char = key_char scancode k;
        if cur_char \<noteq> 0 then do {
          let cur_char = (if ctrl_status k \<noteq> 0 \<and> cur_char = of_char CHR ''l'' \<or>
                             ctrl_status k \<noteq> 0 \<and> cur_char = of_char CHR ''u''
                          then cur_char - of_char CHR ''a'' else cur_char);
          full \<leftarrow> ioq_full (kbd_buf k) s;
          if \<not> full then do {
            (_, q, s) \<leftarrow> ioq_putchar cur_char (kbd_buf k) s;
            Some (k\<lparr>kbd_buf := q\<rparr>, s) }
          else Some (k, s) }
        else Some (k, s) })"

definition intr_keyboard_handler :: "u8 \<Rightarrow> kbd \<Rightarrow> 'a sched_scheme \<Rightarrow> (kbd \<times> 'a sched_scheme) option" where
  "intr_keyboard_handler code k s =
     (let scancode = (ucast code :: u16) in
      if scancode = 0xe0 then Some (k\<lparr>ext_scancode := 1\<rparr>, s)
      else
        let (scancode, k) = (if ext_scancode k \<noteq> 0 then (0xe000 OR scancode, k\<lparr>ext_scancode := 0\<rparr>) else (scancode, k)) in
        if scancode AND 0x0080 \<noteq> 0 then Some (key_break (scancode AND 0xff7f) k, s)
        else if scancode > 0 \<and> scancode < 0x3b \<or> scancode = alt_r_make \<or> scancode = ctrl_r_make then key_make scancode k s
        else Some (k\<lparr>kbd_msgs := kbd_msgs k @ [''unknown key'']\<rparr>, s))"

definition keyboard_init :: "kbd \<Rightarrow> kbd" where
  "keyboard_init k = k\<lparr>kbd_buf := ioqueue_init (kbd_buf k)\<rparr>"

text \<open>One interrupt per scan code.\<close>

fun key_strokes :: "u8 list \<Rightarrow> kbd \<Rightarrow> 'a sched_scheme \<Rightarrow> (kbd \<times> 'a sched_scheme) option" where
  "key_strokes [] k s = Some (k, s)"
| "key_strokes (c # cs) k s = do { (k, s) \<leftarrow> intr_keyboard_handler c k s; key_strokes cs k s }"

section \<open>Typing\<close>

text \<open>The codes a typist produces for a character: press and release its key, inside shift where needed.\<close>

fun index_of :: "'b list \<Rightarrow> 'b \<Rightarrow> nat option" where
  "index_of [] x = None"
| "index_of (y # ys) x = (if x = y then Some 0 else map_option Suc (index_of ys x))"

definition keys_for :: "u8 \<Rightarrow> u8 list" where
  "keys_for c =
     (case index_of (map fst keymap) c of
        Some i \<Rightarrow> [of_nat i, of_nat (i + 128)]
      | None \<Rightarrow> (case index_of (map snd keymap) c of
          Some i \<Rightarrow> [0x2a, of_nat i, of_nat (i + 128), 0xaa]
        | None \<Rightarrow> []))"

definition no_modifiers :: "kbd \<Rightarrow> bool" where
  "no_modifiers k \<longleftrightarrow> ctrl_status k = 0 \<and> shift_status k = 0 \<and> alt_status k = 0 \<and> caps_lock_status k = 0 \<and> ext_scancode k = 0"

definition char_key :: "nat \<Rightarrow> bool" where
  "char_key i \<longleftrightarrow> i \<in> {1, 2, 3, 4, 5, 6, 7, 8, 9, 10, 11, 12, 13, 14, 15, 16, 17, 18, 19, 20, 21, 22, 23, 24, 25, 26, 27, 28, 30, 31, 32, 33, 34, 35, 36, 37, 38, 39, 40, 41, 43, 44, 45, 46, 47, 48, 49, 50, 51, 52, 53, 55, 57}"

lemma keymap_len [simp]: "length keymap = 59"
  by (simp add: keymap_def)

lemma typable: "list_all (\<lambda>c. c \<in> set (map fst keymap) \<union> set (map snd keymap)) (map (of_nat :: nat \<Rightarrow> u8) [32..<127])"
  by (simp add: keymap_def upt_rec)

lemma key_press:
  assumes "char_key i" "ext_scancode k = 0"
  shows "intr_keyboard_handler (of_nat i) k s = key_make (of_nat i) k s"
    "intr_keyboard_handler (of_nat (i + 128)) k s = Some (k, s)"
  using assms(2) assms(1) [unfolded char_key_def insert_iff empty_iff simp_thms]
  by (elim disjE; simp add: intr_keyboard_handler_def Let_def key_break_def
       ctrl_l_make_def ctrl_r_make_def shift_l_make_def shift_r_make_def alt_l_make_def alt_r_make_def)+

lemma key_no_modifier:
  assumes "char_key i"
  shows "of_nat i \<notin> {ctrl_l_make, ctrl_r_make, shift_l_make, shift_r_make, alt_l_make, alt_r_make, caps_lock_make}"
    "unat ((of_nat i :: u16) AND 0xff) = i" "fst (keymap ! i) \<noteq> 0" "snd (keymap ! i) \<noteq> 0" "i < 59"
  using assms [unfolded char_key_def insert_iff empty_iff simp_thms]
  by (elim disjE; simp add: ctrl_l_make_def ctrl_r_make_def shift_l_make_def shift_r_make_def
       alt_l_make_def alt_r_make_def caps_lock_make_def keymap_def)+

text \<open>A key that has a character: its character goes into a queue with room for it.\<close>

lemma key_make_puts:
  assumes "char_key i" "ctrl_status k = 0" "quiet (kbd_buf k)" "intr s = INTR_OFF" "ring_len (kbd_buf k) < 2047"
  shows "key_make (of_nat i) k s = Some (k\<lparr>kbd_buf := ioq_store (key_char (of_nat i) k) (kbd_buf k)\<rparr>, s)"
proof -
  have "key_char (of_nat i) k \<noteq> 0" using key_no_modifier [OF assms(1)] by (simp add: key_char_def Let_def)
  moreover have "ioq_full (kbd_buf k) s = Some False"
    using assms(3-5) by (simp add: ioq_full_def quiet_def ring_full_iff)
  ultimately show ?thesis
    using key_no_modifier(1) [OF assms(1)] assms(2) putchar_quiet [OF assms(3-5)] by (simp add: key_make_def)
qed

lemma index_of_nth: "index_of xs x = Some i \<Longrightarrow> i < length xs \<and> xs ! i = x"
  by (induction xs arbitrary: i) (auto split: if_splits)

lemma index_of_none: "index_of xs x = None \<longleftrightarrow> x \<notin> set xs"
  by (induction xs) auto

lemma shift_keys:
  assumes "ext_scancode k = 0"
  shows "intr_keyboard_handler 0x2a k s = Some (k\<lparr>shift_status := 1\<rparr>, s)"
    "intr_keyboard_handler 0xaa k s = Some (k\<lparr>shift_status := 0\<rparr>, s)"
  using assms by (simp_all add: intr_keyboard_handler_def Let_def key_make_def key_break_def
       ctrl_l_make_def ctrl_r_make_def shift_l_make_def shift_r_make_def alt_l_make_def alt_r_make_def)

text \<open>The positions of the keymap that hold no character are those of the modifiers.\<close>

lemma keymap_chars: "i < 59 \<Longrightarrow> fst (keymap ! i) \<noteq> 0 \<or> snd (keymap ! i) \<noteq> 0 \<Longrightarrow> char_key i"
proof -
  assume i: "i < 59" "fst (keymap ! i) \<noteq> 0 \<or> snd (keymap ! i) \<noteq> 0"
  have "char_key i \<or> i \<in> {0, 0x1d, 0x2a, 0x36, 0x38, 0x3a}"
    using i(1) unfolding char_key_def insert_iff empty_iff by presburger
  then show ?thesis using i(2) by (auto simp: keymap_def)
qed

lemma type_char:
  assumes c: "c \<in> set (map fst keymap) \<union> set (map snd keymap)" "c \<noteq> 0"
    and k: "no_modifiers k" "quiet (kbd_buf k)" "intr s = INTR_OFF" "ring_len (kbd_buf k) < 2047"
  shows "key_strokes (keys_for c) k s = Some (k\<lparr>kbd_buf := ioq_store c (kbd_buf k)\<rparr>, s)"
proof -
  have e: "ext_scancode k = 0" "ctrl_status k = 0" "shift_status k = 0" "caps_lock_status k = 0" using k(1) by (simp_all add: no_modifiers_def)
  show ?thesis
  proof (cases "index_of (map fst keymap) c")
    case (Some i)
    then have i: "i < 59" "fst (keymap ! i) = c" using index_of_nth [OF Some] by auto
    have ck: "char_key i" by (rule keymap_chars [OF i(1)]) (simp add: i(2) c(2))
    have "key_char (of_nat i) k = c" using key_no_modifier(2) [OF ck] i(2) e by (simp add: key_char_def Let_def)
    then have "key_make (of_nat i) k s = Some (k\<lparr>kbd_buf := ioq_store c (kbd_buf k)\<rparr>, s)"
      using key_make_puts [OF ck e(2) k(2-4)] by simp
    then show ?thesis using key_press(1) [OF ck, of k s] key_press(2) [OF ck, of "k\<lparr>kbd_buf := ioq_store c (kbd_buf k)\<rparr>" s] e(1) Some
      by (simp add: keys_for_def)
  next
    case None
    then have "c \<in> set (map snd keymap)" using c(1) by (simp add: index_of_none)
    then obtain i where some: "index_of (map snd keymap) c = Some i"
      by (cases "index_of (map snd keymap) c") (simp_all add: index_of_none)
    then have i: "i < 59" "snd (keymap ! i) = c" using index_of_nth [OF some] by auto
    have ck: "char_key i" by (rule keymap_chars [OF i(1)]) (simp add: i(2) c(2))
    let ?k = "k\<lparr>shift_status := 1\<rparr>"
    have "key_char (of_nat i) ?k = c" using key_no_modifier(2) [OF ck] i(2) e by (simp add: key_char_def Let_def)
    then have m: "key_make (of_nat i) ?k s = Some (?k\<lparr>kbd_buf := ioq_store c (kbd_buf k)\<rparr>, s)"
      using key_make_puts [OF ck, of ?k s] e(2) k(2-4) by simp
    have undo: "?k\<lparr>kbd_buf := ioq_store c (kbd_buf k), shift_status := 0\<rparr> = k\<lparr>kbd_buf := ioq_store c (kbd_buf k)\<rparr>"
      using e(3) by simp
    show ?thesis
      using m key_press(1) [OF ck, of ?k s] key_press(2) [OF ck, of "?k\<lparr>kbd_buf := ioq_store c (kbd_buf k)\<rparr>" s]
        shift_keys(1) [OF e(1), of s] shift_keys(2) [of "?k\<lparr>kbd_buf := ioq_store c (kbd_buf k)\<rparr>" s] e(1) None some undo
      by (simp add: keys_for_def)
  qed
qed

lemma key_strokes_append:
  "key_strokes (xs @ ys) k s = do { (k, s) \<leftarrow> key_strokes xs k s; key_strokes ys k s }"
  by (induction xs arbitrary: k s) (auto split: bind_splits)

text \<open>
  C35. Typing a text puts exactly this text into the keyboard's queue: for characters of the
  keymap (all printable ASCII characters among them), typed with shift where needed and with
  no other modifier down, on a queue with room for them that nobody waits on; afterwards no
  modifier is down and reading the queue gives the old contents followed by the text.
\<close>

theorem keyboard_types_text:
  assumes "no_modifiers k" "quiet (kbd_buf k)" "intr s = INTR_OFF" "ring_len (kbd_buf k) + length cs \<le> 2047"
    "\<forall>c\<in>set cs. 32 \<le> unat c \<and> unat c < 127 \<or> c \<in> {8, 9, 13}"
  shows "\<exists>k'. key_strokes (concat (map keys_for cs)) k s = Some (k', s) \<and> no_modifiers k' \<and> quiet (kbd_buf k') \<and>
    ring_contents (kbd_buf k') = ring_contents (kbd_buf k) @ cs"
  using assms
proof (induction cs arbitrary: k)
  case (Cons c cs)
  have c: "c \<in> set (map fst keymap) \<union> set (map snd keymap) \<and> c \<noteq> 0"
  proof (cases "c \<in> {8, 9, 13}")
    case True
    then show ?thesis by (auto simp: keymap_def)
  next
    case False
    then have "unat c \<in> set [32..<127]" using Cons.prems(5) by (simp only: set_upt atLeastLessThan_iff list.set insert_iff simp_thms ball_simps)
    then have "(of_nat (unat c) :: u8) \<in> set (map of_nat [32..<127])" unfolding set_map by (rule imageI)
    then have "c \<in> set (map of_nat [32..<127])" by simp
    then have "c \<in> set (map fst keymap) \<union> set (map snd keymap)" using typable unfolding list_all_iff by blast
    moreover have "c \<noteq> 0" using False Cons.prems(5) by auto
    ultimately show ?thesis by blast
  qed
  let ?k = "k\<lparr>kbd_buf := ioq_store c (kbd_buf k)\<rparr>"
  have room: "ring_len (kbd_buf k) < 2047" using Cons.prems(4) by simp
  have ok: "ring_ok (kbd_buf k)" using Cons.prems(2) by (simp add: quiet_def)
  note st = ring_store [OF ok room, of c]
  have one: "key_strokes (keys_for c) k s = Some (?k, s)" using type_char [OF conjunct1 [OF c] conjunct2 [OF c] Cons.prems(1-3) room] .
  have len: "ring_len (ioq_store c (kbd_buf k)) = Suc (ring_len (kbd_buf k))"
    using arg_cong [OF conjunct2 [OF st], of length] by simp
  have "\<exists>k'. key_strokes (concat (map keys_for cs)) ?k s = Some (k', s) \<and> no_modifiers k' \<and> quiet (kbd_buf k') \<and>
    ring_contents (kbd_buf k') = ring_contents (kbd_buf ?k) @ cs"
    using Cons.prems quiet_store [OF Cons.prems(2) room, of c] len
    by (intro Cons.IH) (simp_all add: no_modifiers_def)
  then show ?case using one st by (auto simp: key_strokes_append)
qed simp

theorem keyboard_types_text_witness:
  "\<exists>k'. key_strokes [0x2a, 0x23, 0xa3, 0xaa, 0x17, 0x97]
       \<lparr>ctrl_status = 0, shift_status = 0, alt_status = 0, caps_lock_status = 0, ext_scancode = 0,
        kbd_buf = empty_queue, kbd_msgs = []\<rparr> demo_sched = Some (k', demo_sched) \<and>
     ring_contents (kbd_buf k') = [of_char CHR ''H'', of_char CHR ''i'']"
proof -
  let ?k = "\<lparr>ctrl_status = 0, shift_status = 0, alt_status = 0, caps_lock_status = 0, ext_scancode = 0,
        kbd_buf = empty_queue, kbd_msgs = []\<rparr>"
  have keys: "concat (map keys_for [of_char CHR ''H'', of_char CHR ''i'']) = [0x2a, 0x23, 0xa3, 0xaa, 0x17, 0x97]"
    by (simp add: keys_for_def keymap_def)
  have "intr demo_sched = INTR_OFF" by (simp add: demo_sched_def)
  then have "\<exists>k'. key_strokes (concat (map keys_for [of_char CHR ''H'', of_char CHR ''i''])) ?k demo_sched = Some (k', demo_sched) \<and>
      no_modifiers k' \<and> quiet (kbd_buf k') \<and>
      ring_contents (kbd_buf k') = ring_contents (kbd_buf ?k) @ [of_char CHR ''H'', of_char CHR ''i'']"
    by (intro keyboard_types_text) (simp_all add: no_modifiers_def empty_queue_quiet)
  then show ?thesis unfolding keys by (auto simp: empty_queue_quiet)
qed

end
