(* ===== verification/Console.thy ===== *)
theory Console
  imports Sync
begin

text \<open>
  The console, \<^verbatim>\<open>src/device/console.c\<close>: output under a lock. The routines that write to video
  memory (\<^verbatim>\<open>put_str\<close>, \<^verbatim>\<open>put_char\<close>, \<^verbatim>\<open>put_int\<close>, assembly in \<^verbatim>\<open>src/kernel/print.s\<close>) are the parameter
  \<open>put\<close>, a function on the screen \<open>'v\<close>.
\<close>

record 'v console =
  console_lock :: lock
  video :: 'v

definition console_init :: "'v console \<Rightarrow> 'v console" where
  "console_init c = c\<lparr>console_lock := lock_init\<rparr>"

definition console_acquire :: "'v console \<Rightarrow> 'a sched_scheme \<Rightarrow> ('v console \<times> 'a sched_scheme) option" where
  "console_acquire c s = do { (l, s) \<leftarrow> lock_acquire (console_lock c) s; Some (c\<lparr>console_lock := l\<rparr>, s) }"

definition console_release :: "'v console \<Rightarrow> 'a sched_scheme \<Rightarrow> ('v console \<times> 'a sched_scheme) option" where
  "console_release c s = do { (l, s) \<leftarrow> lock_release (console_lock c) s; Some (c\<lparr>console_lock := l\<rparr>, s) }"

definition console_put_str :: "('b \<Rightarrow> 'v \<Rightarrow> 'v) \<Rightarrow> 'b \<Rightarrow> 'v console \<Rightarrow> 'a sched_scheme \<Rightarrow> ('v console \<times> 'a sched_scheme) option" where
  "console_put_str put str c s =
     do { (c, s) \<leftarrow> console_acquire c s;
          let c = c\<lparr>video := put str (video c)\<rparr>;
          console_release c s }"

definition console_put_char :: "(u8 \<Rightarrow> 'v \<Rightarrow> 'v) \<Rightarrow> u8 \<Rightarrow> 'v console \<Rightarrow> 'a sched_scheme \<Rightarrow> ('v console \<times> 'a sched_scheme) option" where
  "console_put_char put char_asci c s =
     do { (c, s) \<leftarrow> console_acquire c s;
          let c = c\<lparr>video := put char_asci (video c)\<rparr>;
          console_release c s }"

definition console_put_int :: "(u32 \<Rightarrow> 'v \<Rightarrow> 'v) \<Rightarrow> u32 \<Rightarrow> 'v console \<Rightarrow> 'a sched_scheme \<Rightarrow> ('v console \<times> 'a sched_scheme) option" where
  "console_put_int put num c s =
     do { (c, s) \<leftarrow> console_acquire c s;
          let c = c\<lparr>video := put num (video c)\<rparr>;
          console_release c s }"

text \<open>On a free lock the output appears and the lock is free again; a thread that holds the lock may print.\<close>

lemma console_put_free:
  "console_lock c = lock_init \<Longrightarrow> running s \<noteq> 0 \<Longrightarrow>
   console_put_str put str c s = Some (c\<lparr>video := put str (video c)\<rparr>, s)"
  by (simp add: console_put_str_def console_acquire_def console_release_def)

lemma console_put_nested:
  assumes "holder (console_lock c) = running s" "0 < unat (holder_repeat_nr (console_lock c))"
    "unat (holder_repeat_nr (console_lock c)) < 2 ^ 32 - 1"
  shows "console_put_char put b c s = Some (c\<lparr>video := put b (video c)\<rparr>, s)"
proof -
  let ?n = "holder_repeat_nr (console_lock c)"
  have "unat (?n + 1) = unat ?n + 1" using assms(3) by (subst unat_add_small) simp_all
  then have "?n + 1 > 1" using assms(2) by (simp add: word_less_nat_alt)
  then show ?thesis using assms(1)
    by (simp add: console_put_char_def console_acquire_def console_release_def lock_acquire_def lock_release_def)
qed

end
