(* ===== verification/Bitmap.thy ===== *)
theory Bitmap
  imports WinxPrelude
begin

text \<open>
  The bitmap of \<^verbatim>\<open>src/kernel/bitmap.c\<close>: a length in bytes and a pointer to the bytes.
  The bytes are the memory that starts at the pointer, so a read past the length is a
  read of whatever lies behind, as in the code. All frame, page, block, inode and pid
  allocation of the kernel goes through \<open>bitmap_scan\<close> and \<open>bitmap_set\<close>.
\<close>

record bitmap =
  btmp_bytes_len :: u32
  bits :: "u32 \<Rightarrow> u8"

definition bitmap_init :: "bitmap \<Rightarrow> bitmap" where
  "bitmap_init btmp =
     btmp\<lparr>bits := (\<lambda>i. if i < btmp_bytes_len btmp then 0 else bits btmp i)\<rparr>"

definition bitmap_mask :: "u32 \<Rightarrow> u8" where
  "bitmap_mask bit_odd = push_bit (unat bit_odd) 1"

definition bitmap_scan_test :: "bitmap \<Rightarrow> u32 \<Rightarrow> bool" where
  "bitmap_scan_test btmp bit_idx =
     (let byte_idx = bit_idx div 8; bit_odd = bit_idx mod 8
      in bits btmp byte_idx AND bitmap_mask bit_odd \<noteq> 0)"

definition bitmap_set :: "bitmap \<Rightarrow> u32 \<Rightarrow> u8 \<Rightarrow> bitmap option" where
  "bitmap_set btmp bit_idx value =
     (if value = 0 \<or> value = 1 then
        (let byte_idx = bit_idx div 8; bit_odd = bit_idx mod 8; byte = bits btmp byte_idx
         in Some (btmp\<lparr>bits := (bits btmp)(byte_idx :=
                   if value \<noteq> 0 then byte OR bitmap_mask bit_odd
                   else byte AND NOT (bitmap_mask bit_odd))\<rparr>))
      else None)"

text \<open>
  \<open>bitmap_scan\<close> has three loops. \<open>scan_skip\<close> is the first inner one (skip used bits),
  \<open>scan_grow\<close> the second (extend the free area; \<open>None\<close> inside is the
  \<^verbatim>\<open>return -1\<close> in the middle of it), \<open>bitmap_scan_from\<close> the outer
  \<^verbatim>\<open>while (1)\<close>. Indices are 32-bit and wrap, so termination is a theorem, not part of
  the definition.
\<close>

partial_function (option) scan_skip :: "bitmap \<Rightarrow> u32 \<Rightarrow> u32 option" where
  "scan_skip btmp area_start =
     (if bitmap_scan_test btmp area_start \<and> area_start div 8 < btmp_bytes_len btmp
      then scan_skip btmp (area_start + 1)
      else Some area_start)"

partial_function (option) scan_grow ::
  "bitmap \<Rightarrow> u32 \<Rightarrow> u32 \<Rightarrow> u32 \<Rightarrow> u32 option option" where
  "scan_grow btmp area_start area_size cnt =
     (if area_size < cnt then
        if (area_start + area_size) div 8 < btmp_bytes_len btmp then
          if \<not> bitmap_scan_test btmp (area_start + area_size)
          then scan_grow btmp area_start (area_size + 1) cnt
          else Some (Some area_size)
        else Some None
      else Some (Some area_size))"

partial_function (option) bitmap_scan_from :: "bitmap \<Rightarrow> u32 \<Rightarrow> u32 \<Rightarrow> u32 option" where
  "bitmap_scan_from btmp cnt area_start0 =
     do { area_start \<leftarrow> scan_skip btmp area_start0;
          if btmp_bytes_len btmp \<le> area_start div 8 then Some (-1)
          else do { grown \<leftarrow> scan_grow btmp area_start 1 cnt;
                    case grown of
                      None \<Rightarrow> Some (-1)
                    | Some area_size \<Rightarrow>
                        if area_size = cnt then Some area_start
                        else bitmap_scan_from btmp cnt (area_start + (area_size + 1)) } }"

definition bitmap_scan :: "bitmap \<Rightarrow> u32 \<Rightarrow> u32 option" where
  "bitmap_scan btmp cnt = bitmap_scan_from btmp cnt 0"

section \<open>What the loops compute\<close>

text \<open>
  \<open>bm_bits\<close> is the number of bits, \<open>bm_used\<close> reads bit \<open>i\<close>, \<open>free_area btmp s n\<close>
  says that \<open>n\<close> bits from \<open>s\<close> lie in the bitmap and are clear. \<open>scan_result\<close> is the
  contract of \<open>bitmap_scan\<close>: the first free area, or \<open>-1\<close> when there is none.
\<close>

definition bm_bits :: "bitmap \<Rightarrow> nat" where
  "bm_bits btmp = 8 * unat (btmp_bytes_len btmp)"

definition bm_used :: "bitmap \<Rightarrow> nat \<Rightarrow> bool" where
  "bm_used btmp i = bitmap_scan_test btmp (of_nat i)"

lemma bitmap_mask_bit: "bit (bitmap_mask o') n \<longleftrightarrow> n = unat o' \<and> n < 8"
  by (auto simp: bitmap_mask_def bit_push_bit_iff bit_1_iff simp del: push_bit_of_1)

lemma bit_and_mask_nonzero:
  assumes "unat k < 8"
  shows "(b AND bitmap_mask k \<noteq> 0) = bit b (unat k)"
proof -
  have "(b AND bitmap_mask k \<noteq> 0) \<longleftrightarrow> (\<exists>n. bit (b AND bitmap_mask k) n)"
    by (metis bit_0_eq bit_eq_iff bot_apply bot_bool_def)
  then show ?thesis using assms by (auto simp: bit_and_iff bitmap_mask_bit)
qed

lemma unat_mod8: "unat ((i::u32) mod 8) < 8"
  by (simp add: unat_mod)

lemma scan_test_bit:
  "bitmap_scan_test btmp i = bit (bits btmp (i div 8)) (unat i mod 8)"
  using bit_and_mask_nonzero [OF unat_mod8, of "bits btmp (i div 8)" i]
  by (simp add: bitmap_scan_test_def Let_def unat_mod)

lemma div_mod8_eq: "(i::u32) div 8 = j div 8 \<Longrightarrow> unat i mod 8 = unat j mod 8 \<Longrightarrow> i = j"
proof -
  assume a: "i div 8 = j div 8" and b: "unat i mod 8 = unat j mod 8"
  have "unat i div 8 = unat j div 8" using arg_cong [OF a, of unat] by (simp add: unat_div)
  with b have "unat i = unat j" by (metis div_mult_mod_eq)
  then show ?thesis by (simp add: word_eq_unat)
qed

lemma bitmap_set_test:
  assumes "bitmap_set btmp i v = Some btmp'"
  shows "bitmap_scan_test btmp' j = (if j = i then v = 1 else bitmap_scan_test btmp j)"
proof -
  have "v = 0 \<or> v = 1" using assms by (auto simp: bitmap_set_def split: if_splits)
  then show ?thesis using assms div_mod8_eq [of i j]
    by (auto simp: bitmap_set_def Let_def scan_test_bit bit_and_iff bit_or_iff bit_not_iff
        bitmap_mask_bit unat_mod split: if_splits)
qed

lemma bitmap_set_len:
  "bitmap_set btmp i v = Some btmp' \<Longrightarrow> btmp_bytes_len btmp' = btmp_bytes_len btmp"
  by (auto simp: bitmap_set_def Let_def split: if_splits)

lemma bitmap_set_total: "v = 0 \<or> v = 1 \<Longrightarrow> \<exists>btmp'. bitmap_set btmp i v = Some btmp'"
  by (auto simp: bitmap_set_def Let_def)

lemma in_range_word:
  assumes "bm_bits btmp < 2 ^ 32" "n < 2 ^ 32"
  shows "(of_nat n :: u32) div 8 < btmp_bytes_len btmp \<longleftrightarrow> n < bm_bits btmp"
  using assms by (simp add: word_less_nat_alt unat_div unat_of_nat_small bm_bits_def) linarith

lemma scan_skip_spec:
  assumes N: "bm_bits btmp < 2 ^ 32" and "a \<le> bm_bits btmp"
  shows "\<exists>a'. scan_skip btmp (of_nat a) = Some (of_nat a') \<and> a \<le> a' \<and> a' \<le> bm_bits btmp \<and>
     (\<forall>i. a \<le> i \<and> i < a' \<longrightarrow> bm_used btmp i) \<and> (a' < bm_bits btmp \<longrightarrow> \<not> bm_used btmp a')"
  using assms(2)
proof (induction "bm_bits btmp - a" arbitrary: a)
  case 0
  then have "a = bm_bits btmp" by simp
  moreover have "\<not> (of_nat a :: u32) div 8 < btmp_bytes_len btmp"
    using in_range_word [OF N, of a] N \<open>a = bm_bits btmp\<close> by simp
  ultimately show ?case
    by (intro exI [of _ a]) (auto simp: scan_skip.simps [of _ "of_nat (bm_bits btmp)"])
next
  case (Suc d)
  then have lt: "a < bm_bits btmp" by simp
  have rng: "(of_nat a :: u32) div 8 < btmp_bytes_len btmp"
    using in_range_word [OF N, of a] N lt by simp
  show ?case
  proof (cases "bm_used btmp a")
    case True
    have "d = bm_bits btmp - Suc a" "Suc a \<le> bm_bits btmp" using Suc.hyps(2) lt by auto
    from Suc.hyps(1) [OF this] obtain a' where a':
      "scan_skip btmp (of_nat (Suc a)) = Some (of_nat a')" "Suc a \<le> a'" "a' \<le> bm_bits btmp"
      "\<forall>i. Suc a \<le> i \<and> i < a' \<longrightarrow> bm_used btmp i" "a' < bm_bits btmp \<longrightarrow> \<not> bm_used btmp a'" by blast
    have "scan_skip btmp (of_nat a) = Some (of_nat a')"
      using a'(1) True rng by (simp add: scan_skip.simps [of _ "of_nat a"] bm_used_def add.commute)
    moreover have "\<forall>i. a \<le> i \<and> i < a' \<longrightarrow> bm_used btmp i"
      using a'(4) True by (metis Suc_leI le_neq_implies_less)
    ultimately show ?thesis using a' by (intro exI [of _ a']) auto
  next
    case False
    then show ?thesis using lt rng
      by (intro exI [of _ a]) (auto simp: scan_skip.simps [of _ "of_nat a"] bm_used_def)
  qed
qed

lemma scan_grow_spec:
  assumes N: "bm_bits btmp < 2 ^ 32" and c: "cnt < 2 ^ 32"
    and "1 \<le> k" "k \<le> cnt" "a + k \<le> bm_bits btmp" "\<forall>i. a \<le> i \<and> i < a + k \<longrightarrow> \<not> bm_used btmp i"
  shows "\<exists>r. scan_grow btmp (of_nat a) (of_nat k) (of_nat cnt) = Some r \<and>
    (case r of None \<Rightarrow> bm_bits btmp < a + cnt
     | Some sz \<Rightarrow> (\<exists>s. sz = of_nat s \<and> k \<le> s \<and> s \<le> cnt \<and> a + s \<le> bm_bits btmp \<and>
          (\<forall>i. a \<le> i \<and> i < a + s \<longrightarrow> \<not> bm_used btmp i) \<and>
          (s < cnt \<longrightarrow> a + s < bm_bits btmp \<and> bm_used btmp (a + s))))"
  using assms(3-)
proof (induction "cnt - k" arbitrary: k)
  case 0
  then show ?case by (auto simp: scan_grow.simps [of _ _ "of_nat k"])
next
  case (Suc d)
  have kc: "k < cnt" using Suc.hyps(2) by simp
  have lt: "(of_nat k :: u32) < of_nat cnt"
    using kc c by (simp add: word_less_nat_alt unat_of_nat_small)
  have ak: "a + k < 2 ^ 32" using Suc.prems(3) N by simp
  have rng: "((of_nat a + of_nat k :: u32) div 8 < btmp_bytes_len btmp) = (a + k < bm_bits btmp)"
    using in_range_word [OF N ak] by simp
  show ?case
  proof (cases "a + k < bm_bits btmp")
    case False
    then show ?thesis using lt rng Suc.prems kc
      by (simp add: scan_grow.simps [of _ _ "of_nat k"])
  next
    case True
    show ?thesis
    proof (cases "bm_used btmp (a + k)")
      case used: True
      then show ?thesis using lt rng Suc.prems kc True
        by (auto simp: scan_grow.simps [of _ _ "of_nat k"] bm_used_def intro!: exI [of _ k])
    next
      case False
      have pre: "d = cnt - Suc k" "1 \<le> Suc k" "Suc k \<le> cnt" "a + Suc k \<le> bm_bits btmp"
        "\<forall>i. a \<le> i \<and> i < a + Suc k \<longrightarrow> \<not> bm_used btmp i"
        using Suc.hyps(2) kc True Suc.prems(4) False by (auto simp: less_Suc_eq)
      have "scan_grow btmp (of_nat a) (of_nat k) (of_nat cnt) =
            scan_grow btmp (of_nat a) (of_nat (Suc k)) (of_nat cnt)"
        using lt rng True False
        by (subst scan_grow.simps) (simp add: bm_used_def add.commute)
      moreover obtain r where "scan_grow btmp (of_nat a) (of_nat (Suc k)) (of_nat cnt) = Some r"
        and "case r of None \<Rightarrow> bm_bits btmp < a + cnt
          | Some sz \<Rightarrow> (\<exists>s. sz = of_nat s \<and> Suc k \<le> s \<and> s \<le> cnt \<and> a + s \<le> bm_bits btmp \<and>
              (\<forall>i. a \<le> i \<and> i < a + s \<longrightarrow> \<not> bm_used btmp i) \<and>
              (s < cnt \<longrightarrow> a + s < bm_bits btmp \<and> bm_used btmp (a + s)))"
        using Suc.hyps(1) [OF pre] by blast
      ultimately show ?thesis
        by (intro exI [of _ r]) (auto split: option.splits dest: Suc_leD)
    qed
  qed
qed
definition free_area :: "bitmap \<Rightarrow> nat \<Rightarrow> nat \<Rightarrow> bool" where
  "free_area btmp s n \<longleftrightarrow> s + n \<le> bm_bits btmp \<and> (\<forall>i. s \<le> i \<and> i < s + n \<longrightarrow> \<not> bm_used btmp i)"

lemma free_area_used: "free_area btmp t n \<Longrightarrow> t \<le> i \<Longrightarrow> i < t + n \<Longrightarrow> \<not> bm_used btmp i"
  by (auto simp: free_area_def)

definition scan_result :: "bitmap \<Rightarrow> nat \<Rightarrow> u32 \<Rightarrow> bool" where
  "scan_result btmp n r \<longleftrightarrow>
     (\<exists>s. r = of_nat s \<and> free_area btmp s n \<and> (\<forall>t < s. \<not> free_area btmp t n)) \<or>
     (r = -1 \<and> (\<forall>t. \<not> free_area btmp t n))"

lemma scan_from_spec:
  assumes N: "bm_bits btmp < 2 ^ 32" and n: "0 < n" "n < 2 ^ 32"
    and "a \<le> bm_bits btmp" "\<forall>t<a. \<not> free_area btmp t n"
  shows "\<exists>r. bitmap_scan_from btmp (of_nat n) (of_nat a) = Some r \<and> scan_result btmp n r"
  using assms(4-)
proof (induction "bm_bits btmp - a" arbitrary: a rule: less_induct)
  case less
  obtain a' where a': "scan_skip btmp (of_nat a) = Some (of_nat a')" "a \<le> a'" "a' \<le> bm_bits btmp"
    "\<forall>i. a \<le> i \<and> i < a' \<longrightarrow> bm_used btmp i" "a' < bm_bits btmp \<longrightarrow> \<not> bm_used btmp a'"
    using scan_skip_spec [OF N less.prems(1)] by blast
  have before: "\<not> free_area btmp t n" if "t < a'" for t
    using that less.prems(2) a'(4) n free_area_used [of btmp t n t] by (cases "t < a") auto
  have rng: "btmp_bytes_len btmp \<le> (of_nat a' :: u32) div 8 \<longleftrightarrow> a' = bm_bits btmp"
    using in_range_word [OF N, of a'] a'(3) N by (auto simp: not_less [symmetric])
  show ?case
  proof (cases "a' = bm_bits btmp")
    case True
    have "\<not> free_area btmp t n" for t
      using before [of t] True n by (cases "t < a'") (auto simp: free_area_def)
    moreover have "bitmap_scan_from btmp (of_nat n) (of_nat a) = Some (-1)"
      using a'(1) rng True by (simp add: bitmap_scan_from.simps [of _ _ "of_nat a"])
    ultimately show ?thesis by (auto simp: scan_result_def)
  next
    case False
    then have lt: "a' < bm_bits btmp" using a'(3) by simp
    have one: "\<forall>i. a' \<le> i \<and> i < a' + 1 \<longrightarrow> \<not> bm_used btmp i" using a'(5) lt by (auto simp: less_Suc_eq)
    obtain g where g: "scan_grow btmp (of_nat a') 1 (of_nat n) = Some g" and
      gs: "case g of None \<Rightarrow> bm_bits btmp < a' + n
       | Some sz \<Rightarrow> (\<exists>s. sz = of_nat s \<and> 1 \<le> s \<and> s \<le> n \<and> a' + s \<le> bm_bits btmp \<and>
          (\<forall>i. a' \<le> i \<and> i < a' + s \<longrightarrow> \<not> bm_used btmp i) \<and>
          (s < n \<longrightarrow> a' + s < bm_bits btmp \<and> bm_used btmp (a' + s)))"
      using scan_grow_spec [OF N n(2), of 1 a'] lt n(1) one by auto
    show ?thesis
    proof (cases g)
      case None
      have "\<not> free_area btmp t n" for t
        using before [of t] gs None by (cases "t < a'") (auto simp: free_area_def)
      moreover have "bitmap_scan_from btmp (of_nat n) (of_nat a) = Some (-1)"
        using a'(1) rng False g None by (simp add: bitmap_scan_from.simps [of _ _ "of_nat a"])
      ultimately show ?thesis by (auto simp: scan_result_def)
    next
      case (Some sz)
      then obtain s where s: "sz = of_nat s" "1 \<le> s" "s \<le> n" "a' + s \<le> bm_bits btmp"
        "\<forall>i. a' \<le> i \<and> i < a' + s \<longrightarrow> \<not> bm_used btmp i"
        "s < n \<longrightarrow> a' + s < bm_bits btmp \<and> bm_used btmp (a' + s)" using gs by auto
      have eq: "sz = (of_nat n :: u32) \<longleftrightarrow> s = n"
        using s(1,3) n by (simp add: word_eq_unat unat_of_nat_small)
      show ?thesis
      proof (cases "s = n")
        case True
        have "bitmap_scan_from btmp (of_nat n) (of_nat a) = Some (of_nat a')"
          using a'(1) rng False g Some eq True by (simp add: bitmap_scan_from.simps [of _ _ "of_nat a"])
        then show ?thesis using True s before by (auto simp: scan_result_def free_area_def)
      next
        case neq: False
        then have sn: "s < n" and lt2: "a' + s < bm_bits btmp" and us: "bm_used btmp (a' + s)"
          using s(3,6) by auto
        have next_eq: "bitmap_scan_from btmp (of_nat n) (of_nat a) =
            bitmap_scan_from btmp (of_nat n) (of_nat (a' + s + 1))"
          using a'(1) rng False g Some eq neq s(1)
          by (simp add: bitmap_scan_from.simps [of _ _ "of_nat a"] ac_simps)
        have skip: "\<not> free_area btmp t n" if "t < a' + s + 1" for t
        proof (cases "t < a'")
          case False
          then show ?thesis using that sn us free_area_used [of btmp t n "a' + s"] by auto
        qed (rule before)
        have "bm_bits btmp - (a' + s + 1) < bm_bits btmp - a" using lt2 a'(2) by linarith
        from less.hyps [OF this] lt2 skip show ?thesis by (simp only: next_eq) simp
      qed
    qed
  qed
qed

lemma bitmap_scan_spec:
  assumes "bm_bits btmp < 2 ^ 32" "0 < cnt"
  shows "\<exists>r. bitmap_scan btmp cnt = Some r \<and> scan_result btmp (unat cnt) r"
  using scan_from_spec [of btmp "unat cnt" 0] assms unat_lt_32 [of cnt]
  by (simp add: bitmap_scan_def unat_gt_0)


lemma scan_result_unique: "scan_result btmp n r \<Longrightarrow> scan_result btmp n r' \<Longrightarrow> r = r'"
  unfolding scan_result_def by (metis linorder_neqE_nat)

lemma scan_result_free:
  assumes "bm_bits btmp < 2 ^ 32" "scan_result btmp n r" "r \<noteq> -1"
  shows "free_area btmp (unat r) n"
proof -
  from assms(2,3) obtain s where s: "r = of_nat s" "free_area btmp s n"
    by (auto simp: scan_result_def)
  then have "s < 2 ^ 32" using assms(1) by (auto simp: free_area_def)
  then show ?thesis using s by (simp add: unat_of_nat_small)
qed

lemma scan_result_full: "scan_result btmp n (-1) \<Longrightarrow> bm_bits btmp < 2 ^ 32 \<Longrightarrow> 0 < n \<Longrightarrow>
    \<not> free_area btmp t n"
proof -
  assume r: "scan_result btmp n (-1)" and N: "bm_bits btmp < 2 ^ 32" and n: "0 < n"
  have "(-1 :: u32) \<noteq> of_nat s" if "free_area btmp s n" for s
  proof
    assume e: "(-1 :: u32) = of_nat s"
    have s: "s < bm_bits btmp" using that n by (auto simp: free_area_def)
    have "unat (-1 :: u32) = s" using e s N by (simp add: unat_of_nat_small)
    then have "s = 2 ^ 32 - 1" by (simp add: unsigned_minus_1_eq_mask mask_eq_exp_minus_1)
    moreover have "8 dvd bm_bits btmp" by (simp add: bm_bits_def)
    ultimately show False using s N by presburger
  qed
  then show ?thesis using r by (auto simp: scan_result_def)
qed


section \<open>The allocator interface\<close>

text \<open>
  Frames, virtual pages, disk blocks, inodes and pids are all allocated by the same
  two calls, a scan and a set. The locale states what those clients rely on; it is
  interpreted below on the bitmap itself.
\<close>

locale bit_allocator =
  fixes scan :: "'b \<Rightarrow> u32 \<Rightarrow> u32 option"
    and put :: "'b \<Rightarrow> u32 \<Rightarrow> u8 \<Rightarrow> 'b option"
    and cap :: "'b \<Rightarrow> nat"
    and used :: "'b \<Rightarrow> nat \<Rightarrow> bool"
  assumes scan_returns: "cap b < 2 ^ 32 \<Longrightarrow> 0 < n \<Longrightarrow> \<exists>r. scan b n = Some r"
    and scan_free: "cap b < 2 ^ 32 \<Longrightarrow> 0 < n \<Longrightarrow> scan b n = Some r \<Longrightarrow> r \<noteq> -1 \<Longrightarrow>
      unat r + unat n \<le> cap b \<and> (\<forall>i. unat r \<le> i \<and> i < unat r + unat n \<longrightarrow> \<not> used b i)"
    and scan_full: "cap b < 2 ^ 32 \<Longrightarrow> 0 < n \<Longrightarrow> scan b n = Some (-1) \<Longrightarrow>
      s + unat n \<le> cap b \<Longrightarrow> \<exists>i. s \<le> i \<and> i < s + unat n \<and> used b i"
    and put_total: "v = 0 \<or> v = 1 \<Longrightarrow> \<exists>b'. put b i v = Some b'"
    and put_used: "put b i v = Some b' \<Longrightarrow> j < 2 ^ 32 \<Longrightarrow>
      used b' j \<longleftrightarrow> (if j = unat i then v = 1 else used b j)"
    and put_cap: "put b i v = Some b' \<Longrightarrow> cap b' = cap b"
begin

lemma alloc_fresh:
  assumes "cap b < 2 ^ 32" "scan b 1 = Some r" "r \<noteq> -1" "put b r 1 = Some b'"
  shows "unat r < cap b" "\<not> used b (unat r)" "used b' (unat r)"
    "j < 2 ^ 32 \<Longrightarrow> j \<noteq> unat r \<Longrightarrow> used b' j = used b j" "cap b' = cap b"
proof -
  have "unat r + 1 \<le> cap b \<and> (\<forall>i. unat r \<le> i \<and> i < unat r + 1 \<longrightarrow> \<not> used b i)"
    using scan_free [OF assms(1) _ assms(2,3)] by simp
  then show "unat r < cap b" "\<not> used b (unat r)" by auto
  show "used b' (unat r)" using put_used [OF assms(4) unat_lt_32, of r] by simp
  show "j < 2 ^ 32 \<Longrightarrow> j \<noteq> unat r \<Longrightarrow> used b' j = used b j" using put_used [OF assms(4)] by simp
  show "cap b' = cap b" by (rule put_cap [OF assms(4)])
qed

lemma alloc_twice_distinct:
  assumes "cap b < 2 ^ 32" "scan b 1 = Some r" "r \<noteq> -1" "put b r 1 = Some b'"
    and "scan b' 1 = Some r'" "r' \<noteq> -1"
  shows "r' \<noteq> r"
proof
  assume "r' = r"
  obtain b'' where "put b' r' 1 = Some b''" using put_total by blast
  then have "\<not> used b' (unat r')"
    using alloc_fresh(2) [OF _ assms(5,6)] alloc_fresh(5) [OF assms(1-4)] assms(1) by simp
  then show False using alloc_fresh(3) [OF assms(1-4)] \<open>r' = r\<close> by simp
qed

lemma alloc_fails_iff_full:
  assumes "cap b < 2 ^ 32"
  shows "scan b 1 = Some (-1) \<longleftrightarrow> (\<forall>i < cap b. used b i)"
proof
  assume s: "scan b 1 = Some (-1)"
  show "\<forall>i < cap b. used b i"
  proof (intro allI impI)
    fix i assume "i < cap b"
    then show "used b i" using scan_full [OF assms zero_less_one_u32 s, of i] by (auto simp: less_Suc_eq)
  qed
next
  assume full: "\<forall>i < cap b. used b i"
  obtain r where r: "scan b 1 = Some r" using scan_returns [OF assms zero_less_one_u32] by blast
  have "r = -1"
  proof (rule ccontr)
    assume ne: "r \<noteq> -1"
    have "unat r < cap b \<and> \<not> used b (unat r)" using scan_free [OF assms zero_less_one_u32 r ne] by simp
    then show False using full by blast
  qed
  then show "scan b 1 = Some (-1)" using r by simp
qed

lemma release_then_available:
  assumes "cap b < 2 ^ 32" "unat i < cap b" "put b i 0 = Some b'"
  shows "\<exists>r. scan b' 1 = Some r \<and> r \<noteq> -1"
proof -
  have c: "cap b' < 2 ^ 32" using put_cap [OF assms(3)] assms(1) by simp
  have "\<not> used b' (unat i)" using put_used [OF assms(3), of "unat i"] unat_lt_32 [of i] by simp
  then have "scan b' 1 \<noteq> Some (-1)"
    using alloc_fails_iff_full [OF c] assms(2) put_cap [OF assms(3)] by auto
  then show ?thesis using scan_returns [OF c zero_less_one_u32] by auto
qed

end

lemma bm_used_word: "bm_used btmp (unat i) = bitmap_scan_test btmp i"
  by (simp add: bm_used_def)

lemma bitmap_set_used:
  "bitmap_set btmp i v = Some btmp' \<Longrightarrow> j < 2 ^ 32 \<Longrightarrow>
     bm_used btmp' j \<longleftrightarrow> (if j = unat i then v = 1 else bm_used btmp j)"
  using unat_of_nat_small [of j, where 'a = 32]
  by (auto simp: bm_used_def bitmap_set_test)

lemma bitmap_set_bits: "bitmap_set btmp i v = Some btmp' \<Longrightarrow> bm_bits btmp' = bm_bits btmp"
  by (simp add: bm_bits_def bitmap_set_len)

interpretation bm: bit_allocator bitmap_scan bitmap_set bm_bits bm_used
proof
  fix b n assume "bm_bits b < 2 ^ 32" "(0 :: u32) < n"
  then show "\<exists>r. bitmap_scan b n = Some r" using bitmap_scan_spec by blast
next
  fix b n r assume a: "bm_bits b < 2 ^ 32" "(0 :: u32) < n" "bitmap_scan b n = Some r" "r \<noteq> -1"
  then have "scan_result b (unat n) r" using bitmap_scan_spec [of b n] by auto
  then show "unat r + unat n \<le> bm_bits b \<and>
      (\<forall>i. unat r \<le> i \<and> i < unat r + unat n \<longrightarrow> \<not> bm_used b i)"
    using scan_result_free [OF a(1) _ a(4)] by (auto simp: free_area_def)
next
  fix b n s assume a: "bm_bits b < 2 ^ 32" "(0 :: u32) < n" "bitmap_scan b n = Some (-1)"
    "s + unat n \<le> bm_bits b"
  then have "scan_result b (unat n) (-1)" using bitmap_scan_spec [of b n] by auto
  then have "\<not> free_area b s (unat n)" using scan_result_full a by (simp add: unat_gt_0)
  then show "\<exists>i. s \<le> i \<and> i < s + unat n \<and> bm_used b i" using a(4) by (auto simp: free_area_def)
next
  fix b i v assume "v = 0 \<or> v = (1 :: u8)"
  then show "\<exists>b'. bitmap_set b i v = Some b'" by (rule bitmap_set_total)
qed (auto simp: bitmap_set_used bitmap_set_bits)

section \<open>Loops that set or clear a run of bits\<close>

text \<open>
  \<^verbatim>\<open>while (cnt < pg_cnt) bitmap_set(&bm, bit_idx_start + cnt++, value);\<close> of
  \<^verbatim>\<open>vaddr_get\<close> and \<^verbatim>\<open>vaddr_remove\<close>.
\<close>

fun bitmap_set_run :: "nat \<Rightarrow> bitmap \<Rightarrow> u32 \<Rightarrow> u8 \<Rightarrow> bitmap option" where
  "bitmap_set_run 0 btmp i v = Some btmp"
| "bitmap_set_run (Suc n) btmp i v =
     do { btmp' \<leftarrow> bitmap_set btmp i v; bitmap_set_run n btmp' (i + 1) v }"

lemma bitmap_set_run_total:
  "v = 0 \<or> v = 1 \<Longrightarrow> \<exists>btmp'. bitmap_set_run n btmp i v = Some btmp'"
proof (induction n arbitrary: btmp i)
  case (Suc n)
  then show ?case using bitmap_set_total [of v btmp i] by fastforce
qed simp

lemma bitmap_set_run_bits:
  "bitmap_set_run n btmp i v = Some btmp' \<Longrightarrow> btmp_bytes_len btmp' = btmp_bytes_len btmp"
  by (induction n arbitrary: btmp i) (auto simp: bitmap_set_len split: bind_splits)

lemma bitmap_set_run_used:
  "bitmap_set_run n btmp i v = Some btmp' \<Longrightarrow> unat i + n \<le> 2 ^ 32 \<Longrightarrow> j < 2 ^ 32 \<Longrightarrow>
     bm_used btmp' j \<longleftrightarrow> (if unat i \<le> j \<and> j < unat i + n then v = 1 else bm_used btmp j)"
proof (induction n arbitrary: btmp i)
  case (Suc n)
  then obtain b1 where b1: "bitmap_set btmp i v = Some b1" "bitmap_set_run n b1 (i + 1) v = Some btmp'"
    by (auto split: bind_splits)
  show ?case
  proof (cases "n = 0")
    case True
    then show ?thesis using b1 bitmap_set_used [OF b1(1) Suc.prems(3)] by auto
  next
    case False
    then have "unat (i + 1) = unat i + 1" using Suc.prems(2) by (simp add: unat_inc_small)
    then show ?thesis
      using Suc.IH [OF b1(2)] Suc.prems bitmap_set_used [OF b1(1) Suc.prems(3)] by auto
  qed
qed auto

lemma bitmap_init_clear:
  "i < bm_bits btmp \<Longrightarrow> bm_bits btmp < 2 ^ 32 \<Longrightarrow> \<not> bm_used (bitmap_init btmp) i"
  using in_range_word [of btmp i]
  by (auto simp: bm_used_def scan_test_bit bitmap_init_def)

section \<open>Properties\<close>

text \<open>
  C27. \<open>bitmap_scan\<close> always returns when the bitmap has fewer than \<open>2 ^ 32\<close> bits: with the
  index of the first run of \<open>cnt\<close> clear bits that lies inside the bitmap, or with
  \<open>-1\<close> when there is no such run.
\<close>

theorem bitmap_scan_first_fit:
  assumes "bm_bits btmp < 2 ^ 32" "0 < cnt"
  shows "\<exists>r. bitmap_scan btmp cnt = Some r \<and>
    ((\<exists>s. r = of_nat s \<and> free_area btmp s (unat cnt) \<and> (\<forall>t. t < s \<longrightarrow> \<not> free_area btmp t (unat cnt))) \<or>
     (r = -1 \<and> (\<forall>t. \<not> free_area btmp t (unat cnt))))"
  using bitmap_scan_spec [OF assms] by (simp add: scan_result_def)

theorem bitmap_scan_first_fit_witness:
  "\<exists>r. bitmap_scan \<lparr>btmp_bytes_len = 2, bits = (\<lambda>_. 0x1d)\<rparr> 3 = Some r"
proof -
  have "bm_bits \<lparr>btmp_bytes_len = 2, bits = (\<lambda>_. 0x1d)\<rparr> < 2 ^ 32" by (simp add: bm_bits_def)
  from bitmap_scan_first_fit [OF this, of 3] show ?thesis by fastforce
qed

text \<open>
  \<open>bitmap_set\<close> with value 0 or 1 changes exactly the named bit and keeps the length;
  any other value stops in the \<^verbatim>\<open>ASSERT\<close>.
\<close>

theorem bitmap_set_get:
  "case bitmap_set btmp i v of
     None \<Rightarrow> v \<noteq> 0 \<and> v \<noteq> 1
   | Some btmp' \<Rightarrow> (v = 0 \<or> v = 1) \<and> btmp_bytes_len btmp' = btmp_bytes_len btmp \<and>
       (\<forall>j. bitmap_scan_test btmp' j = (if j = i then v = 1 else bitmap_scan_test btmp j))"
proof (cases "bitmap_set btmp i v")
  case None
  then show ?thesis using bitmap_set_total [of v btmp i] by auto
next
  case (Some btmp')
  moreover have "v = 0 \<or> v = 1" using Some by (auto simp: bitmap_set_def split: if_splits)
  ultimately show ?thesis by (simp add: bitmap_set_test bitmap_set_len)
qed

end
