(* ===== verification/Memory.thy ===== *)
theory Memory
  imports Sync Bitmap
begin

text \<open>
  Page memory: \<^verbatim>\<open>src/kernel/memory.c\<close> up to \<^verbatim>\<open>get_a_page\<close>, \<^verbatim>\<open>pfree\<close>, \<^verbatim>\<open>mfree_page\<close> and the two
  calls that \<^verbatim>\<open>fork\<close> and \<^verbatim>\<open>exit\<close> use. Physical frames come from the kernel and the user pool,
  virtual pages from the bitmap of the kernel or of the running process, and
  \<^verbatim>\<open>page_table_add\<close> joins them in the recursive window of theory Paging. \<open>data\<close>, \<open>ptab\<close>
  and \<open>arenas\<close> belong to the active address space.
\<close>

section \<open>State\<close>

datatype pool_flags = PF_KERNEL | PF_USER

record pool =
  pool_bitmap :: bitmap
  phy_addr_start :: u32
  pool_size :: u32
  pool_lock :: lock

record virtual_addr =
  vaddr_bitmap :: bitmap
  vaddr_start :: u32

text \<open>A pointer to one of the seven \<^verbatim>\<open>mem_block_desc\<close>: of the kernel, or of a process.\<close>

datatype desc_ptr = KDesc nat | UDesc u32 nat

record arena =
  a_desc :: "desc_ptr option"
  a_cnt :: u32
  a_large :: bool

record mem_block_desc =
  block_size :: u32
  blocks_per_arena :: u32
  free_list :: "u32 list"

record vm = sched +
  kernel_pool :: pool
  user_pool :: pool
  kernel_vaddr :: virtual_addr
  userprog_vaddr :: "u32 \<Rightarrow> virtual_addr"
  k_block_descs :: "nat \<Rightarrow> mem_block_desc"
  u_block_desc :: "u32 \<Rightarrow> nat \<Rightarrow> mem_block_desc"
  arenas :: "u32 \<Rightarrow> arena"
  data :: mem

definition MEM_BITMAP_BASE :: u32 where
  "MEM_BITMAP_BASE = 0xc009a000"

definition K_HEAP_START :: u32 where
  "K_HEAP_START = 0xc0100000"

definition get_pool :: "pool_flags \<Rightarrow> 'a vm_scheme \<Rightarrow> pool" where
  "get_pool pf s = (if pf = PF_KERNEL then kernel_pool s else user_pool s)"

definition set_pool :: "pool_flags \<Rightarrow> pool \<Rightarrow> 'a vm_scheme \<Rightarrow> 'a vm_scheme" where
  "set_pool pf p s = (if pf = PF_KERNEL then s\<lparr>kernel_pool := p\<rparr> else s\<lparr>user_pool := p\<rparr>)"

definition get_vaddr :: "pool_flags \<Rightarrow> 'a vm_scheme \<Rightarrow> virtual_addr" where
  "get_vaddr pf s = (if pf = PF_KERNEL then kernel_vaddr s else userprog_vaddr s (running s))"

definition set_vaddr :: "pool_flags \<Rightarrow> virtual_addr \<Rightarrow> 'a vm_scheme \<Rightarrow> 'a vm_scheme" where
  "set_vaddr pf va s =
     (if pf = PF_KERNEL then s\<lparr>kernel_vaddr := va\<rparr>
      else s\<lparr>userprog_vaddr := (userprog_vaddr s)(running s := va)\<rparr>)"

text \<open>\<^verbatim>\<open>memset(p, 0, n)\<close> on the bytes of the active address space.\<close>

definition zero_bytes :: "u32 \<Rightarrow> u32 \<Rightarrow> mem \<Rightarrow> mem" where
  "zero_bytes p n m = (\<lambda>a. if a - p < n then 0 else m a)"

section \<open>Initialisation\<close>

text \<open>
  The layout of \<^verbatim>\<open>mem_pool_init\<close>: page counts are 16 bit, the bit counts are rounded down to
  bytes, the three bitmaps lie behind each other.
\<close>

record mem_layout =
  kp_start :: u32
  up_start :: u32
  kernel_free_pages :: u16
  user_free_pages :: u16
  kbm_length :: u32
  ubm_length :: u32

definition mem_layout_of :: "u32 \<Rightarrow> mem_layout" where
  "mem_layout_of all_mem =
     (let page_table_size = PG_SIZE * 256;
          used_mem = page_table_size + 0x100000;
          free_mem = all_mem - used_mem;
          all_free_pages = (ucast (free_mem div PG_SIZE) :: u16);
          kfree = all_free_pages div 2;
          ufree = all_free_pages - kfree
      in \<lparr>kp_start = used_mem, up_start = used_mem + ucast kfree * PG_SIZE,
          kernel_free_pages = kfree, user_free_pages = ufree,
          kbm_length = ucast kfree div 8, ubm_length = ucast ufree div 8\<rparr>)"

definition mem_pool_init :: "u32 \<Rightarrow> 'a vm_scheme \<Rightarrow> 'a vm_scheme" where
  "mem_pool_init all_mem s =
     (let l = mem_layout_of all_mem;
          bytes_at = (\<lambda>base i. data s (base + i));
          kbits = MEM_BITMAP_BASE; ubits = MEM_BITMAP_BASE + kbm_length l;
          vbits = MEM_BITMAP_BASE + kbm_length l + ubm_length l
      in s\<lparr>kernel_pool := \<lparr>pool_bitmap = bitmap_init \<lparr>btmp_bytes_len = kbm_length l, bits = bytes_at kbits\<rparr>,
             phy_addr_start = kp_start l, pool_size = ucast (kernel_free_pages l) * PG_SIZE, pool_lock = lock_init\<rparr>,
           user_pool := \<lparr>pool_bitmap = bitmap_init \<lparr>btmp_bytes_len = ubm_length l, bits = bytes_at ubits\<rparr>,
             phy_addr_start = up_start l, pool_size = ucast (user_free_pages l) * PG_SIZE, pool_lock = lock_init\<rparr>,
           kernel_vaddr := \<lparr>vaddr_bitmap = bitmap_init \<lparr>btmp_bytes_len = kbm_length l, bits = bytes_at vbits\<rparr>,
             vaddr_start = K_HEAP_START\<rparr>\<rparr>)"

text \<open>\<^verbatim>\<open>block_desc_init\<close>: seven sizes from 16 to 1024; an arena header has 12 bytes.\<close>

definition block_desc_init :: "nat \<Rightarrow> mem_block_desc" where
  "block_desc_init desc_idx =
     (let size = (16 * 2 ^ desc_idx :: u16)
      in \<lparr>block_size = ucast size, blocks_per_arena = (PG_SIZE - 12) div ucast size, free_list = []\<rparr>)"

definition mem_init :: "u32 \<Rightarrow> 'a vm_scheme \<Rightarrow> 'a vm_scheme" where
  "mem_init mem_bytes_total s = (mem_pool_init mem_bytes_total s)\<lparr>k_block_descs := block_desc_init\<rparr>"

section \<open>Allocation of pages\<close>

definition vaddr_get :: "pool_flags \<Rightarrow> u32 \<Rightarrow> 'a vm_scheme \<Rightarrow> (u32 \<times> 'a vm_scheme) option" where
  "vaddr_get pf pg_cnt s =
     do { let va = get_vaddr pf s;
          bit_idx_start \<leftarrow> bitmap_scan (vaddr_bitmap va) pg_cnt;
          if bit_idx_start = -1 then Some (0, s)
          else do { bm \<leftarrow> bitmap_set_run (unat pg_cnt) (vaddr_bitmap va) bit_idx_start 1;
                    let v = vaddr_start va + bit_idx_start * PG_SIZE;
                    if pf = PF_USER \<and> \<not> v < 0xc0000000 - PG_SIZE then None
                    else Some (v, set_vaddr pf (va\<lparr>vaddr_bitmap := bm\<rparr>) s) } }"

definition palloc :: "pool \<Rightarrow> (u32 \<times> pool) option" where
  "palloc m_pool =
     do { bit_idx \<leftarrow> bitmap_scan (pool_bitmap m_pool) 1;
          if bit_idx = -1 then Some (0, m_pool)
          else do { bm \<leftarrow> bitmap_set (pool_bitmap m_pool) bit_idx 1;
                    Some (bit_idx * PG_SIZE + phy_addr_start m_pool, m_pool\<lparr>pool_bitmap := bm\<rparr>) } }"

definition page_table_add :: "u32 \<Rightarrow> u32 \<Rightarrow> 'a vm_scheme \<Rightarrow> 'a vm_scheme option" where
  "page_table_add vaddr page_phyaddr s =
     (let pde = pde_ptr vaddr; pte = pte_ptr vaddr
      in if ptab s pde AND 1 \<noteq> 0 then
           if ptab s pte AND 1 \<noteq> 0 then None
           else Some (s\<lparr>ptab := (ptab s)(pte := page_entry page_phyaddr)\<rparr>)
         else do {
           (pde_phyaddr, p) \<leftarrow> palloc (kernel_pool s);
           let s = s\<lparr>kernel_pool := p\<rparr>;
           let s = s\<lparr>ptab := (ptab s)(pde := page_entry pde_phyaddr)\<rparr>;
           let s = s\<lparr>ptab := clear_table (pte AND 0xfffff000) (ptab s)\<rparr>;
           if ptab s pte AND 1 \<noteq> 0 then None
           else Some (s\<lparr>ptab := (ptab s)(pte := page_entry page_phyaddr)\<rparr>) })"

fun malloc_page_loop :: "nat \<Rightarrow> pool_flags \<Rightarrow> u32 \<Rightarrow> 'a vm_scheme \<Rightarrow> (bool \<times> 'a vm_scheme) option" where
  "malloc_page_loop 0 pf vaddr s = Some (True, s)"
| "malloc_page_loop (Suc cnt) pf vaddr s =
     do { (page_phyaddr, p) \<leftarrow> palloc (get_pool pf s);
          let s = set_pool pf p s;
          if page_phyaddr = 0 then Some (False, s)
          else do { s \<leftarrow> page_table_add vaddr page_phyaddr s;
                    malloc_page_loop cnt pf (vaddr + PG_SIZE) s } }"

definition malloc_page :: "pool_flags \<Rightarrow> u32 \<Rightarrow> 'a vm_scheme \<Rightarrow> (u32 \<times> 'a vm_scheme) option" where
  "malloc_page pf pg_cnt s =
     (if \<not> (pg_cnt > 0 \<and> pg_cnt < 3840) then None
      else do {
        (vaddr_start, s) \<leftarrow> vaddr_get pf pg_cnt s;
        if vaddr_start = 0 then Some (0, s)
        else do { (ok, s) \<leftarrow> malloc_page_loop (unat pg_cnt) pf vaddr_start s;
                  Some (if ok then vaddr_start else 0, s) } })"

definition pool_acquire :: "pool_flags \<Rightarrow> 'a vm_scheme \<Rightarrow> 'a vm_scheme option" where
  "pool_acquire pf s =
     do { (l, s) \<leftarrow> lock_acquire (pool_lock (get_pool pf s)) s;
          Some (set_pool pf ((get_pool pf s)\<lparr>pool_lock := l\<rparr>) s) }"

definition pool_release :: "pool_flags \<Rightarrow> 'a vm_scheme \<Rightarrow> 'a vm_scheme option" where
  "pool_release pf s =
     do { (l, s) \<leftarrow> lock_release (pool_lock (get_pool pf s)) s;
          Some (set_pool pf ((get_pool pf s)\<lparr>pool_lock := l\<rparr>) s) }"

definition get_kernel_pages :: "u32 \<Rightarrow> 'a vm_scheme \<Rightarrow> (u32 \<times> 'a vm_scheme) option" where
  "get_kernel_pages pg_cnt s =
     do { s \<leftarrow> pool_acquire PF_KERNEL s;
          (vaddr, s) \<leftarrow> malloc_page PF_KERNEL pg_cnt s;
          let s = (if vaddr \<noteq> 0 then s\<lparr>data := zero_bytes vaddr (pg_cnt * PG_SIZE) (data s)\<rparr> else s);
          s \<leftarrow> pool_release PF_KERNEL s;
          Some (vaddr, s) }"

text \<open>\<^verbatim>\<open>get_user_pages\<close> does not test the result: \<^verbatim>\<open>memset\<close> asserts that it is not NULL.\<close>

definition get_user_pages :: "u32 \<Rightarrow> 'a vm_scheme \<Rightarrow> (u32 \<times> 'a vm_scheme) option" where
  "get_user_pages pg_cnt s =
     do { s \<leftarrow> pool_acquire PF_USER s;
          (vaddr, s) \<leftarrow> malloc_page PF_USER pg_cnt s;
          if vaddr = 0 then None
          else do { let s = s\<lparr>data := zero_bytes vaddr (pg_cnt * PG_SIZE) (data s)\<rparr>;
                    s \<leftarrow> pool_release PF_USER s;
                    Some (vaddr, s) } }"

definition get_a_page_without_opvaddrbitmap ::
  "pool_flags \<Rightarrow> u32 \<Rightarrow> 'a vm_scheme \<Rightarrow> (u32 \<times> 'a vm_scheme) option" where
  "get_a_page_without_opvaddrbitmap pf vaddr s =
     do { s \<leftarrow> pool_acquire pf s;
          (page_phyaddr, p) \<leftarrow> palloc (get_pool pf s);
          let s = set_pool pf p s;
          if page_phyaddr = 0 then do { s \<leftarrow> pool_release pf s; Some (0, s) }
          else do { s \<leftarrow> page_table_add vaddr page_phyaddr s;
                    s \<leftarrow> pool_release pf s;
                    Some (vaddr, s) } }"

text \<open>
  \<^verbatim>\<open>bit_idx\<close> is an \<^verbatim>\<open>int32_t\<close>: the user case asserts \<open>\<ge> 0\<close>, the kernel case \<open>> 0\<close>. A kernel
  thread may only ask for kernel pages here and a process only for user pages.
\<close>

definition get_a_page :: "pool_flags \<Rightarrow> u32 \<Rightarrow> 'a vm_scheme \<Rightarrow> (u32 \<times> 'a vm_scheme) option" where
  "get_a_page pf vaddr s =
     do { s \<leftarrow> pool_acquire pf s;
          let cur = tasks s (running s);
          let va = get_vaddr pf s;
          let bit_idx = (vaddr - vaddr_start va) div PG_SIZE;
          if (pgdir cur \<noteq> 0 \<and> pf = PF_USER \<and> sint bit_idx \<ge> 0) \<or>
             (pgdir cur = 0 \<and> pf = PF_KERNEL \<and> sint bit_idx > 0) then
            do { bm \<leftarrow> bitmap_set (vaddr_bitmap va) bit_idx 1;
                 let s = set_vaddr pf (va\<lparr>vaddr_bitmap := bm\<rparr>) s;
                 (page_phyaddr, p) \<leftarrow> palloc (get_pool pf s);
                 let s = set_pool pf p s;
                 if page_phyaddr = 0 then do { s \<leftarrow> pool_release pf s; Some (0, s) }
                 else do { s \<leftarrow> page_table_add vaddr page_phyaddr s;
                           s \<leftarrow> pool_release pf s;
                           Some (vaddr, s) } }
          else None }"

section \<open>Release of pages\<close>

definition pfree :: "u32 \<Rightarrow> 'a vm_scheme \<Rightarrow> 'a vm_scheme option" where
  "pfree pg_phy_addr s =
     (let pf = (if pg_phy_addr \<ge> phy_addr_start (user_pool s) then PF_USER else PF_KERNEL);
          p = get_pool pf s;
          bit_idx = (pg_phy_addr - phy_addr_start p) div PG_SIZE
      in do { bm \<leftarrow> bitmap_set (pool_bitmap p) bit_idx 0;
              Some (set_pool pf (p\<lparr>pool_bitmap := bm\<rparr>) s) })"

definition free_a_phy_page :: "u32 \<Rightarrow> 'a vm_scheme \<Rightarrow> 'a vm_scheme option" where
  "free_a_phy_page pg_phy_addr s =
     (let pf = (if pg_phy_addr \<ge> phy_addr_start (user_pool s) then PF_USER else PF_KERNEL);
          p = get_pool pf s;
          bit_idx = (pg_phy_addr - phy_addr_start p) div PG_SIZE
      in do { bm \<leftarrow> bitmap_set (pool_bitmap p) bit_idx 0;
              Some (set_pool pf (p\<lparr>pool_bitmap := bm\<rparr>) s) })"

definition vaddr_remove :: "pool_flags \<Rightarrow> u32 \<Rightarrow> u32 \<Rightarrow> 'a vm_scheme \<Rightarrow> 'a vm_scheme option" where
  "vaddr_remove pf vaddr pg_cnt s =
     (let va = get_vaddr pf s; bit_idx_start = (vaddr - vaddr_start va) div PG_SIZE
      in do { bm \<leftarrow> bitmap_set_run (unat pg_cnt) (vaddr_bitmap va) bit_idx_start 0;
              Some (set_vaddr pf (va\<lparr>vaddr_bitmap := bm\<rparr>) s) })"

text \<open>
  The two loops of \<^verbatim>\<open>mfree_page\<close> differ in the assertion on the frame: all frames must be
  of the pool the first one is of.
\<close>

fun mfree_page_loop :: "nat \<Rightarrow> bool \<Rightarrow> u32 \<Rightarrow> 'a vm_scheme \<Rightarrow> 'a vm_scheme option" where
  "mfree_page_loop 0 user vaddr s = Some s"
| "mfree_page_loop (Suc n) user vaddr s =
     (let pg_phy_addr = addr_v2p (ptab s) vaddr
      in if pg_phy_addr mod PG_SIZE = 0 \<and>
            (if user then pg_phy_addr \<ge> phy_addr_start (user_pool s)
             else pg_phy_addr \<ge> phy_addr_start (kernel_pool s) \<and> pg_phy_addr < phy_addr_start (user_pool s))
         then do { s \<leftarrow> pfree pg_phy_addr s;
                   let s = s\<lparr>ptab := page_table_pte_remove (ptab s) vaddr\<rparr>;
                   mfree_page_loop n user (vaddr + PG_SIZE) s }
         else None)"

definition mfree_page :: "pool_flags \<Rightarrow> u32 \<Rightarrow> u32 \<Rightarrow> 'a vm_scheme \<Rightarrow> 'a vm_scheme option" where
  "mfree_page pf vaddr pg_cnt s =
     (if \<not> (pg_cnt \<ge> 1 \<and> vaddr mod PG_SIZE = 0) then None
      else let pg_phy_addr = addr_v2p (ptab s) vaddr
        in if \<not> (pg_phy_addr mod PG_SIZE = 0 \<and> pg_phy_addr \<ge> 0x102000) then None
           else do { s \<leftarrow> mfree_page_loop (unat pg_cnt) (pg_phy_addr \<ge> phy_addr_start (user_pool s)) vaddr s;
                     vaddr_remove pf vaddr pg_cnt s })"

section \<open>Frames\<close>

definition pool_frames :: "pool \<Rightarrow> u32 set" where
  "pool_frames p = {f. \<exists>i < bm_bits (pool_bitmap p). unat f = unat (phy_addr_start p) + 4096 * i}"

definition free_frames :: "pool \<Rightarrow> u32 set" where
  "free_frames p = {f. \<exists>i < bm_bits (pool_bitmap p).
     unat f = unat (phy_addr_start p) + 4096 * i \<and> \<not> bm_used (pool_bitmap p) i}"

definition pool_ok :: "pool \<Rightarrow> bool" where
  "pool_ok p \<longleftrightarrow> 0 < unat (phy_addr_start p) \<and> page_aligned (phy_addr_start p) \<and>
     unat (phy_addr_start p) + 4096 * bm_bits (pool_bitmap p) < 2 ^ 32"

lemma pool_ok_bits: "pool_ok p \<Longrightarrow> bm_bits (pool_bitmap p) < 2 ^ 32"
  by (simp add: pool_ok_def)

lemma free_frames_sub: "free_frames p \<subseteq> pool_frames p"
  by (auto simp: free_frames_def pool_frames_def)

lemma frame_aligned: "pool_ok p \<Longrightarrow> f \<in> pool_frames p \<Longrightarrow> page_aligned f \<and> f \<noteq> 0"
proof -
  assume p: "pool_ok p" and f: "f \<in> pool_frames p"
  then obtain i where i: "unat f = unat (phy_addr_start p) + 4096 * i" by (auto simp: pool_frames_def)
  then have "unat f mod 4096 = 0" using p by (simp add: pool_ok_def page_aligned_def)
  moreover have "unat f \<noteq> 0" using i p by (simp add: pool_ok_def)
  ultimately show ?thesis by (auto simp: page_aligned_def)
qed

lemma unat_page_offset: "unat (i * PG_SIZE) = 4096 * unat i" if "4096 * unat i < 2 ^ 32"
  using that by (subst unat_mult_small) (simp_all add: PG_SIZE_def)

text \<open>\<^verbatim>\<open>palloc\<close> and \<^verbatim>\<open>pfree\<close> on the set of free frames.\<close>

lemma palloc_spec:
  assumes p: "pool_ok p"
  shows "\<exists>f p'. palloc p = Some (f, p') \<and> phy_addr_start p' = phy_addr_start p \<and>
    bm_bits (pool_bitmap p') = bm_bits (pool_bitmap p) \<and> pool_lock p' = pool_lock p \<and> pool_size p' = pool_size p \<and>
    (if free_frames p = {} then f = 0 \<and> p' = p
     else f \<in> free_frames p \<and> free_frames p' = free_frames p - {f})"
proof -
  let ?b = "pool_bitmap p"
  note N = pool_ok_bits [OF p]
  obtain r where r: "bitmap_scan ?b 1 = Some r" using bm.scan_returns [OF N zero_less_one_u32] by blast
  show ?thesis
  proof (cases "r = -1")
    case True
    then have "\<forall>i < bm_bits ?b. bm_used ?b i" using bm.alloc_fails_iff_full [OF N] r by simp
    then have "free_frames p = {}" by (auto simp: free_frames_def)
    then show ?thesis using r True by (simp add: palloc_def)
  next
    case False
    obtain b' where b': "bitmap_set ?b r 1 = Some b'" using bitmap_set_total [of 1] by blast
    note fresh = bm.alloc_fresh [OF N r False b']
    define f where "f = r * PG_SIZE + phy_addr_start p"
    have lt: "4096 * unat r + unat (phy_addr_start p) < 2 ^ 32" using fresh(1) p by (simp add: pool_ok_def)
    then have f: "unat f = unat (phy_addr_start p) + 4096 * unat r"
      using unat_page_offset [of r] unfolding f_def by (subst unat_add_small) simp_all
    have idx: "i = unat r" if "unat f = unat (phy_addr_start p) + 4096 * i" for i using that f by simp
    have "f \<in> free_frames p" using f fresh(1,2) by (auto simp: free_frames_def)
    moreover have "free_frames (p\<lparr>pool_bitmap := b'\<rparr>) = free_frames p - {f}"
    proof (intro set_eqI iffI)
      fix g assume "g \<in> free_frames (p\<lparr>pool_bitmap := b'\<rparr>)"
      then obtain i where i: "i < bm_bits ?b" "unat g = unat (phy_addr_start p) + 4096 * i" "\<not> bm_used b' i"
        by (auto simp: free_frames_def fresh(5))
      moreover have "i \<noteq> unat r" using i(3) fresh(3) by auto
      moreover have "i < 2 ^ 32" using i(1) N by simp
      ultimately show "g \<in> free_frames p - {f}" using fresh(4) idx by (auto simp: free_frames_def)
    next
      fix g assume "g \<in> free_frames p - {f}"
      then obtain i where i: "i < bm_bits ?b" "unat g = unat (phy_addr_start p) + 4096 * i" "\<not> bm_used ?b i"
        and "g \<noteq> f" by (auto simp: free_frames_def)
      moreover from this have "i \<noteq> unat r" using f by (auto simp: word_eq_unat)
      moreover have "i < 2 ^ 32" using i(1) N by simp
      ultimately show "g \<in> free_frames (p\<lparr>pool_bitmap := b'\<rparr>)"
        using fresh(4) by (auto simp: free_frames_def fresh(5))
    qed
    moreover have "palloc p = Some (f, p\<lparr>pool_bitmap := b'\<rparr>)" using r False b' by (simp add: palloc_def f_def)
    ultimately show ?thesis using fresh(5) by auto
  qed
qed

lemma frame_index:
  assumes p: "pool_ok p" and f: "unat f = unat (phy_addr_start p) + 4096 * i" "i < bm_bits (pool_bitmap p)"
  shows "unat ((f - phy_addr_start p) div PG_SIZE) = i"
proof -
  have "phy_addr_start p \<le> f" using f by (simp add: word_le_nat_alt)
  then show ?thesis using f by (simp add: unat_div unat_sub PG_SIZE_def)
qed

lemma release_frame:
  assumes p: "pool_ok p" and f: "f \<in> pool_frames p"
  shows "\<exists>b'. bitmap_set (pool_bitmap p) ((f - phy_addr_start p) div PG_SIZE) 0 = Some b' \<and>
    bm_bits b' = bm_bits (pool_bitmap p) \<and> free_frames (p\<lparr>pool_bitmap := b'\<rparr>) = insert f (free_frames p)"
proof -
  let ?b = "pool_bitmap p" and ?r = "(f - phy_addr_start p) div PG_SIZE"
  obtain i where i: "i < bm_bits ?b" "unat f = unat (phy_addr_start p) + 4096 * i"
    using f by (auto simp: pool_frames_def)
  have r: "unat ?r = i" by (rule frame_index [OF p i(2,1)])
  obtain b' where b': "bitmap_set ?b ?r 0 = Some b'" using bitmap_set_total [of 0] by blast
  have used: "j < bm_bits ?b \<Longrightarrow> bm_used b' j \<longleftrightarrow> j \<noteq> i \<and> bm_used ?b j" for j
    using bitmap_set_used [OF b', of j] pool_ok_bits [OF p] r by simp
  have bits: "bm_bits b' = bm_bits ?b" by (rule bitmap_set_bits [OF b'])
  have "free_frames (p\<lparr>pool_bitmap := b'\<rparr>) = insert f (free_frames p)"
    unfolding free_frames_def using i used bits by (auto simp: word_eq_unat) blast?
  then show ?thesis using b' bits by blast
qed

section \<open>The invariant of page memory\<close>

definition page_at :: "u32 \<Rightarrow> nat \<Rightarrow> u32" where
  "page_at v i = v + of_nat i * PG_SIZE"

lemma unat_page_at: "unat v + 4096 * i < 2 ^ 32 \<Longrightarrow> unat (page_at v i) = unat v + 4096 * i"
proof -
  assume a: "unat v + 4096 * i < 2 ^ 32"
  then have i: "unat (of_nat i :: u32) = i" by (intro unat_of_nat_32) linarith
  then have "unat (of_nat i * PG_SIZE) = 4096 * i" using a unat_page_offset [of "of_nat i"] by simp
  then show ?thesis using a unfolding page_at_def by (subst unat_add_small) simp_all
qed

lemma page_at_0 [simp]: "page_at v 0 = v"
  by (simp add: page_at_def)

lemma page_at_Suc: "page_at v (Suc i) = page_at (v + PG_SIZE) i"
  by (simp add: page_at_def algebra_simps)

lemma page_at_same:
  assumes "unat v + 4096 * i < 2 ^ 32" "unat v + 4096 * j < 2 ^ 32" "page_aligned v"
  shows "same_page (page_at v i) (page_at v j) \<longleftrightarrow> i = j"
proof -
  obtain k where k: "unat v = 4096 * k" using assms(3) by (auto simp: page_aligned_def)
  have "unat (page_at v i) div 4096 = k + i" "unat (page_at v j) div 4096 = k + j"
    using assms(1,2) k by (simp_all add: unat_page_at)
  then show ?thesis by (simp add: same_page_def)
qed

lemma page_at_aligned: "unat v + 4096 * i < 2 ^ 32 \<Longrightarrow> page_aligned v \<Longrightarrow> page_aligned (page_at v i)"
  by (simp add: page_aligned_def unat_page_at)

lemma aligned_offset: "page_aligned w \<Longrightarrow> w AND 0xfff = 0"
proof -
  assume w: "page_aligned w"
  have "unat (w AND mask 12) = 0" using w by (simp only: unat_and_mask page_aligned_def) simp
  then show ?thesis by (simp add: mask_eq_exp_minus_1 unsigned_eq_0_iff)
qed

definition vregion_ok :: "ptab \<Rightarrow> virtual_addr \<Rightarrow> nat \<Rightarrow> nat \<Rightarrow> bool" where
  "vregion_ok t va lo hi \<longleftrightarrow> bm_bits (vaddr_bitmap va) = 0 \<or>
     (lo \<le> unat (vaddr_start va) \<and> page_aligned (vaddr_start va) \<and>
      unat (vaddr_start va) + 4096 * bm_bits (vaddr_bitmap va) \<le> hi \<and>
      (\<forall>i < bm_bits (vaddr_bitmap va). \<not> bm_used (vaddr_bitmap va) i \<longrightarrow>
         translate t (page_at (vaddr_start va) i) = None))"

text \<open>
  Two disjoint pools of frames; the free pages of the kernel heap and of the process heap are
  unmapped; the last page of the process heap (its stack page) is taken.
\<close>

definition vm_ok :: "'a vm_scheme \<Rightarrow> bool" where
  "vm_ok s \<longleftrightarrow> pool_ok (kernel_pool s) \<and> pool_ok (user_pool s) \<and>
     unat (phy_addr_start (kernel_pool s)) + 4096 * bm_bits (pool_bitmap (kernel_pool s)) \<le>
       unat (phy_addr_start (user_pool s)) \<and>
     vregion_ok (ptab s) (kernel_vaddr s) 0xc0000000 0xffc00000 \<and>
     vregion_ok (ptab s) (userprog_vaddr s (running s)) 4096 0xc0000000 \<and>
     (let b = vaddr_bitmap (userprog_vaddr s (running s)) in bm_bits b = 0 \<or> bm_used b (bm_bits b - 1))"

definition pool_le :: "pool \<Rightarrow> pool \<Rightarrow> bool" where
  "pool_le p' p \<longleftrightarrow> phy_addr_start p' = phy_addr_start p \<and>
     bm_bits (pool_bitmap p') = bm_bits (pool_bitmap p) \<and> pool_lock p' = pool_lock p \<and>
     pool_size p' = pool_size p \<and> free_frames p' \<subseteq> free_frames p"

lemma pool_le_refl [simp]: "pool_le p p"
  by (simp add: pool_le_def)

lemma pool_le_trans: "pool_le p'' p' \<Longrightarrow> pool_le p' p \<Longrightarrow> pool_le p'' p"
  by (auto simp: pool_le_def)

lemma pool_le_ok: "pool_le p' p \<Longrightarrow> pool_ok p \<Longrightarrow> pool_ok p'"
  by (simp add: pool_le_def pool_ok_def)

lemma palloc_le:
  assumes "pool_ok p"
  obtains f p' where "palloc p = Some (f, p')" "pool_le p' p"
    "if free_frames p = {} then f = 0 else f \<in> free_frames p \<and> free_frames p' = free_frames p - {f}"
proof -
  obtain f p' where f: "palloc p = Some (f, p')" "phy_addr_start p' = phy_addr_start p"
    "bm_bits (pool_bitmap p') = bm_bits (pool_bitmap p)" "pool_lock p' = pool_lock p" "pool_size p' = pool_size p"
    "if free_frames p = {} then f = 0 \<and> p' = p else f \<in> free_frames p \<and> free_frames p' = free_frames p - {f}"
    using palloc_spec [OF assms] by blast
  show ?thesis
  proof (rule that [OF f(1)])
    show "pool_le p' p" using f by (auto simp: pool_le_def split: if_splits)
    show "if free_frames p = {} then f = 0 else f \<in> free_frames p \<and> free_frames p' = free_frames p - {f}"
      using f(6) by (simp split: if_splits)
  qed
qed

lemma clear_table_self: "clear_table (p AND 0xfffff000) t p = 0"
  by (simp add: clear_table_def)

lemma page_table_add_spec:
  assumes k: "pool_ok (kernel_pool s)" and v: "low_addr v" and un: "translate (ptab s) v = None"
  shows "\<exists>p d. page_table_add v f s = Some (s\<lparr>kernel_pool := p, ptab := map_page (ptab s) v f d\<rparr>) \<and>
    pool_le p (kernel_pool s)"
proof (cases "present (ptab s) (pde_ptr v)")
  case True
  then have "\<not> present (ptab s) (pte_ptr v)" using un by (auto simp: translate_def split: if_splits)
  then have "page_table_add v f s = Some (s\<lparr>ptab := map_page (ptab s) v f 0\<rparr>)"
    using True by (simp add: page_table_add_def map_page_def present_def Let_def)
  moreover have "s\<lparr>ptab := map_page (ptab s) v f 0\<rparr> =
      s\<lparr>kernel_pool := kernel_pool s, ptab := map_page (ptab s) v f 0\<rparr>" by simp
  ultimately show ?thesis by (metis pool_le_refl)
next
  case False
  obtain d p where "palloc (kernel_pool s) = Some (d, p)" "pool_le p (kernel_pool s)"
    using palloc_le [OF k] by metis
  moreover from this have "page_table_add v f s = Some (s\<lparr>kernel_pool := p, ptab := map_page (ptab s) v f d\<rparr>)"
    using False by (simp add: page_table_add_def map_page_def present_def Let_def clear_table_self)
  ultimately show ?thesis by blast
qed

definition unmapped_run :: "ptab \<Rightarrow> u32 \<Rightarrow> nat \<Rightarrow> bool" where
  "unmapped_run t v n \<longleftrightarrow> page_aligned v \<and> unat v + 4096 * n \<le> 0xffc00000 \<and>
     (\<forall>i<n. translate t (page_at v i) = None)"

lemma unmapped_run_map:
  assumes u: "unmapped_run t v (Suc n)" and f: "page_aligned f"
  shows "unmapped_run (map_page t v f d) (v + PG_SIZE) n"
    and "translate (map_page t v f d) v = Some f"
    and "low_addr w \<Longrightarrow> \<not> same_page v w \<Longrightarrow> translate (map_page t v f d) w = translate t w"
proof -
  have al: "page_aligned v" and hi: "unat v + 4096 * Suc n \<le> 0xffc00000"
    and un: "\<And>i. i < Suc n \<Longrightarrow> translate t (page_at v i) = None" using u by (auto simp: unmapped_run_def)
  have low: "low_addr v" using hi by (simp add: low_addr_def)
  have tv: "translate t v = None" using un [of 0] by simp
  note tr = translate_map_page [OF low _ f tv, of _ d]
  show "low_addr w \<Longrightarrow> \<not> same_page v w \<Longrightarrow> translate (map_page t v f d) w = translate t w" by (simp add: tr)
  show "translate (map_page t v f d) v = Some f"
    using tr [OF low] aligned_offset [OF al] by (simp add: same_page_def)
  have nx: "page_at (v + PG_SIZE) i = page_at v (Suc i)" for i by (simp add: page_at_Suc)
  have "translate (map_page t v f d) (page_at v (Suc i)) = None" if i: "i < n" for i
  proof -
    have "unat (page_at v (Suc i)) = unat v + 4096 * Suc i" using i hi by (intro unat_page_at) simp
    then have "low_addr (page_at v (Suc i))" using i hi unfolding low_addr_def by simp
    moreover have "\<not> same_page v (page_at v (Suc i))" using page_at_same [of v 0 "Suc i"] al i hi by simp
    ultimately show ?thesis using tr un [of "Suc i"] i by simp
  qed
  moreover have v1: "unat (v + PG_SIZE) = unat v + 4096"
    using unat_page_at [of v 1] hi by (simp add: page_at_def)
  moreover have "page_aligned (v + PG_SIZE)" using al v1 by (simp add: page_aligned_def)
  ultimately show "unmapped_run (map_page t v f d) (v + PG_SIZE) n" using hi by (simp add: unmapped_run_def nx)
qed

lemma get_set_pool [simp]:
  "get_pool pf (set_pool pf p s) = p" "get_pool pf (s\<lparr>ptab := t\<rparr>) = get_pool pf s"
  "ptab (set_pool pf p s) = ptab s" "running (set_pool pf p s) = running s"
  "kernel_vaddr (set_pool pf p s) = kernel_vaddr s" "userprog_vaddr (set_pool pf p s) = userprog_vaddr s"
  "data (set_pool pf p s) = data s" "arenas (set_pool pf p s) = arenas s"
  by (auto simp: get_pool_def set_pool_def)

text \<open>A state that differs in the page tables and in frames taken from the pools only.\<close>

definition took_frames :: "'a vm_scheme \<Rightarrow> 'a vm_scheme \<Rightarrow> bool" where
  "took_frames s s' \<longleftrightarrow>
     s' = s\<lparr>ptab := ptab s', kernel_pool := kernel_pool s', user_pool := user_pool s'\<rparr> \<and>
     pool_le (kernel_pool s') (kernel_pool s) \<and> pool_le (user_pool s') (user_pool s)"

lemma took_refl [simp]: "took_frames s s"
  by (simp add: took_frames_def)

lemma took_trans: "took_frames s s1 \<Longrightarrow> took_frames s1 s2 \<Longrightarrow> took_frames s s2"
proof -
  assume a: "took_frames s s1" and b: "took_frames s1 s2"
  have "s2 = s1\<lparr>ptab := ptab s2, kernel_pool := kernel_pool s2, user_pool := user_pool s2\<rparr>"
    using b by (simp add: took_frames_def)
  also have "s1 = s\<lparr>ptab := ptab s1, kernel_pool := kernel_pool s1, user_pool := user_pool s1\<rparr>"
    using a by (simp add: took_frames_def)
  finally have "s2 = s\<lparr>ptab := ptab s2, kernel_pool := kernel_pool s2, user_pool := user_pool s2\<rparr>" by simp
  then show ?thesis using a b by (auto simp: took_frames_def intro: pool_le_trans)
qed

lemma took_set_pool: "pool_le p (get_pool pf s) \<Longrightarrow> took_frames s (set_pool pf p s)"
  by (cases pf) (simp_all add: took_frames_def set_pool_def get_pool_def)

lemma took_map: "pool_le p (kernel_pool s) \<Longrightarrow> took_frames s (s\<lparr>kernel_pool := p, ptab := t\<rparr>)"
  by (simp add: took_frames_def)

lemma took_pool: "took_frames s s' \<Longrightarrow> pool_le (get_pool pf s') (get_pool pf s)"
  by (simp add: took_frames_def get_pool_def)

lemma took_rest:
  assumes "took_frames s s'"
  shows "running s' = running s" "kernel_vaddr s' = kernel_vaddr s" "userprog_vaddr s' = userprog_vaddr s"
    "get_vaddr pf s' = get_vaddr pf s" "data s' = data s" "arenas s' = arenas s" "tasks s' = tasks s"
    "k_block_descs s' = k_block_descs s" "u_block_desc s' = u_block_desc s"
proof -
  define x where "x = s'"
  have e: "s' = s\<lparr>ptab := ptab x, kernel_pool := kernel_pool x, user_pool := user_pool x\<rparr>"
    using assms by (simp add: took_frames_def x_def)
  show "running s' = running s" "kernel_vaddr s' = kernel_vaddr s" "userprog_vaddr s' = userprog_vaddr s"
    "get_vaddr pf s' = get_vaddr pf s" "data s' = data s" "arenas s' = arenas s" "tasks s' = tasks s"
    "k_block_descs s' = k_block_descs s" "u_block_desc s' = u_block_desc s"
    unfolding get_vaddr_def by (simp_all add: e)
qed

lemma malloc_page_loop_spec:
  "pool_ok (kernel_pool s) \<Longrightarrow> pool_ok (user_pool s) \<Longrightarrow> unmapped_run (ptab s) v n \<Longrightarrow>
   \<exists>ok s' fs. malloc_page_loop n pf v s = Some (ok, s') \<and> took_frames s s' \<and>
     length fs \<le> n \<and> (ok \<longleftrightarrow> length fs = n) \<and> distinct fs \<and>
     set fs \<subseteq> free_frames (get_pool pf s) - free_frames (get_pool pf s') \<and>
     (pf = PF_USER \<longrightarrow> free_frames (user_pool s') = free_frames (user_pool s) - set fs) \<and>
     (\<not> ok \<longrightarrow> free_frames (get_pool pf s') = {}) \<and>
     (\<forall>i<length fs. translate (ptab s') (page_at v i) = Some (fs ! i)) \<and>
     (\<forall>w. low_addr w \<longrightarrow> (\<forall>i<n. \<not> same_page (page_at v i) w) \<longrightarrow> translate (ptab s') w = translate (ptab s) w)"
proof (induction n arbitrary: v s)
  case 0
  then show ?case by (intro exI [of _ True] exI [of _ s] exI [of _ "[]"]) simp
next
  case (Suc n)
  have pok: "pool_ok (get_pool pf s)" using Suc.prems by (simp add: get_pool_def)
  obtain f p where pa: "palloc (get_pool pf s) = Some (f, p)" and ple: "pool_le p (get_pool pf s)"
    and fr: "if free_frames (get_pool pf s) = {} then f = 0
      else f \<in> free_frames (get_pool pf s) \<and> free_frames p = free_frames (get_pool pf s) - {f}"
    using palloc_le [OF pok] by metis
  define s1 where "s1 = set_pool pf p s"
  have t1: "took_frames s s1" unfolding s1_def by (rule took_set_pool [OF ple])
  show ?case
  proof (cases "free_frames (get_pool pf s) = {}")
    case True
    then have "malloc_page_loop (Suc n) pf v s = Some (False, s1)" using pa fr by (simp add: s1_def)
    moreover have pe: "free_frames p = {}" using ple True by (auto simp: pool_le_def)
    then have "pf = PF_USER \<longrightarrow> free_frames (user_pool s1) = free_frames (user_pool s)"
      using True by (auto simp: s1_def set_pool_def get_pool_def)
    moreover have "ptab s1 = ptab s" "free_frames (get_pool pf s1) = {}" using pe by (simp_all add: s1_def)
    ultimately show ?thesis using t1 by (intro exI [of _ False] exI [of _ s1] exI [of _ "[]"]) simp
  next
    case False
    then have f: "f \<in> free_frames (get_pool pf s)" "free_frames p = free_frames (get_pool pf s) - {f}"
      using fr by auto
    have al: "page_aligned f" and f0: "f \<noteq> 0"
      using frame_aligned [OF pok] f(1) free_frames_sub by blast+
    have low: "low_addr v" and un: "translate (ptab s) v = None"
      using Suc.prems(3) unfolding unmapped_run_def low_addr_def by (auto dest: spec [of _ 0])
    have k1: "pool_ok (kernel_pool s1)" "pool_ok (user_pool s1)"
      using t1 Suc.prems(1,2) pool_le_ok unfolding took_frames_def by blast+
    obtain kp d where add: "page_table_add v f s1 = Some (s1\<lparr>kernel_pool := kp, ptab := map_page (ptab s1) v f d\<rparr>)"
      "pool_le kp (kernel_pool s1)"
      using page_table_add_spec [OF k1(1) low, of f] un by (auto simp: s1_def)
    define s2 where "s2 = s1\<lparr>kernel_pool := kp, ptab := map_page (ptab s1) v f d\<rparr>"
    have t2: "took_frames s1 s2" unfolding s2_def by (rule took_map [OF add(2)])
    have k2: "pool_ok (kernel_pool s2)" "pool_ok (user_pool s2)"
      using t2 k1 pool_le_ok unfolding took_frames_def by blast+
    have pt2: "ptab s2 = map_page (ptab s) v f d" by (simp add: s2_def s1_def)
    note um = unmapped_run_map [OF Suc.prems(3) al, where d = d, folded pt2]
    obtain ok s' fs where IH: "malloc_page_loop n pf (v + PG_SIZE) s2 = Some (ok, s')" "took_frames s2 s'"
      "length fs \<le> n" "ok \<longleftrightarrow> length fs = n" "distinct fs"
      "set fs \<subseteq> free_frames (get_pool pf s2) - free_frames (get_pool pf s')"
      and exact: "pf = PF_USER \<longrightarrow> free_frames (user_pool s') = free_frames (user_pool s2) - set fs"
      and ex0: "\<not> ok \<longrightarrow> free_frames (get_pool pf s') = {}"
      and IHt: "\<forall>i<length fs. translate (ptab s') (page_at (v + PG_SIZE) i) = Some (fs ! i)"
      "\<forall>w. low_addr w \<longrightarrow> (\<forall>i<n. \<not> same_page (page_at (v + PG_SIZE) i) w) \<longrightarrow> translate (ptab s') w = translate (ptab s2) w"
      using Suc.IH [OF k2 um(1)] by blast
    have s2f: "free_frames (get_pool pf s2) \<subseteq> free_frames (get_pool pf s) - {f}"
      using took_pool [OF t2, of pf] f(2) by (simp add: s1_def pool_le_def)
    have nf: "f \<notin> free_frames (get_pool pf s')"
      using took_pool [OF IH(2), of pf] s2f by (auto simp: pool_le_def)
    have ex: "malloc_page_loop (Suc n) pf v s = Some (ok, s')"
      using pa f0 add(1) IH(1) by (simp add: s1_def [symmetric] s2_def)
    have al_v: "page_aligned v" and hi: "unat v + 4096 * Suc n \<le> 0xffc00000"
      using Suc.prems(3) by (auto simp: unmapped_run_def)
    have "\<not> same_page (page_at (v + PG_SIZE) i) v" if "i < n" for i
      using page_at_same [of v "Suc i" 0] al_v hi that by (simp add: page_at_Suc)
    then have tv: "translate (ptab s') v = Some f" using IHt(2) low um(2) by simp
    have "translate (ptab s') (page_at v i) = Some ((f # fs) ! i)" if "i < length (f # fs)" for i
      using that IHt(1) tv by (cases i) (simp_all add: page_at_Suc)
    moreover have "translate (ptab s') w = translate (ptab s) w"
      if w: "low_addr w" and ne: "\<forall>i<Suc n. \<not> same_page (page_at v i) w" for w
    proof -
      have "\<not> same_page v w" using ne by (auto dest: spec [of _ 0])
      moreover have "\<forall>i<n. \<not> same_page (page_at (v + PG_SIZE) i) w" using ne by (auto simp: page_at_Suc [symmetric])
      ultimately show ?thesis using IHt(2) w um(3) by simp
    qed
    moreover have "pf = PF_USER \<longrightarrow> free_frames (user_pool s') = free_frames (user_pool s) - set (f # fs)"
      using exact f(2) by (auto simp: s2_def s1_def set_pool_def get_pool_def)
    moreover have "f \<notin> set fs" using IH(6) s2f by blast
    moreover have "took_frames s s'" using t1 t2 IH(2) took_trans by blast
    ultimately show ?thesis using ex ex0 IH(3-6) f(1) nf s2f
      by (intro exI [of _ ok] exI [of _ s'] exI [of _ "f # fs"]) auto
  qed
qed

lemma get_set_vaddr [simp]:
  "get_vaddr pf (set_vaddr pf va s) = va" "get_pool pf' (set_vaddr pf va s) = get_pool pf' s"
  "kernel_pool (set_vaddr pf va s) = kernel_pool s" "user_pool (set_vaddr pf va s) = user_pool s"
  "ptab (set_vaddr pf va s) = ptab s" "running (set_vaddr pf va s) = running s"
  by (auto simp: get_vaddr_def set_vaddr_def get_pool_def)

lemma get_vaddr_other: "pf' \<noteq> pf \<Longrightarrow> get_vaddr pf' (set_vaddr pf va s) = get_vaddr pf' s"
  by (cases pf; cases pf') (simp_all add: get_vaddr_def set_vaddr_def)

definition vlo :: "pool_flags \<Rightarrow> nat" where
  "vlo pf = (if pf = PF_KERNEL then 0xc0000000 else 4096)"

definition vhi :: "pool_flags \<Rightarrow> nat" where
  "vhi pf = (if pf = PF_KERNEL then 0xffc00000 else 0xc0000000)"

lemma vm_ok_iff:
  "vm_ok s \<longleftrightarrow> pool_ok (kernel_pool s) \<and> pool_ok (user_pool s) \<and>
     unat (phy_addr_start (kernel_pool s)) + 4096 * bm_bits (pool_bitmap (kernel_pool s)) \<le>
       unat (phy_addr_start (user_pool s)) \<and>
     (\<forall>pf. vregion_ok (ptab s) (get_vaddr pf s) (vlo pf) (vhi pf)) \<and>
     (let b = vaddr_bitmap (get_vaddr PF_USER s) in bm_bits b = 0 \<or> bm_used b (bm_bits b - 1))"
proof -
  have all: "(\<forall>pf. P pf) \<longleftrightarrow> P PF_KERNEL \<and> P PF_USER" for P by (metis pool_flags.exhaust)
  show ?thesis unfolding vm_ok_def all by (simp add: get_vaddr_def vlo_def vhi_def)
qed

lemma vregion_page:
  assumes "vregion_ok t va lo hi" "i < bm_bits (vaddr_bitmap va)" "hi \<le> 0xffc00000"
  shows "unat (page_at (vaddr_start va) i) = unat (vaddr_start va) + 4096 * i"
    "unat (vaddr_start va) + 4096 * Suc i \<le> hi" "lo \<le> unat (vaddr_start va)" "page_aligned (vaddr_start va)"
    "low_addr (page_at (vaddr_start va) i)"
proof -
  have r: "lo \<le> unat (vaddr_start va)" "page_aligned (vaddr_start va)"
    "unat (vaddr_start va) + 4096 * bm_bits (vaddr_bitmap va) \<le> hi"
    using assms(1,2) by (auto simp: vregion_ok_def)
  then show "lo \<le> unat (vaddr_start va)" "page_aligned (vaddr_start va)" by simp_all
  have "4096 * Suc i \<le> 4096 * bm_bits (vaddr_bitmap va)" using assms(2) by simp
  then show hi: "unat (vaddr_start va) + 4096 * Suc i \<le> hi" using r(3) by linarith
  show u: "unat (page_at (vaddr_start va) i) = unat (vaddr_start va) + 4096 * i"
    using hi assms(3) by (intro unat_page_at) simp
  show "low_addr (page_at (vaddr_start va) i)" unfolding low_addr_def u using hi assms(3) by simp
qed

lemma vhi_le: "vhi pf \<le> 0xffc00000"
  by (simp add: vhi_def)

text \<open>\<^verbatim>\<open>vaddr_get\<close>: NULL without a change, or a run of free pages that is taken.\<close>

lemma vaddr_get_spec:
  fixes pf :: pool_flags and s :: "'a vm_scheme"
  assumes ok: "vm_ok s" and n: "0 < n"
  defines "va \<equiv> get_vaddr pf s"
  shows "vaddr_get pf n s = Some (0, s) \<or>
    (\<exists>i bm. vaddr_get pf n s = Some (page_at (vaddr_start va) i, set_vaddr pf (va\<lparr>vaddr_bitmap := bm\<rparr>) s) \<and>
       i + unat n \<le> bm_bits (vaddr_bitmap va) \<and> page_at (vaddr_start va) i \<noteq> 0 \<and>
       unmapped_run (ptab s) (page_at (vaddr_start va) i) (unat n) \<and>
       (\<forall>j. i \<le> j \<and> j < i + unat n \<longrightarrow> \<not> bm_used (vaddr_bitmap va) j) \<and>
       bm_bits bm = bm_bits (vaddr_bitmap va) \<and>
       (\<forall>j < bm_bits bm. bm_used bm j \<longleftrightarrow> i \<le> j \<and> j < i + unat n \<or> bm_used (vaddr_bitmap va) j))"
proof -
  let ?b = "vaddr_bitmap va"
  have reg: "vregion_ok (ptab s) va (vlo pf) (vhi pf)" using ok by (simp add: vm_ok_iff va_def)
  have N: "bm_bits ?b < 2 ^ 32" using reg vhi_le [of pf] by (auto simp: vregion_ok_def)
  obtain r where r: "bitmap_scan ?b n = Some r" using bm.scan_returns [OF N n] by blast
  show ?thesis
  proof (cases "r = -1")
    case True
    then show ?thesis using r by (simp add: vaddr_get_def va_def)
  next
    case False
    define i where "i = unat r"
    have area: "i + unat n \<le> bm_bits ?b" "\<And>j. i \<le> j \<Longrightarrow> j < i + unat n \<Longrightarrow> \<not> bm_used ?b j"
      using bm.scan_free [OF N n r False] by (auto simp: i_def)
    have n1: "0 < unat n" using n by (simp add: unat_gt_0)
    have ib: "i < bm_bits ?b" using area(1) n1 by simp
    note pg = vregion_page [OF reg ib vhi_le]
    obtain bm where bm: "bitmap_set_run (unat n) ?b r 1 = Some bm" using bitmap_set_run_total [of 1] by blast
    have bits: "bm_bits bm = bm_bits ?b" using bitmap_set_run_bits [OF bm] by (simp add: bm_bits_def)
    have used: "bm_used bm j \<longleftrightarrow> i \<le> j \<and> j < i + unat n \<or> bm_used ?b j" if "j < bm_bits bm" for j
      using bitmap_set_run_used [OF bm, of j] area(1) N that bits by (auto simp: i_def)
    have v: "vaddr_start va + r * PG_SIZE = page_at (vaddr_start va) i" by (simp add: page_at_def i_def)
    have nz: "page_at (vaddr_start va) i \<noteq> 0"
    proof
      assume "page_at (vaddr_start va) i = 0"
      then have "unat (vaddr_start va) + 4096 * i = 0" using pg(1) by simp
      moreover have "0 < vlo pf" by (simp add: vlo_def)
      ultimately show False using pg(3) by simp
    qed
    have lim: "page_at (vaddr_start va) i < 0xc0000000 - PG_SIZE" if u: "pf = PF_USER"
    proof -
      have "bm_used ?b (bm_bits ?b - 1)"
        using ok ib u unfolding vm_ok_iff va_def by (simp add: Let_def)
      moreover have "\<not> bm_used ?b i" using area(2) [of i] n1 by simp
      ultimately have "i \<noteq> bm_bits ?b - 1" by auto
      then have "Suc i < bm_bits ?b" using ib by simp
      then have "unat (vaddr_start va) + 4096 * Suc (Suc i) \<le> 0xc0000000"
        using vregion_page(2) [OF reg _ vhi_le, of "Suc i"] u by (simp add: vhi_def)
      then show ?thesis using pg(1) by (simp add: word_less_nat_alt PG_SIZE_def)
    qed
    have "unmapped_run (ptab s) (page_at (vaddr_start va) i) (unat n)"
      unfolding unmapped_run_def
    proof (intro conjI allI impI)
      show "page_aligned (page_at (vaddr_start va) i)" using pg vhi_le [of pf] by (intro page_at_aligned) auto
      have "i + unat n - 1 < bm_bits ?b" "Suc (i + unat n - 1) = i + unat n" using area(1) n1 by auto
      then have "unat (vaddr_start va) + 4096 * (i + unat n) \<le> vhi pf"
        using vregion_page(2) [OF reg _ vhi_le, of "i + unat n - 1"] by simp
      then show "unat (page_at (vaddr_start va) i) + 4096 * unat n \<le> 0xffc00000"
        using vhi_le [of pf] unfolding pg(1) by simp
      fix j assume j: "j < unat n"
      then have "page_at (page_at (vaddr_start va) i) j = page_at (vaddr_start va) (i + j)"
        by (simp add: page_at_def algebra_simps)
      moreover have "i + j < bm_bits ?b" "\<not> bm_used ?b (i + j)" using j area by auto
      ultimately show "translate (ptab s) (page_at (page_at (vaddr_start va) i) j) = None"
        using reg ib by (auto simp: vregion_ok_def)
    qed
    moreover have "vaddr_get pf n s = Some (page_at (vaddr_start va) i, set_vaddr pf (va\<lparr>vaddr_bitmap := bm\<rparr>) s)"
      using r False bm lim by (simp add: vaddr_get_def va_def [symmetric] v Let_def)
    ultimately show ?thesis using area nz bits used by blast
  qed
qed

lemma same_page_aligned: "page_aligned v \<Longrightarrow> page_aligned w \<Longrightarrow> same_page v w \<longleftrightarrow> v = w"
proof -
  assume a: "page_aligned v" "page_aligned w"
  have "unat v = 4096 * (unat v div 4096)" "unat w = 4096 * (unat w div 4096)"
    using a mult_div_mod_eq [of 4096 "unat v"] mult_div_mod_eq [of 4096 "unat w"]
    by (simp_all add: page_aligned_def)
  then show ?thesis by (metis same_page_def word_eq_unat)
qed

text \<open>Pages of the two regions never coincide.\<close>

lemma regions_apart:
  assumes "vregion_ok t va (vlo pf) (vhi pf)" "vregion_ok t' vb (vlo pf') (vhi pf')" "pf' \<noteq> pf"
    and "i < bm_bits (vaddr_bitmap va)" "j < bm_bits (vaddr_bitmap vb)"
  shows "\<not> same_page (page_at (vaddr_start va) i) (page_at (vaddr_start vb) j)"
proof
  note a = vregion_page [OF assms(1,4) vhi_le] and b = vregion_page [OF assms(2,5) vhi_le]
  assume "same_page (page_at (vaddr_start va) i) (page_at (vaddr_start vb) j)"
  moreover have "page_aligned (page_at (vaddr_start va) i)" "page_aligned (page_at (vaddr_start vb) j)"
    using a b vhi_le [of pf] vhi_le [of pf'] by (auto intro!: page_at_aligned)
  ultimately have "unat (vaddr_start va) + 4096 * i = unat (vaddr_start vb) + 4096 * j"
    using a(1) b(1) same_page_aligned by metis
  then show False using a(2,3) b(2,3) assms(3) by (cases pf; cases pf') (simp_all add: vlo_def vhi_def)
qed

text \<open>
  Taking a run of pages of one region and mapping some of them keeps the invariant: what is
  still free is neither in the run nor remapped.
\<close>

lemma vregion_take:
  assumes reg: "vregion_ok t va (vlo pf) (vhi pf)"
    and bits: "bm_bits bm = bm_bits (vaddr_bitmap va)"
    and used: "\<forall>j < bm_bits bm. bm_used bm j \<longleftrightarrow> i \<le> j \<and> j < i + n \<or> bm_used (vaddr_bitmap va) j"
    and run: "i + n \<le> bm_bits (vaddr_bitmap va)"
    and same: "\<forall>w. low_addr w \<longrightarrow> (\<forall>k<n. \<not> same_page (page_at (page_at (vaddr_start va) i) k) w) \<longrightarrow>
       translate t' w = translate t w"
  shows "vregion_ok t' (va\<lparr>vaddr_bitmap := bm\<rparr>) (vlo pf) (vhi pf)"
proof -
  have "translate t' (page_at (vaddr_start va) j) = None"
    if j: "j < bm_bits (vaddr_bitmap va)" "\<not> bm_used bm j" for j
  proof -
    have nj: "\<not> bm_used (vaddr_bitmap va) j" "\<not> (i \<le> j \<and> j < i + n)" using used j bits by auto
    note pj = vregion_page [OF reg j(1) vhi_le]
    have "\<not> same_page (page_at (page_at (vaddr_start va) i) k) (page_at (vaddr_start va) j)" if k: "k < n" for k
    proof -
      have e: "page_at (page_at (vaddr_start va) i) k = page_at (vaddr_start va) (i + k)"
        by (simp add: page_at_def algebra_simps)
      have "i + k < bm_bits (vaddr_bitmap va)" "i + k \<noteq> j" using k run nj(2) by auto
      then show ?thesis unfolding e
        using vregion_page(2) [OF reg _ vhi_le, of "i + k"] pj(2,4) vhi_le [of pf]
        by (subst page_at_same) simp_all
    qed
    then have "translate t' (page_at (vaddr_start va) j) = translate t (page_at (vaddr_start va) j)"
      using same pj(5) by blast
    also have "\<dots> = None" using reg j(1) nj(1) by (auto simp: vregion_ok_def)
    finally show ?thesis .
  qed
  then show ?thesis using reg bits by (auto simp: vregion_ok_def)
qed

lemma vregion_other:
  assumes rv: "vregion_ok t va (vlo pf) (vhi pf)" and rw: "vregion_ok t vb (vlo pf') (vhi pf')" "pf' \<noteq> pf"
    and run: "i + n \<le> bm_bits (vaddr_bitmap va)"
    and same: "\<forall>w. low_addr w \<longrightarrow> (\<forall>k<n. \<not> same_page (page_at (page_at (vaddr_start va) i) k) w) \<longrightarrow>
       translate t' w = translate t w"
  shows "vregion_ok t' vb (vlo pf') (vhi pf')"
proof -
  have "translate t' (page_at (vaddr_start vb) j) = translate t (page_at (vaddr_start vb) j)"
    if j: "j < bm_bits (vaddr_bitmap vb)" for j
  proof -
    have "\<not> same_page (page_at (page_at (vaddr_start va) i) k) (page_at (vaddr_start vb) j)" if "k < n" for k
    proof -
      have e: "page_at (page_at (vaddr_start va) i) k = page_at (vaddr_start va) (i + k)"
        by (simp add: page_at_def algebra_simps)
      show ?thesis unfolding e using that run by (intro regions_apart [OF rv rw] j) simp
    qed
    then show ?thesis using same vregion_page(5) [OF rw(1) j vhi_le] by blast
  qed
  then show ?thesis using rw(1) by (auto simp: vregion_ok_def)
qed

text \<open>
  The pages from \<open>v\<close> on, free and unmapped in \<open>s\<close>, are taken in \<open>s'\<close> and mapped to the
  distinct frames \<open>fs\<close>, which were free in the pool; no other page is remapped.
\<close>

definition in_region :: "virtual_addr \<Rightarrow> u32 \<Rightarrow> nat \<Rightarrow> nat \<Rightarrow> bool" where
  "in_region va v i n \<longleftrightarrow> v = page_at (vaddr_start va) i \<and> i + n \<le> bm_bits (vaddr_bitmap va)"

definition mapped_new :: "pool_flags \<Rightarrow> 'a vm_scheme \<Rightarrow> u32 \<Rightarrow> u32 list \<Rightarrow> 'a vm_scheme \<Rightarrow> bool" where
  "mapped_new pf s v fs s' \<longleftrightarrow> distinct fs \<and>
     set fs \<subseteq> free_frames (get_pool pf s) - free_frames (get_pool pf s') \<and>
     (pf = PF_USER \<longrightarrow> free_frames (user_pool s') = free_frames (user_pool s) - set fs) \<and>
     unmapped_run (ptab s) v (length fs) \<and>
     (\<forall>i<length fs. translate (ptab s') (page_at v i) = Some (fs ! i)) \<and>
     (\<forall>w. low_addr w \<longrightarrow> (\<forall>i<length fs. \<not> same_page (page_at v i) w) \<longrightarrow>
        translate (ptab s') w = translate (ptab s) w) \<and>
     (\<exists>i. in_region (get_vaddr pf s) v i (length fs) \<and>
        vaddr_start (get_vaddr pf s') = vaddr_start (get_vaddr pf s) \<and>
        bm_bits (vaddr_bitmap (get_vaddr pf s')) = bm_bits (vaddr_bitmap (get_vaddr pf s)) \<and>
        (\<forall>j < bm_bits (vaddr_bitmap (get_vaddr pf s)).
           bm_used (vaddr_bitmap (get_vaddr pf s')) j \<longleftrightarrow>
             i \<le> j \<and> j < i + length fs \<or> bm_used (vaddr_bitmap (get_vaddr pf s)) j) \<and>
        (\<forall>j. i \<le> j \<and> j < i + length fs \<longrightarrow> \<not> bm_used (vaddr_bitmap (get_vaddr pf s)) j))"

lemma page_table_add_data: "page_table_add v f s = Some s' \<Longrightarrow> data s' = data s"
  by (auto simp: page_table_add_def Let_def split: if_splits bind_splits)

lemma malloc_page_loop_data: "malloc_page_loop n pf v s = Some (ok, s') \<Longrightarrow> data s' = data s"
  by (induction n pf v s arbitrary: ok rule: malloc_page_loop.induct)
    (auto simp: Let_def page_table_add_data split: if_splits bind_splits)

lemma malloc_page_data: "malloc_page pf n s = Some (v, s') \<Longrightarrow> data s' = data s"
  by (auto simp: malloc_page_def vaddr_get_def Let_def set_vaddr_def malloc_page_loop_data
      split: if_splits bind_splits)

text \<open>The parts of the state that page allocation and release leave alone.\<close>

definition same_rest :: "'a vm_scheme \<Rightarrow> 'a vm_scheme \<Rightarrow> bool" where
  "same_rest s s' \<longleftrightarrow> running s' = running s \<and> tasks s' = tasks s \<and> arenas s' = arenas s \<and>
     k_block_descs s' = k_block_descs s \<and> u_block_desc s' = u_block_desc s \<and> data s' = data s"

lemma same_rest_refl [simp]: "same_rest s s"
  by (simp add: same_rest_def)

lemma same_rest_trans: "same_rest s s1 \<Longrightarrow> same_rest s1 s2 \<Longrightarrow> same_rest s s2"
  by (simp add: same_rest_def)

lemma same_rest_upd [simp]:
  "same_rest s (set_pool pf p s1) = same_rest s s1" "same_rest s (set_vaddr pf va s1) = same_rest s s1"
  "same_rest s (s1\<lparr>ptab := t\<rparr>) = same_rest s s1"
  by (simp_all add: same_rest_def set_pool_def set_vaddr_def)

text \<open>Mapped pages stay mapped as they were, and taken pages stay taken.\<close>

definition kept_pages :: "pool_flags \<Rightarrow> 'a vm_scheme \<Rightarrow> 'a vm_scheme \<Rightarrow> bool" where
  "kept_pages pf s s' \<longleftrightarrow>
     (\<forall>w. low_addr w \<and> translate (ptab s) w \<noteq> None \<longrightarrow> translate (ptab s') w = translate (ptab s) w) \<and>
     vaddr_start (get_vaddr pf s') = vaddr_start (get_vaddr pf s) \<and>
     bm_bits (vaddr_bitmap (get_vaddr pf s')) = bm_bits (vaddr_bitmap (get_vaddr pf s)) \<and>
     (\<forall>j < bm_bits (vaddr_bitmap (get_vaddr pf s)).
        bm_used (vaddr_bitmap (get_vaddr pf s)) j \<longrightarrow> bm_used (vaddr_bitmap (get_vaddr pf s')) j)"

lemma translate_same_page: "same_page v w \<Longrightarrow> translate t v = None \<longleftrightarrow> translate t w = None"
  using same_page_pde [of v w] same_page_pte [of v w] by (auto simp: translate_def split: if_splits)

lemma malloc_page_spec:
  assumes ok: "vm_ok s" and n: "0 < n" "n < 3840"
  shows "\<exists>v s'. malloc_page pf n s = Some (v, s') \<and> vm_ok s' \<and> running s' = running s \<and>
    pool_le (kernel_pool s') (kernel_pool s) \<and> pool_le (user_pool s') (user_pool s) \<and>
    (v \<noteq> 0 \<longrightarrow> (\<exists>fs. length fs = unat n \<and> mapped_new pf s v fs s')) \<and> same_rest s s' \<and> kept_pages pf s s'"
  using vaddr_get_spec [OF ok n(1), of pf]
proof
  assume "vaddr_get pf n s = Some (0, s)"
  then show ?thesis using n ok by (auto simp: malloc_page_def kept_pages_def)
next
  define va where "va = get_vaddr pf s"
  assume "\<exists>i bm. vaddr_get pf n s = Some (page_at (vaddr_start (get_vaddr pf s)) i,
        set_vaddr pf ((get_vaddr pf s)\<lparr>vaddr_bitmap := bm\<rparr>) s) \<and>
       i + unat n \<le> bm_bits (vaddr_bitmap (get_vaddr pf s)) \<and> page_at (vaddr_start (get_vaddr pf s)) i \<noteq> 0 \<and>
       unmapped_run (ptab s) (page_at (vaddr_start (get_vaddr pf s)) i) (unat n) \<and>
       (\<forall>j. i \<le> j \<and> j < i + unat n \<longrightarrow> \<not> bm_used (vaddr_bitmap (get_vaddr pf s)) j) \<and>
       bm_bits bm = bm_bits (vaddr_bitmap (get_vaddr pf s)) \<and>
       (\<forall>j < bm_bits bm. bm_used bm j \<longleftrightarrow> i \<le> j \<and> j < i + unat n \<or> bm_used (vaddr_bitmap (get_vaddr pf s)) j)"
  then obtain i bm where vg: "vaddr_get pf n s = Some (page_at (vaddr_start va) i, set_vaddr pf (va\<lparr>vaddr_bitmap := bm\<rparr>) s)"
    and run: "i + unat n \<le> bm_bits (vaddr_bitmap va)" and nz: "page_at (vaddr_start va) i \<noteq> 0"
    and un: "unmapped_run (ptab s) (page_at (vaddr_start va) i) (unat n)"
    and bits: "bm_bits bm = bm_bits (vaddr_bitmap va)"
    and used: "\<forall>j < bm_bits bm. bm_used bm j \<longleftrightarrow> i \<le> j \<and> j < i + unat n \<or> bm_used (vaddr_bitmap va) j"
    and unused: "\<forall>j. i \<le> j \<and> j < i + unat n \<longrightarrow> \<not> bm_used (vaddr_bitmap va) j"
    unfolding va_def by blast
  define v where "v = page_at (vaddr_start va) i"
  define s0 where "s0 = set_vaddr pf (va\<lparr>vaddr_bitmap := bm\<rparr>) s"
  have s0: "kernel_pool s0 = kernel_pool s" "user_pool s0 = user_pool s" "ptab s0 = ptab s"
    "\<And>pf. get_pool pf s0 = get_pool pf s" by (simp_all add: s0_def)
  have pools: "pool_ok (kernel_pool s0)" "pool_ok (user_pool s0)" using ok s0 by (simp_all add: vm_ok_iff)
  have un0: "unmapped_run (ptab s0) v (unat n)" using un by (simp add: s0 v_def)
  obtain okf s' fs where L: "malloc_page_loop (unat n) pf v s0 = Some (okf, s')" "took_frames s0 s'"
    "length fs \<le> unat n" "okf \<longleftrightarrow> length fs = unat n" "distinct fs"
    "set fs \<subseteq> free_frames (get_pool pf s0) - free_frames (get_pool pf s')"
    "\<forall>i<length fs. translate (ptab s') (page_at v i) = Some (fs ! i)"
    "\<forall>w. low_addr w \<longrightarrow> (\<forall>i<unat n. \<not> same_page (page_at v i) w) \<longrightarrow> translate (ptab s') w = translate (ptab s0) w"
    and exact: "pf = PF_USER \<longrightarrow> free_frames (user_pool s') = free_frames (user_pool s0) - set fs"
    using malloc_page_loop_spec [OF pools un0, of pf] by blast
  have ple: "pool_le (kernel_pool s') (kernel_pool s)" "pool_le (user_pool s') (user_pool s)"
    using L(2) s0 by (auto simp: took_frames_def)
  have reg: "vregion_ok (ptab s) (get_vaddr p s) (vlo p) (vhi p)" for p using ok by (simp add: vm_ok_iff)
  have same: "\<forall>w. low_addr w \<longrightarrow> (\<forall>k<unat n. \<not> same_page (page_at (page_at (vaddr_start va) i) k) w) \<longrightarrow>
       translate (ptab s') w = translate (ptab s) w" using L(8) by (simp add: v_def s0)
  have gv: "get_vaddr p s' = get_vaddr p s0" for p by (rule took_rest(4) [OF L(2)])
  have "vregion_ok (ptab s') (get_vaddr p s') (vlo p) (vhi p)" for p
  proof (cases "p = pf")
    case True
    then show ?thesis using vregion_take [OF reg [of pf, folded va_def] bits used run same]
      by (simp add: gv s0_def)
  next
    case False
    then show ?thesis using vregion_other [OF reg [of pf, folded va_def] reg [of p] False run same]
      by (simp add: gv s0_def get_vaddr_other)
  qed
  moreover have "let b = vaddr_bitmap (get_vaddr PF_USER s') in bm_bits b = 0 \<or> bm_used b (bm_bits b - 1)"
  proof (cases "pf = PF_USER")
    case True
    have "bm_bits (vaddr_bitmap va) = 0 \<or> bm_used (vaddr_bitmap va) (bm_bits (vaddr_bitmap va) - 1)"
      using ok True unfolding vm_ok_iff va_def by (simp add: Let_def)
    then have "bm_bits bm = 0 \<or> bm_used bm (bm_bits bm - 1)"
      using used bits by (cases "bm_bits bm = 0") auto
    then show ?thesis using True by (simp add: gv s0_def)
  next
    case False
    then show ?thesis using ok unfolding vm_ok_iff by (simp add: gv s0_def get_vaddr_other)
  qed
  ultimately have "vm_ok s'" using ok ple unfolding vm_ok_iff by (auto simp: pool_le_def pool_ok_def)
  moreover have "malloc_page pf n s = Some (if okf then v else 0, s')"
    using n vg nz L(1) by (simp add: malloc_page_def v_def s0_def)
  moreover have "mapped_new pf s v fs s'" if o: "okf"
  proof -
    have len: "length fs = unat n" using o L(4) by simp
    have gvp: "get_vaddr pf s' = va\<lparr>vaddr_bitmap := bm\<rparr>" using gv [of pf] by (simp add: s0_def)
    have "\<exists>i. in_region va v i (length fs) \<and> vaddr_start (get_vaddr pf s') = vaddr_start va \<and>
        bm_bits (vaddr_bitmap (get_vaddr pf s')) = bm_bits (vaddr_bitmap va) \<and>
        (\<forall>j < bm_bits (vaddr_bitmap va). bm_used (vaddr_bitmap (get_vaddr pf s')) j \<longleftrightarrow>
             i \<le> j \<and> j < i + length fs \<or> bm_used (vaddr_bitmap va) j) \<and>
        (\<forall>j. i \<le> j \<and> j < i + length fs \<longrightarrow> \<not> bm_used (vaddr_bitmap va) j)"
      using used unused bits run unfolding gvp len in_region_def v_def by (intro exI [of _ i]) simp
    then show ?thesis unfolding mapped_new_def va_def [symmetric]
      using L(5-8) exact un0 len by (simp add: s0)
  qed
  moreover have "running s' = running s" using took_rest(1) [OF L(2)] by (simp add: s0_def)
  moreover have "same_rest s s'"
  proof -
    have "same_rest s0 s'" using took_rest [OF L(2)] by (simp add: same_rest_def)
    then show ?thesis using same_rest_trans [of s s0] by (simp add: s0_def)
  qed
  moreover have "kept_pages pf s s'"
  proof -
    have "translate (ptab s') w = translate (ptab s) w" if w: "low_addr w" "translate (ptab s) w \<noteq> None" for w
    proof -
      have "\<not> same_page (page_at (page_at (vaddr_start va) i) k) w" if "k < unat n" for k
      proof
        assume "same_page (page_at (page_at (vaddr_start va) i) k) w"
        from translate_same_page [OF this, of "ptab s"] show False using w(2) un that by (simp add: unmapped_run_def)
      qed
      then show ?thesis using same [rule_format, OF w(1)] by simp
    qed
    then show ?thesis using used bits
      by (simp add: kept_pages_def gv s0_def) (simp add: va_def)
  qed
  ultimately show ?thesis using ple L(4) by (auto split: if_splits)
qed

section \<open>Freeing pages\<close>

definition mapped_run :: "ptab \<Rightarrow> u32 \<Rightarrow> u32 list \<Rightarrow> bool" where
  "mapped_run t v fs \<longleftrightarrow> page_aligned v \<and> unat v + 4096 * length fs \<le> 0xffc00000 \<and>
     (\<forall>i<length fs. translate t (page_at v i) = Some (fs ! i))"

definition pools_apart :: "'a vm_scheme \<Rightarrow> bool" where
  "pools_apart s \<longleftrightarrow> pool_ok (kernel_pool s) \<and> pool_ok (user_pool s) \<and>
     unat (phy_addr_start (kernel_pool s)) + 4096 * bm_bits (pool_bitmap (kernel_pool s)) \<le>
       unat (phy_addr_start (user_pool s))"

lemma frame_side:
  assumes p: "pools_apart s" and f: "f \<in> pool_frames (get_pool pf s)"
  shows "f \<ge> phy_addr_start (user_pool s) \<longleftrightarrow> pf = PF_USER" "f \<ge> phy_addr_start (get_pool pf s)" "f mod PG_SIZE = 0"
proof -
  obtain i where i: "i < bm_bits (pool_bitmap (get_pool pf s))" "unat f = unat (phy_addr_start (get_pool pf s)) + 4096 * i"
    using f by (auto simp: pool_frames_def)
  then show "f \<ge> phy_addr_start (user_pool s) \<longleftrightarrow> pf = PF_USER" "f \<ge> phy_addr_start (get_pool pf s)"
    using p by (cases pf; simp add: get_pool_def pools_apart_def word_le_nat_alt)+
  have "pool_ok (get_pool pf s)" using p by (simp add: pools_apart_def get_pool_def)
  then have "page_aligned f" using frame_aligned f by blast
  then show "f mod PG_SIZE = 0" by (simp add: word_eq_unat unat_mod PG_SIZE_def page_aligned_def)
qed

lemma pfree_spec:
  assumes p: "pools_apart s" and f: "f \<in> pool_frames (get_pool pf s)"
  shows "\<exists>q. pfree f s = Some (set_pool pf q s) \<and> free_frames q = insert f (free_frames (get_pool pf s)) \<and>
    phy_addr_start q = phy_addr_start (get_pool pf s) \<and> pool_lock q = pool_lock (get_pool pf s) \<and>
    bm_bits (pool_bitmap q) = bm_bits (pool_bitmap (get_pool pf s))"
proof -
  have "pool_ok (get_pool pf s)" using p by (simp add: pools_apart_def get_pool_def)
  from release_frame [OF this f] obtain b' where
    b': "bitmap_set (pool_bitmap (get_pool pf s)) ((f - phy_addr_start (get_pool pf s)) div PG_SIZE) 0 = Some b'"
    "bm_bits b' = bm_bits (pool_bitmap (get_pool pf s))"
    "free_frames ((get_pool pf s)\<lparr>pool_bitmap := b'\<rparr>) = insert f (free_frames (get_pool pf s))" by blast
  have "(if f \<ge> phy_addr_start (user_pool s) then PF_USER else PF_KERNEL) = pf"
    using frame_side(1) [OF p f] by (cases pf) auto
  then have "pfree f s = Some (set_pool pf ((get_pool pf s)\<lparr>pool_bitmap := b'\<rparr>) s)"
    using b'(1) unfolding pfree_def by (simp only: Let_def) simp
  then show ?thesis using b' by fastforce
qed

lemma pool_frames_cong: "phy_addr_start q = phy_addr_start p \<Longrightarrow>
    bm_bits (pool_bitmap q) = bm_bits (pool_bitmap p) \<Longrightarrow> pool_frames q = pool_frames p"
  by (simp add: pool_frames_def)

lemma get_pool_other: "pf' \<noteq> pf \<Longrightarrow> get_pool pf' (set_pool pf p s) = get_pool pf' s"
  by (cases pf; cases pf') (simp_all add: get_pool_def set_pool_def)

lemma pools_apart_set:
  assumes "pools_apart s" "phy_addr_start q = phy_addr_start (get_pool pf s)"
    "bm_bits (pool_bitmap q) = bm_bits (pool_bitmap (get_pool pf s))"
  shows "pools_apart ((set_pool pf q s)\<lparr>ptab := t\<rparr>)"
  using assms by (cases pf) (simp_all add: pools_apart_def set_pool_def get_pool_def pool_ok_def)

lemma translate_frame: "translate t v = Some f \<Longrightarrow> addr_v2p t v = f"
  by (simp add: translate_def split: if_splits)

lemma mfree_page_loop_spec:
  "pools_apart s \<Longrightarrow> mapped_run (ptab s) v fs \<Longrightarrow> distinct fs \<Longrightarrow> set fs \<subseteq> pool_frames (get_pool pf s) \<Longrightarrow>
   \<exists>q t. mfree_page_loop (length fs) (pf = PF_USER) v s = Some ((set_pool pf q s)\<lparr>ptab := t\<rparr>) \<and>
     free_frames q = set fs \<union> free_frames (get_pool pf s) \<and>
     phy_addr_start q = phy_addr_start (get_pool pf s) \<and> pool_lock q = pool_lock (get_pool pf s) \<and>
     bm_bits (pool_bitmap q) = bm_bits (pool_bitmap (get_pool pf s)) \<and>
     (\<forall>w. low_addr w \<longrightarrow> translate t w =
        (if \<exists>i<length fs. same_page (page_at v i) w then None else translate (ptab s) w))"
proof (induction fs arbitrary: v s)
  case Nil
  have "s = (set_pool pf (get_pool pf s) s)\<lparr>ptab := ptab s\<rparr>" by (cases pf) (simp_all add: set_pool_def get_pool_def)
  then show ?case by (intro exI [of _ "get_pool pf s"] exI [of _ "ptab s"]) simp
next
  case (Cons f fs)
  have al: "page_aligned v" and hi: "unat v + 4096 * Suc (length fs) \<le> 0xffc00000"
    and tr: "\<And>i. i < Suc (length fs) \<Longrightarrow> translate (ptab s) (page_at v i) = Some ((f # fs) ! i)"
    using Cons.prems(2) by (auto simp: mapped_run_def)
  have low: "low_addr v" using hi by (simp add: low_addr_def)
  have f: "f \<in> pool_frames (get_pool pf s)" using Cons.prems(4) by simp
  have af: "addr_v2p (ptab s) v = f" using tr [of 0] translate_frame by simp
  obtain q where q: "pfree f s = Some (set_pool pf q s)" "free_frames q = insert f (free_frames (get_pool pf s))"
    "phy_addr_start q = phy_addr_start (get_pool pf s)" "pool_lock q = pool_lock (get_pool pf s)"
    "bm_bits (pool_bitmap q) = bm_bits (pool_bitmap (get_pool pf s))"
    using pfree_spec [OF Cons.prems(1) f] by blast
  define t1 where "t1 = page_table_pte_remove (ptab s) v"
  define s1 where "s1 = (set_pool pf q s)\<lparr>ptab := t1\<rparr>"
  have t1: "translate t1 w = (if same_page v w then None else translate (ptab s) w)" if "low_addr w" for w
    unfolding t1_def by (rule translate_pte_remove [OF low that])
  have apart1: "pools_apart s1" unfolding s1_def by (rule pools_apart_set [OF Cons.prems(1) q(3,5)])
  have v1: "unat (v + PG_SIZE) = unat v + 4096" using unat_page_at [of v 1] hi by (simp add: page_at_def)
  have run1: "mapped_run (ptab s1) (v + PG_SIZE) fs"
    unfolding mapped_run_def
  proof (intro conjI allI impI)
    show "page_aligned (v + PG_SIZE)" using al v1 by (simp add: page_aligned_def)
    show "unat (v + PG_SIZE) + 4096 * length fs \<le> 0xffc00000" using hi v1 by simp
    fix i assume i: "i < length fs"
    have "unat (page_at v (Suc i)) = unat v + 4096 * Suc i" using i hi by (intro unat_page_at) simp
    then have "low_addr (page_at v (Suc i))" using i hi unfolding low_addr_def by simp
    moreover have "\<not> same_page v (page_at v (Suc i))" using page_at_same [of v 0 "Suc i"] al i hi by simp
    ultimately show "translate (ptab s1) (page_at (v + PG_SIZE) i) = Some (fs ! i)"
      using t1 tr [of "Suc i"] i by (simp add: s1_def page_at_Suc)
  qed
  have pf1: "set fs \<subseteq> pool_frames (get_pool pf s1)"
    using Cons.prems(4) pool_frames_cong [OF q(3,5)] by (simp add: s1_def)
  obtain q' t where IH: "mfree_page_loop (length fs) (pf = PF_USER) (v + PG_SIZE) s1 = Some ((set_pool pf q' s1)\<lparr>ptab := t\<rparr>)"
    "free_frames q' = set fs \<union> free_frames (get_pool pf s1)" "phy_addr_start q' = phy_addr_start (get_pool pf s1)"
    "pool_lock q' = pool_lock (get_pool pf s1)" "bm_bits (pool_bitmap q') = bm_bits (pool_bitmap (get_pool pf s1))"
    "\<forall>w. low_addr w \<longrightarrow> translate t w =
        (if \<exists>i<length fs. same_page (page_at (v + PG_SIZE) i) w then None else translate (ptab s1) w)"
    using Cons.IH [OF apart1 run1 _ pf1] Cons.prems(3) by auto
  have chk: "f mod PG_SIZE = 0" "(if pf = PF_USER then f \<ge> phy_addr_start (user_pool s)
      else f \<ge> phy_addr_start (kernel_pool s) \<and> f < phy_addr_start (user_pool s))"
    using frame_side [OF Cons.prems(1) f] by (cases pf; simp add: get_pool_def not_le [symmetric])+
  have step: "mfree_page_loop (length (f # fs)) (pf = PF_USER) v s =
      mfree_page_loop (length fs) (pf = PF_USER) (v + PG_SIZE) s1"
    using chk q(1) by (simp add: af Let_def s1_def t1_def)
  have fin: "(set_pool pf q' s1)\<lparr>ptab := t\<rparr> = (set_pool pf q' s)\<lparr>ptab := t\<rparr>"
    by (cases pf) (simp_all add: s1_def set_pool_def)
  have "translate t w = (if \<exists>i<length (f # fs). same_page (page_at v i) w then None else translate (ptab s) w)"
    if w: "low_addr w" for w
  proof -
    have "(\<exists>i<length (f # fs). same_page (page_at v i) w) \<longleftrightarrow>
        same_page v w \<or> (\<exists>i<length fs. same_page (page_at (v + PG_SIZE) i) w)"
      by (auto simp: less_Suc_eq_0_disj page_at_Suc)
    then show ?thesis using IH(6) w t1 [OF w] by (auto simp: s1_def)
  qed
  moreover have "free_frames q' = set (f # fs) \<union> free_frames (get_pool pf s)"
    using IH(2) q(2) by (simp add: s1_def)
  moreover have "phy_addr_start q' = phy_addr_start (get_pool pf s)" "pool_lock q' = pool_lock (get_pool pf s)"
    "bm_bits (pool_bitmap q') = bm_bits (pool_bitmap (get_pool pf s))"
    using IH(3-5) q(3-5) by (simp_all add: s1_def)
  ultimately show ?case using IH(1) fin unfolding step by (intro exI [of _ q'] exI [of _ t]) simp
qed

lemma vm_ok_apart: "vm_ok s \<Longrightarrow> pools_apart s"
  by (simp add: vm_ok_def pools_apart_def)

lemma mfree_page_spec:
  assumes ok: "vm_ok s" and n: "0 < n" and len: "length fs = unat n"
    and run: "mapped_run (ptab s) v fs" and d: "distinct fs" and fs: "set fs \<subseteq> pool_frames (get_pool pf s)"
    and reg: "in_region (get_vaddr pf s) v i (length fs)" and lo: "0x102000 \<le> phy_addr_start (kernel_pool s)"
  shows "\<exists>s'. mfree_page pf v n s = Some s' \<and>
    free_frames (get_pool pf s') = set fs \<union> free_frames (get_pool pf s) \<and> pools_apart s' \<and>
    (\<forall>w. low_addr w \<longrightarrow> translate (ptab s') w =
        (if \<exists>k<length fs. same_page (page_at v k) w then None else translate (ptab s) w)) \<and>
    vaddr_start (get_vaddr pf s') = vaddr_start (get_vaddr pf s) \<and>
    bm_bits (vaddr_bitmap (get_vaddr pf s')) = bm_bits (vaddr_bitmap (get_vaddr pf s)) \<and>
    (\<forall>j < bm_bits (vaddr_bitmap (get_vaddr pf s)). bm_used (vaddr_bitmap (get_vaddr pf s')) j \<longleftrightarrow>
        \<not> (i \<le> j \<and> j < i + length fs) \<and> bm_used (vaddr_bitmap (get_vaddr pf s)) j) \<and>
    same_rest s s' \<and> phy_addr_start (get_pool pf s') = phy_addr_start (get_pool pf s) \<and>
    bm_bits (pool_bitmap (get_pool pf s')) = bm_bits (pool_bitmap (get_pool pf s)) \<and>
    pool_lock (get_pool pf s') = pool_lock (get_pool pf s) \<and>
    (\<forall>p. p \<noteq> pf \<longrightarrow> get_pool p s' = get_pool p s \<and> get_vaddr p s' = get_vaddr p s)"
proof -
  note ap = vm_ok_apart [OF ok]
  let ?va = "get_vaddr pf s"
  have "0 < unat n" using n by (simp add: unat_gt_0)
  then obtain f fs' where ff: "fs = f # fs'" using len by (cases fs) auto
  have f: "f \<in> pool_frames (get_pool pf s)" using fs ff by simp
  have al: "page_aligned v" using run by (simp add: mapped_run_def)
  have af: "addr_v2p (ptab s) v = f" using run ff translate_frame by (auto simp: mapped_run_def)
  have pre: "n \<ge> 1" "v mod PG_SIZE = 0" "f mod PG_SIZE = 0"
    using n al frame_side(3) [OF ap f]
    by (simp_all add: word_eq_unat unat_mod PG_SIZE_def page_aligned_def word_le_nat_alt word_less_nat_alt)
  have "phy_addr_start (kernel_pool s) \<le> phy_addr_start (get_pool pf s)"
    using ap by (cases pf) (simp_all add: get_pool_def pools_apart_def word_le_nat_alt)
  then have f2: "f \<ge> 0x102000" using lo frame_side(2) [OF ap f] by (meson order_trans)
  have side: "(f \<ge> phy_addr_start (user_pool s)) = (pf = PF_USER)" by (rule frame_side(1) [OF ap f])
  obtain q t where L: "mfree_page_loop (length fs) (pf = PF_USER) v s = Some ((set_pool pf q s)\<lparr>ptab := t\<rparr>)"
    "free_frames q = set fs \<union> free_frames (get_pool pf s)" "phy_addr_start q = phy_addr_start (get_pool pf s)"
    "bm_bits (pool_bitmap q) = bm_bits (pool_bitmap (get_pool pf s))"
    "\<forall>w. low_addr w \<longrightarrow> translate t w =
        (if \<exists>i<length fs. same_page (page_at v i) w then None else translate (ptab s) w)" "pool_lock q = pool_lock (get_pool pf s)"
    using mfree_page_loop_spec [OF ap run d fs] by blast
  define s1 where "s1 = (set_pool pf q s)\<lparr>ptab := t\<rparr>"
  have gv: "get_vaddr pf s1 = ?va" by (simp add: s1_def get_vaddr_def)
  have vreg: "vregion_ok (ptab s) ?va (vlo pf) (vhi pf)" using ok by (simp add: vm_ok_iff)
  have ib: "i < bm_bits (vaddr_bitmap ?va)" and v: "v = page_at (vaddr_start ?va) i"
    and irun: "i + length fs \<le> bm_bits (vaddr_bitmap ?va)" using reg ff by (auto simp: in_region_def)
  note pg = vregion_page [OF vreg ib vhi_le]
  have N: "bm_bits (vaddr_bitmap ?va) < 2 ^ 32" using vreg vhi_le [of pf] by (auto simp: vregion_ok_def)
  have "vaddr_start ?va \<le> v" using pg(1) v by (simp add: word_le_nat_alt)
  then have idx: "unat ((v - vaddr_start ?va) div PG_SIZE) = i"
    using pg(1) v by (simp add: unat_div unat_sub PG_SIZE_def)
  obtain bm where bm: "bitmap_set_run (unat n) (vaddr_bitmap ?va) ((v - vaddr_start ?va) div PG_SIZE) 0 = Some bm"
    using bitmap_set_run_total [of 0] by blast
  have bits: "bm_bits bm = bm_bits (vaddr_bitmap ?va)" using bitmap_set_run_bits [OF bm] by (simp add: bm_bits_def)
  have used: "bm_used bm j \<longleftrightarrow> \<not> (i \<le> j \<and> j < i + length fs) \<and> bm_used (vaddr_bitmap ?va) j"
    if "j < bm_bits (vaddr_bitmap ?va)" for j
    using bitmap_set_run_used [OF bm, of j] irun N that len by (auto simp: idx)
  define s' where "s' = set_vaddr pf (?va\<lparr>vaddr_bitmap := bm\<rparr>) s1"
  have "mfree_page pf v n s = Some s'"
    using pre f2 L(1) len bm unfolding mfree_page_def vaddr_remove_def
    by (simp add: af side s1_def [symmetric] gv s'_def Let_def)
  moreover have "get_pool pf s' = q" "ptab s' = t" by (simp_all add: s'_def s1_def)
  moreover have "pools_apart s'" using pools_apart_set [OF ap L(3,4), of t]
    by (simp add: s'_def s1_def pools_apart_def)
  moreover have "get_vaddr pf s' = ?va\<lparr>vaddr_bitmap := bm\<rparr>" by (simp add: s'_def)
  moreover have "same_rest s s'" by (simp add: s'_def s1_def)
  moreover have "get_pool p s' = get_pool p s \<and> get_vaddr p s' = get_vaddr p s" if "p \<noteq> pf" for p
  proof -
    have "get_pool p s' = get_pool p (set_pool pf q s)" by (simp add: s'_def s1_def get_pool_def)
    moreover have "get_vaddr p s' = get_vaddr p s1" unfolding s'_def by (rule get_vaddr_other [OF that])
    moreover have "get_vaddr p s1 = get_vaddr p s" by (simp add: s1_def get_vaddr_def)
    ultimately show ?thesis using get_pool_other [OF that] by simp
  qed
  ultimately show ?thesis using L(2,3,4,5,6) bits used by simp
qed

text \<open>Releasing taken pages keeps the memory well-formed.\<close>

lemma mfree_page_vm_ok:
  assumes ok: "vm_ok s" and n: "0 < n" and len: "length fs = unat n"
    and run: "mapped_run (ptab s) v fs" and d: "distinct fs" and fs: "set fs \<subseteq> pool_frames (get_pool pf s)"
    and reg: "in_region (get_vaddr pf s) v i (length fs)" and lo: "0x102000 \<le> phy_addr_start (kernel_pool s)"
    and last: "pf = PF_USER \<Longrightarrow> i + length fs < bm_bits (vaddr_bitmap (get_vaddr pf s))"
    and m: "mfree_page pf v n s = Some s'"
  shows "vm_ok s'"
proof -
  note sp = mfree_page_spec [OF ok n len run d fs reg lo]
  have f: "pools_apart s'" "vaddr_start (get_vaddr pf s') = vaddr_start (get_vaddr pf s)"
    "bm_bits (vaddr_bitmap (get_vaddr pf s')) = bm_bits (vaddr_bitmap (get_vaddr pf s))"
    "\<forall>w. low_addr w \<longrightarrow> translate (ptab s') w =
        (if \<exists>k<length fs. same_page (page_at v k) w then None else translate (ptab s) w)"
    "\<forall>j < bm_bits (vaddr_bitmap (get_vaddr pf s)). bm_used (vaddr_bitmap (get_vaddr pf s')) j \<longleftrightarrow>
        \<not> (i \<le> j \<and> j < i + length fs) \<and> bm_used (vaddr_bitmap (get_vaddr pf s)) j"
    "\<And>p. p \<noteq> pf \<Longrightarrow> get_vaddr p s' = get_vaddr p s"
    using sp m by auto
  have reg0: "vregion_ok (ptab s) (get_vaddr p s) (vlo p) (vhi p)" for p using ok by (simp add: vm_ok_iff)
  have none: "translate (ptab s') w = None" if "low_addr w" "translate (ptab s) w = None" for w
    using f(4) that by simp
  have v: "v = page_at (vaddr_start (get_vaddr pf s)) i" "i + length fs \<le> bm_bits (vaddr_bitmap (get_vaddr pf s))"
    using reg by (auto simp: in_region_def)
  have "vregion_ok (ptab s') (get_vaddr p s') (vlo p) (vhi p)" for p
  proof (cases "p = pf")
    case True
    have "translate (ptab s') (page_at (vaddr_start (get_vaddr pf s)) j) = None"
      if j: "j < bm_bits (vaddr_bitmap (get_vaddr pf s))" "\<not> bm_used (vaddr_bitmap (get_vaddr pf s')) j" for j
    proof -
      note pj = vregion_page [OF reg0 j(1) vhi_le]
      show ?thesis
      proof (cases "i \<le> j \<and> j < i + length fs")
        case True
        then have "page_at v (j - i) = page_at (vaddr_start (get_vaddr pf s)) j" "j - i < length fs"
          by (auto simp: v page_at_def algebra_simps simp flip: of_nat_add)
        moreover have "same_page w w" for w by (simp add: same_page_def)
        ultimately show ?thesis using f(4) pj(5) by metis
      next
        case False
        then have "\<not> bm_used (vaddr_bitmap (get_vaddr pf s)) j" using f(5) j by auto
        then have "translate (ptab s) (page_at (vaddr_start (get_vaddr pf s)) j) = None"
          using reg0 [of pf] j(1) by (auto simp: vregion_ok_def)
        then show ?thesis using none pj(5) by blast
      qed
    qed
    then show ?thesis using reg0 [of pf] True f(2,3) by (auto simp: vregion_ok_def)
  next
    case False
    have "translate (ptab s') (page_at (vaddr_start (get_vaddr p s)) j) = None"
      if "j < bm_bits (vaddr_bitmap (get_vaddr p s))" "\<not> bm_used (vaddr_bitmap (get_vaddr p s)) j" for j
      using none vregion_page(5) [OF reg0 that(1) vhi_le] reg0 [of p] that by (auto simp: vregion_ok_def)
    then show ?thesis using reg0 [of p] f(6) [OF False] by (auto simp: vregion_ok_def)
  qed
  moreover have "let b = vaddr_bitmap (get_vaddr PF_USER s') in bm_bits b = 0 \<or> bm_used b (bm_bits b - 1)"
  proof (cases "pf = PF_USER")
    case True
    then show ?thesis using ok f(3,5) last unfolding vm_ok_iff by (auto simp: Let_def)
  next
    case False
    then show ?thesis using ok f(6) [of PF_USER] unfolding vm_ok_iff by auto
  qed
  ultimately show ?thesis using f(1) unfolding vm_ok_iff pools_apart_def by blast
qed

section \<open>Properties\<close>



definition demo_vm :: vm where
  "demo_vm = sched.extend demo_sched
     (vm.fields
       \<lparr>pool_bitmap = \<lparr>btmp_bytes_len = 1, bits = (\<lambda>_. 0)\<rparr>, phy_addr_start = 0x200000, pool_size = 0x8000, pool_lock = lock_init\<rparr>
       \<lparr>pool_bitmap = \<lparr>btmp_bytes_len = 1, bits = (\<lambda>_. 0)\<rparr>, phy_addr_start = 0x208000, pool_size = 0x8000, pool_lock = lock_init\<rparr>
       \<lparr>vaddr_bitmap = \<lparr>btmp_bytes_len = 1, bits = (\<lambda>_. 0)\<rparr>, vaddr_start = K_HEAP_START\<rparr>
       (\<lambda>_. \<lparr>vaddr_bitmap = \<lparr>btmp_bytes_len = 0, bits = (\<lambda>_. 0)\<rparr>, vaddr_start = 0\<rparr>)
       block_desc_init (\<lambda>_. block_desc_init) (\<lambda>_. \<lparr>a_desc = None, a_cnt = 0, a_large = False\<rparr>) (\<lambda>_. 7))"

lemma demo_vm_fields:
  "kernel_pool demo_vm = \<lparr>pool_bitmap = \<lparr>btmp_bytes_len = 1, bits = (\<lambda>_. 0)\<rparr>, phy_addr_start = 0x200000, pool_size = 0x8000, pool_lock = lock_init\<rparr>"
  "user_pool demo_vm = \<lparr>pool_bitmap = \<lparr>btmp_bytes_len = 1, bits = (\<lambda>_. 0)\<rparr>, phy_addr_start = 0x208000, pool_size = 0x8000, pool_lock = lock_init\<rparr>"
  "kernel_vaddr demo_vm = \<lparr>vaddr_bitmap = \<lparr>btmp_bytes_len = 1, bits = (\<lambda>_. 0)\<rparr>, vaddr_start = K_HEAP_START\<rparr>"
  "userprog_vaddr demo_vm t = \<lparr>vaddr_bitmap = \<lparr>btmp_bytes_len = 0, bits = (\<lambda>_. 0)\<rparr>, vaddr_start = 0\<rparr>"
  "ptab demo_vm = (\<lambda>_. 0)" "running demo_vm = 0x1000" "data demo_vm = (\<lambda>_. 7)" "intr demo_vm = INTR_OFF"
  by (simp_all add: demo_vm_def sched.extend_def vm.fields_def demo_sched_def)

lemma demo_vm_ok: "vm_ok demo_vm"
  by (simp add: vm_ok_def demo_vm_fields pool_ok_def page_aligned_def vregion_ok_def bm_bits_def
      K_HEAP_START_def translate_def present_def)




lemmas eval_scan = bitmap_scan_def bitmap_scan_from.simps scan_skip.simps scan_grow.simps
  bitmap_scan_test_def bitmap_mask_def bitmap_set_def

lemmas eval_pages = malloc_page_def vaddr_get_def palloc_def page_table_add_def get_pool_def set_pool_def
  get_vaddr_def set_vaddr_def

lemma demo_malloc: "map_option fst (malloc_page PF_KERNEL 1 demo_vm) = Some 0xc0100000"
  by (simp add: eval_pages demo_vm_fields eval_scan PG_SIZE_def K_HEAP_START_def Let_def clear_table_self
      pde_ptr_def pte_ptr_def PDE_IDX_def PTE_IDX_def)


text \<open>
  C38. There is no rollback: when the address range is there but the frames run out, the call
  returns NULL, yet it has taken every frame that was left in the pool, and the address range
  stays marked as used.
\<close>

theorem malloc_page_failure_leaks:
  assumes "vm_ok s" "0 < n" "n < 3840" "vaddr_get pf n s = Some (v0, s0)" "v0 \<noteq> 0"
    and "malloc_page pf n s = Some (0, s')"
  shows "free_frames (get_pool pf s') = {} \<and> get_vaddr pf s' = get_vaddr pf s0"
proof -
  let ?va = "get_vaddr pf s"
  obtain i bm where v0: "v0 = page_at (vaddr_start ?va) i" "s0 = set_vaddr pf (?va\<lparr>vaddr_bitmap := bm\<rparr>) s"
    "unmapped_run (ptab s) v0 (unat n)"
    using vaddr_get_spec [OF assms(1,2), of pf] assms(4,5) by auto
  have pools: "pool_ok (kernel_pool s0)" "pool_ok (user_pool s0)" using assms(1) v0(2) by (simp_all add: vm_ok_def)
  have "unmapped_run (ptab s0) v0 (unat n)" using v0 by simp
  from malloc_page_loop_spec [OF pools this, of pf] obtain ok s1 where
    L: "malloc_page_loop (unat n) pf v0 s0 = Some (ok, s1)" "took_frames s0 s1"
      "\<not> ok \<longrightarrow> free_frames (get_pool pf s1) = {}" by blast
  have "malloc_page pf n s = Some (if ok then v0 else 0, s1)"
    using assms(2-5) L(1) by (simp add: malloc_page_def)
  then show ?thesis using assms(5,6) L(2,3) took_rest(4) [OF L(2)] by (auto split: if_splits)
qed

lemma eval_two:
  "malloc_page_loop 2 pf v s = malloc_page_loop (Suc (Suc 0)) pf v s"
  "bitmap_set_run 2 b i x = bitmap_set_run (Suc (Suc 0)) b i x"
  by (simp_all only: numeral_2_eq_2)

text \<open>The same state with one frame left in the kernel pool.\<close>

definition demo_low :: vm where
  "demo_low = demo_vm\<lparr>kernel_pool := (kernel_pool demo_vm)\<lparr>pool_bitmap := \<lparr>btmp_bytes_len = 1, bits = (\<lambda>_. 0x7f)\<rparr>\<rparr>\<rparr>"

lemma demo_low_ok: "vm_ok demo_low"
  by (simp add: demo_low_def vm_ok_def demo_vm_fields pool_ok_def page_aligned_def vregion_ok_def bm_bits_def
      K_HEAP_START_def translate_def present_def)

lemma demo_exhaust:
  "map_option fst (vaddr_get PF_KERNEL 2 demo_low) = Some 0xc0100000"
  "map_option fst (malloc_page PF_KERNEL 2 demo_low) = Some 0"
  by (simp_all add: demo_low_def eval_pages demo_vm_fields eval_scan PG_SIZE_def K_HEAP_START_def Let_def
      clear_table_self pde_ptr_def pte_ptr_def PDE_IDX_def PTE_IDX_def eval_two)

theorem malloc_page_failure_leaks_witness:
  "\<exists>s'. malloc_page PF_KERNEL 2 demo_low = Some (0, s') \<and> free_frames (kernel_pool s') = {}"
proof -
  obtain s0 where s0: "vaddr_get PF_KERNEL 2 demo_low = Some (0xc0100000, s0)"
    using demo_exhaust(1) by (cases "vaddr_get PF_KERNEL 2 demo_low") auto
  obtain s' where s': "malloc_page PF_KERNEL 2 demo_low = Some (0, s')"
    using demo_exhaust(2) by (cases "malloc_page PF_KERNEL 2 demo_low") auto
  show ?thesis using malloc_page_failure_leaks [OF demo_low_ok _ _ s0 _ s'] s' by (simp add: get_pool_def)
qed

text \<open>
  \<^verbatim>\<open>get_kernel_pages\<close> on a free pool lock never fails an assertion, gives the lock back on
  both outcomes, and hands out zeroed pages without touching other bytes.
\<close>

theorem get_kernel_pages_correct:
  assumes "vm_ok s" "0 < n" "n < 3840" "pool_lock (kernel_pool s) = lock_init" "running s \<noteq> 0"
  shows "\<exists>v s'. get_kernel_pages n s = Some (v, s') \<and> vm_ok s' \<and> pool_lock (kernel_pool s') = lock_init \<and>
    data s' = (if v = 0 then data s else (\<lambda>a. if a - v < n * PG_SIZE then 0 else data s a))"
proof -
  define s1 where "s1 = set_pool PF_KERNEL ((get_pool PF_KERNEL s)\<lparr>pool_lock := held_once (running s)\<rparr>) s"
  have acq: "pool_acquire PF_KERNEL s = Some s1"
    using assms(4,5) by (simp add: pool_acquire_def s1_def get_pool_def)
  have k1: "kernel_pool s1 = (kernel_pool s)\<lparr>pool_lock := held_once (running s)\<rparr>"
    "user_pool s1 = user_pool s" "kernel_vaddr s1 = kernel_vaddr s" "userprog_vaddr s1 = userprog_vaddr s"
    "ptab s1 = ptab s" "running s1 = running s" "data s1 = data s"
    by (simp_all add: s1_def set_pool_def get_pool_def)
  have ok1: "vm_ok s1" using assms(1) by (simp add: vm_ok_def k1 pool_ok_def)
  obtain v s2 where m: "malloc_page PF_KERNEL n s1 = Some (v, s2)" "vm_ok s2" "running s2 = running s1"
    "pool_le (kernel_pool s2) (kernel_pool s1)" using malloc_page_spec [OF ok1 assms(2,3)] by blast
  have dat: "data s2 = data s1"
    using malloc_page_data [OF m(1)] .
  define s3 where "s3 = (if v \<noteq> 0 then s2\<lparr>data := zero_bytes v (n * PG_SIZE) (data s2)\<rparr> else s2)"
  define s4 where "s4 = set_pool PF_KERNEL ((kernel_pool s3)\<lparr>pool_lock := lock_init\<rparr>) s3"
  have k3: "pool_lock (kernel_pool s3) = held_once (running s3)" using m(3,4) k1 by (simp add: s3_def pool_le_def)
  then have rel: "pool_release PF_KERNEL s3 = Some s4"
    by (simp add: pool_release_def get_pool_def s4_def)
  have "vm_ok s3" using m(2) by (simp add: s3_def vm_ok_def)
  then have "vm_ok s4" by (simp add: vm_ok_def s4_def set_pool_def pool_ok_def)
  moreover have "get_kernel_pages n s = Some (v, s4)"
    using acq m(1) rel by (simp add: get_kernel_pages_def s3_def [symmetric])
  moreover have "pool_lock (kernel_pool s4) = lock_init" by (simp add: s4_def set_pool_def)
  moreover have "data s4 = (if v = 0 then data s else (\<lambda>a. if a - v < n * PG_SIZE then 0 else data s a))"
    by (simp add: s4_def s3_def dat k1 zero_bytes_def)
  ultimately show ?thesis by blast
qed

theorem get_kernel_pages_correct_witness:
  "\<exists>v s'. get_kernel_pages 1 demo_vm = Some (v, s') \<and> pool_lock (kernel_pool s') = lock_init"
proof -
  have "pool_lock (kernel_pool demo_vm) = lock_init" "running demo_vm \<noteq> 0" by (simp_all add: demo_vm_fields)
  from get_kernel_pages_correct [OF demo_vm_ok _ _ this, of 1] show ?thesis by auto
qed

lemma layout_values:
  assumes lo: "0x200000 \<le> unat all_mem" and hi: "(unat all_mem - 0x200000) div 4096 < 2 ^ 16"
  defines "pages \<equiv> (unat all_mem - 0x200000) div 4096"
  shows "unat (kp_start (mem_layout_of all_mem)) = 0x200000"
    "unat (up_start (mem_layout_of all_mem)) = 0x200000 + 4096 * (pages div 2)"
    "unat (kbm_length (mem_layout_of all_mem)) = pages div 2 div 8"
    "unat (ubm_length (mem_layout_of all_mem)) = (pages - pages div 2) div 8"
proof -
  have ple: "pages < 2 ^ 16" using hi by (simp add: pages_def)
  define free_mem where "free_mem = all_mem - (PG_SIZE * 256 + 0x100000)"
  define afp :: u16 where "afp = ucast (free_mem div PG_SIZE)"
  have base: "PG_SIZE * 256 + 0x100000 = (0x200000 :: u32)" by (simp add: PG_SIZE_def)
  have "unat (0x200000 :: u32) \<le> unat all_mem" using lo by simp
  then have "unat free_mem = unat all_mem - 0x200000"
    unfolding free_mem_def base by (subst unat_sub_le) (simp_all add: word_le_nat_alt)
  then have q: "unat (free_mem div PG_SIZE) = pages" by (simp add: unat_div PG_SIZE_def pages_def)
  have afp: "unat afp = pages" unfolding afp_def
    using ple by (simp only: unsigned_ucast_eq q) (rule take_bit_nat_eq_self, simp)
  have k: "unat (afp div 2) = pages div 2" by (simp add: unat_div afp)
  have "afp div 2 \<le> afp" by (simp add: word_le_nat_alt k afp)
  then have u: "unat (afp - afp div 2) = pages - pages div 2" by (simp add: unat_sub k afp)
  have up: "unat (ucast x :: u32) = unat x" for x :: u16
    by (simp only: unsigned_ucast_eq) (rule take_bit_nat_eq_self, rule less_trans [OF unsigned_less], simp)
  have lay: "mem_layout_of all_mem = \<lparr>kp_start = 0x200000, up_start = 0x200000 + ucast (afp div 2) * PG_SIZE,
      kernel_free_pages = afp div 2, user_free_pages = afp - afp div 2,
      kbm_length = ucast (afp div 2) div 8, ubm_length = ucast (afp - afp div 2) div 8\<rparr>"
    unfolding mem_layout_of_def Let_def base afp_def free_mem_def by simp
  show "unat (kp_start (mem_layout_of all_mem)) = 0x200000" by (simp add: lay)
  have m: "unat (ucast (afp div 2) * PG_SIZE) = 4096 * (pages div 2)"
    using ple unat_page_offset [of "ucast (afp div 2)"] by (simp add: up k)
  show "unat (up_start (mem_layout_of all_mem)) = 0x200000 + 4096 * (pages div 2)"
    unfolding lay using ple m by (simp, subst unat_add_small) simp_all
  show "unat (kbm_length (mem_layout_of all_mem)) = pages div 2 div 8" by (simp add: lay unat_div up k afp)
  show "unat (ubm_length (mem_layout_of all_mem)) = (pages - pages div 2) div 8" by (simp add: lay unat_div up u afp)
qed

lemma all_free_init:
  assumes "bm_bits b < 2 ^ 32"
  shows "free_frames \<lparr>pool_bitmap = bitmap_init b, phy_addr_start = st, pool_size = sz, pool_lock = l\<rparr> =
    pool_frames \<lparr>pool_bitmap = bitmap_init b, phy_addr_start = st, pool_size = sz, pool_lock = l\<rparr>"
  using bitmap_init_clear [OF _ assms] by (auto simp: free_frames_def pool_frames_def bm_bits_def bitmap_init_def)

text \<open>
  C30. \<^verbatim>\<open>mem_init\<close>, for a machine with 2 MB to about 258 MB: the kernel and the user pool are
  disjoint, all their frames are free and lie between the first 2 MB and the end of memory,
  and the pool locks are free. (With more memory the page count does not fit its 16 bits.)
\<close>

theorem mem_init_sound:
  assumes lo: "0x200000 \<le> unat all_mem" and hi: "(unat all_mem - 0x200000) div 4096 < 2 ^ 16"
  shows "pools_apart (mem_init all_mem s) \<and>
    free_frames (kernel_pool (mem_init all_mem s)) = pool_frames (kernel_pool (mem_init all_mem s)) \<and>
    free_frames (user_pool (mem_init all_mem s)) = pool_frames (user_pool (mem_init all_mem s)) \<and>
    (\<forall>pf. pool_lock (get_pool pf (mem_init all_mem s)) = lock_init) \<and>
    (\<forall>pf. \<forall>f. f \<in> pool_frames (get_pool pf (mem_init all_mem s)) \<longrightarrow>
       0x200000 \<le> unat f \<and> unat f + 4096 \<le> unat all_mem)"
proof -
  define pages where "pages = (unat all_mem - 0x200000) div 4096"
  note L = layout_values [OF lo hi, folded pages_def]
  let ?k = "kernel_pool (mem_init all_mem s)" and ?u = "user_pool (mem_init all_mem s)"
  have kb: "bm_bits (pool_bitmap ?k) = 8 * (pages div 2 div 8)"
    and ub: "bm_bits (pool_bitmap ?u) = 8 * ((pages - pages div 2) div 8)"
    and ks: "unat (phy_addr_start ?k) = 0x200000"
    and us: "unat (phy_addr_start ?u) = 0x200000 + 4096 * (pages div 2)"
    by (simp_all add: mem_init_def mem_pool_init_def Let_def bm_bits_def bitmap_init_def L)
  have mem: "0x200000 + 4096 * pages \<le> unat all_mem" using lo by (simp add: pages_def)
  have kle: "bm_bits (pool_bitmap ?k) \<le> pages div 2" and ule: "bm_bits (pool_bitmap ?u) \<le> pages - pages div 2"
    unfolding kb ub by simp_all
  have top: "unat all_mem < 2 ^ 32" by (rule unat_lt_32)
  have ap: "pools_apart (mem_init all_mem s)"
    unfolding pools_apart_def pool_ok_def page_aligned_def ks us
    using kle ule mem top by (auto simp: mod_add_eq)
  have "0x200000 \<le> unat f \<and> unat f + 4096 \<le> unat all_mem"
    if f: "f \<in> pool_frames (get_pool pf (mem_init all_mem s))" for f pf
  proof (cases pf)
    case PF_KERNEL
    then obtain i where "i < bm_bits (pool_bitmap ?k)" "unat f = 0x200000 + 4096 * i"
      using f ks by (auto simp: pool_frames_def get_pool_def)
    then show ?thesis using kle mem by linarith
  next
    case PF_USER
    then obtain i where "i < bm_bits (pool_bitmap ?u)" "unat f = 0x200000 + 4096 * (pages div 2) + 4096 * i"
      using f us by (auto simp: pool_frames_def get_pool_def)
    then show ?thesis using ule mem by linarith
  qed
  moreover have "free_frames ?k = pool_frames ?k"
  proof -
    obtain b where b: "?k = \<lparr>pool_bitmap = bitmap_init b, phy_addr_start = phy_addr_start ?k,
        pool_size = pool_size ?k, pool_lock = pool_lock ?k\<rparr>"
      by (simp add: mem_init_def mem_pool_init_def Let_def)
    have "bm_bits b = bm_bits (pool_bitmap ?k)" by (subst b) (simp add: bm_bits_def bitmap_init_def)
    then have "bm_bits b < 2 ^ 32" using kle mem top by simp
    from all_free_init [OF this] show ?thesis using b by metis
  qed
  moreover have "free_frames ?u = pool_frames ?u"
  proof -
    obtain b where b: "?u = \<lparr>pool_bitmap = bitmap_init b, phy_addr_start = phy_addr_start ?u,
        pool_size = pool_size ?u, pool_lock = pool_lock ?u\<rparr>"
      by (simp add: mem_init_def mem_pool_init_def Let_def)
    have "bm_bits b = bm_bits (pool_bitmap ?u)" by (subst b) (simp add: bm_bits_def bitmap_init_def)
    then have "bm_bits b < 2 ^ 32" using ule mem top by simp
    from all_free_init [OF this] show ?thesis using b by metis
  qed
  moreover have "pool_lock (get_pool pf (mem_init all_mem s)) = lock_init" for pf
    by (cases pf) (simp_all add: mem_init_def mem_pool_init_def Let_def get_pool_def)
  ultimately show ?thesis using ap by blast
qed

theorem mem_init_sound_witness:
  "pools_apart (mem_init 0x2000000 demo_vm)"
proof -
  have "0x200000 \<le> unat (0x2000000 :: u32)" "(unat (0x2000000 :: u32) - 0x200000) div 4096 < 2 ^ 16" by simp_all
  from mem_init_sound [OF this] show ?thesis by blast
qed

text \<open>At 258 MB the 16-bit page count is 0 and both pools are empty.\<close>

lemma mem_layout_truncates:
  "kernel_free_pages (mem_layout_of 0x10200000) = 0" "user_free_pages (mem_layout_of 0x10200000) = 0"
  by (simp_all add: mem_layout_of_def PG_SIZE_def)

end
