(* ===== verification/Heap.thy ===== *)
theory Heap
  imports Memory
begin

text \<open>
  The heap: \<^verbatim>\<open>sys_malloc\<close> and \<^verbatim>\<open>sys_free\<close> of \<^verbatim>\<open>src/kernel/memory.c\<close>. A request of at most 1024
  bytes gets a block of one of seven sizes out of a page (an arena) cut into such blocks, a
  larger one whole pages. The header of an arena at the start of its page is \<open>arenas s a\<close>; the
  links of the free blocks are the list \<open>free_list\<close> of their descriptor (theory KList shows
  that the linked list is one). A kernel thread uses the kernel's descriptors and pool, a
  process those in its \<^verbatim>\<open>task_struct\<close>. \<open>None\<close>: an assertion fails, or a NULL pointer is read.
\<close>

section \<open>Operations\<close>

definition DESC_CNT :: nat where
  "DESC_CNT = 7"

definition heap_pf :: "'a vm_scheme \<Rightarrow> pool_flags" where
  "heap_pf s = (if pgdir (tasks s (running s)) = 0 then PF_KERNEL else PF_USER)"

definition heap_desc :: "'a vm_scheme \<Rightarrow> nat \<Rightarrow> desc_ptr" where
  "heap_desc s k = (if pgdir (tasks s (running s)) = 0 then KDesc k else UDesc (running s) k)"

fun get_desc :: "desc_ptr \<Rightarrow> 'a vm_scheme \<Rightarrow> mem_block_desc" where
  "get_desc (KDesc k) s = k_block_descs s k"
| "get_desc (UDesc t k) s = u_block_desc s t k"

fun set_desc :: "desc_ptr \<Rightarrow> mem_block_desc \<Rightarrow> 'a vm_scheme \<Rightarrow> 'a vm_scheme" where
  "set_desc (KDesc k) d s = s\<lparr>k_block_descs := (k_block_descs s)(k := d)\<rparr>"
| "set_desc (UDesc t k) d s = s\<lparr>u_block_desc := (u_block_desc s)(t := (u_block_desc s t)(k := d))\<rparr>"

definition set_free_list :: "desc_ptr \<Rightarrow> u32 list \<Rightarrow> 'a vm_scheme \<Rightarrow> 'a vm_scheme" where
  "set_free_list d xs s = set_desc d ((get_desc d s)\<lparr>free_list := xs\<rparr>) s"

definition set_arena :: "u32 \<Rightarrow> arena \<Rightarrow> 'a vm_scheme \<Rightarrow> 'a vm_scheme" where
  "set_arena a h s = s\<lparr>arenas := (arenas s)(a := h)\<rparr>"

definition arena2block :: "u32 \<Rightarrow> nat \<Rightarrow> 'a vm_scheme \<Rightarrow> u32 option" where
  "arena2block a idx s =
     do { d \<leftarrow> a_desc (arenas s a);
          Some (a + 12 + of_nat idx * block_size (get_desc d s)) }"

definition block2arena :: "u32 \<Rightarrow> u32" where
  "block2arena b = b AND 0xfffff000"

text \<open>The search for the smallest block that is large enough, and the loop that chains a new arena's blocks.\<close>

fun find_desc :: "nat \<Rightarrow> nat \<Rightarrow> u32 \<Rightarrow> 'a vm_scheme \<Rightarrow> nat" where
  "find_desc 0 k n s = k"
| "find_desc (Suc left) k n s = (if n \<le> block_size (get_desc (heap_desc s k) s) then k else find_desc left (Suc k) n s)"

fun arena_fill :: "nat \<Rightarrow> nat \<Rightarrow> u32 \<Rightarrow> 'a vm_scheme \<Rightarrow> 'a vm_scheme option" where
  "arena_fill 0 idx a s = Some s"
| "arena_fill (Suc left) idx a s =
     do { b \<leftarrow> arena2block a idx s;
          d \<leftarrow> a_desc (arenas s a);
          let xs = free_list (get_desc d s);
          if b \<in> set xs then None
          else arena_fill left (Suc idx) a (set_free_list d (xs @ [b]) s) }"

definition malloc_large :: "pool_flags \<Rightarrow> u32 \<Rightarrow> 'a vm_scheme \<Rightarrow> (u32 \<times> 'a vm_scheme) option" where
  "malloc_large pf n s =
     do { let page_cnt = (n + 12 + PG_SIZE - 1) div PG_SIZE;
          (a, s) \<leftarrow> malloc_page pf page_cnt s;
          if a \<noteq> 0 then do {
            let s = s\<lparr>data := zero_bytes a (page_cnt * PG_SIZE) (data s)\<rparr>;
            let s = set_arena a \<lparr>a_desc = None, a_cnt = page_cnt, a_large = True\<rparr> s;
            s \<leftarrow> pool_release pf s;
            Some (a + 12, s) }
          else do { s \<leftarrow> pool_release pf s; Some (0, s) } }"

text \<open>A small request: a new arena when the free list is empty, then the first free block.\<close>

definition arena_refill :: "pool_flags \<Rightarrow> desc_ptr \<Rightarrow> 'a vm_scheme \<Rightarrow> (bool \<times> 'a vm_scheme) option" where
  "arena_refill pf d s =
     do { (a, s) \<leftarrow> malloc_page pf 1 s;
          if a = 0 then do { s \<leftarrow> pool_release pf s; Some (False, s) }
          else do {
            let s = s\<lparr>data := zero_bytes a PG_SIZE (data s)\<rparr>;
            let s = set_arena a \<lparr>a_desc = Some d, a_cnt = blocks_per_arena (get_desc d s), a_large = False\<rparr> s;
            s \<leftarrow> arena_fill (unat (blocks_per_arena (get_desc d s))) 0 a s;
            Some (True, s) } }"

definition take_block :: "pool_flags \<Rightarrow> desc_ptr \<Rightarrow> 'a vm_scheme \<Rightarrow> (u32 \<times> 'a vm_scheme) option" where
  "take_block pf d s =
     (case free_list (get_desc d s) of
        [] \<Rightarrow> None
      | b # xs \<Rightarrow> do {
          let s = set_free_list d xs s;
          let s = s\<lparr>data := zero_bytes b (block_size (get_desc d s)) (data s)\<rparr>;
          let a = block2arena b;
          let s = set_arena a ((arenas s a)\<lparr>a_cnt := a_cnt (arenas s a) - 1\<rparr>) s;
          s \<leftarrow> pool_release pf s;
          Some (b, s) })"

definition malloc_small :: "pool_flags \<Rightarrow> desc_ptr \<Rightarrow> 'a vm_scheme \<Rightarrow> (u32 \<times> 'a vm_scheme) option" where
  "malloc_small pf d s =
     do { (ok, s) \<leftarrow> (if free_list (get_desc d s) = [] then arena_refill pf d s else Some (True, s));
          if ok then take_block pf d s else Some (0, s) }"

definition sys_malloc :: "u32 \<Rightarrow> 'a vm_scheme \<Rightarrow> (u32 \<times> 'a vm_scheme) option" where
  "sys_malloc n s =
     (let pf = heap_pf s in
      if \<not> (n > 0 \<and> n < pool_size (get_pool pf s)) then Some (0, s)
      else do {
        s \<leftarrow> pool_acquire pf s;
        if n > 1024 then malloc_large pf n s
        else do { let desc_idx = find_desc DESC_CNT 0 n s;
                  if desc_idx < DESC_CNT then malloc_small pf (heap_desc s desc_idx) s else None } })"

fun arena_unlink :: "nat \<Rightarrow> nat \<Rightarrow> u32 \<Rightarrow> 'a vm_scheme \<Rightarrow> 'a vm_scheme option" where
  "arena_unlink 0 idx a s = Some s"
| "arena_unlink (Suc left) idx a s =
     do { b \<leftarrow> arena2block a idx s;
          d \<leftarrow> a_desc (arenas s a);
          let xs = free_list (get_desc d s);
          if b \<notin> set xs then None
          else arena_unlink left (Suc idx) a (set_free_list d (remove1 b xs) s) }"

definition sys_free :: "u32 \<Rightarrow> 'a vm_scheme \<Rightarrow> 'a vm_scheme option" where
  "sys_free ptr s =
     (if ptr = 0 then None
      else let pf = heap_pf s in
        if pf = PF_KERNEL \<and> \<not> ptr \<ge> K_HEAP_START then None
        else do {
          s \<leftarrow> pool_acquire pf s;
          let a = block2arena ptr;
          s \<leftarrow> (if a_desc (arenas s a) = None \<and> a_large (arenas s a) then mfree_page pf a (a_cnt (arenas s a)) s
            else do {
              d \<leftarrow> a_desc (arenas s a);
              let s = set_free_list d (free_list (get_desc d s) @ [ptr]) s;
              let s = set_arena a ((arenas s a)\<lparr>a_cnt := a_cnt (arenas s a) + 1\<rparr>) s;
              if a_cnt (arenas s a) = blocks_per_arena (get_desc d s) then do {
                s \<leftarrow> arena_unlink (unat (blocks_per_arena (get_desc d s))) 0 a s;
                mfree_page pf a 1 s }
              else Some s });
          pool_release pf s })"


section \<open>Geometry of an arena\<close>

text \<open>Block \<open>j\<close> of class \<open>k\<close> in the arena at \<open>a\<close>; the number of blocks of class \<open>k\<close>.\<close>

definition bsize :: "nat \<Rightarrow> nat" where
  "bsize k = 16 * 2 ^ k"

definition bpa :: "nat \<Rightarrow> nat" where
  "bpa k = 4084 div bsize k"

definition blk :: "u32 \<Rightarrow> nat \<Rightarrow> nat \<Rightarrow> u32" where
  "blk a k j = a + of_nat (12 + j * bsize k)"

definition small_blocks :: "u32 \<Rightarrow> nat \<Rightarrow> u32 set" where
  "small_blocks a k = blk a k ` {..<bpa k}"

lemma bsize_pos [simp]: "0 < bsize k" "bsize k \<noteq> 0"
  by (simp_all add: bsize_def)

lemma block_room: "j < bpa k \<Longrightarrow> 12 + j * bsize k + bsize k \<le> 4096"
proof -
  assume "j < bpa k"
  then have "Suc j * bsize k \<le> bpa k * bsize k" by (intro mult_le_mono1) simp
  also have "\<dots> \<le> 4084" by (simp add: bpa_def)
  finally show ?thesis by simp
qed

lemma unat_blk:
  assumes "unat a + 4096 \<le> 2 ^ 32" "j < bpa k"
  shows "unat (blk a k j) = unat a + (12 + j * bsize k)"
proof -
  have r: "12 + j * bsize k < 4096" using block_room [OF assms(2)] bsize_pos(1) [of k] by linarith
  then have "unat (of_nat (12 + j * bsize k) :: u32) = 12 + j * bsize k" by (intro unat_of_nat_small) simp
  then show ?thesis using r assms(1) unfolding blk_def by (subst unat_add_small) simp_all
qed

lemma page_base_aligned: "page_aligned a \<Longrightarrow> a AND 0xfffff000 = a"
proof -
  assume a: "page_aligned a"
  show ?thesis
  proof (rule bit_word_eqI)
    fix n assume n: "n < LENGTH(32)"
    show "bit (a AND 0xfffff000) n = bit a n"
      unfolding bit_and_iff bit_0xfffff000 using aligned_bits [OF a, of n] n by (cases "n < 12") auto
  qed
qed

lemma block2arena_offset:
  assumes "page_aligned a" "unat b = unat a + r" "r < 4096"
  shows "block2arena b = a"
proof -
  obtain q where q: "unat a = 4096 * q" using assms(1) by (auto simp: page_aligned_def)
  have "unat b div 4096 = unat a div 4096" unfolding assms(2) q using assms(3) by simp
  then have "b AND 0xfffff000 = a AND 0xfffff000" by (simp only: page_base_eq_iff)
  then show ?thesis using page_base_aligned [OF assms(1)] by (simp add: block2arena_def)
qed

lemma block2arena_blk:
  "page_aligned a \<Longrightarrow> unat a + 4096 \<le> 2 ^ 32 \<Longrightarrow> j < bpa k \<Longrightarrow> block2arena (blk a k j) = a"
proof -
  assume a: "page_aligned a" "unat a + 4096 \<le> 2 ^ 32" "j < bpa k"
  have "12 + j * bsize k < 4096" using block_room [OF a(3)] bsize_pos(1) [of k] by linarith
  then show ?thesis by (rule block2arena_offset [OF a(1) unat_blk [OF a(2,3)]])
qed

lemma block2arena_small: "page_aligned a \<Longrightarrow> unat a + 4096 \<le> 2 ^ 32 \<Longrightarrow> b \<in> small_blocks a k \<Longrightarrow> block2arena b = a"
  by (auto simp: small_blocks_def block2arena_blk)

lemma block2arena_large: "page_aligned a \<Longrightarrow> unat a + 4096 \<le> 2 ^ 32 \<Longrightarrow> block2arena (a + 12) = a"
  by (rule block2arena_offset [where r = 12]) (simp_all add: unat_add_small)

lemma blk_inj: "unat a + 4096 \<le> 2 ^ 32 \<Longrightarrow> inj_on (blk a k) {..<bpa k}"
proof (rule inj_onI)
  fix i j assume a: "unat a + 4096 \<le> 2 ^ 32" and ij: "i \<in> {..<bpa k}" "j \<in> {..<bpa k}" "blk a k i = blk a k j"
  have "i < bpa k" "j < bpa k" using ij(1,2) by simp_all
  from unat_blk [OF a this(1)] unat_blk [OF a this(2)] arg_cong [OF ij(3), of unat] have "12 + i * bsize k = 12 + j * bsize k" by linarith
  then show "i = j" using bsize_pos(1) [of k] by simp
qed

lemma card_small: "unat a + 4096 \<le> 2 ^ 32 \<Longrightarrow> card (small_blocks a k) = bpa k" "finite (small_blocks a k)"
  by (simp_all add: small_blocks_def card_image blk_inj)

text \<open>Different blocks of an arena do not overlap, and all lie behind its header.\<close>

lemma blk_apart:
  assumes "unat a + 4096 \<le> 2 ^ 32" "b \<in> small_blocks a k" "c \<in> small_blocks a k" "b \<noteq> c"
  shows "{unat b..<unat b + bsize k} \<inter> {unat c..<unat c + bsize k} = {}"
proof -
  have lt: "x + bsize k \<le> y" if "x = unat a + (12 + i * bsize k)" "y = unat a + (12 + j * bsize k)" "i < j" for x y i j
  proof -
    have "Suc i * bsize k \<le> j * bsize k" using that(3) by (intro mult_le_mono1) simp
    then show ?thesis using that by simp
  qed
  obtain i j where "i < bpa k" "b = blk a k i" "j < bpa k" "c = blk a k j" using assms(2,3) by (auto simp: small_blocks_def)
  then have "unat b = unat a + (12 + i * bsize k)" "unat c = unat a + (12 + j * bsize k)" "i \<noteq> j"
    using unat_blk [OF assms(1)] assms(4) by auto
  then have "unat b + bsize k \<le> unat c \<or> unat c + bsize k \<le> unat b" using lt by (metis nat_neq_iff)
  then show ?thesis by auto
qed

lemma blk_inside:
  assumes "unat a + 4096 \<le> 2 ^ 32" "b \<in> small_blocks a k"
  shows "{unat b..<unat b + bsize k} \<subseteq> {unat a + 12..<unat a + 4096}" "a < b"
proof -
  obtain i where i: "i < bpa k" "b = blk a k i" using assms(2) by (auto simp: small_blocks_def)
  then show "{unat b..<unat b + bsize k} \<subseteq> {unat a + 12..<unat a + 4096}"
    using unat_blk [OF assms(1) i(1)] block_room [OF i(1)] by auto
  show "a < b" using unat_blk [OF assms(1) i(1)] i(2) by (simp add: word_less_nat_alt)
qed


section \<open>The pages of the arenas\<close>

text \<open>
  \<open>pages_ok pf s a fs\<close>: the pages from \<open>a\<close> on belong to the heap of \<open>pf\<close>, are marked as taken and
  mapped to the taken frames \<open>fs\<close>. \<open>pages_inv\<close>: so are those of all arenas, and no two share a page
  or a frame.
\<close>

definition span :: "u32 \<Rightarrow> u32 list \<Rightarrow> nat set" where
  "span a fs = {unat a..<unat a + 4096 * length fs}"

definition below_last :: "pool_flags \<Rightarrow> nat \<Rightarrow> nat \<Rightarrow> bool" where
  "below_last pf k n \<longleftrightarrow> (pf = PF_USER \<longrightarrow> k < n)"

definition taken_run :: "pool_flags \<Rightarrow> virtual_addr \<Rightarrow> u32 \<Rightarrow> nat \<Rightarrow> nat \<Rightarrow> bool" where
  "taken_run pf va a n i \<longleftrightarrow> in_region va a i n \<and>
     (\<forall>j. i \<le> j \<and> j < i + n \<longrightarrow> bm_used (vaddr_bitmap va) j) \<and> below_last pf (i + n) (bm_bits (vaddr_bitmap va))"

definition pages_ok :: "pool_flags \<Rightarrow> 'a vm_scheme \<Rightarrow> u32 \<Rightarrow> u32 list \<Rightarrow> bool" where
  "pages_ok pf s a fs \<longleftrightarrow> 0 < length fs \<and> mapped_run (ptab s) a fs \<and> distinct fs \<and>
     set fs \<subseteq> pool_frames (get_pool pf s) - free_frames (get_pool pf s) \<and>
     (\<exists>i. taken_run pf (get_vaddr pf s) a (length fs) i)"

definition pages_inv :: "pool_flags \<Rightarrow> u32 set \<Rightarrow> (u32 \<Rightarrow> u32 list) \<Rightarrow> 'a vm_scheme \<Rightarrow> bool" where
  "pages_inv pf A F s \<longleftrightarrow> (\<forall>a\<in>A. pages_ok pf s a (F a)) \<and>
     (\<forall>a\<in>A. \<forall>b\<in>A. a \<noteq> b \<longrightarrow> set (F a) \<inter> set (F b) = {} \<and> span a (F a) \<inter> span b (F b) = {})"

lemma in_regionD: "in_region va v i n \<Longrightarrow> v = page_at (vaddr_start va) i" "in_region va v i n \<Longrightarrow> i + n \<le> bm_bits (vaddr_bitmap va)"
  by (simp_all add: in_region_def)

lemma taken_run_other:
  "taken_run pf va a n i \<Longrightarrow> vaddr_start va' = vaddr_start va \<Longrightarrow>
   bm_bits (vaddr_bitmap va') = bm_bits (vaddr_bitmap va) \<Longrightarrow>
   \<forall>j. i \<le> j \<and> j < i + n \<longrightarrow> bm_used (vaddr_bitmap va') j \<Longrightarrow> taken_run pf va' a n i"
  by (simp add: taken_run_def in_region_def)

lemma pages_ok_addr:
  assumes "pages_ok pf s a fs"
  shows "page_aligned a" "unat a + 4096 * length fs \<le> 0xffc00000" "unat a + 4096 \<le> 2 ^ 32" "a \<noteq> 0 \<or> \<not> vm_ok s"
proof -
  have m: "page_aligned a" "unat a + 4096 * length fs \<le> 0xffc00000" "0 < length fs"
    using assms by (simp_all add: pages_ok_def mapped_run_def)
  then show "page_aligned a" "unat a + 4096 * length fs \<le> 0xffc00000" by simp_all
  have "4096 \<le> 4096 * length fs" using m(3) by (cases fs) simp_all
  then show "unat a + 4096 \<le> 2 ^ 32" using m(2) by simp
  obtain i where i: "a = page_at (vaddr_start (get_vaddr pf s)) i" "i < bm_bits (vaddr_bitmap (get_vaddr pf s))"
  proof -
    obtain i where "taken_run pf (get_vaddr pf s) a (length fs) i" using assms unfolding pages_ok_def by blast
    then have r: "in_region (get_vaddr pf s) a i (length fs)" by (simp add: taken_run_def)
    have "i < bm_bits (vaddr_bitmap (get_vaddr pf s))" using in_regionD(2) [OF r] m(3) by linarith
    then show ?thesis by (rule that [OF in_regionD(1) [OF r]])
  qed
  have "a \<noteq> 0" if "vm_ok s"
  proof -
    have "vregion_ok (ptab s) (get_vaddr pf s) (vlo pf) (vhi pf)" using that by (simp add: vm_ok_iff)
    note pg = vregion_page [OF this i(2) vhi_le]
    have "0 < vlo pf" by (simp add: vlo_def)
    then have "0 < unat a" using pg(1,3) i(1) by simp
    then show ?thesis by auto
  qed
  then show "a \<noteq> 0 \<or> \<not> vm_ok s" by blast
qed

text \<open>Growing what is mapped and taken keeps the pages; so does what they do not depend on.\<close>

lemma pages_ok_mono:
  assumes "pages_ok pf s a fs" "pool_le (get_pool pf s') (get_pool pf s)" "kept_pages pf s s'"
  shows "pages_ok pf s' a fs"
proof -
  obtain i where i: "taken_run pf (get_vaddr pf s) a (length fs) i" using assms(1) unfolding pages_ok_def by blast
  have m: "mapped_run (ptab s) a fs" using assms(1) by (simp add: pages_ok_def)
  have "translate (ptab s') (page_at a k) = Some (fs ! k)" if k: "k < length fs" for k
  proof -
    have "unat (page_at a k) = unat a + 4096 * k" using m k by (intro unat_page_at) (simp add: mapped_run_def)
    then have "low_addr (page_at a k)" using m k by (simp add: mapped_run_def low_addr_def)
    then show ?thesis using assms(3) m k by (simp add: kept_pages_def mapped_run_def)
  qed
  then have "mapped_run (ptab s') a fs" using m by (simp add: mapped_run_def)
  moreover have "pool_frames (get_pool pf s') = pool_frames (get_pool pf s)"
    using assms(2) by (intro pool_frames_cong) (simp_all add: pool_le_def)
  moreover have "free_frames (get_pool pf s') \<subseteq> free_frames (get_pool pf s)" using assms(2) by (simp add: pool_le_def)
  moreover have "taken_run pf (get_vaddr pf s') a (length fs) i"
    using i assms(3) by (simp add: taken_run_def in_region_def kept_pages_def)
  ultimately show ?thesis using assms(1) unfolding pages_ok_def by blast
qed

lemma pages_inv_cong:
  assumes "ptab s' = ptab s" "get_vaddr pf s' = get_vaddr pf s"
    "phy_addr_start (get_pool pf s') = phy_addr_start (get_pool pf s)"
    "pool_bitmap (get_pool pf s') = pool_bitmap (get_pool pf s)"
  shows "pages_inv pf A F s' = pages_inv pf A F s"
  unfolding pages_inv_def pages_ok_def pool_frames_def free_frames_def assms ..

lemma span_page: "unat a = st + 4096 * i \<Longrightarrow> i \<le> k \<Longrightarrow> k < i + length fs \<Longrightarrow> st + 4096 * k \<in> span a fs"
  unfolding span_def by simp

lemma spans_apart:
  assumes ok: "vm_ok s" and "in_region (get_vaddr pf s) a i n" "in_region (get_vaddr pf s) b j m" "0 < n" "0 < m"
    "i + n \<le> j \<or> j + m \<le> i"
  shows "{unat a..<unat a + 4096 * n} \<inter> {unat b..<unat b + 4096 * m} = {}"
proof -
  have reg: "vregion_ok (ptab s) (get_vaddr pf s) (vlo pf) (vhi pf)" using ok by (simp add: vm_ok_iff)
  have "i < bm_bits (vaddr_bitmap (get_vaddr pf s))" "j < bm_bits (vaddr_bitmap (get_vaddr pf s))"
    using assms by (auto simp: in_region_def)
  then have "unat a = unat (vaddr_start (get_vaddr pf s)) + 4096 * i" "unat b = unat (vaddr_start (get_vaddr pf s)) + 4096 * j"
    using vregion_page(1) [OF reg _ vhi_le] assms(2,3) by (auto simp: in_region_def)
  then have "unat a + 4096 * n \<le> unat b \<or> unat b + 4096 * m \<le> unat a"
    using assms(6) mult_le_mono2 [of "i + n" j 4096] mult_le_mono2 [of "j + m" i 4096]
    by (auto simp: add_mult_distrib2)
  then show ?thesis by auto
qed

lemma pages_malloc:
  assumes ok: "vm_ok s" and inv: "pages_inv pf A F s" and n: "0 < n" "n < 3840"
  shows "\<exists>v s'. malloc_page pf n s = Some (v, s') \<and> vm_ok s' \<and> same_rest s s' \<and>
    pool_le (kernel_pool s') (kernel_pool s) \<and> pool_le (user_pool s') (user_pool s) \<and>
    (v = 0 \<and> pages_inv pf A F s' \<or>
     v \<noteq> 0 \<and> v \<notin> A \<and> (\<exists>fs. length fs = unat n \<and> pages_inv pf (insert v A) (F(v := fs)) s'))"
proof -
  obtain v s' where m: "malloc_page pf n s = Some (v, s')" "vm_ok s'" "same_rest s s'" "kept_pages pf s s'"
    "pool_le (kernel_pool s') (kernel_pool s)" "pool_le (user_pool s') (user_pool s)"
    "v \<noteq> 0 \<longrightarrow> (\<exists>fs. length fs = unat n \<and> mapped_new pf s v fs s')"
    using malloc_page_spec [OF ok n, of pf] by blast
  have pl: "pool_le (get_pool pf s') (get_pool pf s)" using m(5,6) by (simp add: get_pool_def)
  have A: "pages_ok pf s' a (F a)" if "a \<in> A" for a
    using pages_ok_mono [OF _ pl m(4)] inv that by (simp add: pages_inv_def)
  show ?thesis
  proof (cases "v = 0")
    case True
    then show ?thesis using m A inv by (auto simp: pages_inv_def)
  next
    case False
    then obtain fs where fs: "length fs = unat n" "mapped_new pf s v fs s'" using m(7) by blast
    obtain i where i: "in_region (get_vaddr pf s) v i (length fs)"
      "vaddr_start (get_vaddr pf s') = vaddr_start (get_vaddr pf s)"
      "bm_bits (vaddr_bitmap (get_vaddr pf s')) = bm_bits (vaddr_bitmap (get_vaddr pf s))"
      "\<forall>j < bm_bits (vaddr_bitmap (get_vaddr pf s)). bm_used (vaddr_bitmap (get_vaddr pf s')) j \<longleftrightarrow>
         i \<le> j \<and> j < i + length fs \<or> bm_used (vaddr_bitmap (get_vaddr pf s)) j"
      "\<forall>j. i \<le> j \<and> j < i + length fs \<longrightarrow> \<not> bm_used (vaddr_bitmap (get_vaddr pf s)) j"
      using fs(2) unfolding mapped_new_def by (elim conjE exE) (rule that; assumption)
    have n0: "0 < length fs" using n(1) fs(1) by (simp add: unat_gt_0)
    have le: "i + length fs \<le> bm_bits (vaddr_bitmap (get_vaddr pf s))" using i(1) by (simp add: in_region_def)
    have new: "pages_ok pf s' v fs"
    proof -
      have frs: "set fs \<subseteq> pool_frames (get_pool pf s') - free_frames (get_pool pf s')"
        using fs(2) free_frames_sub [of "get_pool pf s"] pool_frames_cong [of "get_pool pf s'" "get_pool pf s"] pl
        by (auto simp: mapped_new_def pool_le_def)
      moreover have "below_last pf (i + length fs) (bm_bits (vaddr_bitmap (get_vaddr pf s)))"
        unfolding below_last_def
      proof
        assume u: "pf = PF_USER"
        have "bm_used (vaddr_bitmap (get_vaddr pf s)) (bm_bits (vaddr_bitmap (get_vaddr pf s)) - 1)"
          using ok u le n0 unfolding vm_ok_iff by (auto simp: Let_def)
        then have "\<not> (i \<le> bm_bits (vaddr_bitmap (get_vaddr pf s)) - 1 \<and>
            bm_bits (vaddr_bitmap (get_vaddr pf s)) - 1 < i + length fs)" using i(5) by blast
        then show "i + length fs < bm_bits (vaddr_bitmap (get_vaddr pf s))" using le n0 by linarith
      qed
      ultimately have "taken_run pf (get_vaddr pf s') v (length fs) i"
        using i(1-4) le by (simp add: taken_run_def in_region_def)
      moreover have "mapped_run (ptab s') v fs" "distinct fs"
        using fs(2) by (simp_all add: mapped_new_def mapped_run_def unmapped_run_def)
      ultimately show ?thesis using n0 frs unfolding pages_ok_def by blast
    qed
    have apart: "set fs \<inter> set (F a) = {} \<and> span v fs \<inter> span a (F a) = {}" if a: "a \<in> A" for a
    proof -
      have pa: "pages_ok pf s a (F a)" using inv a by (simp add: pages_inv_def)
      then obtain j where "taken_run pf (get_vaddr pf s) a (length (F a)) j" "0 < length (F a)"
        unfolding pages_ok_def by blast
      then have j: "in_region (get_vaddr pf s) a j (length (F a))" "0 < length (F a)"
        "\<forall>k. j \<le> k \<and> k < j + length (F a) \<longrightarrow> bm_used (vaddr_bitmap (get_vaddr pf s)) k"
        by (simp_all add: taken_run_def)
      have "i + length fs \<le> j \<or> j + length (F a) \<le> i"
      proof (rule ccontr)
        assume "\<not> ?thesis"
        then have "max i j < i + length fs" "max i j < j + length (F a)" using n0 j(2) by auto
        then show False using i(5) j(3) by (metis max.cobounded1 max.cobounded2)
      qed
      then have "span v fs \<inter> span a (F a) = {}"
        unfolding span_def by (rule spans_apart [OF ok i(1) j(1) n0 j(2)])
      moreover have "set fs \<subseteq> free_frames (get_pool pf s)" using fs(2) by (auto simp: mapped_new_def)
      ultimately show ?thesis using pa by (auto simp: pages_ok_def)
    qed
    have notA: "v \<notin> A"
    proof
      assume "v \<in> A"
      moreover from this have "0 < length (F v)" using inv by (simp add: pages_inv_def pages_ok_def)
      ultimately show False using apart [of v] n0 by (auto simp: span_def)
    qed
    have "pages_inv pf (insert v A) (F(v := fs)) s'"
      using A new apart inv notA unfolding pages_inv_def by (auto simp: Int_commute)
    then show ?thesis using m False notA fs(1) by blast
  qed
qed

lemma pages_free:
  assumes ok: "vm_ok s" and inv: "pages_inv pf A F s" and a: "a \<in> A" "unat n = length (F a)"
    and lo: "0x102000 \<le> phy_addr_start (kernel_pool s)"
  shows "\<exists>s'. mfree_page pf a n s = Some s' \<and> vm_ok s' \<and> same_rest s s' \<and> pages_inv pf (A - {a}) F s' \<and>
    phy_addr_start (kernel_pool s') = phy_addr_start (kernel_pool s) \<and>
    (\<forall>p. pool_lock (get_pool p s') = pool_lock (get_pool p s)) \<and>
    vaddr_start (kernel_vaddr s') = vaddr_start (kernel_vaddr s)"
proof -
  have pa: "pages_ok pf s a (F a)" using inv a by (simp add: pages_inv_def)
  then obtain i where "taken_run pf (get_vaddr pf s) a (length (F a)) i" unfolding pages_ok_def by blast
  then have i: "in_region (get_vaddr pf s) a i (length (F a))"
    "below_last pf (i + length (F a)) (bm_bits (vaddr_bitmap (get_vaddr pf s)))"
    by (simp_all add: taken_run_def)
  have p: "mapped_run (ptab s) a (F a)" "distinct (F a)" "set (F a) \<subseteq> pool_frames (get_pool pf s)" "0 < length (F a)"
    using pa by (auto simp: pages_ok_def)
  have n: "0 < n" using p(4) a(2) by (simp add: word_less_nat_alt)
  note sp = mfree_page_spec [OF ok n a(2) [symmetric] p(1-3) i(1) lo]
  obtain s' where m: "mfree_page pf a n s = Some s'"
    "free_frames (get_pool pf s') = set (F a) \<union> free_frames (get_pool pf s)"
    "\<forall>w. low_addr w \<longrightarrow> translate (ptab s') w =
        (if \<exists>k<length (F a). same_page (page_at a k) w then None else translate (ptab s) w)"
    "vaddr_start (get_vaddr pf s') = vaddr_start (get_vaddr pf s)"
    "bm_bits (vaddr_bitmap (get_vaddr pf s')) = bm_bits (vaddr_bitmap (get_vaddr pf s))"
    "\<forall>j < bm_bits (vaddr_bitmap (get_vaddr pf s)). bm_used (vaddr_bitmap (get_vaddr pf s')) j \<longleftrightarrow>
        \<not> (i \<le> j \<and> j < i + length (F a)) \<and> bm_used (vaddr_bitmap (get_vaddr pf s)) j"
    "same_rest s s'" "phy_addr_start (get_pool pf s') = phy_addr_start (get_pool pf s)"
    "bm_bits (pool_bitmap (get_pool pf s')) = bm_bits (pool_bitmap (get_pool pf s))"
    "pool_lock (get_pool pf s') = pool_lock (get_pool pf s)"
    "\<forall>p. p \<noteq> pf \<longrightarrow> get_pool p s' = get_pool p s \<and> get_vaddr p s' = get_vaddr p s"
    using sp by blast
  have vm: "vm_ok s'"
    by (rule mfree_page_vm_ok [OF ok n a(2) [symmetric] p(1-3) i(1) lo _ m(1)]) (use i(2) in \<open>simp add: below_last_def\<close>)
  have "pages_ok pf s' b (F b)" if b: "b \<in> A" "b \<noteq> a" for b
  proof -
    have pb: "pages_ok pf s b (F b)" "set (F b) \<inter> set (F a) = {}" "span b (F b) \<inter> span a (F a) = {}"
      using inv a(1) b by (auto simp: pages_inv_def)
    obtain j where tj: "taken_run pf (get_vaddr pf s) b (length (F b)) j" using pb(1) unfolding pages_ok_def by blast
    then have j: "in_region (get_vaddr pf s) b j (length (F b))"
      "\<forall>k. j \<le> k \<and> k < j + length (F b) \<longrightarrow> bm_used (vaddr_bitmap (get_vaddr pf s)) k"
      by (simp_all add: taken_run_def)
    have mb: "mapped_run (ptab s) b (F b)" using pb(1) by (simp add: pages_ok_def)
    have reg: "vregion_ok (ptab s) (get_vaddr pf s) (vlo pf) (vhi pf)" using ok by (simp add: vm_ok_iff)
    have tr: "translate (ptab s') (page_at b k) = Some (F b ! k)" if k: "k < length (F b)" for k
    proof -
      have ub: "unat (page_at b k) = unat b + 4096 * k" using mb k by (intro unat_page_at) (simp add: mapped_run_def)
      then have low: "low_addr (page_at b k)" using mb k by (simp add: mapped_run_def low_addr_def)
      have "\<not> same_page (page_at a l) (page_at b k)" if l: "l < length (F a)" for l
      proof
        assume sp: "same_page (page_at a l) (page_at b k)"
        have ua: "unat (page_at a l) = unat a + 4096 * l" using p(1) l by (intro unat_page_at) (simp add: mapped_run_def)
        have al: "page_aligned (page_at a l)" "page_aligned (page_at b k)"
          using p(1) mb l k by (auto simp: mapped_run_def intro!: page_at_aligned)
        have "page_at a l = page_at b k" using same_page_aligned [OF al] sp by simp
        then have "unat a + 4096 * l = unat b + 4096 * k" using ua ub by simp
        then have "unat b + 4096 * k \<in> span b (F b) \<inter> span a (F a)"
          using l k by (simp add: span_def)
        then show False using pb(3) by blast
      qed
      then show ?thesis using m(3) low mb k by (simp add: mapped_run_def)
    qed
    have bits: "bm_used (vaddr_bitmap (get_vaddr pf s')) k" if k: "j \<le> k" "k < j + length (F b)" for k
    proof -
      have "j + length (F b) \<le> bm_bits (vaddr_bitmap (get_vaddr pf s))" by (rule in_regionD(2) [OF j(1)])
      then have kb: "k < bm_bits (vaddr_bitmap (get_vaddr pf s))" using k by simp
      have "\<not> (i \<le> k \<and> k < i + length (F a))"
      proof
        assume ik: "i \<le> k \<and> k < i + length (F a)"
        have pos: "0 < length (F b)" using pb(1) by (simp add: pages_ok_def)
        have e: "i < bm_bits (vaddr_bitmap (get_vaddr pf s))" "j < bm_bits (vaddr_bitmap (get_vaddr pf s))"
          using in_regionD(2) [OF i(1)] in_regionD(2) [OF j(1)] p(4) pos by linarith+
        have "unat a = unat (vaddr_start (get_vaddr pf s)) + 4096 * i" "unat b = unat (vaddr_start (get_vaddr pf s)) + 4096 * j"
          using vregion_page(1) [OF reg e(1) vhi_le] vregion_page(1) [OF reg e(2) vhi_le]
            in_regionD(1) [OF i(1)] in_regionD(1) [OF j(1)] by simp_all
        then have "unat (vaddr_start (get_vaddr pf s)) + 4096 * k \<in> span b (F b) \<inter> span a (F a)"
          using span_page [of a _ i k "F a"] span_page [of b _ j k "F b"] ik k by blast
        then show False using pb(3) by blast
      qed
      then show ?thesis using m(6) kb j(2) k by blast
    qed
    have fr: "set (F b) \<subseteq> pool_frames (get_pool pf s') - free_frames (get_pool pf s')"
      using pb(1,2) m(2) pool_frames_cong [OF m(8,9)] by (auto simp: pages_ok_def)
    have "mapped_run (ptab s') b (F b)" using mb tr by (simp add: mapped_run_def)
    moreover have "taken_run pf (get_vaddr pf s') b (length (F b)) j"
      by (rule taken_run_other [OF tj m(4,5)]) (use bits in blast)
    ultimately show ?thesis using pb(1) fr unfolding pages_ok_def by blast
  qed
  then have "pages_inv pf (A - {a}) F s'" using inv by (auto simp: pages_inv_def)
  moreover have "\<forall>p. pool_lock (get_pool p s') = pool_lock (get_pool p s)" using m(10,11) by metis
  moreover have "phy_addr_start (kernel_pool s') = phy_addr_start (kernel_pool s) \<and>
    vaddr_start (kernel_vaddr s') = vaddr_start (kernel_vaddr s)"
  proof (cases pf)
    case PF_KERNEL
    then show ?thesis using m(4,8) by (simp add: get_pool_def get_vaddr_def)
  next
    case PF_USER
    then have "get_pool PF_KERNEL s' = get_pool PF_KERNEL s" "get_vaddr PF_KERNEL s' = get_vaddr PF_KERNEL s" using m(11) by simp_all
    then show ?thesis by (simp add: get_pool_def get_vaddr_def)
  qed
  ultimately show ?thesis using m(1,7) vm by blast
qed

end
