(* ===== verification/HeapCorrect.thy ===== *)
theory HeapCorrect
  imports Heap
begin

text \<open>
  The heap is correct: an invariant of its free lists and arena headers, the set of allocated
  blocks it stands for, and what \<^verbatim>\<open>sys_malloc\<close> and \<^verbatim>\<open>sys_free\<close> do to this set.
\<close>

section \<open>The free lists\<close>

lemma heap_desc_eq [simp]: "heap_desc s k = heap_desc s j \<longleftrightarrow> k = j"
  by (simp add: heap_desc_def)

lemma get_set_desc [simp]: "get_desc d (set_desc d x s) = x"
  by (cases d) simp_all

lemma get_set_desc_other: "d' \<noteq> d \<Longrightarrow> get_desc d' (set_desc d x s) = get_desc d' s"
  by (cases d; cases d') auto

lemma set_desc_simps [simp]:
  "set_desc d x (set_desc d y s) = set_desc d x s" "arenas (set_desc d x s) = arenas s" "running (set_desc d x s) = running s"
  "tasks (set_desc d x s) = tasks s" "ptab (set_desc d x s) = ptab s" "data (set_desc d x s) = data s"
  "kernel_pool (set_desc d x s) = kernel_pool s" "user_pool (set_desc d x s) = user_pool s"
  "kernel_vaddr (set_desc d x s) = kernel_vaddr s" "userprog_vaddr (set_desc d x s) = userprog_vaddr s"
  by (cases d; simp)+

lemma set_desc_self: "set_desc d (get_desc d s) s = s"
  by (cases d) simp_all

lemma set_free_list_simps [simp]:
  "arenas (set_free_list d xs s) = arenas s" "running (set_free_list d xs s) = running s"
  "tasks (set_free_list d xs s) = tasks s" "ptab (set_free_list d xs s) = ptab s" "data (set_free_list d xs s) = data s"
  "kernel_pool (set_free_list d xs s) = kernel_pool s" "user_pool (set_free_list d xs s) = user_pool s"
  "kernel_vaddr (set_free_list d xs s) = kernel_vaddr s" "userprog_vaddr (set_free_list d xs s) = userprog_vaddr s"
  "get_desc d (set_free_list d xs s) = (get_desc d s)\<lparr>free_list := xs\<rparr>"
  "set_free_list d ys (set_free_list d xs s) = set_free_list d ys s"
  by (simp_all add: set_free_list_def)

lemma set_free_list_other: "d' \<noteq> d \<Longrightarrow> get_desc d' (set_free_list d xs s) = get_desc d' s"
  by (simp add: set_free_list_def get_set_desc_other)

lemma set_free_list_self: "free_list (get_desc d s) = xs \<Longrightarrow> set_free_list d xs s = s"
  using set_desc_self [of d s] by (auto simp: set_free_list_def)

lemma arena_fill_ok:
  "a_desc (arenas s a) = Some d \<Longrightarrow> block_size (get_desc d s) = of_nat (bsize k) \<Longrightarrow> idx + n \<le> bpa k \<Longrightarrow>
   unat a + 4096 \<le> 2 ^ 32 \<Longrightarrow> set (free_list (get_desc d s)) \<inter> blk a k ` {idx..<idx + n} = {} \<Longrightarrow>
   arena_fill n idx a s = Some (set_free_list d (free_list (get_desc d s) @ map (blk a k) [idx..<idx + n]) s)"
proof (induction n idx a s rule: arena_fill.induct)
  case (1 idx a s)
  then show ?case by (simp add: set_free_list_self)
next
  case (2 n idx a s)
  define xs where "xs = free_list (get_desc d s)"
  define s1 where "s1 = set_free_list d (xs @ [blk a k idx]) s"
  have b: "arena2block a idx s = Some (blk a k idx)"
    using 2(2,3) by (simp add: arena2block_def blk_def algebra_simps)
  have nin: "blk a k idx \<notin> set xs" using 2(6) by (auto simp: xs_def)
  have inj: "blk a k idx \<notin> blk a k ` {Suc idx..<Suc idx + n}"
  proof
    assume "blk a k idx \<in> blk a k ` {Suc idx..<Suc idx + n}"
    then obtain j where j: "blk a k idx = blk a k j" "Suc idx \<le> j" "j < Suc idx + n" by auto
    then have "idx \<in> {..<bpa k}" "j \<in> {..<bpa k}" using 2(4) by auto
    then have "idx = j" using inj_onD [OF blk_inj [OF 2(5)] j(1)] by blast
    then show False using j(2) by simp
  qed
  have "arena_fill n (Suc idx) a s1 =
      Some (set_free_list d (free_list (get_desc d s1) @ map (blk a k) [Suc idx..<Suc idx + n]) s1)"
  proof (rule "2.IH" [OF b 2(2) xs_def nin, folded xs_def s1_def])
    show "set (free_list (get_desc d s1)) \<inter> blk a k ` {Suc idx..<Suc idx + n} = {}"
      using 2(6) inj by (auto simp: s1_def xs_def)
  qed (use 2(2-5) in \<open>simp_all add: s1_def\<close>)
  moreover have "[idx..<idx + Suc n] = idx # [Suc idx..<Suc idx + n]" by (simp add: upt_conv_Cons del: upt_Suc)
  ultimately show ?case using b 2(2) nin
    by (simp add: xs_def [symmetric] s1_def [symmetric] Let_def del: upt_Suc)
      (simp add: s1_def del: upt_Suc)
qed

lemma arena_unlink_ok:
  "a_desc (arenas s a) = Some d \<Longrightarrow> block_size (get_desc d s) = of_nat (bsize k) \<Longrightarrow> idx + n \<le> bpa k \<Longrightarrow>
   unat a + 4096 \<le> 2 ^ 32 \<Longrightarrow> blk a k ` {idx..<idx + n} \<subseteq> set (free_list (get_desc d s)) \<Longrightarrow>
   distinct (free_list (get_desc d s)) \<Longrightarrow>
   arena_unlink n idx a s =
     Some (set_free_list d (filter (\<lambda>b. b \<notin> blk a k ` {idx..<idx + n}) (free_list (get_desc d s))) s)"
proof (induction n idx a s rule: arena_unlink.induct)
  case (1 idx a s)
  then show ?case by (simp add: set_free_list_self)
next
  case (2 n idx a s)
  define xs where "xs = free_list (get_desc d s)"
  define s1 where "s1 = set_free_list d (remove1 (blk a k idx) xs) s"
  have b: "arena2block a idx s = Some (blk a k idx)"
    using 2(2,3) by (simp add: arena2block_def blk_def algebra_simps)
  have mem: "\<not> blk a k idx \<notin> set xs" using 2(6) by (auto simp: xs_def)
  have inj: "blk a k idx \<notin> blk a k ` {Suc idx..<Suc idx + n}"
  proof
    assume "blk a k idx \<in> blk a k ` {Suc idx..<Suc idx + n}"
    then obtain j where j: "blk a k idx = blk a k j" "Suc idx \<le> j" "j < Suc idx + n" by auto
    then have "idx \<in> {..<bpa k}" "j \<in> {..<bpa k}" using 2(4) by auto
    then have "idx = j" using inj_onD [OF blk_inj [OF 2(5)] j(1)] by blast
    then show False using j(2) by simp
  qed
  have d: "distinct xs" using 2(7) by (simp add: xs_def)
  have r: "remove1 (blk a k idx) xs = filter (\<lambda>x. x \<noteq> blk a k idx) xs"
    using distinct_remove1_removeAll [OF d] by (simp add: removeAll_filter_not_eq neq_commute)
  have iv: "{idx..<idx + Suc n} = insert idx {Suc idx..<Suc idx + n}" by auto
  have "arena_unlink n (Suc idx) a s1 =
      Some (set_free_list d (filter (\<lambda>b. b \<notin> blk a k ` {Suc idx..<Suc idx + n}) (free_list (get_desc d s1))) s1)"
  proof (rule "2.IH" [OF b 2(2) xs_def mem, folded xs_def s1_def])
    show "blk a k ` {Suc idx..<Suc idx + n} \<subseteq> set (free_list (get_desc d s1))"
    proof -
      have "blk a k ` {Suc idx..<Suc idx + n} \<subseteq> set xs - {blk a k idx}"
        using 2(6) inj unfolding iv xs_def by blast
      then show ?thesis by (auto simp: s1_def r)
    qed
    show "distinct (free_list (get_desc d s1))" using d by (simp add: s1_def)
  qed (use 2(2-5) in \<open>simp_all add: s1_def\<close>)
  moreover have "filter (\<lambda>b. b \<notin> blk a k ` {Suc idx..<Suc idx + n}) (remove1 (blk a k idx) xs) =
      filter (\<lambda>b. b \<notin> blk a k ` {idx..<idx + Suc n}) xs"
    unfolding r filter_filter iv by (intro filter_cong) auto
  ultimately show ?case using b 2(2) mem
    by (simp add: xs_def [symmetric] s1_def [symmetric] Let_def)
      (simp add: s1_def)
qed


text \<open>
  The descriptors have their sizes; the free list of class \<open>k\<close> holds different blocks of arenas of
  this class; an arena is large, with the number of its pages, or of a class, with the number
  of its free blocks. Only the arenas of \<open>E\<close> may be free altogether: elsewhere \<open>E\<close> is empty.
\<close>

definition descs_ok :: "'a vm_scheme \<Rightarrow> bool" where
  "descs_ok s \<longleftrightarrow> (\<forall>k<7. block_size (get_desc (heap_desc s k) s) = of_nat (bsize k) \<and>
     unat (blocks_per_arena (get_desc (heap_desc s k) s)) = bpa k)"

definition frees :: "'a vm_scheme \<Rightarrow> nat \<Rightarrow> u32 list" where
  "frees s k = free_list (get_desc (heap_desc s k) s)"

definition small_arena :: "'a vm_scheme \<Rightarrow> u32 \<Rightarrow> nat \<Rightarrow> bool" where
  "small_arena s a k \<longleftrightarrow> a_desc (arenas s a) = Some (heap_desc s k) \<and> \<not> a_large (arenas s a)"

definition large_arena :: "'a vm_scheme \<Rightarrow> u32 \<Rightarrow> bool" where
  "large_arena s a \<longleftrightarrow> a_desc (arenas s a) = None \<and> a_large (arenas s a)"

definition arena_ok :: "'a vm_scheme \<Rightarrow> u32 \<Rightarrow> nat \<Rightarrow> bool \<Rightarrow> bool" where
  "arena_ok s a n full \<longleftrightarrow> large_arena s a \<and> unat (a_cnt (arenas s a)) = n \<or>
     n = 1 \<and> (\<exists>k<7. small_arena s a k \<and> unat (a_cnt (arenas s a)) = card (small_blocks a k \<inter> set (frees s k)) \<and>
       (full \<or> unat (a_cnt (arenas s a)) < bpa k))"

definition lists_inv :: "u32 set \<Rightarrow> u32 set \<Rightarrow> (u32 \<Rightarrow> u32 list) \<Rightarrow> 'a vm_scheme \<Rightarrow> bool" where
  "lists_inv E A F s \<longleftrightarrow> descs_ok s \<and>
     (\<forall>k<7. distinct (frees s k) \<and> (\<forall>b\<in>set (frees s k). \<exists>a\<in>A. small_arena s a k \<and> b \<in> small_blocks a k)) \<and>
     (\<forall>a\<in>A. arena_ok s a (length (F a)) (a \<in> E))"

text \<open>The allocated blocks, each with its size.\<close>

definition live_in :: "'a vm_scheme \<Rightarrow> u32 \<Rightarrow> (u32 \<times> nat) set" where
  "live_in s a = {(b, n). large_arena s a \<and> b = a + 12 \<and> n = 4096 * unat (a_cnt (arenas s a)) - 12 \<or>
     (\<exists>k<7. small_arena s a k \<and> b \<in> small_blocks a k - set (frees s k) \<and> n = bsize k)}"

definition live :: "u32 set \<Rightarrow> 'a vm_scheme \<Rightarrow> (u32 \<times> nat) set" where
  "live A s = (\<Union>a\<in>A. live_in s a)"

definition heap_ok :: "u32 set \<Rightarrow> (u32 \<Rightarrow> u32 list) \<Rightarrow> 'a vm_scheme \<Rightarrow> bool" where
  "heap_ok A F s \<longleftrightarrow> pages_inv (heap_pf s) A F s \<and> lists_inv {} A F s"

lemma small_arena_unique: "small_arena s a k \<Longrightarrow> small_arena s a j \<Longrightarrow> j = k" "small_arena s a k \<Longrightarrow> \<not> large_arena s a"
  by (auto simp: small_arena_def large_arena_def)

text \<open>The lists depend on headers and descriptors only.\<close>

lemma heap_view_cong:
  assumes "arenas s' = arenas s" "k_block_descs s' = k_block_descs s" "u_block_desc s' = u_block_desc s"
    "tasks s' = tasks s" "running s' = running s"
  shows "heap_pf s' = heap_pf s" "heap_desc s' = heap_desc s" "get_desc d s' = get_desc d s"
    "frees s' = frees s" "small_arena s' = small_arena s" "large_arena s' = large_arena s"
    "lists_inv E A F s' = lists_inv E A F s" "live A s' = live A s"
proof -
  have g: "get_desc d s' = get_desc d s" for d using assms(2,3) by (cases d) simp_all
  show p: "heap_pf s' = heap_pf s" and h: "heap_desc s' = heap_desc s" using assms(4,5) by (simp_all add: heap_pf_def heap_desc_def fun_eq_iff)
  show "get_desc d s' = get_desc d s" by (rule g)
  show f: "frees s' = frees s" by (simp add: frees_def h g fun_eq_iff)
  show sm: "small_arena s' = small_arena s" and la: "large_arena s' = large_arena s"
    by (simp_all add: small_arena_def large_arena_def h assms(1) fun_eq_iff)
  show "lists_inv E A F s' = lists_inv E A F s"
    by (simp add: lists_inv_def descs_ok_def arena_ok_def f sm la h g assms(1))
  show "live A s' = live A s" by (simp add: live_def live_in_def f sm la assms(1))
qed

lemma heap_view_rest:
  assumes "same_rest s s'"
  shows "heap_pf s' = heap_pf s" "heap_desc s' = heap_desc s" "get_desc d s' = get_desc d s"
    "frees s' = frees s" "small_arena s' = small_arena s" "large_arena s' = large_arena s"
    "lists_inv E A F s' = lists_inv E A F s" "live A s' = live A s"
  by (rule heap_view_cong; use assms in \<open>simp add: same_rest_def\<close>)+

lemma heap_desc_updates [simp]:
  "heap_desc (set_free_list d xs s) = heap_desc s" "heap_desc (set_arena a h s) = heap_desc s"
  "heap_pf (set_free_list d xs s) = heap_pf s" "heap_pf (set_arena a h s) = heap_pf s"
  by (simp_all add: heap_desc_def heap_pf_def set_arena_def fun_eq_iff)

lemma get_desc_set_arena [simp]: "get_desc d (set_arena a h s) = get_desc d s"
  by (cases d) (simp_all add: set_arena_def)

lemma frees_updates [simp]:
  "frees (set_free_list (heap_desc s k) xs s) j = (if j = k then xs else frees s j)" "frees (set_arena a h s) = frees s"
  using set_free_list_other [of "heap_desc s j" "heap_desc s k" xs s] by (simp_all add: frees_def fun_eq_iff)

lemma arena_updates [simp]:
  "small_arena (set_free_list d xs s) = small_arena s" "large_arena (set_free_list d xs s) = large_arena s"
  "arenas (set_arena a h s) = (arenas s)(a := h)"
  by (simp_all add: small_arena_def large_arena_def fun_eq_iff set_arena_def)

lemma descs_ok_updates [simp]:
  "descs_ok (set_free_list (heap_desc s k) xs s) = descs_ok s" "descs_ok (set_arena a h s) = descs_ok s"
proof -
  have "block_size (get_desc (heap_desc s j) (set_free_list (heap_desc s k) xs s)) = block_size (get_desc (heap_desc s j) s)"
    "blocks_per_arena (get_desc (heap_desc s j) (set_free_list (heap_desc s k) xs s)) = blocks_per_arena (get_desc (heap_desc s j) s)" for j
    by (cases "j = k"; simp add: set_free_list_other)+
  then show "descs_ok (set_free_list (heap_desc s k) xs s) = descs_ok s" by (simp add: descs_ok_def)
qed (simp add: descs_ok_def)

lemma find_desc_ok:
  "descs_ok s \<Longrightarrow> left + k = 7 \<Longrightarrow> 0 < left \<Longrightarrow> unat n \<le> 1024 \<Longrightarrow>
   find_desc left k n s < 7 \<and> unat n \<le> bsize (find_desc left k n s)"
proof (induction left k n s rule: find_desc.induct)
  case (2 left k n s)
  have k: "k < 7" using 2(3) by simp
  then have b: "block_size (get_desc (heap_desc s k) s) = of_nat (bsize k)" using 2(2) by (simp add: descs_ok_def)
  have "bsize k \<le> bsize 6" using k using power_increasing [of k 6 "2 :: nat"] by (simp add: bsize_def)
  then have u: "unat (of_nat (bsize k) :: u32) = bsize k" by (intro unat_of_nat_small) (simp add: bsize_def)
  show ?case
  proof (cases "n \<le> block_size (get_desc (heap_desc s k) s)")
    case True
    then show ?thesis using k b u by (simp add: word_le_nat_alt)
  next
    case False
    then have "bsize k < unat n" using b u by (simp add: word_le_nat_alt)
    then have "left \<noteq> 0" using 2(3,5) by (cases left) (auto simp: bsize_def)
    then show ?thesis using 2(1) [OF False] 2(2-5) False by simp
  qed
qed simp

text \<open>The blocks of different arenas are different.\<close>

lemma small_blocks_apart:
  assumes "pages_inv pf A F s" "a \<in> A" "c \<in> A" "b \<in> small_blocks a k" "b \<in> small_blocks c j"
  shows "a = c"
proof -
  have "pages_ok pf s a (F a)" "pages_ok pf s c (F c)" using assms(1-3) by (simp_all add: pages_inv_def)
  from pages_ok_addr(1,3) [OF this(1)] pages_ok_addr(1,3) [OF this(2)] show ?thesis
    using block2arena_small assms(4,5) by metis
qed


lemma live_in_small:
  assumes "small_arena t a k" "k < 7"
  shows "live_in t a = (small_blocks a k - set (frees t k)) \<times> {bsize k}"
proof -
  have "small_arena t a j \<longleftrightarrow> j = k" for j using assms(1) small_arena_unique(1) by blast
  moreover have "\<not> large_arena t a" by (rule small_arena_unique(2) [OF assms(1)])
  ultimately show ?thesis using assms(2) by (auto simp: live_in_def)
qed

lemma live_change: "a \<in> A \<Longrightarrow> (\<And>c. c \<in> A - {a} \<Longrightarrow> live_in s' c = live_in s c) \<Longrightarrow> live A s' = live_in s' a \<union> live (A - {a}) s"
  by (auto simp: live_def)

lemma frees_in:
  assumes "lists_inv E A F s" "k < 7" "b \<in> set (frees s k)"
  obtains a where "a \<in> A" "small_arena s a k" "b \<in> small_blocks a k"
  using assms unfolding lists_inv_def by blast

text \<open>A new arena: cut into blocks, all free.\<close>

lemma refill_ok:
  assumes inv: "lists_inv {} A F s" and k: "k < 7" and empty: "frees s k = []" and v: "v \<notin> A"
    and pages: "pages_inv pf (insert v A) F' s'" and F': "F' = F(v := fs)" "length fs = 1"
  defines "s1 \<equiv> set_arena v \<lparr>a_desc = Some (heap_desc s k), a_cnt = blocks_per_arena (get_desc (heap_desc s k) s), a_large = False\<rparr> s"
  shows "\<exists>s2. arena_fill (unat (blocks_per_arena (get_desc (heap_desc s k) s1))) 0 v s1 = Some s2 \<and>
    s2 = set_free_list (heap_desc s k) (map (blk v k) [0..<bpa k]) s1 \<and>
    lists_inv {v} (insert v A) F' s2 \<and> live (insert v A) s2 = live A s"
proof -
  let ?d = "heap_desc s k"
  define s2 where "s2 = set_free_list ?d (map (blk v k) [0..<bpa k]) s1"
  have dk: "block_size (get_desc ?d s) = of_nat (bsize k)" "unat (blocks_per_arena (get_desc ?d s)) = bpa k"
    using inv k by (simp_all add: lists_inv_def descs_ok_def)
  have po: "pages_ok pf s' v (F' v)" using pages by (simp add: pages_inv_def)
  note hi = pages_ok_addr(3) [OF po]
  have d1: "get_desc ?d s1 = get_desc ?d s" "arenas s1 = (arenas s)(v := \<lparr>a_desc = Some ?d, a_cnt = blocks_per_arena (get_desc ?d s), a_large = False\<rparr>)"
    by (simp_all add: s1_def)
  have "free_list (get_desc ?d s1) = []" using empty d1 by (simp add: frees_def)
  then have fill: "arena_fill (unat (blocks_per_arena (get_desc ?d s1))) 0 v s1 = Some s2"
    using arena_fill_ok [of s1 v ?d k 0 "bpa k"] dk d1 hi by (simp add: s2_def)
  have sm: "small_arena s2 a j = (if a = v then j = k else small_arena s a j)" for a j
    by (auto simp: small_arena_def d1(2) s2_def) (simp_all add: s1_def)
  have la: "large_arena s2 a = (a \<noteq> v \<and> large_arena s a)" for a
    by (auto simp: large_arena_def d1(2) s2_def)
  have h1: "heap_desc s1 = heap_desc s" by (simp add: s1_def)
  have fr: "frees s2 j = (if j = k then map (blk v k) [0..<bpa k] else frees s j)" for j
    using frees_updates(1) [of s1 k "map (blk v k) [0..<bpa k]" j] by (simp add: h1 s1_def s2_def)
  have setk: "set (frees s2 k) = small_blocks v k" by (auto simp: fr small_blocks_def atLeast0LessThan)
  have dis: "small_blocks v k \<inter> small_blocks a j = {}" if "a \<in> A" for a j
    using small_blocks_apart [OF pages, of v a] that v by blast
  have desc2: "descs_ok s2" using inv descs_ok_updates(1) [of s1 k] by (simp add: h1 s2_def) (simp add: s1_def lists_inv_def)
  have ar: "arenas s2 = arenas s1" by (simp add: s2_def)
  have inter: "small_blocks a j \<inter> set (frees s2 j) = small_blocks a j \<inter> set (frees s j)" if "a \<in> A" for a j
  proof (cases "j = k")
    case True
    then have "small_blocks a j \<inter> set (frees s2 j) = {}" using dis [OF that, of j] setk by blast
    then show ?thesis using True empty by simp
  qed (simp add: fr)
  have okA: "arena_ok s2 a (length (F' a)) (a \<in> {v})" if a: "a \<in> A" for a
  proof -
    have nv: "a \<noteq> v" using v a by blast
    have "arena_ok s a (length (F a)) False" using inv a by (simp add: lists_inv_def)
    then show ?thesis
      unfolding arena_ok_def by (simp add: sm la nv F'(1) ar d1(2) inter [OF a] split del: if_split)
  qed
  have okv: "arena_ok s2 v (length (F' v)) (v \<in> {v})"
    unfolding arena_ok_def using k F' dk(2) card_small(1) [OF hi, of k] card_small(2) [of _ k]
    by (auto simp: sm la setk ar d1(2) intro!: exI [of _ k])
  have lst: "distinct (frees s2 j) \<and> (\<forall>b\<in>set (frees s2 j). \<exists>a\<in>insert v A. small_arena s2 a j \<and> b \<in> small_blocks a j)"
    if j: "j < 7" for j
  proof (cases "j = k")
    case True
    have "distinct (map (blk v k) [0..<bpa k])"
      using blk_inj [OF hi, of k] by (simp add: distinct_map atLeast0LessThan)
    then show ?thesis using True setk by (auto simp: fr sm)
  next
    case False
    have "\<exists>a\<in>insert v A. small_arena s2 a j \<and> b \<in> small_blocks a j" if b: "b \<in> set (frees s j)" for b
    proof -
      obtain a where "a \<in> A" "small_arena s a j" "b \<in> small_blocks a j" using frees_in [OF inv j b] by blast
      then show ?thesis using v by (auto simp: sm)
    qed
    then show ?thesis using False inv j by (simp add: fr lists_inv_def)
  qed
  have "lists_inv {v} (insert v A) F' s2" unfolding lists_inv_def using desc2 lst okA okv by blast
  moreover have "live (insert v A) s2 = live A s"
  proof -
    have "live_in s2 a = live_in s a" if a: "a \<in> A" for a
    proof -
      have "a \<noteq> v" using v a by blast
      moreover have "small_blocks a j - set (frees s2 j) = small_blocks a j - set (frees s j)" for j
        using inter [OF a, of j] by blast
      ultimately show ?thesis by (simp add: live_in_def sm la ar d1(2))
    qed
    moreover have "live_in s2 v = {}" using setk by (auto simp: live_in_def sm la)
    ultimately show ?thesis by (simp add: live_def)
  qed
  ultimately show ?thesis using fill s2_def by blast
qed

text \<open>Taking the first free block.\<close>

lemma pop_ok:
  assumes inv: "lists_inv E A F s" and pages: "pages_inv pf A F sp" and k: "k < 7" and fr: "frees s k = b # xs"
    and E: "E \<subseteq> {block2arena b}"
  defines "a \<equiv> block2arena b"
  defines "s1 \<equiv> set_free_list (heap_desc s k) xs s"
  defines "s2 \<equiv> set_arena a ((arenas s1 a)\<lparr>a_cnt := a_cnt (arenas s1 a) - 1\<rparr>) s1"
  shows "lists_inv {} A F s2" "live A s2 = insert (b, bsize k) (live A s)" "a \<in> A" "small_arena s a k" "b \<in> small_blocks a k"
proof -
  obtain c where c: "c \<in> A" "small_arena s c k" "b \<in> small_blocks c k" using frees_in [OF inv k, of b] fr by auto
  have po: "pages_ok pf sp c (F c)" using pages c(1) by (simp add: pages_inv_def)
  have ac: "a = c" unfolding a_def by (rule block2arena_small [OF pages_ok_addr(1,3) [OF po] c(3)])
  show A: "a \<in> A" and sa: "small_arena s a k" and ba: "b \<in> small_blocks a k" using c by (simp_all add: ac)
  have hi: "unat a + 4096 \<le> 2 ^ 32" using pages_ok_addr(3) [OF po] by (simp add: ac)
  have dis: "distinct (b # xs)" using inv k fr by (metis lists_inv_def)
  have oka: "arena_ok s a (length (F a)) (a \<in> E)" using inv A by (simp add: lists_inv_def)
  then have cnt: "length (F a) = 1" "unat (a_cnt (arenas s a)) = card (small_blocks a k \<inter> set (frees s k))"
    using small_arena_unique(2) [OF sa] small_arena_unique(1) [OF sa] unfolding arena_ok_def by blast+
  have le: "card (small_blocks a k \<inter> set (frees s k)) \<le> bpa k"
    using card_small(1) [OF hi, of k] card_small(2) [of _ k] card_mono [of "small_blocks a k"] by (metis inf_le1)
  have mem: "b \<in> small_blocks a k \<inter> set (frees s k)" using ba fr by simp
  have pos: "0 < unat (a_cnt (arenas s a))" using mem cnt(2) by (simp add: card_gt_0_iff) blast
  then have c1: "unat (a_cnt (arenas s a) - 1) = unat (a_cnt (arenas s a)) - 1"
    using unat_sub_le [of 1 "a_cnt (arenas s a)"] by (simp add: word_le_nat_alt)
  have ar: "arenas s1 = arenas s" by (simp add: s1_def)
  have sm: "small_arena s2 c j = small_arena s c j" "large_arena s2 c = large_arena s c" for c j
    by (simp_all add: s2_def s1_def small_arena_def large_arena_def)
  have f2: "frees s2 j = (if j = k then xs else frees s j)" for j by (simp add: s2_def s1_def)
  have ct: "a_cnt (arenas s2 c) = (if c = a then a_cnt (arenas s a) - 1 else a_cnt (arenas s c))" for c
    by (simp add: s2_def ar)
  have in_a: "b \<in> small_blocks c j \<Longrightarrow> c \<in> A \<Longrightarrow> c = a" for c j
    using small_blocks_apart [OF pages, of c a b] A ba by blast
  have new: "small_blocks a k \<inter> set xs = small_blocks a k \<inter> set (frees s k) - {b}" using dis fr by auto
  have cardn: "card (small_blocks a k \<inter> set xs) = card (small_blocks a k \<inter> set (frees s k)) - 1"
    unfolding new using mem card_small(2) by simp
  have okn: "arena_ok s2 c (length (F c)) False" if cA: "c \<in> A" for c
  proof (cases "c = a")
    case True
    have "unat (a_cnt (arenas s2 a)) = card (small_blocks a k \<inter> set (frees s2 k))"
      using cnt(2) cardn c1 by (simp add: ct f2)
    moreover have "unat (a_cnt (arenas s2 a)) < bpa k" using cnt(2) c1 le pos by (simp add: ct)
    ultimately show ?thesis using True sa cnt(1) k by (auto simp: arena_ok_def sm)
  next
    case False
    have "arena_ok s c (length (F c)) (c \<in> E)" using inv cA by (simp add: lists_inv_def)
    moreover have "c \<notin> E" using E False by (auto simp: a_def)
    moreover have "small_blocks c j \<inter> set (frees s2 j) = small_blocks c j \<inter> set (frees s j)" for j
      using in_a [OF _ cA] False fr by (auto simp: f2)
    ultimately show ?thesis using False by (simp add: arena_ok_def sm ct)
  qed
  have lst: "distinct (frees s2 j) \<and> (\<forall>c\<in>set (frees s2 j). \<exists>a\<in>A. small_arena s2 a j \<and> c \<in> small_blocks a j)"
    if j: "j < 7" for j
  proof -
    have "set (frees s2 j) \<subseteq> set (frees s j)" using fr by (auto simp: f2)
    moreover have "distinct (frees s2 j)" using inv j dis by (simp add: f2 lists_inv_def)
    ultimately show ?thesis using inv j by (auto simp: lists_inv_def sm)
  qed
  have "descs_ok s2" using inv descs_ok_updates(1) [of s k xs] by (simp add: s2_def s1_def lists_inv_def)
  then show "lists_inv {} A F s2" unfolding lists_inv_def using lst okn by simp
  have other: "live_in s2 c = live_in s c" if c: "c \<in> A" "c \<noteq> a" for c
  proof -
    have "small_blocks c j - set (frees s2 j) = small_blocks c j - set (frees s j)" for j
      using in_a [OF _ c(1)] c(2) fr by (auto simp: f2)
    then show ?thesis using c(2) by (simp add: live_in_def sm ct)
  qed
  have "small_arena s2 a k" using sa by (simp add: sm)
  from live_in_small [OF this k] have "live_in s2 a = (small_blocks a k - set xs) \<times> {bsize k}" by (simp add: f2)
  moreover have "small_blocks a k - set xs = insert b (small_blocks a k - set (frees s k))" using ba dis fr by auto
  ultimately have "live_in s2 a = insert (b, bsize k) (live_in s a)" using live_in_small [OF sa k] by auto
  moreover have "live A s2 = live_in s2 a \<union> live (A - {a}) s" by (rule live_change [OF A]) (use other in blast)
  ultimately show "live A s2 = insert (b, bsize k) (live A s)"
    using live_change [OF A refl, of s] by (simp only: Un_insert_left)
qed


text \<open>A new large arena is one allocated block.\<close>

lemma large_ok:
  assumes inv: "lists_inv {} A F s" and v: "v \<notin> A" and fs: "length fs = unat n"
    and pages: "pages_inv pf (insert v A) (F(v := fs)) sp"
  defines "s1 \<equiv> set_arena v \<lparr>a_desc = None, a_cnt = n, a_large = True\<rparr> s"
  shows "lists_inv {} (insert v A) (F(v := fs)) s1"
    "live (insert v A) s1 = insert (v + 12, 4096 * unat n - 12) (live A s)"
proof -
  have sm: "small_arena s1 a j = (a \<noteq> v \<and> small_arena s a j)" "large_arena s1 a = (a = v \<or> large_arena s a)" for a j
    by (auto simp: s1_def small_arena_def large_arena_def)
  have f: "frees s1 = frees s" and ar: "arenas s1 = (arenas s)(v := \<lparr>a_desc = None, a_cnt = n, a_large = True\<rparr>)"
    by (simp_all add: s1_def)
  have nv: "a \<noteq> v" if "a \<in> A" for a using v that by blast
  have "arena_ok s1 a (length ((F(v := fs)) a)) False" if a: "a \<in> A" for a
  proof -
    have "arena_ok s a (length (F a)) False" using inv a by (simp add: lists_inv_def)
    then show ?thesis unfolding arena_ok_def by (simp add: sm f ar nv [OF a])
  qed
  moreover have "arena_ok s1 v (length ((F(v := fs)) v)) False" using fs by (simp add: arena_ok_def sm ar)
  moreover have "\<exists>a\<in>insert v A. small_arena s1 a k \<and> b \<in> small_blocks a k" if kb: "k < 7" "b \<in> set (frees s k)" for k b
  proof -
    obtain a where "a \<in> A" "small_arena s a k" "b \<in> small_blocks a k" using frees_in [OF inv kb] by blast
    then show ?thesis using nv by (auto simp: sm)
  qed
  moreover have "descs_ok s1" using inv by (simp add: s1_def lists_inv_def)
  ultimately show "lists_inv {} (insert v A) (F(v := fs)) s1" using inv by (simp add: lists_inv_def f)
  have "live_in s1 a = live_in s a" if "a \<in> A" for a using nv [OF that] by (simp add: live_in_def sm f ar)
  moreover have "live_in s1 v = {(v + 12, 4096 * unat n - 12)}" by (auto simp: live_in_def sm ar)
  ultimately show "live (insert v A) s1 = insert (v + 12, 4096 * unat n - 12) (live A s)" by (simp add: live_def)
qed

text \<open>Giving a block back, and removing the arena when all its blocks are free.\<close>

lemma push_ok:
  assumes inv: "lists_inv {} A F s" and pages: "pages_inv pf A F sp" and a: "a \<in> A" and k: "k < 7"
    and sa: "small_arena s a k" and b: "b \<in> small_blocks a k" "b \<notin> set (frees s k)"
  defines "s1 \<equiv> set_free_list (heap_desc s k) (frees s k @ [b]) s"
  defines "s2 \<equiv> set_arena a ((arenas s1 a)\<lparr>a_cnt := a_cnt (arenas s1 a) + 1\<rparr>) s1"
  shows "lists_inv {a} A F s2" "live A s2 = live A s - {(b, bsize k)}"
    "unat (a_cnt (arenas s2 a)) = card (small_blocks a k \<inter> set (frees s2 k))" "small_arena s2 a k"
    "frees s2 k = frees s k @ [b]" "descs_ok s2" "length (F a) = 1"
proof -
  have po: "pages_ok pf sp a (F a)" using pages a by (simp add: pages_inv_def)
  note hi = pages_ok_addr(3) [OF po]
  have "arena_ok s a (length (F a)) False" using inv a by (simp add: lists_inv_def)
  then have cnt: "length (F a) = 1" "unat (a_cnt (arenas s a)) = card (small_blocks a k \<inter> set (frees s k))"
    "unat (a_cnt (arenas s a)) < bpa k"
    using small_arena_unique(2) [OF sa] small_arena_unique(1) [OF sa] unfolding arena_ok_def by blast+
  have "bpa k \<le> 4084" by (simp add: bpa_def)
  then have c1: "unat (a_cnt (arenas s a) + 1) = unat (a_cnt (arenas s a)) + 1"
    using cnt(3) by (subst unat_add_small) simp_all
  have ar: "arenas s1 = arenas s" by (simp add: s1_def)
  have sm: "small_arena s2 c j = small_arena s c j" "large_arena s2 c = large_arena s c" for c j
    by (simp_all add: s2_def s1_def small_arena_def large_arena_def)
  have f2: "frees s2 j = (if j = k then frees s k @ [b] else frees s j)" for j by (simp add: s2_def s1_def)
  have ct: "a_cnt (arenas s2 c) = (if c = a then a_cnt (arenas s a) + 1 else a_cnt (arenas s c))" for c
    by (simp add: s2_def ar)
  have in_a: "b \<in> small_blocks c j \<Longrightarrow> c \<in> A \<Longrightarrow> c = a" for c j
    using small_blocks_apart [OF pages, of c a b] a b(1) by blast
  have "small_blocks a k \<inter> set (frees s2 k) = insert b (small_blocks a k \<inter> set (frees s k))" using b by (auto simp: f2)
  then have card: "unat (a_cnt (arenas s2 a)) = card (small_blocks a k \<inter> set (frees s2 k))"
    using b(2) cnt(2) c1 by (simp add: ct card_small(2))
  then show "unat (a_cnt (arenas s2 a)) = card (small_blocks a k \<inter> set (frees s2 k))" .
  show "small_arena s2 a k" "frees s2 k = frees s k @ [b]" using sa by (simp_all add: sm f2)
  show len: "length (F a) = 1" by (rule cnt(1))
  show d: "descs_ok s2" using inv descs_ok_updates(1) [of s k] by (simp add: s2_def s1_def lists_inv_def)
  have okn: "arena_ok s2 c (length (F c)) (c \<in> {a})" if cA: "c \<in> A" for c
  proof (cases "c = a")
    case True
    then show ?thesis using sa len k card by (auto simp: arena_ok_def sm)
  next
    case False
    have "arena_ok s c (length (F c)) False" using inv cA by (simp add: lists_inv_def)
    moreover have "small_blocks c j \<inter> set (frees s2 j) = small_blocks c j \<inter> set (frees s j)" for j
      using in_a [OF _ cA] False by (auto simp: f2)
    ultimately show ?thesis using False by (simp add: arena_ok_def sm ct)
  qed
  have lst: "distinct (frees s2 j) \<and> (\<forall>c\<in>set (frees s2 j). \<exists>a\<in>A. small_arena s2 a j \<and> c \<in> small_blocks a j)"
    if j: "j < 7" for j
  proof -
    have "distinct (frees s j)" using inv j by (simp add: lists_inv_def)
    then have "distinct (frees s2 j)" using b(2) by (cases "j = k") (simp_all add: f2)
    moreover have "\<exists>d\<in>A. small_arena s2 d j \<and> c \<in> small_blocks d j" if "c \<in> set (frees s2 j)" for c
    proof (cases "c \<in> set (frees s j)")
      case True
      then show ?thesis using frees_in [OF inv j] by (metis sm(1))
    next
      case False
      then have "j = k" "c = b" using that by (auto simp: f2 split: if_splits)
      then show ?thesis using sa a b(1) by (auto simp: sm)
    qed
    ultimately show ?thesis by blast
  qed
  show "lists_inv {a} A F s2" unfolding lists_inv_def using lst okn d by blast
  have other: "live_in s2 c = live_in s c" if c: "c \<in> A - {a}" for c
  proof -
    have "small_blocks c j - set (frees s2 j) = small_blocks c j - set (frees s j)" for j
      using in_a c by (auto simp: f2)
    then show ?thesis using c by (simp add: live_in_def sm ct)
  qed
  have nb: "(b, n) \<notin> live (A - {a}) s" for n
  proof
    assume "(b, n) \<in> live (A - {a}) s"
    then obtain c where c: "c \<in> A" "c \<noteq> a" "(b, n) \<in> live_in s c" by (auto simp: live_def)
    have pc: "pages_ok pf sp c (F c)" using pages c(1) by (simp add: pages_inv_def)
    have "b = c + 12 \<or> (\<exists>j. b \<in> small_blocks c j)" using c(3) by (auto simp: live_in_def)
    then have "block2arena b = c"
      using block2arena_large [OF pages_ok_addr(1,3) [OF pc]] block2arena_small [OF pages_ok_addr(1,3) [OF pc]] by blast
    moreover have "block2arena b = a" using block2arena_small [OF pages_ok_addr(1,3) [OF po] b(1)] .
    ultimately show False using c(2) by simp
  qed
  have "small_arena s2 a k" using sa by (simp add: sm)
  from live_in_small [OF this k] have "live_in s2 a = live_in s a - {(b, bsize k)}"
    using live_in_small [OF sa k] by (auto simp: f2)
  then show "live A s2 = live A s - {(b, bsize k)}"
    using live_change [OF a other] live_change [OF a refl, of s] nb [of "bsize k"] by auto
qed

lemma drop_ok:
  assumes inv: "lists_inv {a} A F s" and pages: "pages_inv pf A F sp" and a: "a \<in> A" and k: "k < 7"
    and sa: "small_arena s a k" and all: "small_blocks a k \<subseteq> set (frees s k)"
  defines "s1 \<equiv> set_free_list (heap_desc s k) (filter (\<lambda>b. b \<notin> small_blocks a k) (frees s k)) s"
  shows "lists_inv {} (A - {a}) F s1" "live (A - {a}) s1 = live A s"
proof -
  have sm: "small_arena s1 = small_arena s" "large_arena s1 = large_arena s" "arenas s1 = arenas s"
    by (simp_all add: s1_def)
  have f: "frees s1 j = (if j = k then filter (\<lambda>b. b \<notin> small_blocks a k) (frees s k) else frees s j)" for j
    by (simp add: s1_def)
  have dis: "small_blocks a k \<inter> small_blocks c j = {}" if "c \<in> A - {a}" for c j
    using small_blocks_apart [OF pages a, of c] that by blast
  have inter: "small_blocks c j \<inter> set (frees s1 j) = small_blocks c j \<inter> set (frees s j)"
    "small_blocks c j - set (frees s1 j) = small_blocks c j - set (frees s j)" if "c \<in> A - {a}" for c j
    using dis [OF that, of j] by (auto simp: f)
  have "arena_ok s1 c (length (F c)) False" if c: "c \<in> A - {a}" for c
  proof -
    have "arena_ok s c (length (F c)) (c \<in> {a})" using inv c unfolding lists_inv_def by blast
    moreover have "c \<in> {a} \<longleftrightarrow> False" using c by simp
    ultimately show ?thesis by (simp only:) (simp add: arena_ok_def sm inter [OF c])
  qed
  moreover have "\<exists>d\<in>A - {a}. small_arena s1 d j \<and> b \<in> small_blocks d j" if j: "j < 7" "b \<in> set (frees s1 j)" for j b
  proof -
    have "b \<in> set (frees s j)" using j(2) by (simp add: f split: if_splits)
    then obtain d where d: "d \<in> A" "small_arena s d j" "b \<in> small_blocks d j" using frees_in [OF inv j(1)] by blast
    have "d \<noteq> a"
    proof
      assume "d = a"
      then have "j = k" using d(2) sa small_arena_unique(1) by blast
      then show False using j(2) d(3) \<open>d = a\<close> by (simp add: f)
    qed
    then show ?thesis using d by (auto simp: sm)
  qed
  moreover have "distinct (frees s1 j)" if "j < 7" for j using inv that k by (simp add: f lists_inv_def)
  moreover have "descs_ok s1" using inv by (simp add: s1_def lists_inv_def)
  ultimately show "lists_inv {} (A - {a}) F s1" by (simp add: lists_inv_def)
  have "live_in s a = {}" using live_in_small [OF sa k] all by auto
  moreover have "live_in s1 c = live_in s c" if "c \<in> A - {a}" for c
    using inter(2) [OF that] by (simp add: live_in_def sm)
  ultimately show "live (A - {a}) s1 = live A s" using live_change [OF a refl, of s] by (simp add: live_def)
qed

lemma drop_large_ok:
  assumes inv: "lists_inv {} A F s" and pages: "pages_inv pf A F sp" and a: "a \<in> A" and la: "large_arena s a"
  shows "lists_inv {} (A - {a}) F s" "live (A - {a}) s = live A s - {(a + 12, 4096 * unat (a_cnt (arenas s a)) - 12)}"
proof -
  have "\<exists>d\<in>A - {a}. small_arena s d j \<and> b \<in> small_blocks d j" if "j < 7" "b \<in> set (frees s j)" for j b
    using frees_in [OF inv that] la small_arena_unique(2) by (metis DiffI singletonD)
  then show "lists_inv {} (A - {a}) F s" using inv by (simp add: lists_inv_def)
  have one: "live_in s a = {(a + 12, 4096 * unat (a_cnt (arenas s a)) - 12)}"
    using la small_arena_unique(2) by (auto simp: live_in_def)
  have po: "pages_ok pf sp a (F a)" using pages a by (simp add: pages_inv_def)
  have "(a + 12, n) \<notin> live (A - {a}) s" for n
  proof
    assume "(a + 12, n) \<in> live (A - {a}) s"
    then obtain c where c: "c \<in> A" "c \<noteq> a" "(a + 12, n) \<in> live_in s c" by (auto simp: live_def)
    have pc: "pages_ok pf sp c (F c)" using pages c(1) by (simp add: pages_inv_def)
    have "a + 12 = c + 12 \<or> (\<exists>j. a + 12 \<in> small_blocks c j)" using c(3) by (auto simp: live_in_def)
    then have "block2arena (a + 12) = c"
      using block2arena_large [OF pages_ok_addr(1,3) [OF pc]] block2arena_small [OF pages_ok_addr(1,3) [OF pc]] by metis
    then show False using block2arena_large [OF pages_ok_addr(1,3) [OF po]] c(2) by simp
  qed
  then show "live (A - {a}) s = live A s - {(a + 12, 4096 * unat (a_cnt (arenas s a)) - 12)}"
    using live_change [OF a refl, of s] one by auto
qed


section \<open>Allocation and release\<close>

text \<open>The state between two calls: nobody holds the pool's lock, the pages and the lists are right.\<close>

definition heap_inv :: "u32 set \<Rightarrow> (u32 \<Rightarrow> u32 list) \<Rightarrow> 'a vm_scheme \<Rightarrow> bool" where
  "heap_inv A F s \<longleftrightarrow> vm_ok s \<and> heap_ok A F s \<and> pool_lock (get_pool (heap_pf s) s) = lock_init \<and> running s \<noteq> 0 \<and>
     0x102000 \<le> phy_addr_start (kernel_pool s) \<and> K_HEAP_START \<le> vaddr_start (kernel_vaddr s)"

definition with_lock :: "pool_flags \<Rightarrow> lock \<Rightarrow> 'a vm_scheme \<Rightarrow> 'a vm_scheme" where
  "with_lock pf l s = set_pool pf ((get_pool pf s)\<lparr>pool_lock := l\<rparr>) s"

lemma with_lock_simps [simp]:
  "vm_ok (with_lock pf l s) = vm_ok s" "pages_inv p A F (with_lock pf l s) = pages_inv p A F s"
  "same_rest s (with_lock pf l s)" "pool_lock (get_pool pf (with_lock pf l s)) = l"
  "running (with_lock pf l s) = running s" "data (with_lock pf l s) = data s"
  "kernel_vaddr (with_lock pf l s) = kernel_vaddr s" "arenas (with_lock pf l s) = arenas s"
  "phy_addr_start (kernel_pool (with_lock pf l s)) = phy_addr_start (kernel_pool s)"
proof -
  have v: "get_vaddr p (with_lock pf l s) = get_vaddr p s" for p by (simp add: with_lock_def get_vaddr_def)
  show "vm_ok (with_lock pf l s) = vm_ok s"
    by (cases pf) (simp_all add: with_lock_def vm_ok_def set_pool_def get_pool_def pool_ok_def)
  have "phy_addr_start (get_pool p (with_lock pf l s)) = phy_addr_start (get_pool p s)"
    "pool_bitmap (get_pool p (with_lock pf l s)) = pool_bitmap (get_pool p s)" for p
    by (cases p; cases pf; simp add: with_lock_def set_pool_def get_pool_def)+
  then show "pages_inv p A F (with_lock pf l s) = pages_inv p A F s"
    by (intro pages_inv_cong) (simp_all add: v, simp add: with_lock_def)
  show "phy_addr_start (kernel_pool (with_lock pf l s)) = phy_addr_start (kernel_pool s)"
    by (simp add: with_lock_def set_pool_def get_pool_def)
qed (simp_all add: with_lock_def)

lemma acquire_free:
  "pool_lock (get_pool pf s) = lock_init \<Longrightarrow> running s \<noteq> 0 \<Longrightarrow>
   pool_acquire pf s = Some (with_lock pf (held_once (running s)) s)"
  by (simp add: pool_acquire_def with_lock_def)

lemma release_held:
  "pool_lock (get_pool pf s) = held_once (running s) \<Longrightarrow> pool_release pf s = Some (with_lock pf lock_init s)"
  by (simp add: pool_release_def with_lock_def)

text \<open>What the heap's own bookkeeping leaves alone.\<close>

definition same_vm :: "'a vm_scheme \<Rightarrow> 'a vm_scheme \<Rightarrow> bool" where
  "same_vm s s' \<longleftrightarrow> ptab s' = ptab s \<and> kernel_pool s' = kernel_pool s \<and> user_pool s' = user_pool s \<and>
     kernel_vaddr s' = kernel_vaddr s \<and> userprog_vaddr s' = userprog_vaddr s \<and> running s' = running s \<and> tasks s' = tasks s"

lemma same_vm_simps [simp]:
  "same_vm s s" "same_vm s (set_free_list d xs t) = same_vm s t" "same_vm s (set_arena a h t) = same_vm s t"
  "same_vm s (t\<lparr>data := m\<rparr>) = same_vm s t"
  by (simp_all add: same_vm_def set_arena_def)

lemma same_vm_cong:
  assumes "same_vm s s'"
  shows "vm_ok s' = vm_ok s" "pages_inv p A F s' = pages_inv p A F s" "get_pool p s' = get_pool p s"
    "running s' = running s" "heap_pf s' = heap_pf s" "heap_desc s' = heap_desc s" "kernel_vaddr s' = kernel_vaddr s"
    "kernel_pool s' = kernel_pool s"
proof -
  have v: "get_vaddr q s' = get_vaddr q s" and g: "get_pool q s' = get_pool q s" for q
    using assms by (simp_all add: same_vm_def get_vaddr_def get_pool_def)
  show "vm_ok s' = vm_ok s" using assms v by (simp add: vm_ok_iff same_vm_def)
  show "pages_inv p A F s' = pages_inv p A F s" using assms v g by (intro pages_inv_cong) (simp_all add: same_vm_def)
  show "get_pool p s' = get_pool p s" by (rule g)
qed (use assms in \<open>simp_all add: same_vm_def heap_pf_def heap_desc_def fun_eq_iff\<close>)

lemma zero_bytes_at:
  assumes "unat p + n \<le> 2 ^ 32" "n < 2 ^ 32"
  shows "zero_bytes p (of_nat n) m x = (if unat x \<in> {unat p..<unat p + n} then 0 else m x)"
proof -
  have n: "unat (of_nat n :: u32) = n" using assms(2) by (intro unat_of_nat_small) simp
  have "x - p < of_nat n \<longleftrightarrow> unat x \<in> {unat p..<unat p + n}"
  proof (cases "p \<le> x")
    case True
    then show ?thesis using n by (auto simp: word_less_nat_alt word_le_nat_alt unat_sub_le)
  next
    case False
    then have lt: "unat x < unat p" by (simp add: word_le_nat_alt)
    have "unat (x - p) = unat x + 2 ^ 32 - unat p" using lt unsigned_less [of p, where 'a = nat] by (simp add: unat_sub_if')
    then show ?thesis using lt assms(1) n by (simp add: word_less_nat_alt)
  qed
  then show ?thesis by (simp add: zero_bytes_def)
qed

text \<open>Where an allocated block lies, and that two never overlap.\<close>

lemma live_range:
  assumes "pages_inv pf A F sp" "lists_inv E A F s" "a \<in> A" "(b, n) \<in> live_in s a"
  shows "{unat b..<unat b + n} \<subseteq> span a (F a)" "a < b" "unat b + n \<le> 2 ^ 32" "block2arena b = a"
proof -
  have po: "pages_ok pf sp a (F a)" using assms(1,3) by (simp add: pages_inv_def)
  have hi: "unat a + 4096 * length (F a) \<le> 0xffc00000" and hi1: "unat a + 4096 \<le> 2 ^ 32" by (rule pages_ok_addr [OF po])+
  have pos: "0 < length (F a)" using po by (simp add: pages_ok_def)
  have ok: "arena_ok s a (length (F a)) (a \<in> E)" using assms(2,3) by (simp add: lists_inv_def)
  have "{unat b..<unat b + n} \<subseteq> span a (F a) \<and> a < b \<and> unat b + n \<le> 2 ^ 32 \<and> block2arena b = a"
    using assms(4) unfolding live_in_def
  proof (clarify, elim disjE exE conjE)
    assume l: "large_arena s a" "b = a + 12" "n = 4096 * unat (a_cnt (arenas s a)) - 12"
    then have n: "n = 4096 * length (F a) - 12" using ok small_arena_unique(2) by (auto simp: arena_ok_def)
    have b: "unat b = unat a + 12" unfolding l(2) using hi1 by (subst unat_add_small) simp_all
    have "block2arena b = a" unfolding l(2) by (rule block2arena_large [OF pages_ok_addr(1) [OF po] hi1])
    then show ?thesis using hi pos unfolding n b span_def word_less_nat_alt by auto
  next
    fix k assume k: "k < 7" "small_arena s a k" "b \<in> small_blocks a k - set (frees s k)" "n = bsize k"
    have bb: "b \<in> small_blocks a k" using k(3) by simp
    have in1: "{unat b..<unat b + n} \<subseteq> {unat a + 12..<unat a + 4096}" "a < b"
      using blk_inside [OF hi1 bb] k(4) by simp_all
    have "0 < n" using k(4) by simp
    then have "unat b + n - 1 \<in> {unat b..<unat b + n}" by simp
    then have "unat b + n - 1 < unat a + 4096" using in1(1) by (metis atLeastLessThan_iff subset_iff)
    then have "unat b + n \<le> unat a + 4096" by linarith
    moreover have "{unat a..<unat a + 4096} \<subseteq> span a (F a)" using pos by (cases "F a") (auto simp: span_def)
    moreover have "{unat a + 12..<unat a + 4096} \<subseteq> {unat a..<unat a + 4096}" by auto
    ultimately show ?thesis using in1 hi1 block2arena_small [OF pages_ok_addr(1) [OF po] hi1 bb] by auto
  qed
  then show "{unat b..<unat b + n} \<subseteq> span a (F a)" "a < b" "unat b + n \<le> 2 ^ 32" "block2arena b = a" by blast+
qed

lemma live_apart:
  assumes "pages_inv pf A F sp" "lists_inv E A F s" "(b, n) \<in> live A s" "(c, m) \<in> live A s" "(b, n) \<noteq> (c, m)"
  shows "{unat b..<unat b + n} \<inter> {unat c..<unat c + m} = {}"
proof -
  obtain a d where a: "a \<in> A" "(b, n) \<in> live_in s a" and d: "d \<in> A" "(c, m) \<in> live_in s d"
    using assms(3,4) by (auto simp: live_def)
  show ?thesis
  proof (cases "a = d")
    case False
    then have "span a (F a) \<inter> span d (F d) = {}" using assms(1) a(1) d(1) by (simp add: pages_inv_def)
    then show ?thesis using live_range(1) [OF assms(1,2) a] live_range(1) [OF assms(1,2) d] by blast
  next
    case True
    have po: "pages_ok pf sp a (F a)" using assms(1) a(1) by (simp add: pages_inv_def)
    have ad: "(b, n) \<in> live_in s a" "(c, m) \<in> live_in s a" using a(2) d(2) True by simp_all
    show ?thesis
    proof (cases "large_arena s a")
      case True
      then have "\<not> small_arena s a k" for k using small_arena_unique(2) by blast
      then show ?thesis using ad assms(5) by (simp add: live_in_def)
    next
      case False
      obtain k where k: "k < 7" "small_arena s a k" using ad(1) False by (auto simp: live_in_def)
      then have "b \<in> small_blocks a k" "c \<in> small_blocks a k" "n = bsize k" "m = bsize k"
        using ad by (simp_all add: live_in_small)
      then show ?thesis using blk_apart [OF pages_ok_addr(3) [OF po]] assms(5) by simp
    qed
  qed
qed

lemma with_lock_heap [simp]:
  "lists_inv E A F (with_lock pf l s) = lists_inv E A F s" "live A (with_lock pf l s) = live A s"
  "heap_pf (with_lock pf l s) = heap_pf s" "heap_desc (with_lock pf l s) = heap_desc s"
  "get_desc d (with_lock pf l s) = get_desc d s" "frees (with_lock pf l s) = frees s"
  by (simp_all add: heap_view_rest [OF with_lock_simps(3)])

lemma heap_inv_with_lock:
  assumes "vm_ok s" "pages_inv (heap_pf s) A F s" "lists_inv {} A F s" "running s \<noteq> 0"
    "0x102000 \<le> phy_addr_start (kernel_pool s)" "K_HEAP_START \<le> vaddr_start (kernel_vaddr s)"
  shows "heap_inv A F (with_lock (heap_pf s) lock_init s)"
  using assms by (simp add: heap_inv_def heap_ok_def)

lemma heap_live_apart: "heap_inv A F s \<Longrightarrow> (b, n) \<in> live A s \<Longrightarrow> (c, m) \<in> live A s \<Longrightarrow> (b, n) \<noteq> (c, m) \<Longrightarrow>
   {unat b..<unat b + n} \<inter> {unat c..<unat c + m} = {}"
  unfolding heap_inv_def heap_ok_def by (meson live_apart)

lemma pool_le_keeps:
  assumes "pool_le (kernel_pool s') (kernel_pool s)" "pool_le (user_pool s') (user_pool s)"
  shows "pool_lock (get_pool p s') = pool_lock (get_pool p s)" "phy_addr_start (kernel_pool s') = phy_addr_start (kernel_pool s)"
  using assms by (simp_all add: pool_le_def get_pool_def)

lemma page_table_add_vaddr: "page_table_add v f s = Some s' \<Longrightarrow> kernel_vaddr s' = kernel_vaddr s"
  by (auto simp: page_table_add_def Let_def split: if_splits bind_splits)

lemma malloc_page_loop_vaddr: "malloc_page_loop n pf v s = Some (ok, s') \<Longrightarrow> kernel_vaddr s' = kernel_vaddr s"
  by (induction n pf v s arbitrary: ok rule: malloc_page_loop.induct)
    (auto simp: Let_def page_table_add_vaddr split: if_splits bind_splits)

lemma malloc_page_vaddr: "malloc_page pf n s = Some (v, s') \<Longrightarrow> vaddr_start (kernel_vaddr s') = vaddr_start (kernel_vaddr s)"
  by (auto simp: malloc_page_def vaddr_get_def Let_def set_vaddr_def get_vaddr_def split: if_splits bind_splits
      dest!: malloc_page_loop_vaddr)

text \<open>\<open>alloc_result A s want p s' A'\<close>: NULL without a change of the blocks, or a new zeroed block that
  overlaps no allocated one; what the allocated blocks hold is the same.\<close>

definition alloc_result :: "u32 set \<Rightarrow> 'a vm_scheme \<Rightarrow> nat \<Rightarrow> u32 \<Rightarrow> 'a vm_scheme \<Rightarrow> u32 set \<Rightarrow> bool" where
  "alloc_result A s want p s' A' \<longleftrightarrow>
     (if p = 0 then live A' s' = live A s
      else \<exists>n\<ge>want. live A' s' = insert (p, n) (live A s) \<and> unat p + n \<le> 2 ^ 32 \<and>
        (\<forall>(b, m)\<in>live A s. {unat b..<unat b + m} \<inter> {unat p..<unat p + n} = {}) \<and>
        (\<forall>x. unat x \<in> {unat p..<unat p + n} \<longrightarrow> data s' x = 0)) \<and>
     (\<forall>(b, m)\<in>live A s. \<forall>x. unat x \<in> {unat b..<unat b + m} \<longrightarrow> data s' x = data s x)"

lemma alloc_resultI:
  assumes "p \<noteq> 0" "want \<le> n" "live A' s' = insert (p, n) (live A s)" "unat p + n \<le> 2 ^ 32"
    "\<And>x. data s' x = (if unat x \<in> Z then 0 else data s x)" "{unat p..<unat p + n} \<subseteq> Z"
    "\<And>b m. (b, m) \<in> live A s \<Longrightarrow> {unat b..<unat b + m} \<inter> Z = {}"
  shows "alloc_result A s want p s' A'"
proof -
  have ap: "\<forall>(b, m)\<in>live A s. {unat b..<unat b + m} \<inter> {unat p..<unat p + n} = {}" using assms(6,7) by blast
  have zero: "\<forall>x. unat x \<in> {unat p..<unat p + n} \<longrightarrow> data s' x = 0" using assms(5,6) by auto
  have keep: "\<forall>(b, m)\<in>live A s. \<forall>x. unat x \<in> {unat b..<unat b + m} \<longrightarrow> data s' x = data s x"
  proof (intro ballI, clarify)
    fix b m x assume "(b, m) \<in> live A s" "unat (x :: u32) \<in> {unat b..<unat b + m}"
    then have "unat x \<notin> Z" using assms(7) by blast
    then show "data s' x = data s x" using assms(5) by simp
  qed
  show ?thesis unfolding alloc_result_def if_not_P [OF assms(1)]
    using keep by (intro conjI exI [of _ n] assms(2,3,4) ap zero)
qed

lemma malloc_large_spec:
  assumes inv: "heap_inv A F s" and size: "1024 < unat n" "unat n \<le> 15724532"
  shows "\<exists>p s' A' F'. malloc_large (heap_pf s) n (with_lock (heap_pf s) (held_once (running s)) s) = Some (p, s') \<and>
    heap_inv A' F' s' \<and> alloc_result A s (unat n) p s' A'"
proof -
  let ?pf = "heap_pf s"
  define s1 where "s1 = with_lock ?pf (held_once (running s)) s"
  define cnt where "cnt = (n + 12 + PG_SIZE - 1) div PG_SIZE"
  have "unat (n + 12 + PG_SIZE - 1) = unat n + 12 + 4095"
  proof -
    have e: "n + 12 + PG_SIZE - 1 = n + 4107" by (simp add: PG_SIZE_def)
    show ?thesis unfolding e using size(2) by (subst unat_add_small) simp_all
  qed
  then have uc: "unat cnt = (unat n + 4107) div 4096" by (simp add: cnt_def unat_div PG_SIZE_def)
  have "unat n + 4107 \<le> 4096 * unat cnt + 4095" unfolding uc by simp
  then have room: "unat n \<le> 4096 * unat cnt - 12" by linarith
  have "unat cnt \<le> (15724532 + 4107) div 4096" unfolding uc using size(2) by (intro div_le_mono) simp
  then have cb: "unat cnt < 3840" by simp
  have c0: "0 < unat cnt" using room size(1) by (cases "unat cnt") simp_all
  have cnt: "0 < cnt" "cnt < 3840" using c0 cb by (simp_all add: word_less_nat_alt)
  have vm1: "vm_ok s1" "pages_inv ?pf A F s1" "lists_inv {} A F s1" "live A s1 = live A s" "data s1 = data s"
    using inv by (simp_all add: s1_def heap_inv_def heap_ok_def)
  obtain v s2 where m: "malloc_page ?pf cnt s1 = Some (v, s2)" "vm_ok s2" "same_rest s1 s2"
    "pool_le (kernel_pool s2) (kernel_pool s1)" "pool_le (user_pool s2) (user_pool s1)"
    "v = 0 \<and> pages_inv ?pf A F s2 \<or> v \<noteq> 0 \<and> v \<notin> A \<and> (\<exists>fs. length fs = unat cnt \<and> pages_inv ?pf (insert v A) (F(v := fs)) s2)"
    using pages_malloc [OF vm1(1,2) cnt] by blast
  have l2: "lists_inv {} A F s2" "live A s2 = live A s" "heap_pf s2 = ?pf" using heap_view_rest [OF m(3)] vm1 by (simp_all add: s1_def)
  have d2: "data s2 = data s" "running s2 = running s" using m(3) by (simp_all add: same_rest_def s1_def)
  have lk2: "pool_lock (get_pool ?pf s2) = held_once (running s2)" "phy_addr_start (kernel_pool s2) = phy_addr_start (kernel_pool s)"
    using pool_le_keeps [OF m(4,5)] d2 by (simp_all add: s1_def)
  have k2: "running s2 \<noteq> 0" "0x102000 \<le> phy_addr_start (kernel_pool s2)" "K_HEAP_START \<le> vaddr_start (kernel_vaddr s2)"
    using inv lk2(2) d2(2) malloc_page_vaddr [OF m(1)] by (simp_all add: heap_inv_def s1_def)
  show ?thesis
  proof (cases "v = 0")
    case True
    then have "malloc_large ?pf n s1 = Some (0, with_lock ?pf lock_init s2)"
      using m(1) release_held [OF lk2(1)] unfolding malloc_large_def cnt_def [symmetric] by simp
    moreover have "heap_inv A F (with_lock ?pf lock_init s2)"
      using heap_inv_with_lock [of s2 A F] m(2,6) True l2 k2 by simp
    moreover have "alloc_result A s (unat n) 0 (with_lock ?pf lock_init s2) A" using l2 d2 by (simp add: alloc_result_def)
    ultimately show ?thesis unfolding s1_def by blast
  next
    case False
    then obtain fs where v: "v \<notin> A" and fs: "length fs = unat cnt" "pages_inv ?pf (insert v A) (F(v := fs)) s2"
      using m(6) by blast
    define s3 where "s3 = s2\<lparr>data := zero_bytes v (cnt * PG_SIZE) (data s2)\<rparr>"
    define s4 where "s4 = set_arena v \<lparr>a_desc = None, a_cnt = cnt, a_large = True\<rparr> s3"
    have l3: "lists_inv {} A F s3" "live A s3 = live A s" using heap_view_cong [of s3 s2] l2 by (simp_all add: s3_def)
    note l4 = large_ok [OF l3(1) v fs, folded s4_def]
    have sv: "same_vm s2 s4" by (simp add: s4_def s3_def)
    have po: "pages_ok ?pf s2 v fs" using fs(2) by (auto simp: pages_inv_def)
    note hi = pages_ok_addr(2,3) [OF po]
    have u12: "unat (v + 12) = unat v + 12" using hi(2) by (subst unat_add_small) simp_all
    then have nz: "v + 12 \<noteq> 0" by auto
    have "malloc_large ?pf n s1 = Some (v + 12, with_lock ?pf lock_init s4)"
      using m(1) False release_held [of ?pf s4] lk2(1) same_vm_cong(3,4) [OF sv]
      unfolding malloc_large_def cnt_def [symmetric] by (simp add: s3_def [symmetric] s4_def [symmetric])
    moreover have "heap_inv (insert v A) (F(v := fs)) (with_lock ?pf lock_init s4)"
      using heap_inv_with_lock [of s4 "insert v A" "F(v := fs)"] same_vm_cong [OF sv] m(2) fs(2) l4(1) k2 l2(3) by simp
    moreover have "alloc_result A s (unat n) (v + 12) (with_lock ?pf lock_init s4) (insert v A)"
    proof -
      have pinv: "pages_inv ?pf (insert v A) (F(v := fs)) s4" using fs(2) same_vm_cong(2) [OF sv] by simp
      have len: "4096 * unat cnt < 2 ^ 32" "unat v + 4096 * unat cnt \<le> 2 ^ 32" using hi(1) fs(1) by simp_all
      have z: "cnt * PG_SIZE = of_nat (4096 * unat cnt)" by (simp add: PG_SIZE_def)
      have d4: "data s4 x = (if unat x \<in> {unat v..<unat v + 4096 * unat cnt} then 0 else data s x)" for x
        using zero_bytes_at [OF len(2,1)] by (simp add: s4_def s3_def set_arena_def z d2)
      have lin: "(b, k) \<in> live A s \<Longrightarrow> {unat b..<unat b + k} \<inter> {unat v..<unat v + 4096 * unat cnt} = {}" for b k
      proof -
        assume "(b, k) \<in> live A s"
        then have "(b, k) \<in> live A s2" by (simp add: l2)
        then obtain a where a: "a \<in> A" "(b, k) \<in> live_in s2 a" by (auto simp: live_def)
        have pA: "pages_inv ?pf A F s2"
          using fs(2) v unfolding pages_inv_def by (metis fun_upd_other insertCI)
        have "span a (F a) \<inter> span v fs = {}"
          using fs(2) a(1) v unfolding pages_inv_def by (metis fun_upd_other fun_upd_same insertCI)
        then show ?thesis using live_range(1) [OF pA l2(1) a] fs(1) by (auto simp: span_def)
      qed
      have "4096 * unat cnt - 12 + 12 = 4096 * unat cnt" using c0 by simp
      then have sub: "{unat (v + 12)..<unat (v + 12) + (4096 * unat cnt - 12)} \<subseteq> {unat v..<unat v + 4096 * unat cnt}"
        "unat (v + 12) + (4096 * unat cnt - 12) \<le> 2 ^ 32"
        using len(2) by (auto simp: u12)
      show ?thesis
        by (rule alloc_resultI [OF nz room _ sub(2) _ sub(1) lin]) (simp_all add: l4(2) l3(2) d4)
    qed
    ultimately show ?thesis unfolding s1_def by blast
  qed
qed


lemma take_block_spec:
  assumes ok: "vm_ok t" "pages_inv (heap_pf t) A F t" "lists_inv E A F t" "running t \<noteq> 0"
    "0x102000 \<le> phy_addr_start (kernel_pool t)" "K_HEAP_START \<le> vaddr_start (kernel_vaddr t)"
    and lk: "pool_lock (get_pool (heap_pf t) t) = held_once (running t)"
    and k: "k < 7" "frees t k = b # xs" "E \<subseteq> {block2arena b}"
  shows "\<exists>s'. take_block (heap_pf t) (heap_desc t k) t = Some (b, s') \<and> heap_inv A F s' \<and>
    live A s' = insert (b, bsize k) (live A t) \<and> (b, bsize k) \<notin> live A t \<and> b \<noteq> 0 \<and> unat b + bsize k \<le> 2 ^ 32 \<and>
    (\<forall>x. data s' x = (if unat x \<in> {unat b..<unat b + bsize k} then 0 else data t x))"
proof -
  let ?pf = "heap_pf t" and ?d = "heap_desc t k"
  define a where "a = block2arena b"
  define s1 where "s1 = set_free_list ?d xs t"
  define s2 where "s2 = s1\<lparr>data := zero_bytes b (block_size (get_desc ?d s1)) (data s1)\<rparr>"
  define s3 where "s3 = set_arena a ((arenas s2 a)\<lparr>a_cnt := a_cnt (arenas s2 a) - 1\<rparr>) s2"
  define p3 where "p3 = set_arena a ((arenas s1 a)\<lparr>a_cnt := a_cnt (arenas s1 a) - 1\<rparr>) s1"
  note pop = pop_ok [OF ok(3,2) k, folded a_def s1_def, folded p3_def]
  have v: "arenas s3 = arenas p3" "k_block_descs s3 = k_block_descs p3" "u_block_desc s3 = u_block_desc p3"
    "tasks s3 = tasks p3" "running s3 = running p3"
    by (simp_all add: s3_def p3_def s2_def set_arena_def)
  note w = heap_view_cong [OF v]
  have sv: "same_vm t s3" by (simp add: s3_def s2_def s1_def)
  have l3: "lists_inv {} A F s3" "live A s3 = insert (b, bsize k) (live A t)" using pop(1,2) w(7,8) by simp_all
  have fl: "free_list (get_desc ?d t) = b # xs" using k(2) by (simp add: frees_def)
  have "block_size (get_desc ?d t) = of_nat (bsize k)" using ok(3) k(1) by (simp add: lists_inv_def descs_ok_def)
  then have bs: "block_size (get_desc ?d s1) = of_nat (bsize k)" by (simp add: s1_def)
  have po: "pages_ok ?pf t a (F a)" using ok(2) pop(3) by (simp add: pages_inv_def)
  note hi = pages_ok_addr(3) [OF po]
  have "unat b + bsize k - 1 \<in> {unat b..<unat b + bsize k}" using bsize_pos(1) [of k] by (simp del: bsize_pos)
  then have "unat b + bsize k - 1 < unat a + 4096" using blk_inside(1) [OF hi pop(5)] by (metis atLeastLessThan_iff subset_iff)
  then have top: "unat b + bsize k \<le> 2 ^ 32" using hi by linarith
  have "bsize k \<le> bsize 6" using k(1) power_increasing [of k 6 "2 :: nat"] by (simp add: bsize_def)
  then have small: "bsize k < 2 ^ 32" by (simp add: bsize_def)
  have d3: "data s3 x = (if unat x \<in> {unat b..<unat b + bsize k} then 0 else data t x)" for x
    using zero_bytes_at [OF top small] by (simp add: s3_def s2_def set_arena_def bs) (simp add: s1_def)
  have "take_block ?pf ?d t = Some (b, with_lock ?pf lock_init s3)"
    using release_held [of ?pf s3] lk same_vm_cong(3,4) [OF sv]
    by (simp add: take_block_def fl Let_def s3_def s2_def s1_def a_def)
  moreover have "heap_inv A F (with_lock ?pf lock_init s3)"
    using heap_inv_with_lock [of s3 A F] same_vm_cong [OF sv] ok l3(1) by simp
  moreover have "b \<noteq> 0"
  proof
    assume "b = 0" then show False using blk_inside(2) [OF hi pop(5)] by simp
  qed
  moreover have "(b, bsize k) \<notin> live A t"
  proof
    assume "(b, bsize k) \<in> live A t"
    then obtain c where c: "c \<in> A" "(b, bsize k) \<in> live_in t c" by (auto simp: live_def)
    then have "c = a" using live_range(4) [OF ok(2,3) c] by (simp add: a_def)
    then show False using c(2) live_in_small [OF pop(4) k(1)] k(2) by simp
  qed
  ultimately show ?thesis using l3(2) top d3 by (intro exI [of _ "with_lock ?pf lock_init s3"]) simp
qed

lemma malloc_small_spec:
  assumes inv: "heap_inv A F s" and k: "k < 7" and want: "unat n \<le> bsize k"
  shows "\<exists>p s' A' F'. malloc_small (heap_pf s) (heap_desc s k) (with_lock (heap_pf s) (held_once (running s)) s) = Some (p, s') \<and>
    heap_inv A' F' s' \<and> alloc_result A s (unat n) p s' A'"
proof -
  let ?pf = "heap_pf s" and ?d = "heap_desc s k"
  define s1 where "s1 = with_lock ?pf (held_once (running s)) s"
  have vm1: "vm_ok s1" "pages_inv ?pf A F s1" "lists_inv {} A F s1" "live A s1 = live A s" "data s1 = data s"
    "running s1 \<noteq> 0" "0x102000 \<le> phy_addr_start (kernel_pool s1)" "K_HEAP_START \<le> vaddr_start (kernel_vaddr s1)"
    "pool_lock (get_pool ?pf s1) = held_once (running s1)" "heap_pf s1 = ?pf" "heap_desc s1 = heap_desc s"
    using inv by (simp_all add: s1_def heap_inv_def heap_ok_def)
  show ?thesis
  proof (cases "frees s1 k")
    case (Cons b xs)
    then have ne: "free_list (get_desc ?d s1) \<noteq> []" by (simp add: frees_def vm1)
    obtain s' where t: "take_block ?pf ?d s1 = Some (b, s')" "heap_inv A F s'" "live A s' = insert (b, bsize k) (live A s1)"
      "(b, bsize k) \<notin> live A s1" "b \<noteq> 0" "unat b + bsize k \<le> 2 ^ 32"
      "\<forall>x. data s' x = (if unat x \<in> {unat b..<unat b + bsize k} then 0 else data s1 x)"
      using take_block_spec [of s1 A F "{}" k b xs] vm1 k Cons by auto
    have "alloc_result A s (unat n) b s' A"
    proof (rule alloc_resultI [OF t(5) want _ t(6)])
      show "live A s' = insert (b, bsize k) (live A s)" using t(3) vm1(4) by simp
      show "data s' x = (if unat x \<in> {unat b..<unat b + bsize k} then 0 else data s x)" for x using t(7) vm1(5) by simp
      show "{unat c..<unat c + m} \<inter> {unat b..<unat b + bsize k} = {}" if c: "(c, m) \<in> live A s" for c m
      proof -
        have "(c, m) \<noteq> (b, bsize k)" using c t(4) vm1(4) by auto
        then show ?thesis using heap_live_apart [OF t(2)] c t(3) vm1(4) by (metis insertCI)
      qed
    qed simp
    moreover have "malloc_small ?pf ?d s1 = Some (b, s')" using ne t(1) by (simp add: malloc_small_def)
    ultimately show ?thesis using t(2) unfolding s1_def by blast
  next
    case Nil
    then have em: "free_list (get_desc ?d s1) = []" by (simp add: frees_def vm1)
    obtain v s2 where m: "malloc_page ?pf 1 s1 = Some (v, s2)" "vm_ok s2" "same_rest s1 s2"
      "pool_le (kernel_pool s2) (kernel_pool s1)" "pool_le (user_pool s2) (user_pool s1)"
      "v = 0 \<and> pages_inv ?pf A F s2 \<or> v \<noteq> 0 \<and> v \<notin> A \<and> (\<exists>fs. length fs = unat (1 :: u32) \<and> pages_inv ?pf (insert v A) (F(v := fs)) s2)"
      using pages_malloc [OF vm1(1,2), of 1] by auto
    have l2: "lists_inv {} A F s2" "live A s2 = live A s" "heap_pf s2 = ?pf" "heap_desc s2 = heap_desc s" "frees s2 k = []"
      using heap_view_rest [OF m(3)] vm1 Nil by simp_all
    have d2: "data s2 = data s" "running s2 = running s1" using m(3) vm1 by (simp_all add: same_rest_def)
    have lk2: "pool_lock (get_pool ?pf s2) = held_once (running s2)" "phy_addr_start (kernel_pool s2) = phy_addr_start (kernel_pool s1)"
      using pool_le_keeps [OF m(4,5)] d2 vm1 by simp_all
    have k2: "running s2 \<noteq> 0" "0x102000 \<le> phy_addr_start (kernel_pool s2)" "K_HEAP_START \<le> vaddr_start (kernel_vaddr s2)"
      using vm1 lk2(2) d2(2) malloc_page_vaddr [OF m(1)] by simp_all
    show ?thesis
    proof (cases "v = 0")
      case True
      then have "malloc_small ?pf ?d s1 = Some (0, with_lock ?pf lock_init s2)"
        using m(1) release_held [OF lk2(1)] em by (simp add: malloc_small_def arena_refill_def)
      moreover have "heap_inv A F (with_lock ?pf lock_init s2)"
        using heap_inv_with_lock [of s2 A F] m(2,6) True l2 k2 by simp
      moreover have "alloc_result A s (unat n) 0 (with_lock ?pf lock_init s2) A" using l2 d2 by (simp add: alloc_result_def)
      ultimately show ?thesis unfolding s1_def by blast
    next
      case False
      then obtain fs where v: "v \<notin> A" and fs: "length fs = 1" "pages_inv ?pf (insert v A) (F(v := fs)) s2"
        using m(6) by auto
      let ?F = "F(v := fs)" and ?A = "insert v A"
      define s3 where "s3 = s2\<lparr>data := zero_bytes v PG_SIZE (data s2)\<rparr>"
      have l3: "lists_inv {} A F s3" "live A s3 = live A s" "heap_desc s3 = heap_desc s" "frees s3 k = []"
        using heap_view_cong [of s3 s2] l2 by (simp_all add: s3_def)
      define s4 where "s4 = set_arena v \<lparr>a_desc = Some ?d, a_cnt = blocks_per_arena (get_desc ?d s3), a_large = False\<rparr> s3"
      obtain s5 where r: "arena_fill (unat (blocks_per_arena (get_desc ?d s4))) 0 v s4 = Some s5"
        "s5 = set_free_list ?d (map (blk v k) [0..<bpa k]) s4" "lists_inv {v} ?A ?F s5" "live ?A s5 = live A s"
        using refill_ok [OF l3(1) k l3(4) v fs(2) refl fs(1)] l3(2) unfolding l3(3) s4_def [symmetric] by auto
      have sv: "same_vm s2 s5" by (simp add: r(2) s4_def s3_def)
      have po: "pages_ok ?pf s2 v fs" using fs(2) by (auto simp: pages_inv_def)
      note hi = pages_ok_addr(3) [OF po]
      have hd5: "heap_desc s5 = heap_desc s" "heap_pf s5 = ?pf" using same_vm_cong(5,6) [OF sv] l2 by simp_all
      have bpos: "0 < bpa k"
      proof -
        have "bsize k \<le> bsize 6" using k power_increasing [of k 6 "2 :: nat"] by (simp add: bsize_def)
        then have "bsize k \<le> 4084" by (simp add: bsize_def)
        then show ?thesis by (simp add: bpa_def div_greater_zero_iff)
      qed
      have fr5: "frees s5 k = blk v k 0 # map (blk v k) [1..<bpa k]"
      proof -
        have "frees s5 k = free_list (get_desc ?d s5)" by (simp add: frees_def hd5)
        then show ?thesis unfolding r(2) using bpos by (simp add: upt_conv_Cons)
      qed
      have ba: "block2arena (blk v k 0) = v" by (rule block2arena_blk [OF pages_ok_addr(1) [OF po] hi bpos])
      have d5: "data s5 x = (if unat x \<in> {unat v..<unat v + 4096} then 0 else data s x)" for x
      proof -
        have "PG_SIZE = of_nat 4096" by (simp add: PG_SIZE_def)
        then show ?thesis using zero_bytes_at [OF hi, of "data s2" x] by (simp add: r(2) s4_def s3_def set_arena_def d2)
      qed
      obtain s' where t: "take_block ?pf ?d s5 = Some (blk v k 0, s')" "heap_inv ?A ?F s'"
        "live ?A s' = insert (blk v k 0, bsize k) (live ?A s5)" "(blk v k 0, bsize k) \<notin> live ?A s5"
        "blk v k 0 \<noteq> 0" "unat (blk v k 0) + bsize k \<le> 2 ^ 32"
        "\<forall>x. data s' x = (if unat x \<in> {unat (blk v k 0)..<unat (blk v k 0) + bsize k} then 0 else data s5 x)"
        using take_block_spec [of s5 ?A ?F "{v}" k "blk v k 0" "map (blk v k) [1..<bpa k]"]
          same_vm_cong [OF sv] hd5 m(2) fs(2) r(3) k2 lk2(1) k fr5 ba l2(3) by auto
      have sub: "{unat (blk v k 0)..<unat (blk v k 0) + bsize k} \<subseteq> {unat v..<unat v + 4096}"
        using blk_inside(1) [OF hi, of "blk v k 0" k] bpos by (force simp: small_blocks_def)
      have "alloc_result A s (unat n) (blk v k 0) s' ?A"
      proof (rule alloc_resultI [OF t(5) want _ t(6) _ sub])
        show "live ?A s' = insert (blk v k 0, bsize k) (live A s)" using t(3) r(4) by simp
        show "data s' x = (if unat x \<in> {unat v..<unat v + 4096} then 0 else data s x)" for x
          using t(7) d5 sub by auto
        show "{unat c..<unat c + j} \<inter> {unat v..<unat v + 4096} = {}" if c: "(c, j) \<in> live A s" for c j
        proof -
          have "(c, j) \<in> live A s2" using c by (simp add: l2)
          then obtain a where a: "a \<in> A" "(c, j) \<in> live_in s2 a" by (auto simp: live_def)
          have pA: "pages_inv ?pf A F s2" using fs(2) v unfolding pages_inv_def by (metis fun_upd_other insertCI)
          have "span a (F a) \<inter> span v fs = {}"
            using fs(2) a(1) v unfolding pages_inv_def by (metis fun_upd_other fun_upd_same insertCI)
          then show ?thesis using live_range(1) [OF pA l2(1) a] fs(1) by (auto simp: span_def)
        qed
      qed
      moreover have "arena_refill ?pf ?d s1 = Some (True, s5)"
      proof -
        have "get_desc ?d s4 = get_desc ?d s3" by (simp add: s4_def)
        then show ?thesis using m(1) False r(1) by (simp add: arena_refill_def s3_def [symmetric] s4_def [symmetric])
      qed
      ultimately show ?thesis using em t(1,2) unfolding s1_def [symmetric] by (auto simp: malloc_small_def)
    qed
  qed
qed

lemma sys_malloc_spec:
  assumes inv: "heap_inv A F s" and room: "unat n \<le> 15724532"
  shows "\<exists>p s' A' F'. sys_malloc n s = Some (p, s') \<and> heap_inv A' F' s' \<and> alloc_result A s (unat n) p s' A'"
proof -
  let ?pf = "heap_pf s"
  define s1 where "s1 = with_lock ?pf (held_once (running s)) s"
  have acq: "pool_acquire ?pf s = Some s1" unfolding s1_def using inv by (intro acquire_free) (simp_all add: heap_inv_def)
  show ?thesis
  proof (cases "n > 0 \<and> n < pool_size (get_pool ?pf s)")
    case False
    then have "sys_malloc n s = Some (0, s)" by (simp add: sys_malloc_def Let_def)
    moreover have "alloc_result A s (unat n) 0 s A" by (simp add: alloc_result_def)
    ultimately show ?thesis using inv by blast
  next
    case True
    show ?thesis
    proof (cases "n > 1024")
      case big: True
      then have "1024 < unat n" by (simp add: word_less_nat_alt)
      from malloc_large_spec [OF inv this room, folded s1_def] show ?thesis
        using True big acq by (simp add: sys_malloc_def Let_def)
    next
      case False
      have d: "descs_ok s1" using inv by (simp add: s1_def heap_inv_def heap_ok_def lists_inv_def descs_ok_def)
      have "unat n \<le> 1024" using False by (simp add: word_le_nat_alt not_less)
      from find_desc_ok [OF d, of 7 0 n] this
      have f: "find_desc 7 0 n s1 < 7" "unat n \<le> bsize (find_desc 7 0 n s1)" by simp_all
      from malloc_small_spec [OF inv f, folded s1_def] show ?thesis
        using True False acq f(1) by (simp add: sys_malloc_def Let_def DESC_CNT_def) (simp add: s1_def)
    qed
  qed
qed

lemma sys_free_spec:
  assumes inv: "heap_inv A F s" and b: "(ptr, n) \<in> live A s"
  shows "\<exists>s' A'. sys_free ptr s = Some s' \<and> heap_inv A' F s' \<and> A' \<subseteq> A \<and> live A' s' = live A s - {(ptr, n)} \<and> data s' = data s"
proof -
  let ?pf = "heap_pf s"
  define s1 where "s1 = with_lock ?pf (held_once (running s)) s"
  have acq: "pool_acquire ?pf s = Some s1" unfolding s1_def using inv by (intro acquire_free) (simp_all add: heap_inv_def)
  have vm1: "vm_ok s1" "pages_inv ?pf A F s1" "lists_inv {} A F s1" "live A s1 = live A s" "data s1 = data s"
    "running s1 \<noteq> 0" "0x102000 \<le> phy_addr_start (kernel_pool s1)" "K_HEAP_START \<le> vaddr_start (kernel_vaddr s1)"
    "pool_lock (get_pool ?pf s1) = held_once (running s1)" "heap_pf s1 = ?pf" "heap_desc s1 = heap_desc s"
    using inv by (simp_all add: s1_def heap_inv_def heap_ok_def)
  obtain a where a: "a \<in> A" "(ptr, n) \<in> live_in s1 a" using b vm1(4) by (auto simp: live_def)
  note lr = live_range [OF vm1(2,3) a]
  have po: "pages_ok ?pf s1 a (F a)" using vm1(2) a(1) by (simp add: pages_inv_def)
  have ok: "arena_ok s1 a (length (F a)) False" using vm1(3) a(1) by (simp add: lists_inv_def)
  have heap_start: "K_HEAP_START \<le> ptr" if kern: "?pf = PF_KERNEL"
  proof -
    obtain i where "taken_run ?pf (get_vaddr ?pf s1) a (length (F a)) i" "0 < length (F a)" using po unfolding pages_ok_def by blast
    then have r: "in_region (get_vaddr ?pf s1) a i (length (F a))" "0 < length (F a)" by (simp_all add: taken_run_def)
    then have i: "a = page_at (vaddr_start (get_vaddr ?pf s1)) i" "i < bm_bits (vaddr_bitmap (get_vaddr ?pf s1))"
      using in_regionD [OF r(1)] by linarith+
    have reg: "vregion_ok (ptab s1) (get_vaddr ?pf s1) (vlo ?pf) (vhi ?pf)" using vm1(1) by (simp add: vm_ok_iff)
    have "unat (vaddr_start (kernel_vaddr s1)) \<le> unat a"
      using vregion_page(1) [OF reg i(2) vhi_le] i(1) kern by (simp add: get_vaddr_def)
    then show ?thesis using lr(2) vm1(8) by (simp add: word_le_nat_alt word_less_nat_alt)
  qed
  have nz: "ptr \<noteq> 0" using lr(2) by auto
  have guard: "\<not> (?pf = PF_KERNEL \<and> \<not> K_HEAP_START \<le> ptr)" using heap_start by blast
  have fin: "\<exists>s'. pool_release ?pf t = Some s' \<and> heap_inv A' F s' \<and> live A' s' = live A' t \<and> data s' = data t"
    if "vm_ok t" "pages_inv ?pf A' F t" "lists_inv {} A' F t" "running t = running s1" "heap_pf t = ?pf"
      "phy_addr_start (kernel_pool t) = phy_addr_start (kernel_pool s1)"
      "vaddr_start (kernel_vaddr t) = vaddr_start (kernel_vaddr s1)"
      "pool_lock (get_pool ?pf t) = held_once (running s1)" for t A'
    using heap_inv_with_lock [of t A' F] that vm1 release_held [of ?pf t] by simp
  show ?thesis
  proof (cases "large_arena s1 a")
    case True
    have "\<not> small_arena s1 a k" for k using True small_arena_unique(2) by blast
    then have len: "unat (a_cnt (arenas s1 a)) = length (F a)" "ptr = a + 12" "n = 4096 * unat (a_cnt (arenas s1 a)) - 12"
      using ok a(2) by (auto simp: arena_ok_def live_in_def)
    obtain s2 where m: "mfree_page ?pf a (a_cnt (arenas s1 a)) s1 = Some s2" "vm_ok s2" "same_rest s1 s2"
      "pages_inv ?pf (A - {a}) F s2" "phy_addr_start (kernel_pool s2) = phy_addr_start (kernel_pool s1)"
      "\<forall>p. pool_lock (get_pool p s2) = pool_lock (get_pool p s1)" "vaddr_start (kernel_vaddr s2) = vaddr_start (kernel_vaddr s1)"
      using pages_free [OF vm1(1,2) a(1) len(1) vm1(7)] by blast
    note dr = drop_large_ok [OF vm1(3,2) a(1) True]
    have s2: "lists_inv {} (A - {a}) F s2" "live (A - {a}) s2 = live A s - {(ptr, n)}" "heap_pf s2 = ?pf"
      "running s2 = running s1" "data s2 = data s"
      using heap_view_rest [OF m(3)] dr vm1 len m(3) by (simp_all add: same_rest_def)
    obtain s' where "pool_release ?pf s2 = Some s'" "heap_inv (A - {a}) F s'" "live (A - {a}) s' = live (A - {a}) s2" "data s' = data s2"
      using fin [of s2 "A - {a}"] m s2 vm1(9) by auto
    moreover from this have "sys_free ptr s = Some s'"
      using nz guard acq lr(4) True m(1) by (auto simp: sys_free_def Let_def large_arena_def)
    ultimately show ?thesis using s2 by auto
  next
    case False
    obtain k where k: "k < 7" "small_arena s1 a k" using a(2) False by (auto simp: live_in_def)
    have pb: "ptr \<in> small_blocks a k" "ptr \<notin> set (frees s1 k)" "n = bsize k" using a(2) live_in_small [OF k(2,1)] by auto
    let ?d = "heap_desc s k"
    have fl: "free_list (get_desc ?d s1) = frees s1 k" by (simp add: frees_def vm1(11))
    define s2 where "s2 = set_free_list ?d (frees s1 k @ [ptr]) s1"
    define s3 where "s3 = set_arena a ((arenas s2 a)\<lparr>a_cnt := a_cnt (arenas s2 a) + 1\<rparr>) s2"
    note pu = push_ok [OF vm1(3,2) a(1) k pb(1,2), unfolded vm1(11), folded s2_def, folded s3_def]
    have sv: "same_vm s1 s3" by (simp add: s3_def s2_def)
    have d3: "data s3 = data s" by (simp add: s3_def s2_def vm1(5) set_arena_def)
    have hd3: "heap_desc s3 = heap_desc s" "heap_pf s3 = ?pf" using same_vm_cong(5,6) [OF sv] vm1 by simp_all
    have bp: "unat (blocks_per_arena (get_desc ?d s3)) = bpa k" "block_size (get_desc ?d s3) = of_nat (bsize k)"
      using pu(6) k(1) unfolding descs_ok_def hd3(1) by blast+
    have ds: "a_desc (arenas s1 a) = Some ?d" using k(2) by (simp add: small_arena_def vm1(11))
    have e3: "a_cnt (arenas s3 a) = a_cnt (arenas s1 a) + 1"
      "blocks_per_arena (get_desc ?d s3) = blocks_per_arena (get_desc ?d s1)"
      by (simp_all add: s3_def s2_def)
    have pv: "vm_ok s3" "pages_inv ?pf A F s3" "0x102000 \<le> phy_addr_start (kernel_pool s3)"
      using same_vm_cong [OF sv] vm1 by simp_all
    note hi = pages_ok_addr(3) [OF po]
    show ?thesis
    proof (cases "a_cnt (arenas s3 a) = blocks_per_arena (get_desc ?d s3)")
      case True
      have "card (small_blocks a k \<inter> set (frees s3 k)) = card (small_blocks a k)"
        using pu(3) True bp(1) card_small(1) [OF hi] by simp
      then have all: "small_blocks a k \<subseteq> set (frees s3 k)"
        using card_subset_eq [OF card_small(2) [of a k], of "small_blocks a k \<inter> set (frees s3 k)"] by blast
      have sb: "blk a k ` {0..<0 + bpa k} = small_blocks a k" by (simp add: small_blocks_def atLeast0LessThan)
      define s4 where "s4 = set_free_list ?d (filter (\<lambda>b. b \<notin> small_blocks a k) (frees s3 k)) s3"
      have fr3: "free_list (get_desc ?d s3) = frees s3 k" by (simp add: frees_def hd3)
      have dis: "distinct (frees s3 k)" using pu(1) k(1) by (simp add: lists_inv_def)
      have "a_desc (arenas s3 a) = Some ?d" using pu(4) by (simp add: small_arena_def hd3)
      from arena_unlink_ok [OF this bp(2) _ hi, of 0 "bpa k"] have un: "arena_unlink (bpa k) 0 a s3 = Some s4"
        using all dis unfolding sb fr3 s4_def by simp
      note dr = drop_ok [OF pu(1) pv(2) a(1) k(1) pu(4) all, unfolded hd3(1), folded s4_def]
      have sv4: "same_vm s3 s4" "data s4 = data s3" by (simp_all add: s4_def)
      have pv4: "vm_ok s4" "pages_inv ?pf A F s4" "0x102000 \<le> phy_addr_start (kernel_pool s4)"
        using same_vm_cong [OF sv4(1)] pv by simp_all
      have l1: "unat (1 :: u32) = length (F a)" using pu(7) by simp
      obtain s5 where m: "mfree_page ?pf a 1 s4 = Some s5" "vm_ok s5" "same_rest s4 s5"
        "pages_inv ?pf (A - {a}) F s5" "phy_addr_start (kernel_pool s5) = phy_addr_start (kernel_pool s4)"
        "\<forall>p. pool_lock (get_pool p s5) = pool_lock (get_pool p s4)" "vaddr_start (kernel_vaddr s5) = vaddr_start (kernel_vaddr s4)"
        using pages_free [OF pv4(1,2) a(1) l1 pv4(3)] by blast
      have s5: "lists_inv {} (A - {a}) F s5" "live (A - {a}) s5 = live A s - {(ptr, n)}" "heap_pf s5 = ?pf"
        "running s5 = running s1" "data s5 = data s"
        using heap_view_rest [OF m(3)] dr pu(2) vm1(4) pb(3) hd3 sv4 d3 m(3) same_vm_cong(4,5) [OF sv] same_vm_cong(4,5) [OF sv4(1)]
        by (simp_all add: same_rest_def)
      obtain s' where "pool_release ?pf s5 = Some s'" "heap_inv (A - {a}) F s'" "live (A - {a}) s' = live (A - {a}) s5" "data s' = data s5"
        using fin [of s5 "A - {a}"] m s5 vm1(9) same_vm_cong(3,7,8) [OF sv] same_vm_cong(3,7,8) [OF sv4(1)] by auto
      moreover from this have "sys_free ptr s = Some s'"
        using nz guard acq lr(4) ds True un m(1) bp(1)
        by (simp add: sys_free_def Let_def fl e3 s2_def [symmetric] s3_def [symmetric])
      ultimately show ?thesis using s5 by auto
    next
      case False
      have "unat (a_cnt (arenas s3 a)) \<noteq> bpa k" using False bp(1) by (metis word_unat_eq_iff)
      moreover have "unat (a_cnt (arenas s3 a)) \<le> bpa k"
        using pu(3) card_mono [OF card_small(2) [of a k], of "small_blocks a k \<inter> set (frees s3 k)"] card_small(1) [OF hi] by simp
      ultimately have lt: "unat (a_cnt (arenas s3 a)) < bpa k" by simp
      have li: "lists_inv {} A F s3"
      proof -
        have "arena_ok s3 c (length (F c)) False" if c: "c \<in> A" for c
        proof (cases "c = a")
          case True
          then show ?thesis using pu(3,4,7) k(1) lt by (auto simp: arena_ok_def)
        next
          case False
          have "arena_ok s3 c (length (F c)) (c \<in> {a})" using pu(1) c unfolding lists_inv_def by blast
          then show ?thesis using False by simp
        qed
        then show ?thesis using pu(1) by (simp add: lists_inv_def)
      qed
      obtain s' where "pool_release ?pf s3 = Some s'" "heap_inv A F s'" "live A s' = live A s3" "data s' = data s3"
        using fin [of s3 A] pv li hd3 same_vm_cong [OF sv] vm1 by auto
      moreover from this have "sys_free ptr s = Some s'"
        using nz guard acq lr(4) ds False
        by (simp add: sys_free_def Let_def fl e3 s2_def [symmetric] s3_def [symmetric])
      ultimately show ?thesis using pu(2) vm1(4) pb(3) d3 by auto
    qed
  qed
qed

section \<open>Results\<close>

text \<open>A heap whose descriptors are as \<^verbatim>\<open>block_desc_init\<close> leaves them, without arenas.\<close>

lemma heap_inv_init:
  assumes "vm_ok s" "\<And>k. k < 7 \<Longrightarrow> get_desc (heap_desc s k) s = block_desc_init k"
    "pool_lock (get_pool (heap_pf s) s) = lock_init" "running s \<noteq> 0" "0x102000 \<le> phy_addr_start (kernel_pool s)"
    "K_HEAP_START \<le> vaddr_start (kernel_vaddr s)"
  shows "heap_inv {} F s" "live {} s = {}"
proof -
  have "block_size (block_desc_init k) = of_nat (bsize k) \<and> unat (blocks_per_arena (block_desc_init k)) = bpa k" if "k < 7" for k
  proof -
    have "k \<in> {0, 1, 2, 3, 4, 5, 6}" using that by auto
    then show ?thesis by (auto simp: block_desc_init_def bsize_def bpa_def PG_SIZE_def)
  qed
  then have "descs_ok s" using assms(2) by (simp add: descs_ok_def)
  moreover have "frees s k = []" if "k < 7" for k using assms(2) [OF that] by (simp add: frees_def block_desc_init_def Let_def)
  ultimately show "heap_inv {} F s" using assms by (simp add: heap_inv_def heap_ok_def pages_inv_def lists_inv_def)
qed (simp add: live_def)

lemma demo_heap: "heap_inv {} F demo_vm" "live {} demo_vm = {}"
proof -
  have k: "pgdir (tasks demo_vm (running demo_vm)) = 0"
    by (simp add: demo_vm_def sched.extend_def vm.fields_def demo_sched_def)
  have d: "get_desc (heap_desc demo_vm j) demo_vm = block_desc_init j" for j
    using k by (simp add: heap_desc_def) (simp add: demo_vm_def sched.extend_def vm.fields_def)
  show "heap_inv {} F demo_vm" "live {} demo_vm = {}"
    using k by (intro heap_inv_init demo_vm_ok d; simp add: heap_pf_def get_pool_def demo_vm_fields)+
qed

text \<open>
  C5. The heap hands out memory: \<^verbatim>\<open>sys_malloc\<close> returns (for requests of less than 3840 pages)
  NULL, changing no allocated block, or the address of a new block of at least the asked size,
  zeroed, inside the address space and disjoint from every allocated block, whose contents
  stay; the set of allocated blocks grows by exactly this block and the heap stays well-formed.
\<close>

theorem sys_malloc_correct:
  assumes "heap_inv A F s" "unat n \<le> 15724532"
  shows "\<exists>p s' A' F'. sys_malloc n s = Some (p, s') \<and> heap_inv A' F' s' \<and>
    (if p = 0 then live A' s' = live A s
     else \<exists>m\<ge>unat n. live A' s' = insert (p, m) (live A s) \<and> unat p + m \<le> 2 ^ 32 \<and>
       (\<forall>(b, k)\<in>live A s. {unat b..<unat b + k} \<inter> {unat p..<unat p + m} = {}) \<and>
       (\<forall>x. unat x \<in> {unat p..<unat p + m} \<longrightarrow> data s' x = 0)) \<and>
    (\<forall>(b, k)\<in>live A s. \<forall>x. unat x \<in> {unat b..<unat b + k} \<longrightarrow> data s' x = data s x)"
  using sys_malloc_spec [OF assms] unfolding alloc_result_def .

lemma demo_sys_malloc: "map_option fst (sys_malloc 2000 demo_vm) = Some 0xc010000c"
proof -
  have k: "pgdir (tasks demo_vm (running demo_vm)) = 0"
    by (simp add: demo_vm_def sched.extend_def vm.fields_def demo_sched_def)
  define s1 where "s1 = with_lock PF_KERNEL (held_once 0x1000) demo_vm"
  have acq: "pool_acquire PF_KERNEL demo_vm = Some s1"
    using acquire_free [of PF_KERNEL demo_vm] by (simp add: get_pool_def demo_vm_fields s1_def)
  have f: "kernel_pool s1 = (kernel_pool demo_vm)\<lparr>pool_lock := held_once 0x1000\<rparr>" "kernel_vaddr s1 = kernel_vaddr demo_vm"
    "ptab s1 = ptab demo_vm" "running s1 = 0x1000"
    by (simp_all add: s1_def with_lock_def set_pool_def get_pool_def demo_vm_fields)
  obtain s2 where m: "malloc_page PF_KERNEL 1 s1 = Some (0xc0100000, s2)" "pool_lock (kernel_pool s2) = held_once 0x1000" "running s2 = 0x1000"
  proof -
    have "vm_ok s1" using demo_vm_ok by (simp add: s1_def)
    from malloc_page_spec [OF this, of 1 PF_KERNEL] obtain v s2 where
      "malloc_page PF_KERNEL 1 s1 = Some (v, s2)" "running s2 = running s1" "pool_le (kernel_pool s2) (kernel_pool s1)" by auto
    moreover have "map_option fst (malloc_page PF_KERNEL 1 s1) = Some 0xc0100000"
      by (simp add: eval_pages f demo_vm_fields eval_scan PG_SIZE_def K_HEAP_START_def Let_def clear_table_self
          pde_ptr_def pte_ptr_def PDE_IDX_def PTE_IDX_def)
    ultimately show ?thesis using that f by (simp add: pool_le_def)
  qed
  have "malloc_large PF_KERNEL 2000 s1 \<noteq> None \<and> map_option fst (malloc_large PF_KERNEL 2000 s1) = Some 0xc010000c"
  proof -
    define s3 where "s3 = set_arena 0xc0100000 \<lparr>a_desc = None, a_cnt = 1, a_large = True\<rparr>
      (s2\<lparr>data := zero_bytes 0xc0100000 4096 (data s2)\<rparr>)"
    have "pool_release PF_KERNEL s3 = Some (with_lock PF_KERNEL lock_init s3)"
      using m(2,3) by (intro release_held) (simp add: s3_def set_arena_def get_pool_def)
    then show ?thesis using m(1) by (simp add: malloc_large_def PG_SIZE_def Let_def s3_def)
  qed
  then show ?thesis using k acq by (simp add: sys_malloc_def heap_pf_def get_pool_def demo_vm_fields)
qed

theorem sys_malloc_correct_witness:
  "\<exists>s' A' F' m. sys_malloc 2000 demo_vm = Some (0xc010000c, s') \<and> heap_inv A' F' s' \<and> 2000 \<le> m \<and> live A' s' = {(0xc010000c, m)}"
proof -
  obtain s' where s': "sys_malloc 2000 demo_vm = Some (0xc010000c, s')"
    using demo_sys_malloc by (cases "sys_malloc 2000 demo_vm") auto
  show ?thesis using sys_malloc_correct [OF demo_heap(1) [of "\<lambda>_. []"], of 2000] s' demo_heap(2) by auto
qed



end
