(* ===== verification/Ide.thy ===== *)
theory Ide
  imports Sync Bitmap
begin

text \<open>
  The ATA driver: \<^verbatim>\<open>src/device/ide.c\<close>. The medium is a map from sectors to their 512 bytes;
  the device behind the ports is modelled by the ATA standard's PIO commands: the registers
  written through \<^verbatim>\<open>outb\<close> select a drive, a 28-bit sector number and a count (0 for
  256), \<^verbatim>\<open>READ SECTOR\<close>/\<^verbatim>\<open>WRITE SECTOR\<close> then move that many sectors. The status bytes
  it answers are a stream of the state. \<open>disk_read\<close> and \<open>disk_write\<close> are what the file
  system relies on: whole sectors, in order.
\<close>

section \<open>Sectors\<close>

type_synonym hdd = "u8 \<times> u8"
type_synonym medium = "u32 \<Rightarrow> u8 list"

record machine = sched +
  media :: "hdd \<Rightarrow> medium"

definition SECTOR_SIZE :: nat where
  "SECTOR_SIZE = 512"

definition max_lba :: u32 where
  "max_lba = (80 * 1024 * 1024 div 512) - 1"

definition read_secs :: "medium \<Rightarrow> u32 \<Rightarrow> nat \<Rightarrow> u8 list" where
  "read_secs m lba n = concat (map (\<lambda>i. m (lba + of_nat i)) [0..<n])"

definition write_secs :: "medium \<Rightarrow> u32 \<Rightarrow> u8 list \<Rightarrow> medium" where
  "write_secs m lba bs =
     (\<lambda>a. if unat (a - lba) < length bs div 512 then take 512 (drop (512 * unat (a - lba)) bs) else m a)"

definition sectors_ok :: "medium \<Rightarrow> bool" where
  "sectors_ok m \<longleftrightarrow> (\<forall>a. length (m a) = 512)"

text \<open>The sector service of the driver, with its two assertions.\<close>

definition disk_read :: "hdd \<Rightarrow> u32 \<Rightarrow> nat \<Rightarrow> 'a machine_scheme \<Rightarrow> u8 list option" where
  "disk_read hdd lba n s = (if lba \<le> max_lba \<and> 0 < n then Some (read_secs (media s hdd) lba n) else None)"

definition disk_write :: "hdd \<Rightarrow> u32 \<Rightarrow> u8 list \<Rightarrow> 'a machine_scheme \<Rightarrow> 'a machine_scheme option" where
  "disk_write hdd lba bs s =
     (if lba \<le> max_lba \<and> 512 \<le> length bs
      then Some (s\<lparr>media := (media s)(hdd := write_secs (media s hdd) lba bs)\<rparr>) else None)"

section \<open>The device\<close>

record ata =
  sect_cnt :: u8
  lba_l :: u8
  lba_m :: u8
  lba_h :: u8
  device :: u8
  command :: u8

record ide_channel =
  port_base :: u16
  irq_no :: u8
  ch_lock :: lock
  expecting_intr :: bool
  disk_done :: semaphore

record ide = machine +
  channels :: "u8 \<Rightarrow> ide_channel"
  regs :: "u8 \<Rightarrow> ata"
  status_reads :: "nat \<Rightarrow> u8"
  status_pos :: nat

text \<open>A byte written to port \<open>p\<close> of the channel with base \<open>b\<close>.\<close>

definition ata_outb :: "u16 \<Rightarrow> u16 \<times> u8 \<Rightarrow> ata \<Rightarrow> ata" where
  "ata_outb b w r =
     (let p = fst w - b; v = snd w in
      if p = 2 then r\<lparr>sect_cnt := v\<rparr> else if p = 3 then r\<lparr>lba_l := v\<rparr>
      else if p = 4 then r\<lparr>lba_m := v\<rparr> else if p = 5 then r\<lparr>lba_h := v\<rparr>
      else if p = 6 then r\<lparr>device := v\<rparr> else if p = 7 then r\<lparr>command := v\<rparr> else r)"

definition ata_lba :: "ata \<Rightarrow> u32" where
  "ata_lba r = ucast (lba_l r) OR push_bit 8 (ucast (lba_m r)) OR push_bit 16 (ucast (lba_h r)) OR
     push_bit 24 (ucast (device r AND 0xf))"

definition ata_count :: "ata \<Rightarrow> nat" where
  "ata_count r = (if sect_cnt r = 0 then 256 else unat (sect_cnt r))"

definition ata_drive :: "ata \<Rightarrow> u8" where
  "ata_drive r = (if bit (device r) 4 then 1 else 0)"

definition outb :: "u8 \<Rightarrow> (u16 \<times> u8) list \<Rightarrow> 'a ide_scheme \<Rightarrow> 'a ide_scheme" where
  "outb ch ws s =
     s\<lparr>regs := (regs s)(ch := fold (ata_outb (port_base (channels s ch))) ws (regs s ch))\<rparr>"

definition inb_status :: "'a ide_scheme \<Rightarrow> u8 \<times> 'a ide_scheme" where
  "inb_status s = (status_reads s (status_pos s), s\<lparr>status_pos := status_pos s + 1\<rparr>)"

text \<open>What the data port delivers, and where the bytes written to it go.\<close>

definition ata_data :: "u8 \<Rightarrow> 'a ide_scheme \<Rightarrow> u8 list" where
  "ata_data ch s = read_secs (media s (ch, ata_drive (regs s ch))) (ata_lba (regs s ch)) (ata_count (regs s ch))"

definition ata_store :: "u8 \<Rightarrow> u8 list \<Rightarrow> 'a ide_scheme \<Rightarrow> 'a ide_scheme" where
  "ata_store ch bs s =
     (let hdd = (ch, ata_drive (regs s ch))
      in s\<lparr>media := (media s)(hdd := write_secs (media s hdd) (ata_lba (regs s ch))
             (take (512 * ata_count (regs s ch)) bs))\<rparr>)"

section \<open>The driver\<close>

definition select_disk :: "hdd \<Rightarrow> 'a ide_scheme \<Rightarrow> 'a ide_scheme" where
  "select_disk hdd s =
     (let reg_device = (0xa0 OR 0x40 :: u8);
          reg_device = (if snd hdd = 1 then reg_device OR 0x10 else reg_device)
      in outb (fst hdd) [(port_base (channels s (fst hdd)) + 6, reg_device)] s)"

definition select_sector :: "hdd \<Rightarrow> u32 \<Rightarrow> u8 \<Rightarrow> 'a ide_scheme \<Rightarrow> 'a ide_scheme option" where
  "select_sector hdd lba sec_cnt s =
     (if lba \<le> max_lba then
        let b = port_base (channels s (fst hdd))
        in Some (outb (fst hdd)
             [(b + 2, sec_cnt), (b + 3, ucast lba), (b + 4, ucast (drop_bit 8 lba)),
              (b + 5, ucast (drop_bit 16 lba)),
              (b + 6, 0xa0 OR 0x40 OR (if snd hdd = 1 then 0x10 else 0) OR ucast (drop_bit 24 lba))] s)
      else None)"

definition upd_channel :: "u8 \<Rightarrow> (ide_channel \<Rightarrow> ide_channel) \<Rightarrow> 'a ide_scheme \<Rightarrow> 'a ide_scheme" where
  "upd_channel ch f s = s\<lparr>channels := (channels s)(ch := f (channels s ch))\<rparr>"

definition cmd_out :: "u8 \<Rightarrow> u8 \<Rightarrow> 'a ide_scheme \<Rightarrow> 'a ide_scheme" where
  "cmd_out ch cmd s =
     (let s = upd_channel ch (\<lambda>c. c\<lparr>expecting_intr := True\<rparr>) s
      in outb ch [(port_base (channels s ch) + 7, cmd)] s)"

definition xfer_bytes :: "u8 \<Rightarrow> nat" where
  "xfer_bytes sec_cnt = (if sec_cnt = 0 then 256 * 512 else unat sec_cnt * 512)"

definition read_from_sector :: "hdd \<Rightarrow> u8 \<Rightarrow> 'a ide_scheme \<Rightarrow> u8 list" where
  "read_from_sector hdd sec_cnt s = take (2 * (xfer_bytes sec_cnt div 2)) (ata_data (fst hdd) s)"

definition write2sector :: "hdd \<Rightarrow> u8 list \<Rightarrow> u8 \<Rightarrow> 'a ide_scheme \<Rightarrow> 'a ide_scheme" where
  "write2sector hdd buf sec_cnt s = ata_store (fst hdd) (take (2 * (xfer_bytes sec_cnt div 2)) buf) s"

text \<open>
  \<^verbatim>\<open>while (time_limit -= 10 >= 0)\<close>: the comparison binds tighter, so each pass takes 1 from
  \<^verbatim>\<open>time_limit\<close> and the loop ends when it reaches 0. The sleep of a pass is not modelled.
\<close>

lemma unat_dec_less [intro]: "(t :: u16) \<noteq> 0 \<Longrightarrow> unat (t - 1) < unat t"
  by (metis One_nat_def diff_less unat_gt_0 unat_minus_one zero_less_one)

lemma unat_dec_less2 [simp]: "(t :: u16) \<noteq> 1 \<Longrightarrow> unat (t - 2) < unat (t - 1)"
  using unat_dec_less [of "t - 1"] by simp

function busy_wait_loop :: "u16 \<Rightarrow> 'a ide_scheme \<Rightarrow> bool \<times> 'a ide_scheme" where
  "busy_wait_loop time_limit s =
     (let time_limit = time_limit - 1
      in if time_limit = 0 then (False, s)
         else let (st, s) = inb_status s
           in if st AND 0x80 = 0 then (let (st, s) = inb_status s in (st AND 0x8 \<noteq> 0, s))
              else busy_wait_loop time_limit s)"
  by pat_completeness auto
termination
  by (relation "measure (\<lambda>(t, s). unat (t - 1))") auto

declare busy_wait_loop.simps [simp del]

definition busy_wait :: "'a ide_scheme \<Rightarrow> bool \<times> 'a ide_scheme" where
  "busy_wait s = busy_wait_loop (30 * 1000) s"

definition intr_hd_handler :: "u8 \<Rightarrow> 'a ide_scheme \<Rightarrow> 'a ide_scheme option" where
  "intr_hd_handler irq s =
     (if irq \<noteq> 0x2e \<and> irq \<noteq> 0x2f then None
      else let ch_no = irq - 0x2e
        in if irq_no (channels s ch_no) \<noteq> irq then None
           else if expecting_intr (channels s ch_no) then do {
             let s = upd_channel ch_no (\<lambda>c. c\<lparr>expecting_intr := False\<rparr>) s;
             (psema, s) \<leftarrow> sema_up (disk_done (channels s ch_no)) s;
             let s = upd_channel ch_no (\<lambda>c. c\<lparr>disk_done := psema\<rparr>) s;
             Some (snd (inb_status s)) }
           else Some s)"

text \<open>
  \<^verbatim>\<open>sema_down(&disk_done)\<close> returns once the device has raised its interrupt, here before the
  caller asks; the caller that comes first sleeps in the semaphore (\<open>sema_down_pass\<close>).
\<close>

definition wait_disk :: "u8 \<Rightarrow> 'a ide_scheme \<Rightarrow> 'a ide_scheme option" where
  "wait_disk ch s =
     do { s \<leftarrow> intr_hd_handler (irq_no (channels s ch)) s;
          (taken, psema, s) \<leftarrow> sema_down_pass (intr s) (disk_done (channels s ch)) s;
          if taken then Some (upd_channel ch (\<lambda>c. c\<lparr>disk_done := psema\<rparr>) s) else None }"

definition secs_chunk :: "u32 \<Rightarrow> u32 \<Rightarrow> u32" where
  "secs_chunk secs_done sec_cnt = (if secs_done + 256 \<le> sec_cnt then 256 else sec_cnt - secs_done)"

partial_function (option) ide_read_loop ::
  "hdd \<Rightarrow> u32 \<Rightarrow> u32 \<Rightarrow> u32 \<Rightarrow> 'a ide_scheme \<Rightarrow> (u8 list \<times> 'a ide_scheme) option" where
  "ide_read_loop hdd lba sec_cnt secs_done s =
     (if secs_done < sec_cnt then do {
        let secs_op = secs_chunk secs_done sec_cnt;
        s \<leftarrow> select_sector hdd (lba + secs_done) (ucast secs_op) s;
        let s = cmd_out (fst hdd) 0x20 s;
        s \<leftarrow> wait_disk (fst hdd) s;
        let (ready, s) = busy_wait s;
        if \<not> ready then None
        else do {
          let bs = read_from_sector hdd (ucast secs_op) s;
          (rest, s) \<leftarrow> ide_read_loop hdd lba sec_cnt (secs_done + secs_op) s;
          Some (bs @ rest, s) } }
      else Some ([], s))"

definition with_channel :: "hdd \<Rightarrow> ('a ide_scheme \<Rightarrow> ('b \<times> 'a ide_scheme) option) \<Rightarrow> 'a ide_scheme \<Rightarrow>
    ('b \<times> 'a ide_scheme) option" where
  "with_channel hdd body s =
     do { (l, s) \<leftarrow> lock_acquire (ch_lock (channels s (fst hdd))) s;
          let s = upd_channel (fst hdd) (\<lambda>c. c\<lparr>ch_lock := l\<rparr>) s;
          (r, s) \<leftarrow> body (select_disk hdd s);
          (l, s) \<leftarrow> lock_release (ch_lock (channels s (fst hdd))) s;
          Some (r, upd_channel (fst hdd) (\<lambda>c. c\<lparr>ch_lock := l\<rparr>) s) }"

definition ide_read :: "hdd \<Rightarrow> u32 \<Rightarrow> u32 \<Rightarrow> 'a ide_scheme \<Rightarrow> (u8 list \<times> 'a ide_scheme) option" where
  "ide_read hdd lba sec_cnt s =
     (if lba \<le> max_lba \<and> 0 < sec_cnt then with_channel hdd (ide_read_loop hdd lba sec_cnt 0) s else None)"

partial_function (option) ide_write_loop ::
  "hdd \<Rightarrow> u32 \<Rightarrow> u8 list \<Rightarrow> u32 \<Rightarrow> u32 \<Rightarrow> 'a ide_scheme \<Rightarrow> (unit \<times> 'a ide_scheme) option" where
  "ide_write_loop hdd lba buf sec_cnt secs_done s =
     (if secs_done < sec_cnt then do {
        let secs_op = secs_chunk secs_done sec_cnt;
        s \<leftarrow> select_sector hdd (lba + secs_done) (ucast secs_op) s;
        let s = cmd_out (fst hdd) 0x30 s;
        let (ready, s) = busy_wait s;
        if \<not> ready then None
        else do {
          let s = write2sector hdd (drop (unat (secs_done * 512)) buf) (ucast secs_op) s;
          s \<leftarrow> wait_disk (fst hdd) s;
          ide_write_loop hdd lba buf sec_cnt (secs_done + secs_op) s } }
      else Some ((), s))"

definition ide_write :: "hdd \<Rightarrow> u32 \<Rightarrow> u8 list \<Rightarrow> u32 \<Rightarrow> 'a ide_scheme \<Rightarrow> (unit \<times> 'a ide_scheme) option" where
  "ide_write hdd lba buf sec_cnt s =
     (if lba \<le> max_lba \<and> 0 < sec_cnt then with_channel hdd (ide_write_loop hdd lba buf sec_cnt 0) s else None)"


section \<open>Disks and partitions\<close>

text \<open>
  The super block of \<^verbatim>\<open>lib/fs/super_block.h\<close>, a partition and a disk of
  \<^verbatim>\<open>lib/device/ide.h\<close>. A disk is named by its channel and device number; entry \<open>i < 4\<close> of
  the partition list is a primary, \<open>i \<ge> 4\<close> a logical partition.
\<close>

record super_block =
  magic :: u32
  sb_sec_cnt :: u32
  inode_cnt :: u32
  part_lba_base :: u32
  block_bitmap_lba :: u32
  block_bitmap_sects :: u32
  inode_bitmap_lba :: u32
  inode_bitmap_sects :: u32
  inode_table_lba :: u32
  inode_table_sects :: u32
  data_start_lba :: u32
  root_inode_no :: u32
  dir_entry_size :: u32

record partition =
  start_lba :: u32
  sec_cnt :: u32
  my_disk :: hdd
  part_name :: "u8 list"
  sb :: super_block
  block_bitmap :: bitmap
  inode_bitmap :: bitmap
  open_inodes :: "nat list"

record disk =
  disk_name :: "u8 list"
  prim_parts :: "partition list"
  logic_parts :: "partition list"

record ide_sys = ide +
  disks :: "hdd \<Rightarrow> disk"
  channel_cnt :: u8
  ext_lba_base :: u32
  p_no :: u8
  l_no :: u8
  partition_list :: "(hdd \<times> nat) list"
  handlers :: "u8 set"

fun swap_pairs_bytes :: "u8 list \<Rightarrow> nat \<Rightarrow> u8 list" where
  "swap_pairs_bytes dst len =
     (if len = 0 then [0] else dst ! 1 # dst ! 0 # swap_pairs_bytes (drop 2 dst) (len - 2))"

declare swap_pairs_bytes.simps [simp del]

text \<open>The identification is only printed: serial number, model and sector count.\<close>

definition identify_disk :: "hdd \<Rightarrow> 'a ide_scheme \<Rightarrow> ((u8 list \<times> u8 list \<times> u32) \<times> 'a ide_scheme) option" where
  "identify_disk hdd s =
     do { let s = select_disk hdd s;
          let s = cmd_out (fst hdd) 0xec s;
          s \<leftarrow> wait_disk (fst hdd) s;
          let (ready, s) = busy_wait s;
          if \<not> ready then None
          else let id_info = read_from_sector hdd 1 s
            in Some ((swap_pairs_bytes (drop 20 id_info) 20, swap_pairs_bytes (drop 54 id_info) 40,
                      rd32 id_info 120), s) }"

record partition_table_entry =
  fs_type :: u8
  e_start_lba :: u32
  e_sec_cnt :: u32

definition table_entry :: "u8 list \<Rightarrow> nat \<Rightarrow> partition_table_entry" where
  "table_entry bs k =
     (let e = drop (446 + 16 * k) bs
      in \<lparr>fs_type = e ! 4, e_start_lba = rd32 e 8, e_sec_cnt = rd32 e 12\<rparr>)"

definition set_part :: "u32 \<Rightarrow> partition_table_entry \<Rightarrow> hdd \<Rightarrow> u8 list \<Rightarrow> partition \<Rightarrow> partition" where
  "set_part ext_lba e hdd name p =
     p\<lparr>start_lba := ext_lba + e_start_lba e, sec_cnt := e_sec_cnt e, my_disk := hdd, part_name := name\<rparr>"

definition add_primary :: "hdd \<Rightarrow> u32 \<Rightarrow> partition_table_entry \<Rightarrow> ide_sys \<Rightarrow> ide_sys option" where
  "add_primary hdd ext_lba e s =
     (let d = disks s hdd; i = unat (p_no s); name = disk_name d @ decimal (i + 1)
      in if length (prim_parts d) \<le> i then None
         else let d = d\<lparr>prim_parts := (prim_parts d)[i := set_part ext_lba e hdd name (prim_parts d ! i)]\<rparr>;
                  s = s\<lparr>disks := (disks s)(hdd := d), partition_list := partition_list s @ [(hdd, i)],
                        p_no := p_no s + 1\<rparr>
           in if p_no s < 4 then Some s else None)"

definition add_logical :: "hdd \<Rightarrow> u32 \<Rightarrow> partition_table_entry \<Rightarrow> ide_sys \<Rightarrow> ide_sys option" where
  "add_logical hdd ext_lba e s =
     (let d = disks s hdd; i = unat (l_no s); name = disk_name d @ decimal (i + 5)
      in if length (logic_parts d) \<le> i then None
         else let d = d\<lparr>logic_parts := (logic_parts d)[i := set_part ext_lba e hdd name (logic_parts d ! i)]\<rparr>
           in Some (s\<lparr>disks := (disks s)(hdd := d), partition_list := partition_list s @ [(hdd, 4 + i)],
                     l_no := l_no s + 1\<rparr>))"

text \<open>
  \<^verbatim>\<open>partition_scan\<close>: \<open>scan_entries\<close> is its loop over the four entries of a boot sector from
  entry \<open>k\<close> on, with the recursive call on an extended partition inside. A chain of boot
  sectors may be cyclic, so the scan may not return.
\<close>

partial_function (option) scan_entries :: "hdd \<Rightarrow> u32 \<Rightarrow> u8 list \<Rightarrow> nat \<Rightarrow> ide_sys \<Rightarrow> ide_sys option" where
  "scan_entries hdd ext_lba bs k s =
     (if 4 \<le> k then Some s
      else let e = table_entry bs k
        in if fs_type e = 5 then do {
             let base = ext_lba_base s;
             let lba = (if base \<noteq> 0 then e_start_lba e + base else e_start_lba e);
             let s = (if base \<noteq> 0 then s else s\<lparr>ext_lba_base := e_start_lba e\<rparr>);
             (bs', s) \<leftarrow> ide_read hdd lba 1 s;
             s \<leftarrow> scan_entries hdd lba bs' 0 s;
             scan_entries hdd ext_lba bs (k + 1) s }
           else if fs_type e \<noteq> 0 then
             if ext_lba = 0 then do {
               s \<leftarrow> add_primary hdd ext_lba e s;
               scan_entries hdd ext_lba bs (k + 1) s }
             else do {
               s \<leftarrow> add_logical hdd ext_lba e s;
               if 8 \<le> l_no s then Some s else scan_entries hdd ext_lba bs (k + 1) s }
           else scan_entries hdd ext_lba bs (k + 1) s)"

definition partition_scan :: "hdd \<Rightarrow> u32 \<Rightarrow> ide_sys \<Rightarrow> ide_sys option" where
  "partition_scan hdd ext_lba s =
     do { (bs, s) \<leftarrow> ide_read hdd ext_lba 1 s; scan_entries hdd ext_lba bs 0 s }"

definition init_channel :: "u8 \<Rightarrow> ide_sys \<Rightarrow> ide_sys" where
  "init_channel channel_no s =
     (let s = upd_channel channel_no
            (\<lambda>c. (if channel_no = 0 then c\<lparr>port_base := 0x1f0, irq_no := 0x20 + 14\<rparr>
                  else if channel_no = 1 then c\<lparr>port_base := 0x170, irq_no := 0x20 + 15\<rparr> else c)
                 \<lparr>expecting_intr := False, ch_lock := lock_init, disk_done := sema_init 0\<rparr>) s
      in s\<lparr>handlers := insert (irq_no (channels s channel_no)) (handlers s)\<rparr>)"

definition init_disk :: "u8 \<Rightarrow> u8 \<Rightarrow> ide_sys \<Rightarrow> ide_sys option" where
  "init_disk channel_no dev_no s =
     do { let hdd = (channel_no, dev_no);
          let name = [115, 100, 97 + channel_no * 2 + dev_no];
          let s = s\<lparr>disks := (disks s)(hdd := (disks s hdd)\<lparr>disk_name := name\<rparr>)\<rparr>;
          (info, s) \<leftarrow> identify_disk hdd s;
          s \<leftarrow> (if dev_no \<noteq> 0 then partition_scan hdd 0 s else Some s);
          Some (s\<lparr>p_no := 0, l_no := 0\<rparr>) }"

fun init_channels :: "nat \<Rightarrow> u8 \<Rightarrow> ide_sys \<Rightarrow> ide_sys option" where
  "init_channels 0 channel_no s = Some s"
| "init_channels (Suc n) channel_no s =
     (if 2 \<le> channel_no then None
      else do { s \<leftarrow> init_disk channel_no 0 (init_channel channel_no s);
                s \<leftarrow> init_disk channel_no 1 s;
                init_channels n (channel_no + 1) s })"

definition ide_init :: "u8 \<Rightarrow> ide_sys \<Rightarrow> ide_sys option" where
  "ide_init hd_cnt s =
     (if hd_cnt = 0 then None
      else let s = s\<lparr>partition_list := [], channel_cnt := of_nat ((unat hd_cnt + 1) div 2)\<rparr>
        in init_channels (unat (channel_cnt s)) 0 s)"

section \<open>Sectors: reading back and splitting a transfer\<close>

lemma read_secs_0 [simp]: "read_secs m lba 0 = []"
  by (simp add: read_secs_def)

lemma read_secs_1 [simp]: "read_secs m lba (Suc 0) = m lba"
  by (simp add: read_secs_def)

lemma read_secs_Suc: "read_secs m lba (Suc n) = read_secs m lba n @ m (lba + of_nat n)"
  by (simp add: read_secs_def)

lemma read_secs_add: "read_secs m lba (a + b) = read_secs m lba a @ read_secs m (lba + of_nat a) b"
  by (induction b) (simp_all add: read_secs_Suc add.assoc)

lemma length_read_secs [simp]: "sectors_ok m \<Longrightarrow> length (read_secs m lba n) = 512 * n"
  by (induction n) (simp_all add: read_secs_Suc sectors_ok_def)

lemma write_secs_other: "length bs div 512 \<le> unat (a - lba) \<Longrightarrow> write_secs m lba bs a = m a"
  by (simp add: write_secs_def)

lemma sectors_ok_write [simp]: "sectors_ok m \<Longrightarrow> sectors_ok (write_secs m lba bs)"
  by (auto simp: sectors_ok_def write_secs_def)

lemma read_secs_cong: "(\<And>i. i < n \<Longrightarrow> m (lba + of_nat i) = m' (lba + of_nat i)) \<Longrightarrow> read_secs m lba n = read_secs m' lba n"
  by (induction n) (simp_all add: read_secs_Suc)

lemma concat_chunks: "length bs = 512 * n \<Longrightarrow> concat (map (\<lambda>i. take 512 (drop (512 * i) bs)) [0..<n]) = bs"
proof (induction n arbitrary: bs)
  case 0 then show ?case by simp
next
  case (Suc n)
  have "concat (map (\<lambda>i. take 512 (drop (512 * i) bs)) [0..<n]) = take (512 * n) bs"
  proof -
    have "take 512 (drop (512 * i) bs) = take 512 (drop (512 * i) (take (512 * n) bs))" if "i < n" for i
      using that Suc.prems by (simp add: drop_take)
    then have "map (\<lambda>i. take 512 (drop (512 * i) bs)) [0..<n] =
        map (\<lambda>i. take 512 (drop (512 * i) (take (512 * n) bs))) [0..<n]" by (intro map_cong) auto
    then show ?thesis using Suc.IH [of "take (512 * n) bs"] Suc.prems by (simp only: length_take) simp
  qed
  then show ?case using Suc.prems by simp
qed

lemma read_write_secs:
  assumes "length bs = 512 * n" "n < 2 ^ 32"
  shows "read_secs (write_secs m lba bs) lba n = bs"
proof -
  have "write_secs m lba bs (lba + of_nat i) = take 512 (drop (512 * i) bs)" if "i < n" for i
    using that assms by (simp add: write_secs_def unat_of_nat_32)
  then have "read_secs (write_secs m lba bs) lba n = concat (map (\<lambda>i. take 512 (drop (512 * i) bs)) [0..<n])"
    unfolding read_secs_def by (intro arg_cong [where f = concat] map_cong) auto
  with concat_chunks [OF assms(1)] show ?thesis by simp
qed

lemma write_secs_split:
  assumes "length bs = 512 * (a + b)" "a + b < 2 ^ 32"
  shows "write_secs (write_secs m lba (take (512 * a) bs)) (lba + of_nat a) (drop (512 * a) bs) = write_secs m lba bs"
proof
  fix x :: u32
  define i where "i = unat (x - lba)"
  have x: "x = lba + of_nat i" by (simp add: i_def)
  have i32: "i < 2 ^ 32" unfolding i_def by (rule unat_lt_32)
  have div: "length bs div 512 = a + b" "length (take (512 * a) bs) div 512 = a" "length (drop (512 * a) bs) div 512 = b"
    using assms by (simp_all add: min_def)
  consider "i < a" | "a \<le> i" by linarith
  then show "write_secs (write_secs m lba (take (512 * a) bs)) (lba + of_nat a) (drop (512 * a) bs) x = write_secs m lba bs x"
  proof cases
    case 1
    have e: "x - (lba + of_nat a) = of_nat (2 ^ 32 + i - a)"
    proof -
      have "a \<le> 2 ^ 32 + i" using assms(2) by linarith
      then have "(of_nat (2 ^ 32 + i - a) :: u32) = of_nat (2 ^ 32) + of_nat i - of_nat a"
        by (simp only: of_nat_diff of_nat_add)
      then show ?thesis using x by simp
    qed
    have "unat (x - (lba + of_nat a)) = 2 ^ 32 + i - a"
      unfolding e using 1 assms(2) by (intro unat_of_nat_32) linarith
    then have "b \<le> unat (x - (lba + of_nat a))" using assms(2) by linarith
    moreover have "512 \<le> 512 * a - 512 * i" using 1 by arith
    ultimately show ?thesis using 1 assms by (simp add: write_secs_def div drop_take min_def flip: i_def)
  next
    case 2
    have "x - (lba + of_nat a) = of_nat (i - a)" using 2 x by (simp add: of_nat_diff)
    then have u: "unat (x - (lba + of_nat a)) = i - a" using i32 by (simp only:) (intro unat_of_nat_32, linarith)
    have "512 * (i - a) + 512 * a = 512 * i" "(i - a < b) = (i < a + b)" using 2 by arith+
    moreover have "\<not> i < a" using 2 by simp
    ultimately show ?thesis using assms(1) u by (simp add: write_secs_def add.commute flip: i_def)
  qed
qed

section \<open>The registers\<close>

lemma high_bits_zero: "unat (a :: 'a::len word) < 2 ^ k \<Longrightarrow> k \<le> n \<Longrightarrow> \<not> bit a n"
proof -
  assume a: "unat a < 2 ^ k" "k \<le> n"
  have "take_bit k a = a"
    using a by (intro word_unat_eq_iff [THEN iffD2]) (simp only: unsigned_take_bit_eq take_bit_nat_eq_self)
  then have "bit a n = bit (take_bit k a) n" by simp
  then show ?thesis using a(2) by (simp add: bit_take_bit_iff)
qed

lemma ata_lba_select:
  assumes "unat (lba :: u32) < 2 ^ 28" "d = 0xa0 OR 0x40 OR (if b then 0x10 else 0) OR ucast (drop_bit 24 lba)"
  shows "ata_lba \<lparr>sect_cnt = c, lba_l = ucast lba, lba_m = ucast (drop_bit 8 lba),
           lba_h = ucast (drop_bit 16 lba), device = d, command = e\<rparr> = lba"
    "bit d 4 = b"
proof -
  have n: "d AND 0xf = ucast (drop_bit 24 lba)"
  proof (rule bit_word_eqI)
    fix n assume "n < LENGTH(8)"
    then have "n \<in> {0,1,2,3,4,5,6,7}" by auto
    moreover have "\<not> bit lba 28" "\<not> bit lba 29" "\<not> bit lba 30" "\<not> bit lba 31"
      using high_bits_zero [OF assms(1)] by simp_all
    ultimately show "bit (d AND 0xf) n = bit (ucast (drop_bit 24 lba) :: u8) n"
      unfolding assms(2) by (elim insertE emptyE) (simp_all add: bit_simps)
  qed
  show "bit d 4 = b"
    using high_bits_zero [OF assms(1), of 28] unfolding assms(2) by (cases b) (simp_all add: bit_simps)
  show "ata_lba \<lparr>sect_cnt = c, lba_l = ucast lba, lba_m = ucast (drop_bit 8 lba),
           lba_h = ucast (drop_bit 16 lba), device = d, command = e\<rparr> = lba"
  proof (rule bit_word_eqI)
    fix k assume k: "k < LENGTH(32)"
    consider "k < 8" | "8 \<le> k" "k < 16" | "16 \<le> k" "k < 24" | "24 \<le> k" by linarith
    then show "bit (ata_lba \<lparr>sect_cnt = c, lba_l = ucast lba, lba_m = ucast (drop_bit 8 lba),
           lba_h = ucast (drop_bit 16 lba), device = d, command = e\<rparr>) k = bit lba k"
      using k by cases (auto simp: ata_lba_def n bit_simps)
  qed
qed

section \<open>The driver moves the sectors it is asked for\<close>

text \<open>
  What the driver needs: nobody holds the channel, its interrupt number is the code's, and the
  device answers: it is not busy for ever and has data when it is not busy. (29998 is the number
  of status reads \<open>busy_wait\<close> makes.)
\<close>

definition responsive :: "(nat \<Rightarrow> u8) \<Rightarrow> bool" where
  "responsive st \<longleftrightarrow> (\<forall>k. \<exists>j<29998. st (k + j) AND 0x80 = 0) \<and>
     (\<forall>k. st k AND 0x80 = 0 \<longrightarrow> st (Suc k) AND 0x8 \<noteq> 0)"

definition io_ok :: "u8 \<Rightarrow> 'a ide_scheme \<Rightarrow> bool" where
  "io_ok ch s \<longleftrightarrow> ch \<in> {0, 1} \<and> irq_no (channels s ch) = 0x2e + ch \<and>
     disk_done (channels s ch) = sema_init 0 \<and> responsive (status_reads s)"

lemma busy_wait_loop_ready:
  assumes "responsive (status_reads s)" "\<exists>j. j + 1 < unat t \<and> status_reads s (status_pos s + j) AND 0x80 = 0"
  shows "\<exists>k. busy_wait_loop t s = (True, s\<lparr>status_pos := k\<rparr>)"
  using assms
proof (induction t s rule: busy_wait_loop.induct)
  case (1 t s)
  then obtain j where j: "j + 1 < unat t" "status_reads s (status_pos s + j) AND 0x80 = 0" by blast
  have t: "t \<noteq> 0" using j by (auto simp: unat_eq_zero)
  have ut: "unat (t - 1) = unat t - 1" using t by (simp add: unat_minus_one)
  have t1: "t - 1 \<noteq> 0" using j ut by (metis add_lessD1 diff_is_0_eq' le_add2 less_le_not_le less_diff_conv not_less unat_eq_zero zero_less_diff)
  show ?case
  proof (cases "status_reads s (status_pos s) AND 0x80 = 0")
    case True
    moreover have "status_reads s (Suc (status_pos s)) AND 0x8 \<noteq> 0"
      using 1(2) True by (simp add: responsive_def)
    ultimately show ?thesis using t1
      by (subst busy_wait_loop.simps) (auto simp: inb_status_def Let_def intro!: exI [of _ "Suc (Suc (status_pos s))"])
  next
    case False
    let ?s = "s\<lparr>status_pos := Suc (status_pos s)\<rparr>"
    obtain i where i: "j = Suc i" using False j by (cases j) auto
    have ex: "\<exists>j. j + 1 < unat (t - 1) \<and> status_reads ?s (status_pos ?s + j) AND 0x80 = 0"
      using j i ut by (intro exI [of _ i]) simp
    have "\<exists>k. busy_wait_loop (t - 1) ?s = (True, ?s\<lparr>status_pos := k\<rparr>)"
      by (rule 1(1) [OF _ _ _ _ _ _ ex]) (use False t1 1(2) in \<open>simp_all add: inb_status_def\<close>)
    then show ?thesis using t1 False
      by (subst busy_wait_loop.simps) (auto simp: inb_status_def Let_def simp del: busy_wait_loop.simps)
  qed
qed

lemma busy_wait_ready:
  assumes "responsive (status_reads s)"
  shows "\<exists>k. busy_wait s = (True, s\<lparr>status_pos := k\<rparr>)"
proof -
  obtain j where "j < 29998" "status_reads s (status_pos s + j) AND 0x80 = 0"
    using assms by (auto simp: responsive_def)
  then show ?thesis unfolding busy_wait_def
    by (intro busy_wait_loop_ready assms) (auto intro!: exI [of _ j])
qed

lemma sema_up_no_waiters [simp]: "sema_up (sema_init 0) s = Some (sema_init 1, s)"
  by (simp add: sema_up_def sema_init_def cpu_intr_disable_def cpu_intr_set_status_def)

lemma sema_down_taken [simp]: "sema_down_pass (intr s) (sema_init 1) s = Some (True, sema_init 0, s)"
  by (simp add: sema_down_pass_def sema_init_def cpu_intr_disable_def cpu_intr_set_status_def)

lemma upd_channel_twice [simp]: "upd_channel ch f (upd_channel ch g s) = upd_channel ch (\<lambda>c. f (g c)) s"
  by (simp add: upd_channel_def)

lemma channels_upd [simp]: "channels (upd_channel ch f s) ch' = (if ch' = ch then f (channels s ch) else channels s ch')"
  by (simp add: upd_channel_def)

lemma upd_channel_simps [simp]:
  "media (upd_channel ch f s) = media s" "running (upd_channel ch f s) = running s" "intr (upd_channel ch f s) = intr s"
  "regs (upd_channel ch f s) = regs s" "status_reads (upd_channel ch f s) = status_reads s"
  "status_pos (upd_channel ch f s) = status_pos s"
  by (simp_all add: upd_channel_def)

lemma handler_ok:
  assumes "io_ok ch s" "expecting_intr (channels s ch)"
  shows "intr_hd_handler (irq_no (channels s ch)) s =
    Some (upd_channel ch (\<lambda>c. c\<lparr>expecting_intr := False, disk_done := sema_init 1\<rparr>) s\<lparr>status_pos := Suc (status_pos s)\<rparr>)"
proof -
  have c: "ch \<in> {0, 1}" "irq_no (channels s ch) = 0x2e + ch" "disk_done (channels s ch) = sema_init 0"
    using assms by (auto simp: io_ok_def)
  then have "irq_no (channels s ch) - 0x2e = ch" "irq_no (channels s ch) = 0x2e \<or> irq_no (channels s ch) = 0x2f" by auto
  with c assms(2) show ?thesis
    by (auto simp: intr_hd_handler_def Let_def inb_status_def)
qed

lemma wait_disk_ok:
  assumes "io_ok ch s" "expecting_intr (channels s ch)"
  shows "wait_disk ch s = Some (upd_channel ch (\<lambda>c. c\<lparr>expecting_intr := False\<rparr>) s\<lparr>status_pos := Suc (status_pos s)\<rparr>)"
proof -
  have d: "disk_done (channels s ch) = sema_init 0" using assms by (simp add: io_ok_def)
  let ?s = "upd_channel ch (\<lambda>c. c\<lparr>expecting_intr := False, disk_done := sema_init 1\<rparr>) s\<lparr>status_pos := Suc (status_pos s)\<rparr>"
  have "sema_down_pass (intr ?s) (disk_done (channels ?s ch)) ?s = Some (True, sema_init 0, ?s)"
    using sema_down_taken [of ?s] by simp
  then have "wait_disk ch s = Some (upd_channel ch (\<lambda>c. c\<lparr>disk_done := sema_init 0\<rparr>) ?s)"
    by (simp add: wait_disk_def handler_ok [OF assms])
  also have "\<dots> = Some (upd_channel ch (\<lambda>c. c\<lparr>expecting_intr := False\<rparr>) s\<lparr>status_pos := Suc (status_pos s)\<rparr>)"
    using d by (auto simp: upd_channel_def fun_eq_iff intro!: ide.equality ide_channel.equality)
  finally show ?thesis .
qed


definition read_state_ok :: "u8 \<Rightarrow> 'a ide_scheme \<Rightarrow> 'a ide_scheme \<Rightarrow> bool" where
  "read_state_ok ch s s' \<longleftrightarrow> io_ok ch s' \<and> running s' = running s \<and>
     ch_lock (channels s' ch) = ch_lock (channels s ch) \<and> port_base (channels s' ch) = port_base (channels s ch) \<and>
     ide.more s' = ide.more s"

lemma command_issued:
  assumes "io_ok ch s" "dv \<in> {0, 1}" "lba \<le> max_lba"
  obtains s1 where "select_sector (ch, dv) lba c s = Some s1"
    "read_state_ok ch s (cmd_out ch cmd s1)" "expecting_intr (channels (cmd_out ch cmd s1) ch)"
    "media (cmd_out ch cmd s1) = media s" "ata_lba (regs (cmd_out ch cmd s1) ch) = lba"
    "sect_cnt (regs (cmd_out ch cmd s1) ch) = c" "ata_drive (regs (cmd_out ch cmd s1) ch) = dv"
proof -
  let ?d = "0xa0 OR 0x40 OR (if dv = 1 then 0x10 else 0) OR ucast (drop_bit 24 lba) :: u8"
  let ?r = "\<lparr>sect_cnt = c, lba_l = ucast lba, lba_m = ucast (drop_bit 8 lba),
           lba_h = ucast (drop_bit 16 lba), device = ?d, command = cmd\<rparr>"
  have "unat lba < 2 ^ 28"
    using assms(3) by (simp add: max_lba_def word_le_nat_alt)
  note r = ata_lba_select(1) [where b = "dv = 1" and c = c and e = cmd and lba = lba, OF this refl]
    ata_lba_select(2) [where b = "dv = 1" and lba = lba, OF this refl]
  obtain s1 where s1: "select_sector (ch, dv) lba c s = Some s1" "channels s1 = channels s" "media s1 = media s"
      "running s1 = running s" "status_reads s1 = status_reads s" "ide.more s1 = ide.more s"
      "\<lparr>sect_cnt = sect_cnt (regs s1 ch), lba_l = lba_l (regs s1 ch), lba_m = lba_m (regs s1 ch),
        lba_h = lba_h (regs s1 ch), device = device (regs s1 ch), command = cmd\<rparr> = ?r"
    using assms(3) by (simp add: select_sector_def outb_def ata_outb_def Let_def)
  have regs: "regs (cmd_out ch cmd s1) ch = ?r"
    using s1(7) by (simp add: cmd_out_def outb_def ata_outb_def Let_def upd_channel_def)
  show ?thesis
  proof (rule that)
    show "select_sector (ch, dv) lba c s = Some s1" by (rule s1)
    show "read_state_ok ch s (cmd_out ch cmd s1)"
      using assms(1) s1 by (simp add: read_state_ok_def io_ok_def cmd_out_def outb_def upd_channel_def)
    show "expecting_intr (channels (cmd_out ch cmd s1) ch)" "media (cmd_out ch cmd s1) = media s"
      using s1 by (simp_all add: cmd_out_def outb_def upd_channel_def)
    show "ata_lba (regs (cmd_out ch cmd s1) ch) = lba" "sect_cnt (regs (cmd_out ch cmd s1) ch) = c"
      "ata_drive (regs (cmd_out ch cmd s1) ch) = dv"
      using r assms(2) by (auto simp: regs ata_drive_def)
  qed
qed

text \<open>A chunk of 256 sectors is written to the 8-bit count register as 0, which the device reads as 256.\<close>

lemma chunk_bounds:
  assumes "secs_done < n" "unat n \<le> 163840"
  shows "0 < unat (secs_chunk secs_done n)" "unat (secs_chunk secs_done n) \<le> 256"
    "unat secs_done + unat (secs_chunk secs_done n) \<le> unat n"
proof -
  have d: "unat secs_done < unat n" using assms(1) by (simp add: word_less_nat_alt)
  then have a: "unat (secs_done + 256) = unat secs_done + 256"
    using assms(2) by (subst unat_add_small) simp_all
  have b: "unat (n - secs_done) = unat n - unat secs_done"
    using assms(1) by (simp add: unat_sub_le)
  have c: "(secs_done + 256 \<le> n) = (unat secs_done + 256 \<le> unat n)"
    by (simp only: word_le_nat_alt a)
  show "0 < unat (secs_chunk secs_done n)" "unat (secs_chunk secs_done n) \<le> 256"
    "unat secs_done + unat (secs_chunk secs_done n) \<le> unat n"
    unfolding secs_chunk_def c using d b by (auto split: if_splits)
qed

lemma chunk_count:
  assumes "0 < unat (c :: u32)" "unat c \<le> 256"
  shows "xfer_bytes (ucast c) = 512 * unat c"
    "sect_cnt r = ucast c \<Longrightarrow> ata_count r = unat c"
proof -
  have u: "unat (ucast c :: u8) = unat c mod 256"
    by (simp add: unsigned_ucast_eq take_bit_eq_mod)
  have z: "(ucast c :: u8) = 0 \<longleftrightarrow> unat c = 256"
    using u assms by (auto simp: unat_eq_zero [symmetric] simp del: unat_eq_zero)
  show "xfer_bytes (ucast c) = 512 * unat c" "sect_cnt r = ucast c \<Longrightarrow> ata_count r = unat c"
    using u z assms by (auto simp: xfer_bytes_def ata_count_def)
qed

lemma ide_read_loop_correct:
  assumes "io_ok ch s" "dv \<in> {0, 1}" "sectors_ok (media s (ch, dv))"
    "unat lba + unat n \<le> 163840" "secs_done \<le> n"
  shows "\<exists>s'. ide_read_loop (ch, dv) lba n secs_done s =
      Some (read_secs (media s (ch, dv)) (lba + secs_done) (unat n - unat secs_done), s') \<and>
      read_state_ok ch s s' \<and> media s' = media s"
  using assms(1,3,5)
proof (induction "unat n - unat secs_done" arbitrary: secs_done s rule: less_induct)
  case less
  show ?case
  proof (cases "secs_done < n")
    case False
    then have "secs_done = n" using less.prems by simp
    then show ?thesis using less.prems
      by (subst ide_read_loop.simps) (simp add: read_state_ok_def)
  next
    case True
    let ?c = "secs_chunk secs_done n"
    have n: "unat n \<le> 163840" using assms(4) by simp
    note b = chunk_bounds [OF True n]
    have d: "unat secs_done < unat n" using True by (simp add: word_less_nat_alt)
    have lba: "unat (lba + secs_done) = unat lba + unat secs_done"
      using d assms(4) by (intro unat_add_small) simp
    have le: "lba + secs_done \<le> max_lba"
      unfolding word_le_nat_alt lba using d assms(4) by (simp add: max_lba_def)
    obtain s1 where s1: "select_sector (ch, dv) (lba + secs_done) (ucast ?c) s = Some s1"
      "read_state_ok ch s (cmd_out ch 0x20 s1)" "expecting_intr (channels (cmd_out ch 0x20 s1) ch)"
      "media (cmd_out ch 0x20 s1) = media s" "ata_lba (regs (cmd_out ch 0x20 s1) ch) = lba + secs_done"
      "sect_cnt (regs (cmd_out ch 0x20 s1) ch) = ucast ?c" "ata_drive (regs (cmd_out ch 0x20 s1) ch) = dv"
      using command_issued [OF less.prems(1) assms(2) le] by metis
    let ?s1 = "cmd_out ch 0x20 s1"
    let ?s2 = "upd_channel ch (\<lambda>c. c\<lparr>expecting_intr := False\<rparr>) ?s1\<lparr>status_pos := Suc (status_pos ?s1)\<rparr>"
    have w: "wait_disk ch ?s1 = Some ?s2"
      using s1 by (intro wait_disk_ok) (simp_all add: read_state_ok_def)
    have "responsive (status_reads ?s2)" using s1(2) by (simp add: read_state_ok_def io_ok_def)
    then obtain k where k: "busy_wait ?s2 = (True, ?s2\<lparr>status_pos := k\<rparr>)"
      using busy_wait_ready by blast
    let ?s3 = "?s2\<lparr>status_pos := k\<rparr>"
    have ok3: "read_state_ok ch s ?s3" using s1(2) by (simp add: read_state_ok_def io_ok_def upd_channel_def)
    have m3: "media ?s3 = media s" using s1 by simp
    have data: "read_from_sector (ch, dv) (ucast ?c) ?s3 = read_secs (media s (ch, dv)) (lba + secs_done) (unat ?c)"
      using b s1 less.prems(2) chunk_count(2) [OF b(1,2) s1(6)]
      by (simp add: read_from_sector_def ata_data_def chunk_count(1) [OF b(1,2)])
    have dc: "unat (secs_done + ?c) = unat secs_done + unat ?c"
      using b n by (intro unat_add_small) simp
    have "unat n - unat (secs_done + ?c) < unat n - unat secs_done"
      using b d dc by simp
    moreover have "io_ok ch ?s3" using ok3 by (simp add: read_state_ok_def)
    moreover have "secs_done + ?c \<le> n" using b dc by (simp add: word_le_nat_alt)
    ultimately obtain s' where s': "ide_read_loop (ch, dv) lba n (secs_done + ?c) ?s3 =
      Some (read_secs (media ?s3 (ch, dv)) (lba + (secs_done + ?c)) (unat n - unat (secs_done + ?c)), s')"
      "read_state_ok ch ?s3 s'" "media s' = media ?s3"
      using less.hyps [of "secs_done + ?c" ?s3] less.prems(2) m3 by (metis (no_types, lifting))
    have split: "read_secs (media s (ch, dv)) (lba + secs_done) (unat ?c) @
        read_secs (media s (ch, dv)) (lba + (secs_done + ?c)) (unat n - unat (secs_done + ?c)) =
        read_secs (media s (ch, dv)) (lba + secs_done) (unat n - unat secs_done)"
    proof -
      have "unat n - unat secs_done = unat ?c + (unat n - unat (secs_done + ?c))" using b dc by simp
      then show ?thesis by (simp add: read_secs_add add.assoc)
    qed
    have "ide_read_loop (ch, dv) lba n secs_done s =
        Some (read_secs (media s (ch, dv)) (lba + secs_done) (unat n - unat secs_done), s')"
      using True s1(1) w k data s'(1) split m3
      by (subst ide_read_loop.simps) (simp add: Let_def)
    moreover have "read_state_ok ch s s'" using ok3 s'(2) by (simp add: read_state_ok_def)
    ultimately show ?thesis using s'(3) m3 by auto
  qed
qed

lemma ide_write_loop_correct:
  assumes "io_ok ch s" "dv \<in> {0, 1}" "length buf = 512 * unat n"
    "unat lba + unat n \<le> 163840" "secs_done \<le> n"
  shows "\<exists>s'. ide_write_loop (ch, dv) lba buf n secs_done s = Some ((), s') \<and> read_state_ok ch s s' \<and>
      media s' = (media s)((ch, dv) := write_secs (media s (ch, dv)) (lba + secs_done) (drop (512 * unat secs_done) buf))"
  using assms(1,5)
proof (induction "unat n - unat secs_done" arbitrary: secs_done s rule: less_induct)
  case less
  show ?case
  proof (cases "secs_done < n")
    case False
    then have "secs_done = n" using less.prems by simp
    then show ?thesis using less.prems assms(3)
      by (subst ide_write_loop.simps) (simp add: read_state_ok_def write_secs_def)
  next
    case True
    let ?c = "secs_chunk secs_done n"
    have n: "unat n \<le> 163840" using assms(4) by simp
    note b = chunk_bounds [OF True n]
    have d: "unat secs_done < unat n" using True by (simp add: word_less_nat_alt)
    have lba: "unat (lba + secs_done) = unat lba + unat secs_done"
      using d assms(4) by (intro unat_add_small) simp
    have le: "lba + secs_done \<le> max_lba"
      unfolding word_le_nat_alt lba using d assms(4) by (simp add: max_lba_def)
    obtain s1 where s1: "select_sector (ch, dv) (lba + secs_done) (ucast ?c) s = Some s1"
      "read_state_ok ch s (cmd_out ch 0x30 s1)" "expecting_intr (channels (cmd_out ch 0x30 s1) ch)"
      "media (cmd_out ch 0x30 s1) = media s" "ata_lba (regs (cmd_out ch 0x30 s1) ch) = lba + secs_done"
      "sect_cnt (regs (cmd_out ch 0x30 s1) ch) = ucast ?c" "ata_drive (regs (cmd_out ch 0x30 s1) ch) = dv"
      using command_issued [OF less.prems(1) assms(2) le] by metis
    let ?s1 = "cmd_out ch 0x30 s1"
    have "responsive (status_reads ?s1)" using s1(2) by (simp add: read_state_ok_def io_ok_def)
    then obtain k where k: "busy_wait ?s1 = (True, ?s1\<lparr>status_pos := k\<rparr>)"
      using busy_wait_ready by blast
    let ?chunk = "take (512 * unat ?c) (drop (512 * unat secs_done) buf)"
    let ?s2 = "?s1\<lparr>status_pos := k, media := (media s)((ch, dv) := write_secs (media s (ch, dv)) (lba + secs_done) ?chunk)\<rparr>"
    have m512: "unat (secs_done * 512) = 512 * unat secs_done"
      using d n by (subst unat_mult_small) simp_all
    have st: "write2sector (ch, dv) (drop (unat (secs_done * 512)) buf) (ucast ?c) (?s1\<lparr>status_pos := k\<rparr>) = ?s2"
      using b s1 chunk_count(2) [OF b(1,2) s1(6)]
      by (simp add: write2sector_def ata_store_def chunk_count(1) [OF b(1,2)] m512 Let_def)
    let ?s3 = "upd_channel ch (\<lambda>c. c\<lparr>expecting_intr := False\<rparr>) ?s2\<lparr>status_pos := Suc (status_pos ?s2)\<rparr>"
    have w: "wait_disk ch ?s2 = Some ?s3"
      using s1 by (intro wait_disk_ok) (simp_all add: read_state_ok_def io_ok_def)
    have ok3: "read_state_ok ch s ?s3" using s1(2) by (simp add: read_state_ok_def io_ok_def upd_channel_def)
    have dc: "unat (secs_done + ?c) = unat secs_done + unat ?c"
      using b n by (intro unat_add_small) simp
    have "unat n - unat (secs_done + ?c) < unat n - unat secs_done"
      using b d dc by simp
    moreover have "io_ok ch ?s3" using ok3 by (simp add: read_state_ok_def)
    moreover have "secs_done + ?c \<le> n" using b dc by (simp add: word_le_nat_alt)
    ultimately obtain s' where s': "ide_write_loop (ch, dv) lba buf n (secs_done + ?c) ?s3 = Some ((), s')"
      "read_state_ok ch ?s3 s'" "media s' = (media ?s3)((ch, dv) := write_secs (media ?s3 (ch, dv))
        (lba + (secs_done + ?c)) (drop (512 * unat (secs_done + ?c)) buf))"
      using less.hyps [of "secs_done + ?c" ?s3] by metis
    have "write_secs (media ?s3 (ch, dv)) (lba + (secs_done + ?c)) (drop (512 * unat (secs_done + ?c)) buf) =
        write_secs (media s (ch, dv)) (lba + secs_done) (drop (512 * unat secs_done) buf)"
    proof -
      have "write_secs (write_secs (media s (ch, dv)) (lba + secs_done) ?chunk) (lba + secs_done + of_nat (unat ?c))
          (drop (512 * unat ?c) (drop (512 * unat secs_done) buf)) =
          write_secs (media s (ch, dv)) (lba + secs_done) (drop (512 * unat secs_done) buf)"
        using b n assms(3) d
        by (intro write_secs_split [where b = "unat n - unat secs_done - unat ?c"]) auto
      then show ?thesis using dc by (simp add: add.assoc add.commute add_mult_distrib2)
    qed
    then have med: "media s' = (media s)((ch, dv) := write_secs (media s (ch, dv)) (lba + secs_done)
        (drop (512 * unat secs_done) buf))" using s'(3) by simp
    have "ide_write_loop (ch, dv) lba buf n secs_done s = Some ((), s')"
      using True s1(1) w k st s'(1)
      by (subst ide_write_loop.simps) (simp add: Let_def)
    moreover have "read_state_ok ch s s'" using ok3 s'(2) by (simp add: read_state_ok_def)
    ultimately show ?thesis using med by auto
  qed
qed

lemma with_channel_ok:
  assumes "io_ok ch s" "ch_lock (channels s ch) = lock_init" "running s \<noteq> 0"
    "\<And>s1. io_ok ch s1 \<Longrightarrow> media s1 = media s \<Longrightarrow> \<exists>s2. body s1 = Some (r, s2) \<and> read_state_ok ch s1 s2 \<and> media s2 = m"
  shows "\<exists>s'. with_channel (ch, dv) body s = Some (r, s') \<and> media s' = m \<and> io_ok ch s' \<and>
    ch_lock (channels s' ch) = lock_init \<and> ide.more s' = ide.more s"
proof -
  let ?s1 = "select_disk (ch, dv) (upd_channel ch (\<lambda>c. c\<lparr>ch_lock := held_once (running s)\<rparr>) s)"
  have 1: "io_ok ch ?s1" "media ?s1 = media s" "running ?s1 = running s" "ide.more ?s1 = ide.more s"
      "ch_lock (channels ?s1 ch) = held_once (running s)"
    using assms(1) by (simp_all add: io_ok_def select_disk_def outb_def upd_channel_def)
  obtain s2 where 2: "body ?s1 = Some (r, s2)" "read_state_ok ch ?s1 s2" "media s2 = m"
    using assms(4) [OF 1(1,2)] by blast
  have l: "lock_release (ch_lock (channels s2 ch)) s2 = Some (lock_init, s2)"
    using 2(2) 1(3,5) lock_release_once [of s2] by (simp add: read_state_ok_def)
  have "with_channel (ch, dv) body s = Some (r, upd_channel ch (\<lambda>c. c\<lparr>ch_lock := lock_init\<rparr>) s2)"
    using assms(2,3) 2(1) l by (simp add: with_channel_def)
  then show ?thesis using 2 1(4) by (simp add: read_state_ok_def io_ok_def upd_channel_def)
qed

lemma ide_read_sectors:
  assumes "io_ok ch s" "ch_lock (channels s ch) = lock_init" "running s \<noteq> 0" "dv \<in> {0, 1}"
    "sectors_ok (media s (ch, dv))" "0 < n" "unat lba + unat n \<le> 163840"
  shows "\<exists>s'. ide_read (ch, dv) lba n s = Some (read_secs (media s (ch, dv)) lba (unat n), s') \<and>
      media s' = media s \<and> io_ok ch s' \<and> ch_lock (channels s' ch) = lock_init \<and> ide.more s' = ide.more s"
proof -
  have n: "0 < unat n" using assms(6) by (simp add: word_less_nat_alt)
  have lba: "lba \<le> max_lba" using n assms(7) by (simp add: max_lba_def word_le_nat_alt)
  have "\<exists>s'. with_channel (ch, dv) (ide_read_loop (ch, dv) lba n 0) s =
      Some (read_secs (media s (ch, dv)) lba (unat n), s') \<and> media s' = media s \<and> io_ok ch s' \<and>
      ch_lock (channels s' ch) = lock_init \<and> ide.more s' = ide.more s"
  proof (rule with_channel_ok [OF assms(1-3)], goal_cases)
    case (1 s1)
    then show ?case using ide_read_loop_correct [OF 1(1) assms(4) _ assms(7), of 0] assms(5) by simp
  qed
  then show ?thesis using lba assms(6) by (simp add: ide_read_def)
qed


section \<open>Partitions\<close>

definition is_primary :: "u8 list \<Rightarrow> nat \<Rightarrow> bool" where
  "is_primary bs k \<longleftrightarrow> fs_type (table_entry bs k) \<noteq> 0 \<and> fs_type (table_entry bs k) \<noteq> 5"

text \<open>What the scan has recorded when it reaches entry \<open>k\<close> of a table of primary partitions.\<close>

definition scanned :: "hdd \<Rightarrow> u8 list \<Rightarrow> (hdd \<times> nat) list \<Rightarrow> nat \<Rightarrow> ide_sys \<Rightarrow> bool" where
  "scanned hdd bs ps k s \<longleftrightarrow>
     p_no s = of_nat k \<and> partition_list s = ps @ map (Pair hdd) [0..<k] \<and>
     length (prim_parts (disks s hdd)) = 4 \<and>
     (\<forall>i<k. let p = prim_parts (disks s hdd) ! i
        in start_lba p = e_start_lba (table_entry bs i) \<and> sec_cnt p = e_sec_cnt (table_entry bs i) \<and>
           my_disk p = hdd \<and> part_name p = disk_name (disks s hdd) @ decimal (i + 1))"

lemma add_primary_step:
  assumes "scanned hdd bs ps k s" "k < 4"
  shows "if k < 3 then \<exists>s'. add_primary hdd 0 (table_entry bs k) s = Some s' \<and> scanned hdd bs ps (Suc k) s'
     else add_primary hdd 0 (table_entry bs k) s = None"
proof -
  have u: "unat (of_nat k :: u8) = k" using assms(2) by (intro unat_of_nat_small) simp
  have lt: "(of_nat k + 1 :: u8) < 4 \<longleftrightarrow> k < 3"
    using assms(2) by (auto simp: word_less_nat_alt unat_inc_small u)
  show ?thesis
    using assms
    by (auto simp: add_primary_def scanned_def u lt Let_def set_part_def nth_list_update less_Suc_eq)
qed

lemma scan_done:
  assumes "scanned hdd bs ps m s" "m \<le> k" "\<And>i. m \<le> i \<Longrightarrow> i < 4 \<Longrightarrow> fs_type (table_entry bs i) = 0"
  shows "scan_entries hdd 0 bs k s = Some s"
  using assms(2)
proof (induction "4 - k" arbitrary: k)
  case 0 then show ?case by (subst scan_entries.simps) simp
next
  case (Suc n)
  then show ?case using assms(3) [of k] by (subst scan_entries.simps) (simp add: Let_def)
qed

lemma scan_from:
  assumes "m \<le> 4" "\<And>i. i < m \<Longrightarrow> is_primary bs i" "\<And>i. m \<le> i \<Longrightarrow> i < 4 \<Longrightarrow> fs_type (table_entry bs i) = 0"
    "k \<le> m" "scanned hdd bs ps k s"
  shows "if m < 4 then \<exists>s'. scan_entries hdd 0 bs k s = Some s' \<and> scanned hdd bs ps m s'
     else scan_entries hdd 0 bs k s = None \<or> k = 4"
  using assms(4,5)
proof (induction "m - k" arbitrary: k s)
  case 0
  then have "k = m" by simp
  then show ?case using 0 assms(1) scan_done [of hdd bs ps m s m] assms(3) by auto
next
  case (Suc n)
  then have k: "k < m" "k < 4" "is_primary bs k" using assms(1,2) by auto
  note st = add_primary_step [OF Suc.prems(2) k(2)]
  have eq: "scan_entries hdd 0 bs k s =
      do { s \<leftarrow> add_primary hdd 0 (table_entry bs k) s; scan_entries hdd 0 bs (Suc k) s }"
    using k by (subst scan_entries.simps) (simp add: Let_def is_primary_def)
  show ?case
  proof (cases "k < 3")
    case True
    then obtain s' where s': "add_primary hdd 0 (table_entry bs k) s = Some s'" "scanned hdd bs ps (Suc k) s'"
      using st by auto
    then show ?thesis using Suc.hyps(1) [of "Suc k" s'] Suc.hyps(2) k True by (auto simp: eq)
  next
    case False
    then show ?thesis using st k assms(1) by (simp add: eq)
  qed
qed

text \<open>
  Scanning a boot sector whose first m entries are primary partitions and whose others are
  empty: for m up to 3 the scan returns and has appended the partitions to the list in table
  order, each with the start, size, disk and name (disk name and number) of its entry; with all
  four entries in use the assertion \<^verbatim>\<open>p_no < 4\<close> stops the kernel, although four primary
  partitions are a legal table.
\<close>

theorem partition_scan_primaries:
  assumes "io_ok ch s" "ch_lock (channels s ch) = lock_init" "running s \<noteq> 0" "dv \<in> {0, 1}"
    "sectors_ok (media s (ch, dv))" "p_no s = 0" "length (prim_parts (disks s (ch, dv))) = 4" "m \<le> 4"
    "\<forall>i<m. is_primary (media s (ch, dv) 0) i" "\<forall>i. m \<le> i \<and> i < 4 \<longrightarrow> fs_type (table_entry (media s (ch, dv) 0) i) = 0"
  shows "if m < 4
    then \<exists>s'. partition_scan (ch, dv) 0 s = Some s' \<and> scanned (ch, dv) (media s (ch, dv) 0) (partition_list s) m s'
    else partition_scan (ch, dv) 0 s = None"
proof -
  let ?bs = "media s (ch, dv) 0"
  obtain s1 where s1: "ide_read (ch, dv) 0 1 s = Some (?bs, s1)" "ide.more s1 = ide.more s"
    using ide_read_sectors [OF assms(1-5), of 1 0] by auto
  have "p_no s1 = p_no s" "disks s1 = disks s" "partition_list s1 = partition_list s"
    using s1(2) by (cases s; cases s1; simp)+
  then have "scanned (ch, dv) ?bs (partition_list s) 0 s1"
    using assms(6,7) by (simp add: scanned_def)
  from scan_from [OF assms(8) _ _ _ this] s1(1) assms(9,10)
  show ?thesis by (auto simp: partition_scan_def split: if_splits)
qed

section \<open>A machine with one disk\<close>

definition demo_mbr :: "u8 list" where
  "demo_mbr = replicate 450 0 @ [0x83] @ replicate 61 0"

definition demo_ide :: ide_sys where
  "demo_ide =
     \<lparr>ptab = ptab demo_sched, tasks = tasks demo_sched, running = running demo_sched,
      thread_ready_list = thread_ready_list demo_sched, thread_all_list = thread_all_list demo_sched,
      main_thread = main_thread demo_sched, idle_thread = idle_thread demo_sched, intr = INTR_ON,
      cr3 = cr3 demo_sched, tss_esp0 = tss_esp0 demo_sched, ticks = ticks demo_sched,
      media = (\<lambda>_ _. demo_mbr),
      channels = (\<lambda>ch. \<lparr>port_base = 0x1f0, irq_no = 0x2e + ch, ch_lock = lock_init,
                       expecting_intr = False, disk_done = sema_init 0\<rparr>),
      regs = (\<lambda>_. \<lparr>sect_cnt = 0, lba_l = 0, lba_m = 0, lba_h = 0, device = 0, command = 0\<rparr>),
      status_reads = (\<lambda>_. 0x48), status_pos = 0,
      disks = (\<lambda>_. let p = \<lparr>start_lba = 0, sec_cnt = 0, my_disk = (0, 0), part_name = [],
                 sb = \<lparr>magic = 0, sb_sec_cnt = 0, inode_cnt = 0, part_lba_base = 0, block_bitmap_lba = 0,
                       block_bitmap_sects = 0, inode_bitmap_lba = 0, inode_bitmap_sects = 0, inode_table_lba = 0,
                       inode_table_sects = 0, data_start_lba = 0, root_inode_no = 0, dir_entry_size = 0\<rparr>,
                 block_bitmap = \<lparr>btmp_bytes_len = 0, bits = (\<lambda>_. 0)\<rparr>,
                 inode_bitmap = \<lparr>btmp_bytes_len = 0, bits = (\<lambda>_. 0)\<rparr>, open_inodes = []\<rparr>
               in \<lparr>disk_name = [115, 100, 98], prim_parts = [p, p, p, p], logic_parts = [p, p, p, p, p, p, p, p]\<rparr>),
      channel_cnt = 1, ext_lba_base = 0, p_no = 0, l_no = 0, partition_list = [], handlers = {}\<rparr>"

lemma demo_ide_ok:
  "io_ok 0 demo_ide" "ch_lock (channels demo_ide 0) = lock_init" "running demo_ide \<noteq> 0"
  "sectors_ok (media demo_ide (0, 1))" "p_no demo_ide = 0" "length (prim_parts (disks demo_ide (0, 1))) = 4"
  by (auto simp: demo_ide_def io_ok_def responsive_def sectors_ok_def demo_mbr_def demo_sched_def Let_def
      intro!: exI [of _ 0])


theorem partition_scan_primaries_witness:
  "\<exists>s'. partition_scan (0, 1) 0 demo_ide = Some s' \<and> scanned (0, 1) demo_mbr [] 1 s'"
proof -
  have m: "media demo_ide (0, 1) 0 = demo_mbr" "partition_list demo_ide = []" by (simp_all add: demo_ide_def)
  have t: "fs_type (table_entry demo_mbr 0) = 0x83" "fs_type (table_entry demo_mbr (Suc 0)) = 0"
    "fs_type (table_entry demo_mbr 2) = 0" "fs_type (table_entry demo_mbr 3) = 0"
    by (simp_all add: table_entry_def demo_mbr_def Let_def nth_append nth_Cons')
  have f: "\<forall>i. 1 \<le> i \<and> i < 4 \<longrightarrow> fs_type (table_entry demo_mbr i) = 0"
    using t by (auto simp: less_Suc_eq numeral_eq_Suc)
  show ?thesis
    using partition_scan_primaries [OF demo_ide_ok(1-3) _ demo_ide_ok(4-6), of 1] f t
    by (simp add: m is_primary_def)
qed

end
