(* ===== verification/Inode.thy ===== *)
theory Inode
  imports Ide
begin

text \<open>
  The state of the file system and its lowest layer: the bitmaps of a mounted partition
  (\<^verbatim>\<open>inode_bitmap_alloc\<close>, \<^verbatim>\<open>block_bitmap_alloc\<close>, \<^verbatim>\<open>bitmap_sync\<close> of \<^verbatim>\<open>src/fs/file.c\<close>) and the
  inodes of \<^verbatim>\<open>src/fs/inode.c\<close>.

  Structures from \<^verbatim>\<open>sys_malloc\<close> (inodes, directories) have numbers as pointers: 0 is NULL, 1 is
  \<^verbatim>\<open>&root_dir\<close>, a fresh number is given to each new one, and a freed one is gone from the map,
  so a use after \<^verbatim>\<open>sys_free\<close> is \<open>None\<close>. Whether the k-th call of \<^verbatim>\<open>sys_malloc\<close> succeeds is
  \<open>mallocs k\<close>; the memory it gives is zeroed by \<^verbatim>\<open>sys_malloc\<close> itself. \<^verbatim>\<open>sys_free\<close> asserts that
  its argument is not NULL, so a buffer that is used without a check and freed at the end makes
  the call stop (\<open>None\<close>) when there is no memory. What a function reads from its stack before
  writing it is a parameter of the state (\<open>junk_\<close>). The disk blocks the calling thread but is
  otherwise the sector service of the driver; messages on the console are not modelled.
\<close>

section \<open>State\<close>

record inode =
  i_no :: u32
  i_size :: u32
  user_id :: u32
  ctime :: u64
  mtime :: u64
  atime :: u64
  privilege :: u32
  i_open_cnts :: u32
  write_deny :: bool
  i_sectors :: "u32 list"

record dir =
  d_inode :: nat
  dir_pos :: u32

record ofile =
  fd_pos :: u32
  fd_flag :: u32
  fd_inode :: nat

record fs = machine +
  cur_part :: partition
  inodes :: "nat \<Rightarrow> inode option"
  dirs :: "nat \<Rightarrow> dir option"
  next_ptr :: nat
  file_table :: "ofile list"
  mallocs :: "nat \<Rightarrow> bool"
  malloc_cnt :: nat
  junk_inode :: inode
  junk_blocks :: "u32 list"
  junk_ino :: u32
  junk_byte :: u8
  kbd_input :: "u8 list"
  console :: "u8 list"

definition root_dir :: nat where
  "root_dir = 1"

definition heap_alloc :: "fs \<Rightarrow> bool \<times> fs" where
  "heap_alloc s = (mallocs s (malloc_cnt s), s\<lparr>malloc_cnt := malloc_cnt s + 1\<rparr>)"

definition upd_part :: "(partition \<Rightarrow> partition) \<Rightarrow> fs \<Rightarrow> fs" where
  "upd_part f s = s\<lparr>cur_part := f (cur_part s)\<rparr>"

definition upd_inode :: "nat \<Rightarrow> (inode \<Rightarrow> inode) \<Rightarrow> fs \<Rightarrow> fs" where
  "upd_inode p f s = s\<lparr>inodes := (inodes s)(p := map_option f (inodes s p))\<rparr>"

definition part_read :: "u32 \<Rightarrow> nat \<Rightarrow> fs \<Rightarrow> u8 list option" where
  "part_read lba n s = disk_read (my_disk (cur_part s)) lba n s"

definition part_write :: "u32 \<Rightarrow> u8 list \<Rightarrow> fs \<Rightarrow> fs option" where
  "part_write lba bs s = disk_write (my_disk (cur_part s)) lba bs s"

section \<open>Bitmaps of the partition\<close>

datatype bitmap_type = INODE_BITMAP | BLOCK_BITMAP

text \<open>A result of \<open>None\<close> is the code's \<open>-1\<close>.\<close>

definition inode_bitmap_alloc :: "fs \<Rightarrow> (u32 option \<times> fs) option" where
  "inode_bitmap_alloc s =
     do { bit_idx \<leftarrow> bitmap_scan (inode_bitmap (cur_part s)) 1;
          if bit_idx = -1 then Some (None, s)
          else do { bm \<leftarrow> bitmap_set (inode_bitmap (cur_part s)) bit_idx 1;
                    Some (Some bit_idx, upd_part (\<lambda>p. p\<lparr>inode_bitmap := bm\<rparr>) s) } }"

definition block_bitmap_alloc :: "fs \<Rightarrow> (u32 option \<times> fs) option" where
  "block_bitmap_alloc s =
     do { bit_idx \<leftarrow> bitmap_scan (block_bitmap (cur_part s)) 1;
          if bit_idx = -1 then Some (None, s)
          else do { bm \<leftarrow> bitmap_set (block_bitmap (cur_part s)) bit_idx 1;
                    Some (Some (data_start_lba (sb (cur_part s)) + bit_idx),
                          upd_part (\<lambda>p. p\<lparr>block_bitmap := bm\<rparr>) s) } }"

definition bitmap_bytes :: "bitmap \<Rightarrow> u32 \<Rightarrow> nat \<Rightarrow> u8 list" where
  "bitmap_bytes bm off n = map (\<lambda>i. bits bm (off + of_nat i)) [0..<n]"

definition bitmap_sync :: "u32 \<Rightarrow> bitmap_type \<Rightarrow> fs \<Rightarrow> fs option" where
  "bitmap_sync bit_idx btmp_type s =
     (let off_sec = bit_idx div 4096; off_size = off_sec * 512; p = cur_part s;
          (sec_lba, bm) = (case btmp_type of
              INODE_BITMAP \<Rightarrow> (inode_bitmap_lba (sb p) + off_sec, inode_bitmap p)
            | BLOCK_BITMAP \<Rightarrow> (block_bitmap_lba (sb p) + off_sec, block_bitmap p))
      in part_write sec_lba (bitmap_bytes bm off_size 512) s)"

definition inode_bit_free :: "u32 \<Rightarrow> fs \<Rightarrow> fs option" where
  "inode_bit_free no s =
     do { bm \<leftarrow> bitmap_set (inode_bitmap (cur_part s)) no 0;
          Some (upd_part (\<lambda>p. p\<lparr>inode_bitmap := bm\<rparr>) s) }"

definition block_bit_free :: "u32 \<Rightarrow> fs \<Rightarrow> fs option" where
  "block_bit_free idx s =
     do { bm \<leftarrow> bitmap_set (block_bitmap (cur_part s)) idx 0;
          Some (upd_part (\<lambda>p. p\<lparr>block_bitmap := bm\<rparr>) s) }"

text \<open>The two steps that give back the block in sector \<open>lba\<close>, in memory and on the disk.\<close>

definition free_block :: "u32 \<Rightarrow> fs \<Rightarrow> fs option" where
  "free_block lba s =
     do { let idx = lba - data_start_lba (sb (cur_part s));
          s \<leftarrow> block_bit_free idx s;
          bitmap_sync idx BLOCK_BITMAP s }"

section \<open>Inodes on the disk\<close>

text \<open>
  \<^verbatim>\<open>struct inode\<close> as the 32-bit compiler lays it out: 108 bytes, \<^verbatim>\<open>uint64_t\<close> aligned to 4,
  three bytes of padding (zero here) behind \<^verbatim>\<open>write_deny\<close>, the list links last (NULL on the disk).
\<close>

definition inode_bytes :: "inode \<Rightarrow> u8 list" where
  "inode_bytes i =
     le32 (i_no i) @ le32 (i_size i) @ le32 (user_id i) @ le64 (ctime i) @ le64 (mtime i) @ le64 (atime i) @
     le32 (privilege i) @ le32 (i_open_cnts i) @ [if write_deny i then 1 else 0, 0, 0, 0] @
     concat (map le32 (i_sectors i)) @ replicate 8 0"

definition rd_words :: "u8 list \<Rightarrow> nat \<Rightarrow> u32 list" where
  "rd_words bs n = map (\<lambda>k. rd32 bs (4 * k)) [0..<n]"

definition bytes_inode :: "u8 list \<Rightarrow> inode" where
  "bytes_inode bs =
     \<lparr>i_no = rd32 bs 0, i_size = rd32 bs 4, user_id = rd32 bs 8, ctime = rd64 bs 12, mtime = rd64 bs 20,
      atime = rd64 bs 28, privilege = rd32 bs 36, i_open_cnts = rd32 bs 40, write_deny = (bs ! 44 \<noteq> 0),
      i_sectors = rd_words (drop 48 bs) 13\<rparr>"

record inode_position =
  two_sec :: bool
  sec_lba :: u32
  off_size :: u32

text \<open>\<open>None\<close>: the position is left unset (and used so by the caller).\<close>

definition inode_locate :: "u32 \<Rightarrow> fs \<Rightarrow> inode_position option" where
  "inode_locate inode_no s =
     (if inode_no > 4096 then None
      else let inode_table_lba = inode_table_lba (sb (cur_part s)); inode_size = 108;
               off_size = inode_no * inode_size; off_sec = off_size div 512;
               off_size_in_sec = off_size mod 512; left_in_sec = 512 - off_size_in_sec
           in Some \<lparr>two_sec = left_in_sec < inode_size, sec_lba = inode_table_lba + off_sec,
                    off_size = off_size_in_sec\<rparr>)"

definition inode_secs :: "inode_position \<Rightarrow> nat" where
  "inode_secs pos = (if two_sec pos then 2 else 1)"

definition inode_sync :: "inode \<Rightarrow> fs \<Rightarrow> fs option" where
  "inode_sync inode s =
     do { let inode_no = (ucast (i_no inode) :: u8);
          pos \<leftarrow> inode_locate (ucast inode_no) s;
          if sec_lba pos \<le> start_lba (cur_part s) + sec_cnt (cur_part s) then do {
            let pure_inode = inode\<lparr>i_open_cnts := 0, write_deny := False\<rparr>;
            let (ok, s) = heap_alloc s;
            if \<not> ok then None
            else do {
              inode_buf \<leftarrow> part_read (sec_lba pos) (inode_secs pos) s;
              part_write (sec_lba pos) (splice inode_buf (unat (off_size pos)) (inode_bytes pure_inode)) s } }
          else None }"

text \<open>The walk over the list of open inodes.\<close>

fun find_open :: "(nat \<Rightarrow> inode option) \<Rightarrow> u32 \<Rightarrow> nat list \<Rightarrow> nat option option" where
  "find_open ino no [] = Some None"
| "find_open ino no (p # ps) =
     do { i \<leftarrow> ino p; if i_no i = no then Some (Some p) else find_open ino no ps }"

definition inode_open :: "u32 \<Rightarrow> fs \<Rightarrow> (nat \<times> fs) option" where
  "inode_open inode_no s =
     do { found \<leftarrow> find_open (inodes s) inode_no (open_inodes (cur_part s));
          case found of
            Some p \<Rightarrow> Some (p, upd_inode p (\<lambda>i. i\<lparr>i_open_cnts := i_open_cnts i + 1\<rparr>) s)
          | None \<Rightarrow> do {
              pos \<leftarrow> inode_locate inode_no s;
              let (ok, s) = heap_alloc s;
              if \<not> ok then None
              else do {
                let p = next_ptr s;
                let s = s\<lparr>next_ptr := p + 1\<rparr>;
                let (ok, s) = heap_alloc s;
                if \<not> ok then None
                else do {
                  inode_buf \<leftarrow> part_read (sec_lba pos) (inode_secs pos) s;
                  let inode_found = bytes_inode (take 108 (drop (unat (off_size pos)) inode_buf));
                  let s = upd_part (\<lambda>q. q\<lparr>open_inodes := p # open_inodes q\<rparr>) s;
                  Some (p, s\<lparr>inodes := (inodes s)(p \<mapsto> inode_found\<lparr>i_open_cnts := 1\<rparr>)\<rparr>) } } } }"

definition inode_close :: "nat \<Rightarrow> fs \<Rightarrow> fs option" where
  "inode_close p s =
     do { let (old_status, s) = cpu_intr_disable s;
          i \<leftarrow> inodes s p;
          let s = upd_inode p (\<lambda>i. i\<lparr>i_open_cnts := i_open_cnts i - 1\<rparr>) s;
          let s = (if i_open_cnts i - 1 = 0 then
                     upd_part (\<lambda>q. q\<lparr>open_inodes := remove1 p (open_inodes q)\<rparr>) (s\<lparr>inodes := (inodes s)(p := None)\<rparr>)
                   else s);
          Some (cpu_intr_set_status old_status s) }"

definition inode_delete :: "u32 \<Rightarrow> fs \<Rightarrow> fs option" where
  "inode_delete inode_no s =
     (if 4096 \<le> inode_no then Some s
      else do {
        pos \<leftarrow> inode_locate inode_no s;
        if sec_lba pos > start_lba (cur_part s) + sec_cnt (cur_part s) then Some s
        else do {
          inode_buf \<leftarrow> part_read (sec_lba pos) (inode_secs pos) s;
          part_write (sec_lba pos) (splice inode_buf (unat (off_size pos)) (replicate 108 0)) s } })"

text \<open>The 140 block numbers of a file; without a table the entries behind the twelfth are 0.\<close>

definition all_blocks_of :: "inode \<Rightarrow> fs \<Rightarrow> u32 list option" where
  "all_blocks_of i s =
     (if i_sectors i ! 12 \<noteq> 0 then
        do { table \<leftarrow> part_read (i_sectors i ! 12) 1 s; Some (take 12 (i_sectors i) @ rd_words table 128) }
      else Some (take 12 (i_sectors i) @ replicate 128 0))"

fun release_blocks :: "u32 list \<Rightarrow> fs \<Rightarrow> fs option" where
  "release_blocks [] s = Some s"
| "release_blocks (b # bs) s =
     (if b \<noteq> 0 then do { s \<leftarrow> free_block b s; release_blocks bs s } else release_blocks bs s)"

definition inode_release :: "u32 \<Rightarrow> fs \<Rightarrow> fs option" where
  "inode_release inode_no s =
     do { (p, s) \<leftarrow> inode_open inode_no s;
          inode_to_del \<leftarrow> inodes s p;
          all_blocks \<leftarrow> all_blocks_of inode_to_del s;
          let table = i_sectors inode_to_del ! 12;
          let block_cnt = (if table \<noteq> 0 then 140 else 12);
          s \<leftarrow> (if table \<noteq> 0 then free_block table s else Some s);
          s \<leftarrow> release_blocks (take block_cnt all_blocks) s;
          s \<leftarrow> inode_bit_free inode_no s;
          s \<leftarrow> bitmap_sync inode_no INODE_BITMAP s;
          let (ok, s) = heap_alloc s;
          if \<not> ok then None
          else do { s \<leftarrow> inode_delete inode_no s; inode_close p s } }"

definition inode_init :: "u32 \<Rightarrow> inode \<Rightarrow> inode" where
  "inode_init inode_no new_inode =
     new_inode\<lparr>i_no := inode_no, i_size := 0, i_open_cnts := 0, write_deny := False, i_sectors := replicate 13 0\<rparr>"

section \<open>The layout of an inode\<close>

lemma length_concat_le32 [simp]: "length (concat (map le32 ws)) = 4 * length ws"
  by (induction ws) simp_all

lemma rd32_concat: "k < length ws \<Longrightarrow> rd32 (concat (map le32 ws) @ bs) (4 * k) = ws ! k"
proof (induction ws arbitrary: k)
  case (Cons w ws)
  then show ?case by (cases k) (simp_all add: codec_simps)
qed simp

lemma rd_words_concat: "rd_words (concat (map le32 ws) @ bs) (length ws) = ws"
  by (rule nth_equalityI) (simp_all add: rd_words_def rd32_concat)

lemma length_inode_bytes [simp]: "length (i_sectors i) = 13 \<Longrightarrow> length (inode_bytes i) = 108"
  by (simp add: inode_bytes_def)

lemma bytes_inode_bytes:
  assumes "length (i_sectors i) = 13"
  shows "bytes_inode (inode_bytes i) = i"
proof -
  have w: "rd_words (drop 48 (inode_bytes i)) 13 = i_sectors i"
    using rd_words_concat [of "i_sectors i" "replicate 8 0"] assms by (simp add: inode_bytes_def)
  have d: "inode_bytes i ! 44 = (if write_deny i then 1 else 0)"
    by (simp add: inode_bytes_def nth_append)
  show ?thesis
    by (rule inode.equality) (simp_all add: bytes_inode_def w d, simp_all add: inode_bytes_def codec_simps)
qed

section \<open>The inode table as one array of bytes\<close>

definition flat :: "medium \<Rightarrow> u32 \<Rightarrow> nat \<Rightarrow> u8" where
  "flat m lba k = m (lba + of_nat (k div 512)) ! (k mod 512)"

lemma nth_read_secs:
  assumes "sectors_ok m" "k < 512 * n"
  shows "read_secs m lba n ! k = flat m lba k"
  using assms(2)
proof (induction n)
  case (Suc n)
  show ?case
  proof (cases "k < 512 * n")
    case True
    then show ?thesis using Suc.IH assms(1) by (simp add: read_secs_Suc nth_append)
  next
    case False
    then have d: "k div 512 = n" using Suc.prems by (simp add: div_nat_eqI)
    then have "k mod 512 = k - 512 * n" using minus_mult_div_eq_mod [of k 512] by simp
    with d show ?thesis using False assms(1) by (simp add: read_secs_Suc nth_append flat_def)
  qed
qed simp

lemma flat_shift: "flat m (lba + of_nat q) k = flat m lba (512 * q + k)"
  by (simp add: flat_def algebra_simps)

lemma take_drop_read_secs:
  assumes "sectors_ok m" "off + l \<le> 512 * n"
  shows "take l (drop off (read_secs m (lba + of_nat q) n)) = map (flat m lba) [512 * q + off..<512 * q + off + l]"
  by (rule nth_equalityI) (use assms in \<open>simp_all add: nth_read_secs flat_shift add.assoc\<close>)

lemma flat_write:
  assumes "sectors_ok m" "length bs = l" "off + l \<le> 512 * n" "n < 2 ^ 16" "q < 2 ^ 16" "k < 2 ^ 25"
  shows "flat (write_secs m (lba + of_nat q) (splice (read_secs m (lba + of_nat q) n) off bs)) lba k =
    (if 512 * q + off \<le> k \<and> k < 512 * q + off + l then bs ! (k - 512 * q - off) else flat m lba k)"
proof -
  let ?buf = "splice (read_secs m (lba + of_nat q) n) off bs"
  have len: "length ?buf = 512 * n" using assms by simp
  let ?a = "lba + of_nat (k div 512) :: u32"
  have kd: "k div 512 < 2 ^ 16" using assms(6) by (simp add: less_mult_imp_div_less)
  show ?thesis
  proof (cases "q \<le> k div 512 \<and> k div 512 < q + n")
    case True
    have e: "?a - (lba + of_nat q) = of_nat (k div 512 - q)" using True by (simp add: of_nat_diff)
    have u: "unat (?a - (lba + of_nat q)) = k div 512 - q"
      unfolding e using kd by (intro unat_of_nat_32) simp
    have i: "512 * (k div 512 - q) + k mod 512 = k - 512 * q" "k - 512 * q < 512 * n" "512 * q \<le> k"
      using True by (simp_all add: diff_mult_distrib2) (use mult_div_mod_eq [of 512 k] in linarith)+
    have "write_secs m (lba + of_nat q) ?buf ?a ! (k mod 512) = take 512 (drop (512 * (k div 512 - q)) ?buf) ! (k mod 512)"
    proof -
      have "k div 512 - q < n" using True by linarith
      then show ?thesis using u len by (simp add: write_secs_def)
    qed
    also have "\<dots> = ?buf ! (k - 512 * q)" using i len by simp
    also have "\<dots> = (if off \<le> k - 512 * q \<and> k - 512 * q < off + l then bs ! (k - 512 * q - off)
        else read_secs m (lba + of_nat q) n ! (k - 512 * q))"
      using assms i by (simp add: nth_splice)
    also have "\<dots> = (if 512 * q + off \<le> k \<and> k < 512 * q + off + l then bs ! (k - 512 * q - off) else flat m lba k)"
      using i assms(1) by (auto simp: nth_read_secs flat_shift)
    finally show ?thesis by (simp add: flat_def)
  next
    case False
    have "n \<le> unat (?a - (lba + of_nat q))"
    proof (cases "q \<le> k div 512")
      case True
      then have e: "?a - (lba + of_nat q) = of_nat (k div 512 - q)" by (simp add: of_nat_diff)
      have "unat (?a - (lba + of_nat q)) = k div 512 - q"
        unfolding e using kd by (intro unat_of_nat_32) simp
      then show ?thesis using True False by simp
    next
      case False
      have "?a - (lba + of_nat q) = of_nat (2 ^ 32 + k div 512 - q)"
      proof -
        have "q \<le> 2 ^ 32 + k div 512" using assms(5) by simp
        then have "(of_nat (2 ^ 32 + k div 512 - q) :: u32) = of_nat (2 ^ 32) + of_nat (k div 512) - of_nat q"
          by (simp only: of_nat_diff of_nat_add)
        then show ?thesis by simp
      qed
      moreover have "unat (of_nat (2 ^ 32 + k div 512 - q) :: u32) = 2 ^ 32 + k div 512 - q"
        using False by (intro unat_of_nat_32) simp
      ultimately have "unat (?a - (lba + of_nat q)) = 2 ^ 32 + k div 512 - q" by (simp only:)
      then show ?thesis using assms(4,5) by simp
    qed
    then have "write_secs m (lba + of_nat q) ?buf ?a = m ?a" using len by (intro write_secs_other) simp
    moreover have "\<not> (512 * q + off \<le> k \<and> k < 512 * q + off + l)"
      using False assms(3) by (auto simp: less_eq_div_iff_mult_less_eq div_less_iff_less_mult algebra_simps)
    ultimately show ?thesis by (auto simp: flat_def)
  qed
qed


section \<open>Slots of the inode table\<close>

text \<open>
  \<open>disk_inode s no\<close> is the inode \<open>no\<close> as the disk has it; \<open>table_ok\<close> says that the table (864
  sectors) lies in the partition and on the disk.
\<close>

definition part_medium :: "fs \<Rightarrow> medium" where
  "part_medium s = media s (my_disk (cur_part s))"

lemma part_medium_simps [simp]:
  "part_medium (s\<lparr>malloc_cnt := c\<rparr>) = part_medium s" "part_medium (s\<lparr>next_ptr := n\<rparr>) = part_medium s"
  "part_medium (s\<lparr>inodes := f\<rparr>) = part_medium s" "part_medium (s\<lparr>dirs := g\<rparr>) = part_medium s"
  "part_medium (s\<lparr>file_table := t\<rparr>) = part_medium s" "part_medium (s\<lparr>intr := i\<rparr>) = part_medium s"
  "part_medium (upd_inode p h s) = part_medium s" "part_medium (upd_task r u s) = part_medium s"
  by (simp_all add: part_medium_def upd_inode_def upd_task_def)

lemma part_read_medium:
  "part_read lba n s = (if lba \<le> max_lba \<and> 0 < n then Some (read_secs (part_medium s) lba n) else None)"
  by (simp add: part_read_def disk_read_def part_medium_def)

definition itab :: "fs \<Rightarrow> u32" where
  "itab s = inode_table_lba (sb (cur_part s))"

definition disk_inode :: "fs \<Rightarrow> nat \<Rightarrow> inode" where
  "disk_inode s no = bytes_inode (map (flat (part_medium s) (itab s)) [108 * no..<108 * no + 108])"

definition table_ok :: "fs \<Rightarrow> bool" where
  "table_ok s \<longleftrightarrow> sectors_ok (part_medium s) \<and> unat (itab s) + 863 \<le> unat max_lba \<and>
     unat (itab s) + 863 \<le> unat (start_lba (cur_part s) + sec_cnt (cur_part s))"

lemma inode_locate_slot:
  assumes "no < 4096"
  shows "\<exists>pos. inode_locate (of_nat no) s = Some pos \<and>
    sec_lba pos = itab s + of_nat (108 * no div 512) \<and> unat (off_size pos) = 108 * no mod 512 \<and>
    unat (off_size pos) + 108 \<le> 512 * inode_secs pos \<and> inode_secs pos \<in> {1, 2} \<and>
    108 * no div 512 + inode_secs pos \<le> 864"
proof -
  have u: "unat (of_nat no :: u32) = no" "unat (of_nat no * 108 :: u32) = 108 * no"
    using assms by (simp_all add: unat_word_ariths unat_of_nat_32)
  have le: "\<not> (of_nat no :: u32) > 4096" using assms u(1) by (simp add: word_less_nat_alt)
  have d: "of_nat no * 108 div 512 = (of_nat (108 * no div 512) :: u32)"
    by (rule word_unat_eq_iff [THEN iffD2]) (use assms in \<open>simp add: unat_div u(2) unat_of_nat_32\<close>)
  have m: "unat (of_nat no * 108 mod 512 :: u32) = 108 * no mod 512"
    by (simp only: unat_mod_word u(2)) simp
  have sub: "unat (512 - of_nat no * 108 mod 512 :: u32) = 512 - 108 * no mod 512"
  proof -
    have "of_nat no * 108 mod 512 \<le> (512 :: u32)" by (simp add: word_le_nat_alt m less_imp_le)
    then show ?thesis by (simp add: unat_sub_le m)
  qed
  have two: "(512 - of_nat no * 108 mod 512 < (108 :: u32)) = (512 - 108 * no mod 512 < 108)"
    by (simp add: word_less_nat_alt sub)
  obtain x y where x: "108 * no mod 512 = x" "x < 512" "108 * no div 512 = y" by simp
  have "512 * y + x = 108 * no" using mult_div_mod_eq [of 512 "108 * no"] by (simp only: x)
  then have y: "512 * y + x + 108 \<le> 512 * 864" using assms by simp
  have A: "y + 2 \<le> 864" if "404 < x" using y that by linarith
  have B: "y + 1 \<le> 864" using y by linarith
  have t: "(512 - x < 108) = (404 < x)" using x(2) by linarith
  show ?thesis
    unfolding inode_locate_def Let_def using le A B x(2)
    by (auto simp: d m two itab_def inode_secs_def x(1,3) t simp del: of_nat_add)
qed

lemma slot_read:
  assumes "table_ok s" "no < 4096" "inode_locate (of_nat no) s = Some pos"
  shows "part_read (sec_lba pos) (inode_secs pos) s =
      Some (read_secs (part_medium s) (itab s + of_nat (108 * no div 512)) (inode_secs pos))"
    "bytes_inode (take 108 (drop (unat (off_size pos))
      (read_secs (part_medium s) (itab s + of_nat (108 * no div 512)) (inode_secs pos)))) = disk_inode s no"
    "sec_lba pos \<le> start_lba (cur_part s) + sec_cnt (cur_part s)"
proof -
  note pos = inode_locate_slot [OF assms(2), of s, unfolded assms(3), simplified]
  have q: "108 * no div 512 < 864" using assms(2) by (simp add: less_mult_imp_div_less)
  have lba: "unat (itab s + of_nat (108 * no div 512)) = unat (itab s) + 108 * no div 512"
  proof -
    have u: "unat (of_nat (108 * no div 512) :: u32) = 108 * no div 512" using q by (intro unat_of_nat_32) simp
    show ?thesis using q assms(1) by (subst unat_add_small) (simp_all only: u, simp add: table_ok_def max_lba_def)
  qed
  show "part_read (sec_lba pos) (inode_secs pos) s =
      Some (read_secs (part_medium s) (itab s + of_nat (108 * no div 512)) (inode_secs pos))"
    using pos q lba assms(1)
    by (auto simp: part_read_def disk_read_def part_medium_def table_ok_def word_le_nat_alt)
  show "sec_lba pos \<le> start_lba (cur_part s) + sec_cnt (cur_part s)"
    using pos q lba assms(1) by (simp add: word_le_nat_alt table_ok_def)
  have "512 * (108 * no div 512) + 108 * no mod 512 = 108 * no" by (rule mult_div_mod_eq)
  then show "bytes_inode (take 108 (drop (unat (off_size pos))
      (read_secs (part_medium s) (itab s + of_nat (108 * no div 512)) (inode_secs pos)))) = disk_inode s no"
    using pos assms(1) by (auto simp: take_drop_read_secs table_ok_def disk_inode_def simp del: of_nat_add)
qed


lemma slot_write:
  assumes "table_ok s" "no < 4096" "inode_locate (of_nat no) s = Some pos" "length bs = 108"
  shows "\<exists>s'. part_write (sec_lba pos) (splice (read_secs (part_medium s) (itab s + of_nat (108 * no div 512))
        (inode_secs pos)) (unat (off_size pos)) bs) s = Some s' \<and>
      (\<forall>k<4096. disk_inode s' k = (if k = no then bytes_inode bs else disk_inode s k)) \<and>
      table_ok s' \<and> (\<exists>m. s' = s\<lparr>media := m\<rparr>) \<and>
      (\<forall>d. d \<noteq> my_disk (cur_part s) \<longrightarrow> media s' d = media s d) \<and>
      (\<forall>a. 864 \<le> unat (a - itab s) \<longrightarrow> part_medium s' a = part_medium s a)"
proof -
  note pos = inode_locate_slot [OF assms(2), of s, unfolded assms(3), simplified]
  let ?q = "108 * no div 512" let ?off = "108 * no mod 512" let ?n = "inode_secs pos"
  let ?m = "part_medium s" let ?T = "itab s"
  let ?buf = "splice (read_secs ?m (?T + of_nat ?q) ?n) ?off bs"
  let ?m' = "write_secs ?m (?T + of_nat ?q) ?buf"
  let ?s' = "s\<lparr>media := (media s)(my_disk (cur_part s) := ?m')\<rparr>"
  have ok: "sectors_ok ?m" using assms(1) by (simp add: table_ok_def)
  have q: "?q < 864" using assms(2) by (simp add: less_mult_imp_div_less)
  have qn: "?q + ?n \<le> 864" using pos by simp
  have n: "?n \<in> {1, 2}" "?off + 108 \<le> 512 * ?n" "unat (off_size pos) = ?off" using pos by auto
  have len: "length ?buf = 512 * ?n" using ok n assms(4) by simp
  have le: "sec_lba pos \<le> max_lba"
    using slot_read(1) [OF assms(1-3)] by (simp add: part_read_def disk_read_def split: if_splits)
  have w: "part_write (sec_lba pos) (splice (read_secs ?m (?T + of_nat ?q) ?n) (unat (off_size pos)) bs) s = Some ?s'"
    using le len n pos by (auto simp: part_write_def disk_write_def part_medium_def)
  have m': "part_medium ?s' = ?m'" "itab ?s' = ?T" by (simp_all add: part_medium_def itab_def)
  have eq: "512 * ?q + ?off = 108 * no" by (rule mult_div_mod_eq)
  have fl: "flat ?m' ?T k = (if 108 * no \<le> k \<and> k < 108 * no + 108 then bs ! (k - 108 * no) else flat ?m ?T k)"
    if "k < 2 ^ 25" for k
    using flat_write [OF ok assms(4) n(2) _ _ that, of ?q ?T] n(1) q eq by (auto simp: diff_diff_left)
  have sl: "map (flat ?m' ?T) [108 * k..<108 * k + 108] =
      (if k = no then bs else map (flat ?m ?T) [108 * k..<108 * k + 108])" if "k < 4096" for k
  proof (rule nth_equalityI)
    show "length (map (flat ?m' ?T) [108 * k..<108 * k + 108]) =
      length (if k = no then bs else map (flat ?m ?T) [108 * k..<108 * k + 108])" using assms(4) by simp
    fix j assume "j < length (map (flat ?m' ?T) [108 * k..<108 * k + 108])"
    then have j: "j < 108" by simp
    have b: "108 * k + j < 2 ^ 25" using that j by simp
    have c: "(108 * no \<le> 108 * k + j \<and> 108 * k + j < 108 * no + 108) = (k = no)" using j by auto
    show "map (flat ?m' ?T) [108 * k..<108 * k + 108] ! j =
      (if k = no then bs else map (flat ?m ?T) [108 * k..<108 * k + 108]) ! j"
      using j fl [OF b, unfolded c] by auto
  qed
  show ?thesis
  proof (intro exI [of _ ?s'] conjI)
    show "\<forall>k<4096. disk_inode ?s' k = (if k = no then bytes_inode bs else disk_inode s k)"
      using sl by (simp only: disk_inode_def m') (auto simp: sl)
    show "\<exists>m. ?s' = s\<lparr>media := m\<rparr>" by blast
    show "table_ok ?s'" using assms(1) ok unfolding table_ok_def m' by simp
    show "\<forall>a. 864 \<le> unat (a - ?T) \<longrightarrow> part_medium ?s' a = ?m a"
    proof (intro allI impI)
      fix a assume a: "864 \<le> unat (a - ?T)"
      have u: "unat (of_nat ?q :: u32) = ?q" using q by (intro unat_of_nat_32) simp
      have "of_nat ?q \<le> a - ?T" using a q by (simp only: word_le_nat_alt u)
      then have "unat (a - ?T - of_nat ?q) = unat (a - ?T) - ?q" using u by (simp add: unat_sub_le)
      then have "unat (a - (?T + of_nat ?q)) = unat (a - ?T) - ?q" by (simp add: diff_diff_eq)
      then have "?n \<le> unat (a - (?T + of_nat ?q))" using a qn by linarith
      then have "length ?buf div 512 \<le> unat (a - (?T + of_nat ?q))" unfolding len by simp
      then show "part_medium ?s' a = ?m a" unfolding m' by (rule write_secs_other)
    qed
  qed (use w in \<open>simp_all add: part_medium_def\<close>)
qed

lemma ucast_u8_nat: "ucast (ucast (w :: u32) :: u8) = (of_nat (unat w mod 256) :: u32)"
  by (rule word_unat_eq_iff [THEN iffD2]) (simp add: unsigned_ucast_eq take_bit_eq_mod unat_of_nat unat_mod_word)

lemma inode_sync_slot:
  assumes "table_ok s" "length (i_sectors i) = 13" "mallocs s (malloc_cnt s)"
  shows "\<exists>s'. inode_sync i s = Some s' \<and>
      (\<forall>k<4096. disk_inode s' k =
         (if k = unat (i_no i) mod 256 then i\<lparr>i_open_cnts := 0, write_deny := False\<rparr> else disk_inode s k)) \<and>
      table_ok s' \<and> (\<exists>m. s' = s\<lparr>malloc_cnt := Suc (malloc_cnt s), media := m\<rparr>) \<and>
      (\<forall>d. d \<noteq> my_disk (cur_part s) \<longrightarrow> media s' d = media s d) \<and>
      (\<forall>a. 864 \<le> unat (a - itab s) \<longrightarrow> part_medium s' a = part_medium s a)"
proof -
  let ?no = "unat (i_no i) mod 256" let ?i = "i\<lparr>i_open_cnts := 0, write_deny := False\<rparr>"
  let ?s = "s\<lparr>malloc_cnt := Suc (malloc_cnt s)\<rparr>"
  have no: "?no < 4096" by (rule less_le_trans [of _ 256]) simp_all
  obtain pos where pos: "inode_locate (of_nat ?no) s = Some pos" using inode_locate_slot [OF no, of s] by blast
  have same: "part_medium ?s = part_medium s" "itab ?s = itab s" "disk_inode ?s = disk_inode s" "table_ok ?s = table_ok s"
    "inode_locate (of_nat ?no) ?s = inode_locate (of_nat ?no) s"
    by (simp_all add: part_medium_def itab_def disk_inode_def table_ok_def inode_locate_def fun_eq_iff)
  have ok: "table_ok ?s" using assms(1) same by simp
  have pos': "inode_locate (of_nat ?no) ?s = Some pos" using pos same by simp
  have len: "length (inode_bytes ?i) = 108" using assms(2) by simp
  obtain s' where s': "part_write (sec_lba pos) (splice (read_secs (part_medium ?s) (itab ?s + of_nat (108 * ?no div 512))
        (inode_secs pos)) (unat (off_size pos)) (inode_bytes ?i)) ?s = Some s'"
    "\<forall>k<4096. disk_inode s' k = (if k = ?no then bytes_inode (inode_bytes ?i) else disk_inode ?s k)"
    "table_ok s'" "\<exists>m. s' = ?s\<lparr>media := m\<rparr>"
    "\<forall>d. d \<noteq> my_disk (cur_part ?s) \<longrightarrow> media s' d = media ?s d"
    "\<forall>a. 864 \<le> unat (a - itab ?s) \<longrightarrow> part_medium s' a = part_medium ?s a"
    using slot_write [OF ok no pos' len] by blast
  have "inode_sync i s = Some s'"
    using slot_read(1) [OF ok no pos'] slot_read(3) [OF assms(1) no pos] s'(1) assms(3)
    by (simp add: inode_sync_def ucast_u8_nat pos heap_alloc_def)
  moreover have "bytes_inode (inode_bytes ?i) = ?i" using assms(2) by (simp add: bytes_inode_bytes)
  ultimately show ?thesis using s' same by (intro exI [of _ s']) simp
qed


lemma inode_open_fresh:
  assumes "table_ok s" "no < 4096" "\<forall>k. mallocs s k"
    "find_open (inodes s) (of_nat no) (open_inodes (cur_part s)) = Some None"
  shows "inode_open (of_nat no) s = Some (next_ptr s,
      s\<lparr>malloc_cnt := malloc_cnt s + 2, next_ptr := next_ptr s + 1,
        cur_part := (cur_part s)\<lparr>open_inodes := next_ptr s # open_inodes (cur_part s)\<rparr>,
        inodes := (inodes s)(next_ptr s \<mapsto> (disk_inode s no)\<lparr>i_open_cnts := 1\<rparr>)\<rparr>)"
proof -
  obtain pos where pos: "inode_locate (of_nat no) s = Some pos" using inode_locate_slot [OF assms(2), of s] by blast
  have "sec_lba pos \<le> max_lba" "0 < inode_secs pos"
    using slot_read(1) [OF assms(1,2) pos] by (simp_all add: part_read_medium split: if_splits)
  then show ?thesis
    using slot_read(1,2) [OF assms(1,2) pos] assms(3,4)
    by (simp add: inode_open_def pos heap_alloc_def Let_def upd_part_def part_read_medium)
qed

section \<open>Synchronising and opening\<close>

text \<open>
  C19. An inode written back by \<open>inode_sync\<close> is the one a later \<open>inode_open\<close> of its number
  reads from the disk: for every inode number below 256 (and memory for the buffers), the call
  returns, the slots of all other inodes and every sector outside the table are as before, and
  opening the number (not open yet) gives a fresh structure at the head of the list of open
  inodes with all fields of the inode written, opened once and not locked for writing.
\<close>

theorem inode_sync_open_roundtrip:
  assumes "table_ok s" "length (i_sectors i) = 13" "unat (i_no i) < 256" "\<forall>k. mallocs s k"
    "find_open (inodes s) (i_no i) (open_inodes (cur_part s)) = Some None"
  shows "\<exists>s1 s2. inode_sync i s = Some s1 \<and>
    (\<forall>k<4096. k \<noteq> unat (i_no i) \<longrightarrow> disk_inode s1 k = disk_inode s k) \<and>
    (\<forall>a. 864 \<le> unat (a - itab s) \<longrightarrow> part_medium s1 a = part_medium s a) \<and>
    inode_open (i_no i) s1 = Some (next_ptr s, s2) \<and>
    inodes s2 (next_ptr s) = Some (i\<lparr>i_open_cnts := 1, write_deny := False\<rparr>) \<and>
    open_inodes (cur_part s2) = next_ptr s # open_inodes (cur_part s)"
proof -
  have n: "unat (i_no i) < 4096" "unat (i_no i) mod 256 = unat (i_no i)" using assms(3) by auto
  obtain s1 where s1: "inode_sync i s = Some s1"
    "\<forall>k<4096. disk_inode s1 k = (if k = unat (i_no i) then i\<lparr>i_open_cnts := 0, write_deny := False\<rparr> else disk_inode s k)"
    "table_ok s1" "\<exists>m. s1 = s\<lparr>malloc_cnt := Suc (malloc_cnt s), media := m\<rparr>"
    "\<forall>a. 864 \<le> unat (a - itab s) \<longrightarrow> part_medium s1 a = part_medium s a"
    using inode_sync_slot [OF assms(1,2)] assms(4) n by auto
  have f: "mallocs s1 = mallocs s" "inodes s1 = inodes s" "cur_part s1 = cur_part s" "next_ptr s1 = next_ptr s"
    using s1(4) by auto
  have "inode_open (of_nat (unat (i_no i))) s1 = Some (next_ptr s1,
      s1\<lparr>malloc_cnt := malloc_cnt s1 + 2, next_ptr := next_ptr s1 + 1,
        cur_part := (cur_part s1)\<lparr>open_inodes := next_ptr s1 # open_inodes (cur_part s1)\<rparr>,
        inodes := (inodes s1)(next_ptr s1 \<mapsto> (disk_inode s1 (unat (i_no i)))\<lparr>i_open_cnts := 1\<rparr>)\<rparr>)"
    by (rule inode_open_fresh) (use s1(3) n(1) assms(4,5) f in auto)
  then show ?thesis using s1 n f by auto
qed

text \<open>
  C39. \<open>inode_sync\<close> keeps the inode number in a \<^verbatim>\<open>uint8_t\<close>: an inode with a number from 256 on
  is written into the slot of its number modulo 256, whose inode it destroys, while its own slot
  stays as it was.
\<close>

theorem inode_sync_truncates:
  assumes "table_ok s" "length (i_sectors i) = 13" "256 \<le> unat (i_no i)" "unat (i_no i) < 4096"
    "mallocs s (malloc_cnt s)"
  shows "\<exists>s1. inode_sync i s = Some s1 \<and>
    disk_inode s1 (unat (i_no i) mod 256) = i\<lparr>i_open_cnts := 0, write_deny := False\<rparr> \<and>
    disk_inode s1 (unat (i_no i)) = disk_inode s (unat (i_no i))"
proof -
  have "unat (i_no i) mod 256 < 4096" by (rule less_le_trans [of _ 256]) simp_all
  moreover have "unat (i_no i) \<noteq> unat (i_no i) mod 256" using assms(3) by (metis le_less_trans mod_less_divisor not_less zero_less_numeral)
  ultimately show ?thesis using inode_sync_slot [OF assms(1,2,5)] assms(4) by fastforce
qed


section \<open>A small mounted partition\<close>

text \<open>2000 sectors formatted as \<^verbatim>\<open>partition_format\<close> lays them out, one open empty file (number 1) at 2.\<close>

definition demo_part :: partition where
  "demo_part =
     \<lparr>start_lba = 0, sec_cnt = 2000, my_disk = (0, 1), part_name = [115, 100, 98, 49],
      sb = \<lparr>magic = 0x19590318, sb_sec_cnt = 2000, inode_cnt = 4096, part_lba_base = 0, block_bitmap_lba = 2,
            block_bitmap_sects = 1, inode_bitmap_lba = 3, inode_bitmap_sects = 1, inode_table_lba = 4,
            inode_table_sects = 864, data_start_lba = 868, root_inode_no = 0, dir_entry_size = 24\<rparr>,
      block_bitmap = \<lparr>btmp_bytes_len = 128, bits = (\<lambda>i. if i = 0 then 1 else 0)\<rparr>,
      inode_bitmap = \<lparr>btmp_bytes_len = 512, bits = (\<lambda>i. if i = 0 then 3 else 0)\<rparr>, open_inodes = [2]\<rparr>"

definition demo_inode :: inode where
  "demo_inode =
     \<lparr>i_no = 1, i_size = 0, user_id = 0, ctime = 5, mtime = 6, atime = 7, privilege = 4, i_open_cnts = 1,
      write_deny = False, i_sectors = replicate 13 0\<rparr>"

definition demo_fs :: fs where
  "demo_fs =
     \<lparr>ptab = ptab demo_sched, tasks = (\<lambda>t. (tasks demo_sched t)\<lparr>fd_table := [0, 1, 2, 3, -1, -1, -1, -1]\<rparr>),
      running = running demo_sched,
      thread_ready_list = thread_ready_list demo_sched, thread_all_list = thread_all_list demo_sched,
      main_thread = main_thread demo_sched, idle_thread = idle_thread demo_sched, intr = INTR_ON,
      cr3 = cr3 demo_sched, tss_esp0 = tss_esp0 demo_sched, ticks = ticks demo_sched,
      media = (\<lambda>_ _. replicate 512 0), cur_part = demo_part,
      inodes = [2 \<mapsto> demo_inode], dirs = Map.empty, next_ptr = 3,
      file_table = map (\<lambda>k. \<lparr>fd_pos = 0, fd_flag = 2, fd_inode = (if k = 3 then 2 else 0)\<rparr>) [0..<32],
      mallocs = (\<lambda>_. True), malloc_cnt = 0, junk_inode = demo_inode, junk_blocks = replicate 128 0,
      junk_ino = 0, junk_byte = 0, kbd_input = [], console = []\<rparr>"

lemma demo_fs_table: "table_ok demo_fs" "\<forall>k. mallocs demo_fs k"
  by (simp_all add: table_ok_def demo_fs_def demo_part_def part_medium_def itab_def sectors_ok_def max_lba_def)

theorem inode_sync_open_roundtrip_witness:
  "\<exists>s1 s2. inode_sync (demo_inode\<lparr>i_no := 7, i_size := 9\<rparr>) demo_fs = Some s1 \<and> inode_open 7 s1 = Some (3, s2) \<and>
     inodes s2 3 = Some (demo_inode\<lparr>i_no := 7, i_size := 9\<rparr>)"
proof -
  have "find_open (inodes demo_fs) 7 (open_inodes (cur_part demo_fs)) = Some None"
    by (simp add: demo_fs_def demo_part_def demo_inode_def)
  then show ?thesis
    using inode_sync_open_roundtrip [OF demo_fs_table(1), of "demo_inode\<lparr>i_no := 7, i_size := 9\<rparr>"] demo_fs_table(2)
    by (simp add: demo_inode_def demo_fs_def) blast
qed

theorem inode_sync_truncates_witness:
  "\<exists>s1. inode_sync (demo_inode\<lparr>i_no := 263\<rparr>) demo_fs = Some s1 \<and>
     i_no (disk_inode s1 7) = 263 \<and> disk_inode s1 263 = disk_inode demo_fs 263"
  using inode_sync_truncates [OF demo_fs_table(1), of "demo_inode\<lparr>i_no := 263\<rparr>"] demo_fs_table(2)
  by (auto simp: demo_inode_def)

end
