(* ===== verification/Dir.thy ===== *)
theory Dir
  imports Inode
begin

text \<open>
  Directories: \<^verbatim>\<open>src/fs/dir.c\<close>. A directory file is a sequence of 24-byte entries, 21 to a
  sector; an entry of type \<^verbatim>\<open>FT_UNKNOWN\<close> is free. The code steps through a sector with
  \<^verbatim>\<open>sizeof(struct dir_entry)\<close> (24) and counts and copies with \<^verbatim>\<open>dir_entry_size\<close> of the super
  block; both are kept apart here. A division by a zero entry size traps (\<open>None\<close>).
\<close>

section \<open>Entries\<close>

definition FT_UNKNOWN :: u32 where "FT_UNKNOWN = 0"
definition FT_REGULAR :: u32 where "FT_REGULAR = 1"
definition FT_DIRECTORY :: u32 where "FT_DIRECTORY = 2"

record dir_entry =
  filename :: "u8 list"
  de_i_no :: u32
  f_type :: u32

definition de_bytes :: "dir_entry \<Rightarrow> u8 list" where
  "de_bytes e = filename e @ le32 (de_i_no e) @ le32 (f_type e)"

definition bytes_de :: "u8 list \<Rightarrow> dir_entry" where
  "bytes_de bs = \<lparr>filename = take 16 bs, de_i_no = rd32 bs 16, f_type = rd32 bs 20\<rparr>"

text \<open>Entry \<open>k\<close> of a sector, its type, and its name (a C string that may run on behind the entry).\<close>

definition de_at :: "u8 list \<Rightarrow> nat \<Rightarrow> dir_entry" where
  "de_at buf k = bytes_de (take 24 (drop (24 * k) buf))"

definition name_at :: "u8 list \<Rightarrow> nat \<Rightarrow> u8 list" where
  "name_at buf k = cstr (drop (24 * k) buf)"

definition zero_de :: dir_entry where
  "zero_de = \<lparr>filename = replicate 16 0, de_i_no = 0, f_type = 0\<rparr>"

text \<open>Entries per sector; \<open>None\<close> is the division by zero.\<close>

definition entrys_per_sec :: "fs \<Rightarrow> nat option" where
  "entrys_per_sec s =
     (let sz = dir_entry_size (sb (cur_part s)) in if sz = 0 then None else Some (unat (512 div sz)))"

definition de_size :: "fs \<Rightarrow> nat" where
  "de_size s = unat (dir_entry_size (sb (cur_part s)))"

section \<open>Opening and closing\<close>

definition open_root_dir :: "fs \<Rightarrow> fs option" where
  "open_root_dir s =
     do { (p, s) \<leftarrow> inode_open (root_inode_no (sb (cur_part s))) s;
          Some (s\<lparr>dirs := (dirs s)(root_dir \<mapsto> \<lparr>d_inode = p, dir_pos = 0\<rparr>)\<rparr>) }"

definition dir_open :: "u32 \<Rightarrow> fs \<Rightarrow> (nat \<times> fs) option" where
  "dir_open inode_no s =
     do { let (ok, s) = heap_alloc s;
          if \<not> ok then None
          else do {
            let pdir = next_ptr s;
            let s = s\<lparr>next_ptr := pdir + 1\<rparr>;
            (p, s) \<leftarrow> inode_open inode_no s;
            Some (pdir, s\<lparr>dirs := (dirs s)(pdir \<mapsto> \<lparr>d_inode = p, dir_pos = 0\<rparr>)\<rparr>) } }"

definition dir_close :: "nat \<Rightarrow> fs \<Rightarrow> fs option" where
  "dir_close dir s =
     (if dir = root_dir then Some s
      else do { d \<leftarrow> dirs s dir;
                s \<leftarrow> inode_close (d_inode d) s;
                Some (s\<lparr>dirs := (dirs s)(dir := None)\<rparr>) })"

definition dir_inode_of :: "nat \<Rightarrow> fs \<Rightarrow> inode option" where
  "dir_inode_of dir s = do { d \<leftarrow> dirs s dir; inodes s (d_inode d) }"

section \<open>Searching\<close>

text \<open>A hole (block number 0) makes the loop of the code skip the next block, too.\<close>

fun search_blocks :: "nat \<Rightarrow> u8 list \<Rightarrow> u32 list \<Rightarrow> fs \<Rightarrow> dir_entry option option" where
  "search_blocks cnt name [] s = Some None"
| "search_blocks cnt name (b # bs) s =
     (if b = 0 then (case bs of [] \<Rightarrow> Some None | _ # bs' \<Rightarrow> search_blocks cnt name bs' s)
      else do {
        buf \<leftarrow> part_read b 1 s;
        case find (\<lambda>k. name_at buf k = name) [0..<cnt] of
          Some k \<Rightarrow> Some (Some (bytes_de (take (de_size s) (drop (24 * k) buf))))
        | None \<Rightarrow> search_blocks cnt name bs s })"

definition search_dir_entry :: "nat \<Rightarrow> u8 list \<Rightarrow> fs \<Rightarrow> (dir_entry option \<times> fs) option" where
  "search_dir_entry pdir name s =
     do { let (ok, s) = heap_alloc s;
          if \<not> ok then Some (None, s)
          else do {
            i \<leftarrow> dir_inode_of pdir s;
            all_blocks \<leftarrow> all_blocks_of i s;
            let (ok, s) = heap_alloc s;
            if \<not> ok then None
            else do {
              cnt \<leftarrow> entrys_per_sec s;
              found \<leftarrow> search_blocks cnt name all_blocks s;
              Some (found, s) } } }"

section \<open>Inserting\<close>

definition create_dir_entry :: "u8 list \<Rightarrow> u32 \<Rightarrow> u32 \<Rightarrow> dir_entry \<Rightarrow> dir_entry option" where
  "create_dir_entry name inode_no file_type p_de =
     (if length name \<le> 24
      then Some ((bytes_de (splice (de_bytes p_de) 0 name))\<lparr>de_i_no := inode_no, f_type := file_type\<rparr>)
      else None)"

definition set_sector :: "nat \<Rightarrow> u32 \<Rightarrow> inode \<Rightarrow> inode" where
  "set_sector k lba i = i\<lparr>i_sectors := (i_sectors i)[k := lba]\<rparr>"

definition grow :: "nat \<Rightarrow> u32 \<Rightarrow> fs \<Rightarrow> fs" where
  "grow ip n s = upd_inode ip (\<lambda>i. i\<lparr>i_size := i_size i + n\<rparr>) s"

definition word_bytes :: "u32 list \<Rightarrow> u8 list" where
  "word_bytes ws = concat (map le32 ws)"

text \<open>The tail of the allocating branch: a fresh sector that holds only the new entry.\<close>

definition write_first_entry :: "nat \<Rightarrow> dir_entry \<Rightarrow> u32 \<Rightarrow> fs \<Rightarrow> (bool \<times> fs) option" where
  "write_first_entry ip p_de lba s =
     do { let io_buf = splice (replicate 512 0) 0 (take (de_size s) (de_bytes p_de));
          s \<leftarrow> part_write lba io_buf s;
          Some (True, grow ip (dir_entry_size (sb (cur_part s))) s) }"

definition sync_new_block :: "nat \<Rightarrow> dir_entry \<Rightarrow> nat \<Rightarrow> u32 list \<Rightarrow> fs \<Rightarrow> (bool \<times> fs) option" where
  "sync_new_block ip p_de block_idx all_blocks s =
     do { (r, s) \<leftarrow> block_bitmap_alloc s;
          case r of
            None \<Rightarrow> Some (False, s)
          | Some block_lba \<Rightarrow> do {
              s \<leftarrow> bitmap_sync (block_lba - data_start_lba (sb (cur_part s))) BLOCK_BITMAP s;
              if block_idx < 12 then
                write_first_entry ip p_de block_lba (upd_inode ip (set_sector block_idx block_lba) s)
              else if block_idx = 12 then do {
                let s = upd_inode ip (set_sector 12 block_lba) s;
                (r2, s) \<leftarrow> block_bitmap_alloc s;
                case r2 of
                  None \<Rightarrow> do {
                    s \<leftarrow> block_bit_free (block_lba - data_start_lba (sb (cur_part s))) s;
                    Some (False, upd_inode ip (set_sector 12 0) s) }
                | Some lba2 \<Rightarrow> do {
                    s \<leftarrow> bitmap_sync (lba2 - data_start_lba (sb (cur_part s))) BLOCK_BITMAP s;
                    s \<leftarrow> part_write block_lba (word_bytes (drop 12 (all_blocks[12 := lba2]))) s;
                    write_first_entry ip p_de lba2 s } }
              else do {
                i \<leftarrow> inodes s ip;
                s \<leftarrow> part_write (i_sectors i ! 12) (word_bytes (drop 12 (all_blocks[block_idx := block_lba]))) s;
                write_first_entry ip p_de block_lba s } } }"

fun sync_loop :: "nat \<Rightarrow> dir_entry \<Rightarrow> nat \<Rightarrow> u32 list \<Rightarrow> nat list \<Rightarrow> fs \<Rightarrow> (bool \<times> fs) option" where
  "sync_loop ip p_de per all_blocks [] s = Some (False, s)"
| "sync_loop ip p_de per all_blocks (block_idx # rest) s =
     (if all_blocks ! block_idx = 0 then sync_new_block ip p_de block_idx all_blocks s
      else do {
        io_buf \<leftarrow> part_read (all_blocks ! block_idx) 1 s;
        case find (\<lambda>k. f_type (de_at io_buf k) = FT_UNKNOWN) [0..<per] of
          Some k \<Rightarrow> do {
            s \<leftarrow> part_write (all_blocks ! block_idx) (splice io_buf (24 * k) (take (de_size s) (de_bytes p_de))) s;
            Some (True, grow ip (dir_entry_size (sb (cur_part s))) s) }
        | None \<Rightarrow> sync_loop ip p_de per all_blocks rest s })"

text \<open>The entries behind the twelfth of the stack array \<^verbatim>\<open>all_blocks\<close> are never set: \<open>junk_blocks\<close>.\<close>

definition sync_dir_entry :: "nat \<Rightarrow> dir_entry \<Rightarrow> fs \<Rightarrow> (bool \<times> fs) option" where
  "sync_dir_entry parent_dir p_de s =
     do { d \<leftarrow> dirs s parent_dir;
          i \<leftarrow> inodes s (d_inode d);
          per \<leftarrow> entrys_per_sec s;
          if i_size i mod dir_entry_size (sb (cur_part s)) \<noteq> 0 then None
          else sync_loop (d_inode d) p_de per (take 12 (i_sectors i) @ take 128 (junk_blocks s)) [0..<140] s }"

section \<open>Deleting\<close>

record block_scan =
  is_dir_first_block :: bool
  dir_entry_cnt :: nat
  dir_entry_found :: "nat option"

fun scan_block :: "u8 list \<Rightarrow> u32 \<Rightarrow> nat list \<Rightarrow> block_scan \<Rightarrow> block_scan option" where
  "scan_block buf inode_no [] sc = Some sc"
| "scan_block buf inode_no (k # ks) sc =
     (if f_type (de_at buf k) \<noteq> FT_UNKNOWN then
        if name_at buf k = [46] then scan_block buf inode_no ks (sc\<lparr>is_dir_first_block := True\<rparr>)
        else if name_at buf k \<noteq> [46, 46] then
          let sc = sc\<lparr>dir_entry_cnt := dir_entry_cnt sc + 1\<rparr>
          in if de_i_no (de_at buf k) = inode_no then
               if dir_entry_found sc \<noteq> None then None
               else scan_block buf inode_no ks (sc\<lparr>dir_entry_found := Some k\<rparr>)
             else scan_block buf inode_no ks sc
        else scan_block buf inode_no ks sc
      else scan_block buf inode_no ks sc)"

definition drop_block :: "nat \<Rightarrow> nat \<Rightarrow> u32 list \<Rightarrow> fs \<Rightarrow> fs option" where
  "drop_block ip block_idx all_blocks s =
     do { s \<leftarrow> free_block (all_blocks ! block_idx) s;
          if block_idx < 12 then Some (upd_inode ip (set_sector block_idx 0) s)
          else do {
            i \<leftarrow> inodes s ip;
            let indirect_blocks = length (filter (\<lambda>b. b \<noteq> 0) (drop 12 all_blocks));
            if 1 < indirect_blocks
            then part_write (i_sectors i ! 12) (word_bytes (drop 12 (all_blocks[block_idx := 0]))) s
            else do { s \<leftarrow> free_block (i_sectors i ! 12) s; Some (upd_inode ip (set_sector 12 0) s) } } }"

fun delete_loop :: "nat \<Rightarrow> u32 \<Rightarrow> nat \<Rightarrow> u32 list \<Rightarrow> nat list \<Rightarrow> fs \<Rightarrow> (bool \<times> fs) option" where
  "delete_loop ip inode_no per all_blocks [] s = Some (False, s)"
| "delete_loop ip inode_no per all_blocks (block_idx # rest) s =
     (if all_blocks ! block_idx = 0 then delete_loop ip inode_no per all_blocks rest s
      else do {
        io_buf \<leftarrow> part_read (all_blocks ! block_idx) 1 s;
        sc \<leftarrow> scan_block io_buf inode_no [0..<per]
               \<lparr>is_dir_first_block = False, dir_entry_cnt = 0, dir_entry_found = None\<rparr>;
        case dir_entry_found sc of
          None \<Rightarrow> delete_loop ip inode_no per all_blocks rest s
        | Some k \<Rightarrow> if dir_entry_cnt sc < 1 then None else do {
            s \<leftarrow> (if dir_entry_cnt sc = 1 \<and> \<not> is_dir_first_block sc then drop_block ip block_idx all_blocks s
                  else part_write (all_blocks ! block_idx) (splice io_buf (24 * k) (replicate (de_size s) 0)) s);
            i \<leftarrow> inodes s ip;
            if i_size i < dir_entry_size (sb (cur_part s)) then None
            else do {
              let s = upd_inode ip (\<lambda>i. i\<lparr>i_size := i_size i - dir_entry_size (sb (cur_part s))\<rparr>) s;
              i \<leftarrow> inodes s ip;
              s \<leftarrow> inode_sync i s;
              Some (True, s) } } })"

definition delete_dir_entry :: "nat \<Rightarrow> u32 \<Rightarrow> fs \<Rightarrow> (bool \<times> fs) option" where
  "delete_dir_entry pdir inode_no s =
     do { d \<leftarrow> dirs s pdir;
          i \<leftarrow> inodes s (d_inode d);
          all_blocks \<leftarrow> all_blocks_of i s;
          per \<leftarrow> entrys_per_sec s;
          delete_loop (d_inode d) inode_no per all_blocks [0..<140] s }"

section \<open>Listing and removing\<close>

text \<open>
  The entries of one sector, from index \<open>k\<close> on: \<open>Inr k\<close> is the entry at the directory
  position, \<open>Inl pos\<close> the position counted so far when the sector has no more.
\<close>

fun read_entries :: "u8 list \<Rightarrow> u32 \<Rightarrow> u32 \<Rightarrow> nat list \<Rightarrow> u32 \<Rightarrow> (u32 + nat) option" where
  "read_entries buf sz pos [] cur = Some (Inl cur)"
| "read_entries buf sz pos (k # ks) cur =
     (if f_type (de_at buf k) \<noteq> 0 then
        if cur < pos then read_entries buf sz pos ks (cur + sz)
        else if cur \<noteq> pos then None else Some (Inr k)
      else read_entries buf sz pos ks cur)"

fun dir_read_loop :: "nat \<Rightarrow> nat \<Rightarrow> u32 list \<Rightarrow> u32 \<Rightarrow> fs \<Rightarrow> (dir_entry option \<times> fs) option" where
  "dir_read_loop dir per [] cur s = Some (None, s)"
| "dir_read_loop dir per (b # bs) cur s =
     do { d \<leftarrow> dirs s dir;
          i \<leftarrow> inodes s (d_inode d);
          if i_size i \<le> dir_pos d then Some (None, s)
          else if b = 0 then dir_read_loop dir per bs cur s
          else do {
            buf \<leftarrow> part_read b 1 s;
            let sz = dir_entry_size (sb (cur_part s));
            r \<leftarrow> read_entries buf sz (dir_pos d) [0..<per] cur;
            case r of
              Inl cur \<Rightarrow> dir_read_loop dir per bs cur s
            | Inr k \<Rightarrow> Some (Some (de_at buf k), s\<lparr>dirs := (dirs s)(dir \<mapsto> d\<lparr>dir_pos := dir_pos d + sz\<rparr>)\<rparr>) } }"

definition dir_read :: "nat \<Rightarrow> fs \<Rightarrow> (dir_entry option \<times> fs) option" where
  "dir_read dir s =
     do { i \<leftarrow> dir_inode_of dir s;
          all_blocks \<leftarrow> all_blocks_of i s;
          let block_cnt = (if i_sectors i ! 12 \<noteq> 0 then 140 else 12);
          per \<leftarrow> entrys_per_sec s;
          dir_read_loop dir per (take block_cnt all_blocks) 0 s }"

definition dir_is_empty :: "nat \<Rightarrow> fs \<Rightarrow> bool option" where
  "dir_is_empty dir s =
     do { i \<leftarrow> dir_inode_of dir s; Some (i_size i = dir_entry_size (sb (cur_part s)) * 2) }"

text \<open>\<open>True\<close> is the code's 0, \<open>False\<close> its -1.\<close>

definition dir_remove :: "nat \<Rightarrow> nat \<Rightarrow> fs \<Rightarrow> (bool \<times> fs) option" where
  "dir_remove parent_dir child_dir s =
     do { i \<leftarrow> dir_inode_of child_dir s;
          if \<exists>k\<in>{1..<13}. i_sectors i ! k \<noteq> 0 then None
          else do {
            let (ok, s) = heap_alloc s;
            if \<not> ok then Some (False, s)
            else do {
              (deleted, s) \<leftarrow> delete_dir_entry parent_dir (i_no i) s;
              i \<leftarrow> dir_inode_of child_dir s;
              s \<leftarrow> inode_release (i_no i) s;
              Some (True, s) } } }"

end
