(* ===== verification/File.thy ===== *)
theory File
  imports Dir
begin

text \<open>
  Open files: \<^verbatim>\<open>src/fs/file.c\<close> (its bitmap functions are in Inode). \<open>file_table\<close> is the
  table of all open files, a process's \<^verbatim>\<open>fd_table\<close> maps its descriptors into it. The
  32-bit results of the code are words, its -1 is \<open>-1\<close>.
\<close>

definition MAX_FILE_OPEN :: nat where "MAX_FILE_OPEN = 32"
definition MAX_FILES_OPEN_PER_PROC :: nat where "MAX_FILES_OPEN_PER_PROC = 8"

definition O_WRONLY :: u32 where "O_WRONLY = 1"
definition O_RDWR :: u32 where "O_RDWR = 2"
definition O_CREAT :: u32 where "O_CREAT = 4"

section \<open>Descriptors\<close>

definition get_free_slot_in_global :: "fs \<Rightarrow> nat option" where
  "get_free_slot_in_global s = find (\<lambda>k. fd_inode (file_table s ! k) = 0) [3..<MAX_FILE_OPEN]"

definition pcb_fd_install :: "u32 \<Rightarrow> fs \<Rightarrow> u32 \<times> fs" where
  "pcb_fd_install globa_fd_idx s =
     (let cur = running s; tab = fd_table (tasks s cur)
      in case find (\<lambda>k. tab ! k = -1) [3..<MAX_FILES_OPEN_PER_PROC] of
           Some k \<Rightarrow> (of_nat k, upd_task cur (\<lambda>t. t\<lparr>fd_table := tab[k := globa_fd_idx]\<rparr>) s)
         | None \<Rightarrow> (-1, s))"

definition set_file :: "nat \<Rightarrow> ofile \<Rightarrow> fs \<Rightarrow> fs" where
  "set_file k f s = s\<lparr>file_table := (file_table s)[k := f]\<rparr>"

section \<open>Creating, opening, closing\<close>

text \<open>
  The rollback of \<^verbatim>\<open>file_create\<close>: step 3 clears the slot of the file table, step 2 frees the
  new inode, step 1 the inode bit; each falls through to the next.
\<close>

definition create_rollback :: "nat \<Rightarrow> nat \<Rightarrow> nat \<Rightarrow> u32 \<Rightarrow> fs \<Rightarrow> (u32 \<times> fs) option" where
  "create_rollback step fd_idx ip inode_no s =
     do { let s = (if step = 3 then set_file fd_idx \<lparr>fd_pos = 0, fd_flag = 0, fd_inode = 0\<rparr> s else s);
          let s = (if 2 \<le> step then s\<lparr>inodes := (inodes s)(ip := None)\<rparr> else s);
          s \<leftarrow> (if 1 \<le> step then inode_bit_free inode_no s else Some s);
          Some (-1, s) }"

text \<open>A zeroed \<^verbatim>\<open>struct inode\<close>, as \<^verbatim>\<open>sys_malloc\<close> gives it.\<close>

definition zero_inode :: inode where
  "zero_inode =
     \<lparr>i_no = 0, i_size = 0, user_id = 0, ctime = 0, mtime = 0, atime = 0, privilege = 0, i_open_cnts = 0,
      write_deny = False, i_sectors = replicate 13 0\<rparr>"

definition file_create :: "nat \<Rightarrow> u8 list \<Rightarrow> u8 \<Rightarrow> fs \<Rightarrow> (u32 \<times> fs) option" where
  "file_create parent_dir name flag s =
     do { let (ok, s) = heap_alloc s;
          if \<not> ok then Some (-1, s)
          else do {
            (r, s) \<leftarrow> inode_bitmap_alloc s;
            case r of
              None \<Rightarrow> Some (-1, s)
            | Some inode_no \<Rightarrow> do {
                let (ok, s) = heap_alloc s;
                if \<not> ok then create_rollback 1 0 0 inode_no s
                else do {
                  let ip = next_ptr s;
                  let s = s\<lparr>next_ptr := ip + 1, inodes := (inodes s)(ip \<mapsto> inode_init inode_no zero_inode)\<rparr>;
                  case get_free_slot_in_global s of
                    None \<Rightarrow> create_rollback 2 0 ip inode_no s
                  | Some fd_idx \<Rightarrow> do {
                      let s = set_file fd_idx \<lparr>fd_pos = 0, fd_flag = ucast flag, fd_inode = ip\<rparr> s;
                      let s = upd_inode ip (\<lambda>i. i\<lparr>write_deny := False\<rparr>) s;
                      new_dir_entry \<leftarrow> create_dir_entry name inode_no FT_REGULAR zero_de;
                      (synced, s) \<leftarrow> sync_dir_entry parent_dir new_dir_entry s;
                      if \<not> synced then create_rollback 3 fd_idx ip inode_no s
                      else do {
                        pi \<leftarrow> dir_inode_of parent_dir s;
                        s \<leftarrow> inode_sync pi s;
                        ni \<leftarrow> inodes s ip;
                        s \<leftarrow> inode_sync ni s;
                        s \<leftarrow> bitmap_sync inode_no INODE_BITMAP s;
                        let s = upd_part (\<lambda>p. p\<lparr>open_inodes := ip # open_inodes p\<rparr>) s;
                        let s = upd_inode ip (\<lambda>i. i\<lparr>i_open_cnts := 1\<rparr>) s;
                        Some (pcb_fd_install (of_nat fd_idx) s) } } } } } }"

definition file_open :: "u32 \<Rightarrow> u8 \<Rightarrow> fs \<Rightarrow> (u32 \<times> fs) option" where
  "file_open inode_no flag s =
     (case get_free_slot_in_global s of
        None \<Rightarrow> Some (-1, s)
      | Some fd_idx \<Rightarrow> do {
          (ip, s) \<leftarrow> inode_open inode_no s;
          let s = set_file fd_idx \<lparr>fd_pos = 0, fd_flag = ucast flag, fd_inode = ip\<rparr> s;
          i \<leftarrow> inodes s ip;
          if ucast flag AND O_WRONLY \<noteq> 0 \<or> ucast flag AND O_RDWR \<noteq> 0 then do {
            let (old_status, s) = cpu_intr_disable s;
            if \<not> write_deny i then
              let s = upd_inode ip (\<lambda>i. i\<lparr>write_deny := True\<rparr>) s
              in Some (pcb_fd_install (of_nat fd_idx) (cpu_intr_set_status old_status s))
            else Some (-1, cpu_intr_set_status old_status s) }
          else Some (pcb_fd_install (of_nat fd_idx) s) })"

definition file_close :: "nat \<Rightarrow> fs \<Rightarrow> (u32 \<times> fs) option" where
  "file_close k s =
     do { let f = file_table s ! k;
          i \<leftarrow> inodes s (fd_inode f);
          let s = upd_inode (fd_inode f) (\<lambda>i. i\<lparr>write_deny := False\<rparr>) s;
          s \<leftarrow> inode_close (fd_inode f) s;
          Some (0, set_file k (f\<lparr>fd_inode := 0\<rparr>) s) }"

section \<open>Writing\<close>

text \<open>
  \<open>write_grow\<close> are the three loops that give the blocks \<open>used..<will\<close> of the file a sector
  (the first 12 in the inode, the others in \<^verbatim>\<open>all_blocks\<close> only); \<open>Inl\<close> is the early return
  of -1.
\<close>

fun write_grow :: "nat \<Rightarrow> nat list \<Rightarrow> u32 list \<Rightarrow> fs \<Rightarrow> (fs + u32 list \<times> fs) option" where
  "write_grow ip [] blocks s = Some (Inr (blocks, s))"
| "write_grow ip (k # ks) blocks s =
     do { (r, s) \<leftarrow> block_bitmap_alloc s;
          case r of
            None \<Rightarrow> Some (Inl s)
          | Some block_lba \<Rightarrow> do {
              i \<leftarrow> inodes s ip;
              if k < 12 \<and> i_sectors i ! k \<noteq> 0 then None
              else do {
                let s = (if k < 12 then upd_inode ip (set_sector k block_lba) s else s);
                s \<leftarrow> bitmap_sync (block_lba - data_start_lba (sb (cur_part s))) BLOCK_BITMAP s;
                write_grow ip ks (blocks[k := block_lba]) s } } }"

text \<open>Filling \<^verbatim>\<open>all_blocks\<close> for a write, by the number of blocks in use before and after it.\<close>

definition read_table :: "u32 \<Rightarrow> u32 list \<Rightarrow> fs \<Rightarrow> u32 list option" where
  "read_table lba blocks s = do { table \<leftarrow> part_read lba 1 s; Some (take 12 blocks @ rd_words table 128) }"

definition write_blocks :: "nat \<Rightarrow> nat \<Rightarrow> nat \<Rightarrow> u32 list \<Rightarrow> fs \<Rightarrow> (fs + u32 list \<times> fs) option" where
  "write_blocks ip used will blocks s =
     do { i \<leftarrow> inodes s ip;
          let last = blocks[used - 1 := i_sectors i ! (used - 1)];
          if will = used then
            if used \<le> 12 then Some (Inr (last, s))
            else do { blocks \<leftarrow> read_table (i_sectors i ! 12) blocks s; Some (Inr (blocks, s)) }
          else if will \<le> 12 then write_grow ip [used..<will] last s
          else if used \<le> 12 then do {
            (r, s) \<leftarrow> block_bitmap_alloc s;
            case r of
              None \<Rightarrow> Some (Inl s)
            | Some table_lba \<Rightarrow>
                if i_sectors i ! 12 \<noteq> 0 then None
                else do {
                  r \<leftarrow> write_grow ip [used..<will] last (upd_inode ip (set_sector 12 table_lba) s);
                  case r of
                    Inl s \<Rightarrow> Some (Inl s)
                  | Inr (blocks, s) \<Rightarrow> do {
                      s \<leftarrow> part_write table_lba (word_bytes (drop 12 blocks)) s;
                      Some (Inr (blocks, s)) } } }
          else if i_sectors i ! 12 = 0 then None
          else do {
            blocks \<leftarrow> read_table (i_sectors i ! 12) blocks s;
            r \<leftarrow> write_grow ip [used..<will] blocks s;
            case r of
              Inl s \<Rightarrow> Some (Inl s)
            | Inr (blocks, s) \<Rightarrow> do {
                s \<leftarrow> part_write (i_sectors i ! 12) (word_bytes (drop 12 blocks)) s;
                Some (Inr (blocks, s)) } } }"

text \<open>The data loop; \<open>src\<close> is what is left to write, an index behind the array is \<open>None\<close>.\<close>

function write_loop :: "nat \<Rightarrow> nat \<Rightarrow> u32 list \<Rightarrow> bool \<Rightarrow> u8 list \<Rightarrow> fs \<Rightarrow> fs option" where
  "write_loop fi ip blocks first_write_block src s =
     (if src = [] then Some s
      else do {
        i \<leftarrow> inodes s ip;
        let sec_idx = unat (i_size i div 512);
        sec_lba \<leftarrow> (if sec_idx < length blocks then Some (blocks ! sec_idx) else None);
        let sec_off_bytes = unat (i_size i mod 512);
        let chunk_size = min (length src) (512 - sec_off_bytes);
        io_buf \<leftarrow> (if first_write_block then part_read sec_lba 1 s else Some (replicate 512 0));
        s \<leftarrow> part_write sec_lba (splice io_buf sec_off_bytes (take chunk_size src)) s;
        let s = upd_inode ip (\<lambda>i. i\<lparr>i_size := i_size i + of_nat chunk_size\<rparr>) s;
        let f = file_table s ! fi;
        write_loop fi ip blocks False (drop chunk_size src)
          (set_file fi (f\<lparr>fd_pos := fd_pos f + of_nat chunk_size\<rparr>) s) })"
  by pat_completeness auto
termination
proof (relation "measure (\<lambda>(fi, ip, blocks, fst', src, s). length src)", simp, goal_cases)
  case (1 fi ip blocks first_write_block src s i)
  have "unat (i_size i mod 512) < 512" by (simp add: unat_mod)
  with 1 show ?case by simp
qed

declare write_loop.simps [simp del]

text \<open>The first block of an empty file.\<close>

definition write_start :: "nat \<Rightarrow> inode \<Rightarrow> fs \<Rightarrow> (fs + fs) option" where
  "write_start ip i s =
     (if i_sectors i ! 0 = 0 then do {
        (r, s) \<leftarrow> block_bitmap_alloc s;
        case r of
          None \<Rightarrow> Some (Inl s)
        | Some block_lba \<Rightarrow> do {
            let s = upd_inode ip (set_sector 0 block_lba) s;
            s \<leftarrow> bitmap_sync (block_lba - data_start_lba (sb (cur_part s))) BLOCK_BITMAP s;
            Some (Inr s) } }
      else Some (Inr s))"

definition file_write :: "nat \<Rightarrow> u8 list \<Rightarrow> fs \<Rightarrow> (u32 \<times> fs) option" where
  "file_write fi buf s =
     do { let f = file_table s ! fi;
          let ip = fd_inode f;
          let count = (of_nat (length buf) :: u32);
          i \<leftarrow> inodes s ip;
          if i_size i + count > 512 * 140 then Some (-1, s)
          else do {
            let (ok1, s) = heap_alloc s;
            if \<not> ok1 then Some (-1, s)
            else do {
              let (ok2, s) = heap_alloc s;
              if \<not> ok2 then Some (-1, s)
              else do {
                r \<leftarrow> write_start ip i s;
                case r of
                  Inl s \<Rightarrow> Some (-1, s)
                | Inr s \<Rightarrow> do {
                    let used = unat (i_size i div 512 + 1);
                    let will = unat ((i_size i + count) div 512 + 1);
                    if will > 140 then Some (-1, s)
                    else do {
                      r \<leftarrow> write_blocks ip used will (replicate 140 0) s;
                      case r of
                        Inl s \<Rightarrow> Some (-1, s)
                      | Inr (all_blocks, s) \<Rightarrow> do {
                          let s = set_file fi (f\<lparr>fd_pos := i_size i - 1\<rparr>) s;
                          s \<leftarrow> write_loop fi ip all_blocks True buf s;
                          i \<leftarrow> inodes s ip;
                          s \<leftarrow> inode_sync i s;
                          Some (count, s) } } } } } } }"

section \<open>Reading\<close>

definition read_blocks :: "inode \<Rightarrow> nat \<Rightarrow> nat \<Rightarrow> u32 list \<Rightarrow> fs \<Rightarrow> u32 list option" where
  "read_blocks i start_idx end_idx blocks s =
     (if end_idx < 12 then
        Some (map (\<lambda>k. if start_idx \<le> k \<and> k \<le> end_idx then i_sectors i ! k else blocks ! k) [0..<140])
      else if start_idx = end_idx then read_table (i_sectors i ! 12) blocks s
      else if i_sectors i ! 12 = 0 then None
      else read_table (i_sectors i ! 12)
             (map (\<lambda>k. if start_idx \<le> k \<and> k < 12 then i_sectors i ! k else blocks ! k) [0..<140]) s)"

function read_loop :: "nat \<Rightarrow> u32 list \<Rightarrow> nat \<Rightarrow> fs \<Rightarrow> (u8 list \<times> fs) option" where
  "read_loop fi blocks size_left s =
     (if size_left = 0 then Some ([], s)
      else do {
        let f = file_table s ! fi;
        let sec_idx = unat (fd_pos f div 512);
        sec_lba \<leftarrow> (if sec_idx < length blocks then Some (blocks ! sec_idx) else None);
        let sec_off_bytes = unat (fd_pos f mod 512);
        let chunk_size = min size_left (512 - sec_off_bytes);
        io_buf \<leftarrow> part_read sec_lba 1 s;
        (rest, s) \<leftarrow> read_loop fi blocks (size_left - chunk_size)
                      (set_file fi (f\<lparr>fd_pos := fd_pos f + of_nat chunk_size\<rparr>) s);
        Some (take chunk_size (drop sec_off_bytes io_buf) @ rest, s) })"
  by pat_completeness auto
termination
proof (relation "measure (\<lambda>(fi, blocks, n, s). n)", simp, goal_cases)
  case (1 fi blocks n s x xa xb xc)
  have "unat (fd_pos x mod 512) < 512" by (simp add: unat_mod)
  with 1 show ?case by simp
qed

declare read_loop.simps [simp del]

text \<open>
  A read returns its bytes, or \<open>None\<close> inside for -1. \<open>io_buf\<close> is used without a check and
  freed at the end.
\<close>

definition file_read :: "nat \<Rightarrow> u32 \<Rightarrow> fs \<Rightarrow> (u8 list option \<times> fs) option" where
  "file_read fi count s =
     do { let f = file_table s ! fi;
          i \<leftarrow> inodes s (fd_inode f);
          let size = (if fd_pos f + count > i_size i then i_size i - fd_pos f else count);
          if fd_pos f + count > i_size i \<and> size = 0 then Some (None, s)
          else do {
            let (ok1, s) = heap_alloc s;
            let (ok2, s) = heap_alloc s;
            if \<not> ok2 then Some (None, s)
            else do {
              let start_idx = fd_pos f div 512;
              let end_idx = (fd_pos f + size) div 512;
              if start_idx < 139 \<and> end_idx < 139 then do {
                blocks \<leftarrow> read_blocks i (unat start_idx) (unat end_idx) (replicate 140 0) s;
                (bs, s) \<leftarrow> read_loop fi blocks (unat size) s;
                if ok1 then Some (Some bs, s) else None }
              else None } } }"

end
