(* ===== verification/Fs.thy ===== *)
theory Fs
  imports File
begin

text \<open>
  Path names, the system calls on files and directories, formatting and mounting:
  \<^verbatim>\<open>src/fs/fs.c\<close>. A C string is the list of its bytes without the final NUL.
\<close>

section \<open>Paths\<close>

text \<open>
  \<^verbatim>\<open>path_parse\<close>: the rest of the path (\<open>None\<close> is NULL) and the name it stores. It has no bound
  for the name; the callers give it an array of 16 bytes, so a name of 16 bytes or more leaves
  it without a final NUL or overruns it. Such a name ends the model (\<open>None\<close>).
\<close>

definition slash :: u8 where "slash = 47"
definition MAX_FILE_NAME_LEN :: nat where "MAX_FILE_NAME_LEN = 16"
definition MAX_PATH_LEN :: nat where "MAX_PATH_LEN = 512"

definition path_parse :: "u8 list \<Rightarrow> u8 list option \<times> u8 list" where
  "path_parse pathname =
     (let p = (if pathname \<noteq> [] \<and> pathname ! 0 = slash then dropWhile (\<lambda>c. c = slash) pathname else pathname);
          rest = dropWhile (\<lambda>c. c \<noteq> slash) p
      in (if rest = [] then None else Some rest, takeWhile (\<lambda>c. c \<noteq> slash) p))"

text \<open>A string of \<open>n\<close> bytes fits \<^verbatim>\<open>char name[16]\<close>.\<close>

definition parse_name :: "u8 list \<Rightarrow> (u8 list option \<times> u8 list) option" where
  "parse_name p =
     (let (rest, name) = path_parse p in if length name < MAX_FILE_NAME_LEN then Some (rest, name) else None)"

partial_function (option) depth_loop :: "u8 list option \<Rightarrow> nat \<Rightarrow> nat option" where
  "depth_loop p depth =
     (case p of
        None \<Rightarrow> Some depth
      | Some p \<Rightarrow> do {
          (p, name) \<leftarrow> parse_name p;
          if name = [] then Some depth else depth_loop p (depth + 1) })"

definition path_depth_cnt :: "u8 \<Rightarrow> u8 list \<Rightarrow> nat option" where
  "path_depth_cnt junk pathname =
     do { (p, name) \<leftarrow> parse_name pathname;
          if name = [] \<and> junk = 0 then Some 0 else depth_loop p 1 }"

definition last_component :: "u8 list \<Rightarrow> u8 list" where
  "last_component p = rev (takeWhile (\<lambda>c. c \<noteq> slash) (rev p))"

record path_search_record =
  searched_path :: "u8 list"
  parent_dir :: nat
  file_type :: u32

partial_function (option) search_loop ::
  "u8 list option \<Rightarrow> u8 list \<Rightarrow> nat \<Rightarrow> u32 \<Rightarrow> u32 \<Rightarrow> path_search_record \<Rightarrow> fs \<Rightarrow>
   (u32 \<times> path_search_record \<times> fs) option" where
  "search_loop sub_path name pdir parent_inode_no dir_e_no rec s =
     (if name \<noteq> [] then do {
        let rec = rec\<lparr>searched_path := searched_path rec @ slash # name\<rparr>;
        if MAX_PATH_LEN \<le> length (searched_path rec) then None
        else do {
          (found, s) \<leftarrow> search_dir_entry pdir name s;
          case found of
            None \<Rightarrow> Some (-1, rec, s)
          | Some dir_e \<Rightarrow> do {
              (sub_path, name) \<leftarrow> (case sub_path of None \<Rightarrow> Some (None, []) | Some p \<Rightarrow> parse_name p);
              if f_type dir_e = FT_DIRECTORY then do {
                pi \<leftarrow> dir_inode_of pdir s;
                s \<leftarrow> dir_close pdir s;
                (pdir, s) \<leftarrow> dir_open (de_i_no dir_e) s;
                search_loop sub_path name pdir (i_no pi) (de_i_no dir_e) (rec\<lparr>parent_dir := pdir\<rparr>) s }
              else if f_type dir_e = FT_REGULAR then
                Some (de_i_no dir_e, rec\<lparr>file_type := FT_REGULAR\<rparr>, s)
              else search_loop sub_path name pdir parent_inode_no (de_i_no dir_e) rec s } } }
      else do {
        s \<leftarrow> dir_close (parent_dir rec) s;
        (pdir, s) \<leftarrow> dir_open parent_inode_no s;
        Some (dir_e_no, rec\<lparr>parent_dir := pdir, file_type := FT_DIRECTORY\<rparr>, s) })"

definition root_path :: "u8 list \<Rightarrow> bool" where
  "root_path p \<longleftrightarrow> p = [slash] \<or> p = [slash, 46] \<or> p = [slash, 46, 46]"

text \<open>The record is zeroed by every caller; \<^verbatim>\<open>dir_e\<close> of a path without a name is the stack's (\<open>junk_ino\<close>).\<close>

definition search_file :: "u8 list \<Rightarrow> fs \<Rightarrow> (u32 \<times> path_search_record \<times> fs) option" where
  "search_file pathname s =
     (if root_path pathname then
        Some (0, \<lparr>searched_path = [], parent_dir = root_dir, file_type = FT_DIRECTORY\<rparr>, s)
      else if pathname \<noteq> [] \<and> pathname ! 0 = slash \<and> 1 < length pathname \<and> length pathname < MAX_PATH_LEN then do {
        (sub_path, name) \<leftarrow> parse_name pathname;
        search_loop sub_path name root_dir 0 (junk_ino s)
          \<lparr>searched_path = [], parent_dir = root_dir, file_type = FT_UNKNOWN\<rparr> s }
      else None)"

section \<open>Opening, closing, reading, writing\<close>

definition sys_open :: "u8 list \<Rightarrow> u8 \<Rightarrow> fs \<Rightarrow> (u32 \<times> fs) option" where
  "sys_open pathname flags s =
     (if pathname = [] then None
      else if last pathname = slash then Some (-1, s)
      else if 7 < flags then Some (-1, s)
      else do {
        pathname_depth \<leftarrow> path_depth_cnt (junk_byte s) pathname;
        (inode_no, rec, s) \<leftarrow> search_file pathname s;
        let found = (inode_no \<noteq> -1);
        if file_type rec = FT_DIRECTORY then do { s \<leftarrow> dir_close (parent_dir rec) s; Some (-1, s) }
        else do {
          path_searched_depth \<leftarrow> path_depth_cnt (junk_byte s) (searched_path rec);
          if pathname_depth \<noteq> path_searched_depth then do { s \<leftarrow> dir_close (parent_dir rec) s; Some (-1, s) }
          else if \<not> found \<and> ucast flags AND O_CREAT = 0 then do { s \<leftarrow> dir_close (parent_dir rec) s; Some (-1, s) }
          else if found \<and> ucast flags AND O_CREAT \<noteq> 0 then do { s \<leftarrow> dir_close (parent_dir rec) s; Some (-1, s) }
          else if ucast flags AND O_CREAT \<noteq> 0 then do {
            (fd, s) \<leftarrow> file_create (parent_dir rec) (last_component pathname) flags s;
            s \<leftarrow> dir_close (parent_dir rec) s;
            Some (fd, s) }
          else file_open inode_no flags s } })"

text \<open>An index behind \<^verbatim>\<open>fd_table[8]\<close> reads other fields of the task (\<open>None\<close> here).\<close>

definition fd_local2global :: "u32 \<Rightarrow> fs \<Rightarrow> nat option" where
  "fd_local2global local_fd s =
     (let tab = fd_table (tasks s (running s)) in
      if unat local_fd < length tab then
        (let global_fd = tab ! unat local_fd
         in if 0 \<le> sint global_fd \<and> sint global_fd < 32 then Some (unat global_fd) else None)
      else None)"

definition sys_close :: "u32 \<Rightarrow> fs \<Rightarrow> (u32 \<times> fs) option" where
  "sys_close fd s =
     (if 2 < sint fd then do {
        k \<leftarrow> fd_local2global fd s;
        (ret, s) \<leftarrow> file_close k s;
        Some (ret, upd_task (running s) (\<lambda>t. t\<lparr>fd_table := (fd_table t)[unat fd := -1]\<rparr>) s) }
      else Some (-1, s))"

text \<open>Standard output goes through a 1024-byte buffer; more than 1023 bytes overrun it (\<open>None\<close>).\<close>

definition sys_write :: "u32 \<Rightarrow> u8 list \<Rightarrow> fs \<Rightarrow> (u32 \<times> fs) option" where
  "sys_write fd buf s =
     (if sint fd < 0 then Some (-1, s)
      else if fd = 1 then
        if length buf < 1024 then Some (of_nat (length buf), s\<lparr>console := console s @ cstr buf\<rparr>) else None
      else do {
        k \<leftarrow> fd_local2global fd s;
        if fd_flag (file_table s ! k) AND O_WRONLY \<noteq> 0 \<or> fd_flag (file_table s ! k) AND O_RDWR \<noteq> 0
        then file_write k buf s else Some (-1, s) })"

text \<open>Standard input takes \<open>count\<close> keys; with fewer typed the call has not returned (\<open>None\<close>).\<close>

definition sys_read :: "u32 \<Rightarrow> u32 \<Rightarrow> fs \<Rightarrow> (u8 list option \<times> fs) option" where
  "sys_read fd count s =
     (if sint fd < 0 \<or> fd = 1 \<or> fd = 2 then Some (None, s)
      else if fd = 0 then
        if length (kbd_input s) < unat count then None
        else Some (if count = 0 then None else Some (take (unat count) (kbd_input s)),
                   s\<lparr>kbd_input := drop (unat count) (kbd_input s)\<rparr>)
      else do { k \<leftarrow> fd_local2global fd s; file_read k count s })"

definition sys_lseek :: "u32 \<Rightarrow> u32 \<Rightarrow> u8 \<Rightarrow> fs \<Rightarrow> (u32 \<times> fs) option" where
  "sys_lseek fd offset whence s =
     (if sint fd < 0 then Some (-1, s)
      else do {
        k \<leftarrow> fd_local2global fd s;
        let pf = file_table s ! k;
        i \<leftarrow> inodes s (fd_inode pf);
        let file_size = i_size i;
        let new_pos = (if whence = 1 then offset else if whence = 2 then fd_pos pf + offset
                       else if whence = 3 then file_size + offset else 0);
        if sint new_pos < 0 \<or> sint new_pos > sint file_size then Some (-1, s)
        else Some (new_pos, set_file k (pf\<lparr>fd_pos := new_pos\<rparr>) s) })"

definition file_in_use :: "u32 \<Rightarrow> fs \<Rightarrow> bool" where
  "file_in_use no s =
     (\<exists>k\<in>set [0..<MAX_FILE_OPEN]. fd_inode (file_table s ! k) \<noteq> 0 \<and>
        (case inodes s (fd_inode (file_table s ! k)) of Some i \<Rightarrow> i_no i = no | None \<Rightarrow> False))"

definition sys_unlink :: "u8 list \<Rightarrow> fs \<Rightarrow> (u32 \<times> fs) option" where
  "sys_unlink pathname s =
     (if MAX_PATH_LEN \<le> length pathname then None
      else do {
        (inode_no, rec, s) \<leftarrow> search_file pathname s;
        if inode_no = 0 then None
        else if inode_no = -1 then do { s \<leftarrow> dir_close (parent_dir rec) s; Some (-1, s) }
        else if file_type rec = FT_DIRECTORY then do { s \<leftarrow> dir_close (parent_dir rec) s; Some (-1, s) }
        else if file_in_use inode_no s then do { s \<leftarrow> dir_close (parent_dir rec) s; Some (-1, s) }
        else do {
          let (ok, s) = heap_alloc s;
          if \<not> ok then do { s \<leftarrow> dir_close (parent_dir rec) s; Some (-1, s) }
          else do {
            (deleted, s) \<leftarrow> delete_dir_entry (parent_dir rec) inode_no s;
            s \<leftarrow> inode_release inode_no s;
            s \<leftarrow> dir_close (parent_dir rec) s;
            Some (0, s) } } })"

section \<open>Directories\<close>

definition dot_name :: "u8 list" where "dot_name = 46 # replicate 15 0"
definition dotdot_name :: "u8 list" where "dotdot_name = [46, 46] @ replicate 14 0"

text \<open>The first sector of a directory: the entries \<^verbatim>\<open>.\<close> and \<^verbatim>\<open>..\<close> (to \<open>self\<close> and \<open>up\<close>).\<close>

definition dot_entries :: "u32 \<Rightarrow> u32 \<Rightarrow> u8 list" where
  "dot_entries self up =
     splice (replicate 512 0) 0
       (de_bytes \<lparr>filename = dot_name, de_i_no = self, f_type = FT_DIRECTORY\<rparr> @
        de_bytes \<lparr>filename = dotdot_name, de_i_no = up, f_type = FT_DIRECTORY\<rparr>)"

definition sys_mkdir :: "u8 list \<Rightarrow> fs \<Rightarrow> (u32 \<times> fs) option" where
  "sys_mkdir pathname s =
     do { let (ok, s) = heap_alloc s;
          if \<not> ok then Some (-1, s)
          else do {
            (inode_no, rec, s) \<leftarrow> search_file pathname s;
            if inode_no \<noteq> -1 then do { s \<leftarrow> dir_close (parent_dir rec) s; Some (-1, s) }
            else do {
              pathname_depth \<leftarrow> path_depth_cnt (junk_byte s) pathname;
              path_searched_depth \<leftarrow> path_depth_cnt (junk_byte s) (searched_path rec);
              if pathname_depth \<noteq> path_searched_depth then do { s \<leftarrow> dir_close (parent_dir rec) s; Some (-1, s) }
              else do {
                let dirname = last_component (searched_path rec);
                (r, s) \<leftarrow> inode_bitmap_alloc s;
                case r of
                  None \<Rightarrow> do { s \<leftarrow> dir_close (parent_dir rec) s; Some (-1, s) }
                | Some inode_no \<Rightarrow> do {
                    let new_dir_inode = inode_init inode_no (junk_inode s);
                    (r, s) \<leftarrow> block_bitmap_alloc s;
                    case r of
                      None \<Rightarrow> do { s \<leftarrow> inode_bit_free inode_no s; s \<leftarrow> dir_close (parent_dir rec) s; Some (-1, s) }
                    | Some block_lba \<Rightarrow> do {
                        let new_dir_inode = set_sector 0 block_lba new_dir_inode;
                        let block_bitmap_idx = block_lba - data_start_lba (sb (cur_part s));
                        if block_bitmap_idx = 0 then None
                        else do {
                          s \<leftarrow> bitmap_sync block_bitmap_idx BLOCK_BITMAP s;
                          pi \<leftarrow> dir_inode_of (parent_dir rec) s;
                          s \<leftarrow> part_write block_lba (dot_entries inode_no (i_no pi)) s;
                          let new_dir_inode = new_dir_inode\<lparr>i_size := 2 * dir_entry_size (sb (cur_part s))\<rparr>;
                          new_dir_entry \<leftarrow> create_dir_entry dirname inode_no FT_DIRECTORY zero_de;
                          (synced, s) \<leftarrow> sync_dir_entry (parent_dir rec) new_dir_entry s;
                          if \<not> synced then do {
                            s \<leftarrow> inode_bit_free inode_no s; s \<leftarrow> dir_close (parent_dir rec) s; Some (-1, s) }
                          else do {
                            pi \<leftarrow> dir_inode_of (parent_dir rec) s;
                            s \<leftarrow> inode_sync pi s;
                            s \<leftarrow> inode_sync new_dir_inode s;
                            s \<leftarrow> bitmap_sync inode_no INODE_BITMAP s;
                            s \<leftarrow> dir_close (parent_dir rec) s;
                            Some (0, s) } } } } } } } }"

text \<open>The second test of the shortcut repeats \<^verbatim>\<open>name[0]\<close>, so only the path "/" takes it.\<close>

definition sys_opendir :: "u8 list \<Rightarrow> fs \<Rightarrow> (nat \<times> fs) option" where
  "sys_opendir name s =
     (if MAX_PATH_LEN \<le> length name then None
      else if name \<noteq> [] \<and> name ! 0 = slash \<and> (length name = 1 \<or> name ! 0 = 46) then Some (root_dir, s)
      else do {
        (inode_no, rec, s) \<leftarrow> search_file name s;
        (ret, s) \<leftarrow> (if inode_no \<noteq> -1 \<and> file_type rec = FT_DIRECTORY then dir_open inode_no s else Some (0, s));
        s \<leftarrow> dir_close (parent_dir rec) s;
        Some (ret, s) })"

definition sys_closedir :: "nat \<Rightarrow> fs \<Rightarrow> (u32 \<times> fs) option" where
  "sys_closedir dir s = (if dir \<noteq> 0 then do { s \<leftarrow> dir_close dir s; Some (0, s) } else Some (-1, s))"

definition sys_readdir :: "nat \<Rightarrow> fs \<Rightarrow> (dir_entry option \<times> fs) option" where
  "sys_readdir dir s = (if dir = 0 then None else dir_read dir s)"

definition sys_rewinddir :: "nat \<Rightarrow> fs \<Rightarrow> fs option" where
  "sys_rewinddir dir s = do { d \<leftarrow> dirs s dir; Some (s\<lparr>dirs := (dirs s)(dir \<mapsto> d\<lparr>dir_pos := 0\<rparr>)\<rparr>) }"

definition sys_rmdir :: "u8 list \<Rightarrow> fs \<Rightarrow> (u32 \<times> fs) option" where
  "sys_rmdir pathname s =
     do { (inode_no, rec, s) \<leftarrow> search_file pathname s;
          if inode_no = 0 then None
          else do {
            (retval, s) \<leftarrow>
              (if inode_no = -1 \<or> file_type rec = FT_REGULAR then Some (-1, s)
               else do {
                 (dir, s) \<leftarrow> dir_open inode_no s;
                 empty \<leftarrow> dir_is_empty dir s;
                 (retval, s) \<leftarrow> (if \<not> empty then Some (-1, s)
                   else do { (ok, s) \<leftarrow> dir_remove (parent_dir rec) dir s; Some (if ok then 0 else -1, s) });
                 s \<leftarrow> dir_close dir s;
                 Some (retval, s) });
            s \<leftarrow> dir_close (parent_dir rec) s;
            Some (retval, s) } }"

section \<open>The working directory\<close>

definition get_parent_dir_inode_nr :: "u32 \<Rightarrow> fs \<Rightarrow> (u32 \<times> fs) option" where
  "get_parent_dir_inode_nr child_inode_nr s =
     do { (p, s) \<leftarrow> inode_open child_inode_nr s;
          i \<leftarrow> inodes s p;
          let block_lba = i_sectors i ! 0;
          if block_lba < data_start_lba (sb (cur_part s)) then None
          else do {
            s \<leftarrow> inode_close p s;
            io_buf \<leftarrow> part_read block_lba 1 s;
            let dir_e = de_at io_buf 1;
            if de_i_no dir_e < 4096 \<and> f_type dir_e = FT_DIRECTORY then Some (de_i_no dir_e, s) else None } }"

fun child_name :: "nat \<Rightarrow> u32 \<Rightarrow> u32 list \<Rightarrow> fs \<Rightarrow> u8 list option option" where
  "child_name per c_inode_nr [] s = Some None"
| "child_name per c_inode_nr (b # bs) s =
     (if b \<noteq> 0 then do {
        io_buf \<leftarrow> part_read b 1 s;
        case find (\<lambda>k. de_i_no (de_at io_buf k) = c_inode_nr) [0..<per] of
          Some k \<Rightarrow> Some (Some (name_at io_buf k))
        | None \<Rightarrow> child_name per c_inode_nr bs s }
      else child_name per c_inode_nr bs s)"

definition get_child_dir_name :: "u32 \<Rightarrow> u32 \<Rightarrow> u8 list \<Rightarrow> fs \<Rightarrow> (u8 list option \<times> fs) option" where
  "get_child_dir_name p_inode_nr c_inode_nr path s =
     do { (p, s) \<leftarrow> inode_open p_inode_nr s;
          i \<leftarrow> inodes s p;
          all_blocks \<leftarrow> all_blocks_of i s;
          let block_cnt = (if i_sectors i ! 12 \<noteq> 0 then 140 else 12);
          s \<leftarrow> inode_close p s;
          per \<leftarrow> entrys_per_sec s;
          r \<leftarrow> child_name per c_inode_nr (take block_cnt all_blocks) s;
          case r of
            None \<Rightarrow> Some (None, s)
          | Some name \<Rightarrow> if length path + length name + 1 < MAX_PATH_LEN
              then Some (Some (path @ slash # name), s) else None }"

partial_function (option) cwd_loop :: "u32 \<Rightarrow> u8 list \<Rightarrow> fs \<Rightarrow> (u8 list option \<times> fs) option" where
  "cwd_loop child_inode_nr path s =
     (if child_inode_nr = 0 then Some (Some path, s)
      else do {
        (parent_inode_nr, s) \<leftarrow> get_parent_dir_inode_nr child_inode_nr s;
        (r, s) \<leftarrow> get_child_dir_name parent_inode_nr child_inode_nr path s;
        case r of None \<Rightarrow> Some (None, s) | Some path \<Rightarrow> cwd_loop parent_inode_nr path s })"

text \<open>The last loop turns the components of the path round.\<close>

function reverse_path :: "u8 list \<Rightarrow> u8 list" where
  "reverse_path p =
     (if slash \<in> set p then
        let name = last_component p
        in slash # name @ reverse_path (take (length p - length name - 1) p)
      else [])"
  by pat_completeness auto
termination
proof (relation "measure length", simp, goal_cases)
  case (1 p name)
  then have "0 < length p" by (intro length_pos_if_in_set) simp
  then have "length (take (length p - length name - 1) p) < length p" by (cases p) (simp_all add: min_def)
  then show ?case by simp
qed

declare reverse_path.simps [simp del]

definition sys_getcwd :: "u32 \<Rightarrow> fs \<Rightarrow> (u8 list option \<times> fs) option" where
  "sys_getcwd len s =
     do { let (ok, s) = heap_alloc s;
          if \<not> ok then Some (None, s)
          else do {
            let child_inode_nr = cwd_inode_nr (tasks s (running s));
            if 4096 \<le> child_inode_nr then None
            else if child_inode_nr = 0 then Some (Some [slash], s)
            else do {
              (r, s) \<leftarrow> cwd_loop child_inode_nr [] s;
              case r of
                None \<Rightarrow> Some (None, s)
              | Some path \<Rightarrow> if of_nat (length path) \<le> len then Some (Some (reverse_path path), s) else None } } }"

definition sys_chdir :: "u8 list \<Rightarrow> fs \<Rightarrow> (u32 \<times> fs) option" where
  "sys_chdir path s =
     do { (inode_no, rec, s) \<leftarrow> search_file path s;
          let (ret, s) = (if inode_no \<noteq> -1 \<and> file_type rec = FT_DIRECTORY
            then (0, upd_task (running s) (\<lambda>t. t\<lparr>cwd_inode_nr := inode_no\<rparr>) s) else (-1, s));
          s \<leftarrow> dir_close (parent_dir rec) s;
          Some (ret, s) }"

record stat =
  st_ino :: u32
  st_size :: u32
  st_filetype :: u32

text \<open>The record is filled exactly when the call returns 0, so the result is the record or -1.\<close>

definition sys_stat :: "u8 list \<Rightarrow> fs \<Rightarrow> (stat option \<times> fs) option" where
  "sys_stat path s =
     (if root_path path then do {
        i \<leftarrow> dir_inode_of root_dir s;
        Some (Some \<lparr>st_ino = 0, st_size = i_size i, st_filetype = FT_DIRECTORY\<rparr>, s) }
      else do {
        (inode_no, rec, s) \<leftarrow> search_file path s;
        (ret, s) \<leftarrow> (if inode_no \<noteq> -1 then do {
            (p, s) \<leftarrow> inode_open inode_no s;
            i \<leftarrow> inodes s p;
            s \<leftarrow> inode_close p s;
            Some (Some \<lparr>st_ino = inode_no, st_size = i_size i, st_filetype = file_type rec\<rparr>, s) }
          else Some (None, s));
        s \<leftarrow> dir_close (parent_dir rec) s;
        Some (ret, s) })"

definition sys_putchar :: "u8 \<Rightarrow> fs \<Rightarrow> fs" where
  "sys_putchar char_asci s = s\<lparr>console := console s @ [char_asci]\<rparr>"

section \<open>Formatting and mounting\<close>

definition div_round_up :: "u32 \<Rightarrow> u32 \<Rightarrow> u32" where
  "div_round_up x step = (x + step - 1) div step"

definition inode_table_sectors :: u32 where
  "inode_table_sectors = div_round_up (108 * 4096) 512"

text \<open>The layout \<^verbatim>\<open>partition_format\<close> computes: the super block and the number of block bits.\<close>

definition block_bitmap_bits :: "u32 \<Rightarrow> u32" where
  "block_bitmap_bits sects =
     (let used_sects = 1 + 1 + div_round_up 4096 4096 + inode_table_sectors; free_sects = sects - used_sects;
          block_bitmap_sects = div_round_up free_sects 4096
      in free_sects - block_bitmap_sects)"

definition format_super_block :: "partition \<Rightarrow> super_block" where
  "format_super_block part =
     (let block_bitmap_sects = div_round_up (block_bitmap_bits (sec_cnt part)) 4096;
          block_bitmap_lba = start_lba part + 2;
          inode_bitmap_lba = block_bitmap_lba + block_bitmap_sects;
          inode_bitmap_sects = div_round_up 4096 4096;
          inode_table_lba = inode_bitmap_lba + inode_bitmap_sects;
          inode_table_sects = inode_table_sectors
      in \<lparr>magic = 0x19590318, sb_sec_cnt = sec_cnt part, inode_cnt = 4096, part_lba_base = start_lba part,
          block_bitmap_lba = block_bitmap_lba, block_bitmap_sects = block_bitmap_sects,
          inode_bitmap_lba = inode_bitmap_lba, inode_bitmap_sects = inode_bitmap_sects,
          inode_table_lba = inode_table_lba, inode_table_sects = inode_table_sects,
          data_start_lba = inode_table_lba + inode_table_sects, root_inode_no = 0, dir_entry_size = 24\<rparr>)"

definition sb_bytes :: "super_block \<Rightarrow> u8 list" where
  "sb_bytes b =
     concat (map le32 [magic b, sb_sec_cnt b, inode_cnt b, part_lba_base b, block_bitmap_lba b,
       block_bitmap_sects b, inode_bitmap_lba b, inode_bitmap_sects b, inode_table_lba b, inode_table_sects b,
       data_start_lba b, root_inode_no b, dir_entry_size b])"

definition bytes_sb :: "u8 list \<Rightarrow> super_block" where
  "bytes_sb bs =
     \<lparr>magic = rd32 bs 0, sb_sec_cnt = rd32 bs 4, inode_cnt = rd32 bs 8, part_lba_base = rd32 bs 12,
      block_bitmap_lba = rd32 bs 16, block_bitmap_sects = rd32 bs 20, inode_bitmap_lba = rd32 bs 24,
      inode_bitmap_sects = rd32 bs 28, inode_table_lba = rd32 bs 32, inode_table_sects = rd32 bs 36,
      data_start_lba = rd32 bs 40, root_inode_no = rd32 bs 44, dir_entry_size = rd32 bs 48\<rparr>"

text \<open>
  The block bitmap: block 0 is the root directory's; the bits behind the last block are set,
  except those the last loop clears again (\<^verbatim>\<open>bit_idx <= block_bitmap_last_bit\<close>).
\<close>

definition clear_low_bits :: "u8 \<Rightarrow> nat \<Rightarrow> u8" where
  "clear_low_bits b n = fold (\<lambda>k b. b AND NOT (push_bit k 1)) [0..<Suc n] b"

definition format_block_bitmap :: "u32 \<Rightarrow> nat \<Rightarrow> u8 list option" where
  "format_block_bitmap bit_len buf_size =
     (let buf = 1 # replicate (buf_size - 1) 0;
          last_byte = unat (bit_len div 8); last_bit = unat (bit_len mod 8);
          last_size = 512 - last_byte mod 512
      in if last_byte + last_size \<le> buf_size then
           let buf = splice buf last_byte (replicate last_size 0xff)
           in Some (buf[last_byte := clear_low_bits (buf ! last_byte) last_bit])
         else None)"

definition root_inode :: "super_block \<Rightarrow> u64 \<Rightarrow> u64 \<Rightarrow> u64 \<Rightarrow> inode" where
  "root_inode b c m a =
     \<lparr>i_no = 0, i_size = dir_entry_size b * 2, user_id = 0, ctime = c, mtime = m, atime = a, privilege = 4,
      i_open_cnts = 0, write_deny = False, i_sectors = (replicate 13 0)[0 := data_start_lba b]\<rparr>"

text \<open>
  \<open>c\<close>, \<open>m\<close>, \<open>a\<close> are the times the three calls of \<^verbatim>\<open>get_time\<close> give; \<open>pad\<close> are the 460
  bytes of padding of the super block on the stack.
\<close>

definition partition_format :: "partition \<Rightarrow> u8 list \<Rightarrow> u64 \<Rightarrow> u64 \<Rightarrow> u64 \<Rightarrow> fs \<Rightarrow> fs option" where
  "partition_format part pad c m a s =
     do { let b = format_super_block part;
          let hdd = my_disk part;
          s \<leftarrow> disk_write hdd (start_lba part + 1) (sb_bytes b @ take 460 pad) s;
          let sects = max (max (block_bitmap_sects b) (inode_bitmap_sects b)) (inode_table_sects b);
          let buf_size = unat (sects * 512);
          let (ok, s) = heap_alloc s;
          if \<not> ok then None
          else do {
            bb \<leftarrow> format_block_bitmap (block_bitmap_bits (sec_cnt part)) buf_size;
            s \<leftarrow> disk_write hdd (block_bitmap_lba b) (take (512 * unat (block_bitmap_sects b)) bb) s;
            s \<leftarrow> disk_write hdd (inode_bitmap_lba b)
                   (take (512 * unat (inode_bitmap_sects b)) (1 # replicate (buf_size - 1) 0)) s;
            s \<leftarrow> disk_write hdd (inode_table_lba b)
                   (take (512 * unat (inode_table_sects b))
                     (splice (replicate buf_size 0) 0 (inode_bytes (root_inode b c m a)))) s;
            disk_write hdd (data_start_lba b) (dot_entries 0 0) s } }"

definition bitmap_of_bytes :: "u8 list \<Rightarrow> bitmap" where
  "bitmap_of_bytes bs =
     \<lparr>btmp_bytes_len = of_nat (length bs), bits = (\<lambda>i. if unat i < length bs then bs ! unat i else 0)\<rparr>"

text \<open>The partition \<open>part\<close> becomes the current one when its name is asked for (\<open>True\<close>).\<close>

definition mount_partition :: "partition \<Rightarrow> u8 list \<Rightarrow> fs \<Rightarrow> (bool \<times> fs) option" where
  "mount_partition part name s =
     (if part_name part = name then do {
        let hdd = my_disk part;
        let (ok1, s) = heap_alloc s;
        let (ok2, s) = heap_alloc s;
        if \<not> ok1 \<or> \<not> ok2 then None
        else do {
          sb_buf \<leftarrow> disk_read hdd (start_lba part + 1) 1 s;
          let b = bytes_sb sb_buf;
          let (ok, s) = heap_alloc s;
          if \<not> ok then None
          else do {
            bb \<leftarrow> disk_read hdd (block_bitmap_lba b) (unat (block_bitmap_sects b)) s;
            let (ok, s) = heap_alloc s;
            if \<not> ok then None
            else do {
              ib \<leftarrow> disk_read hdd (inode_bitmap_lba b) (unat (inode_bitmap_sects b)) s;
              Some (True, s\<lparr>cur_part := part\<lparr>sb := b, block_bitmap := bitmap_of_bytes bb,
                inode_bitmap := bitmap_of_bytes ib, open_inodes := []\<rparr>\<rparr>) } } } }
      else Some (False, s))"

text \<open>
  \<^verbatim>\<open>filesys_init\<close>: every partition of the second disk of each channel that has no file system
  is formatted, then "sdb1" is mounted (when no partition has the name, \<^verbatim>\<open>cur_part\<close> stays
  NULL and is used so). \<open>parts\<close> are the twelve partitions of these disks, \<open>plist\<close> the list
  of all partitions.
\<close>

fun format_parts :: "u8 list \<Rightarrow> u64 \<Rightarrow> u64 \<Rightarrow> u64 \<Rightarrow> partition list \<Rightarrow> fs \<Rightarrow> fs option" where
  "format_parts pad c m a [] s = Some s"
| "format_parts pad c m a (part # ps) s =
     (if sec_cnt part \<noteq> 0 then do {
        sb_buf \<leftarrow> disk_read (my_disk part) (start_lba part + 1) 1 s;
        s \<leftarrow> (if magic (bytes_sb sb_buf) = 0x19590318 then Some s else partition_format part pad c m a s);
        format_parts pad c m a ps s }
      else format_parts pad c m a ps s)"

fun mount_first :: "u8 list \<Rightarrow> partition list \<Rightarrow> fs \<Rightarrow> fs option" where
  "mount_first name [] s = None"
| "mount_first name (part # ps) s =
     do { (mounted, s) \<leftarrow> mount_partition part name s;
          if mounted then Some s else mount_first name ps s }"

definition filesys_init :: "partition list \<Rightarrow> partition list \<Rightarrow> u8 list \<Rightarrow> u64 \<Rightarrow> u64 \<Rightarrow> u64 \<Rightarrow> fs \<Rightarrow> fs option" where
  "filesys_init parts plist pad c m a s =
     do { let (ok, s) = heap_alloc s;
          if \<not> ok then None
          else do {
            s \<leftarrow> format_parts pad c m a parts s;
            s \<leftarrow> mount_first [115, 100, 98, 49] plist s;
            s \<leftarrow> open_root_dir s;
            Some (s\<lparr>file_table := map (\<lambda>f. f\<lparr>fd_inode := 0\<rparr>) (file_table s)\<rparr>) } }"

end
