(* ===== verification/FileData.thy ===== *)
theory FileData imports Fs begin

text \<open>
  File contents: the byte list a file stands for, and the proof that \<open>file_write\<close> (fs/file.c:216) appends to it
  and \<open>file_read\<close> (fs/file.c:413) reads a slice of it, block allocation, the indirect table and the bitmap on disk
  included.
\<close>

section \<open>States that differ in one file\<close>

text \<open>
  Writing a file changes its inode (pointer \<open>ip\<close>), the block bitmap, the sectors of its disk, the
  table of open files and the count of allocations, nothing else: \<open>W s ip c t m bm i\<close> is \<open>s\<close> with these
  replaced, so that the operations become functions on \<open>(c, t, m, bm, i)\<close>.
\<close>

definition W :: "fs \<Rightarrow> nat \<Rightarrow> nat \<Rightarrow> ofile list \<Rightarrow> medium \<Rightarrow> bitmap \<Rightarrow> inode \<Rightarrow> fs" where
  "W s ip c t m bm i =
     s\<lparr>media := (media s)(my_disk (cur_part s) := m), cur_part := (cur_part s)\<lparr>block_bitmap := bm\<rparr>,
       inodes := (inodes s)(ip \<mapsto> i), file_table := t, malloc_cnt := c\<rparr>"

lemma W_simps [simp]:
  "part_medium (W s ip c t m bm i) = m" "block_bitmap (cur_part (W s ip c t m bm i)) = bm"
  "sb (cur_part (W s ip c t m bm i)) = sb (cur_part s)" "inodes (W s ip c t m bm i) ip = Some i"
  "start_lba (cur_part (W s ip c t m bm i)) = start_lba (cur_part s)"
  "sec_cnt (cur_part (W s ip c t m bm i)) = sec_cnt (cur_part s)"
  "file_table (W s ip c t m bm i) = t" "malloc_cnt (W s ip c t m bm i) = c"
  "mallocs (W s ip c t m bm i) = mallocs s" "itab (W s ip c t m bm i) = itab s"
  "my_disk (cur_part (W s ip c t m bm i)) = my_disk (cur_part s)"
  by (simp_all add: W_def part_medium_def itab_def)

lemma W_self:
  "inodes s ip = Some i \<Longrightarrow> W s ip (malloc_cnt s) (file_table s) (part_medium s) (block_bitmap (cur_part s)) i = s"
  by (auto simp: W_def part_medium_def fun_upd_idem intro!: fs.equality partition.equality)

lemma W_read [simp]:
  "part_read lba n (W s ip c t m bm i) = (if lba \<le> max_lba \<and> 0 < n then Some (read_secs m lba n) else None)"
  by (simp add: part_read_medium)

lemma W_write [simp]:
  "part_write lba bs (W s ip c t m bm i) =
     (if lba \<le> max_lba \<and> 512 \<le> length bs then Some (W s ip c t (write_secs m lba bs) bm i) else None)"
  by (simp add: part_write_def disk_write_def W_def)

lemma W_upd_inode [simp]: "upd_inode ip f (W s ip c t m bm i) = W s ip c t m bm (f i)"
  by (simp add: W_def upd_inode_def)

lemma W_set_file [simp]: "set_file k f (W s ip c t m bm i) = W s ip c (t[k := f]) m bm i"
  by (simp add: W_def set_file_def)

lemma W_heap_alloc [simp]: "heap_alloc (W s ip c t m bm i) = (mallocs s c, W s ip (Suc c) t m bm i)"
  by (simp add: W_def heap_alloc_def)

section \<open>The layout of the partition\<close>

text \<open>
  The block bitmap lies before the inode table, that before the data, and every free block of
  the bitmap has its sector on the disk: what \<open>partition_format\<close> sets up (the bits behind the
  last block are set, so the bitmap may be longer). \<open>blk_ok s j\<close>: block \<open>j\<close> exists.
\<close>

definition data_base :: "fs \<Rightarrow> u32" where
  "data_base s = data_start_lba (sb (cur_part s))"

definition blk_ok :: "fs \<Rightarrow> nat \<Rightarrow> bool" where
  "blk_ok s j \<longleftrightarrow> j < bm_bits (block_bitmap (cur_part s)) \<and> unat (data_base s) + j < 163840"

definition free_blocks :: "bitmap \<Rightarrow> nat set" where
  "free_blocks bm = {j. j < bm_bits bm \<and> \<not> bm_used bm j}"

lemma finite_free_blocks [simp]: "finite (free_blocks bm)"
  by (simp add: free_blocks_def)

definition layout_ok :: "fs \<Rightarrow> bool" where
  "layout_ok s \<longleftrightarrow>
     (let b = sb (cur_part s); n = bm_bits (block_bitmap (cur_part s)) in
      unat (block_bitmap_lba b) + n div 4096 < unat (itab s) \<and> 0 < unat (block_bitmap_lba b) \<and>
      unat (itab s) + 864 \<le> unat (data_base s) \<and> unat (data_base s) \<le> 163840 \<and> n < 2 ^ 32 \<and>
      (\<forall>j\<in>free_blocks (block_bitmap (cur_part s)). blk_ok s j) \<and>
      unat (itab s) + 863 \<le> unat (start_lba (cur_part s) + sec_cnt (cur_part s)))"

text \<open>The sector of block \<open>j\<close>.\<close>

definition blk_lba :: "fs \<Rightarrow> nat \<Rightarrow> u32" where
  "blk_lba s j = data_base s + of_nat j"

lemma blk_lba_unat:
  assumes "layout_ok s" "blk_ok s j"
  shows "unat (blk_lba s j) = unat (data_base s) + j"
proof -
  have l: "unat (data_base s) + j < 163840" using assms by (simp add: blk_ok_def)
  then have "unat (of_nat j :: u32) = j" by (intro unat_of_nat_32) simp
  then show ?thesis unfolding blk_lba_def using l by (subst unat_add_small) simp_all
qed

lemma blk_lba_inj:
  assumes "layout_ok s" "blk_ok s j" "blk_ok s k"
  shows "blk_lba s j = blk_lba s k \<longleftrightarrow> j = k"
  using blk_lba_unat [OF assms(1,2)] blk_lba_unat [OF assms(1,3)] by (auto simp: word_unat_eq_iff)

lemma blk_lba_max:
  assumes "layout_ok s" "blk_ok s j"
  shows "blk_lba s j \<le> max_lba" "blk_lba s j \<noteq> 0"
  using assms blk_lba_unat [OF assms] by (auto simp: blk_ok_def layout_ok_def Let_def word_le_nat_alt max_lba_def)

section \<open>Allocation of a block\<close>

text \<open>Writing back a bit of the bitmap changes no data sector and nothing of the inode table.\<close>

lemma sync_block_bit:
  assumes "layout_ok s" "blk_ok s j" "sectors_ok m"
  shows "\<exists>m'. bitmap_sync (blk_lba s j - data_base s) BLOCK_BITMAP (W s ip c t m bm i) = Some (W s ip c t m' bm i) \<and>
    sectors_ok m' \<and> (\<forall>a. unat (itab s) \<le> unat a \<longrightarrow> m' a = m a)"
proof -
  let ?b = "block_bitmap_lba (sb (cur_part s))"
  have j: "j < 163840" "j < bm_bits (block_bitmap (cur_part s))" using assms by (simp_all add: blk_ok_def)
  have u: "unat (of_nat j div 4096 :: u32) = j div 4096" using j(1) by (simp add: unat_div unat_of_nat_32)
  have "j div 4096 \<le> bm_bits (block_bitmap (cur_part s)) div 4096" using j(2) by (intro div_le_mono) simp
  then have l: "unat ?b + j div 4096 < unat (itab s)" using assms(1) by (simp add: layout_ok_def Let_def)
  have lba: "unat (?b + of_nat j div 4096) = unat ?b + j div 4096"
    using l unat_lt_32 [of "itab s"] by (subst unat_add_small) (simp_all add: u)
  have "unat (itab s) < 163840" using assms(1) by (simp add: layout_ok_def Let_def)
  then have max: "?b + of_nat j div 4096 \<le> max_lba" using l by (simp add: word_le_nat_alt lba max_lba_def)
  let ?bs = "bitmap_bytes bm (of_nat j div 4096 * 512) 512"
  have len: "length ?bs = 512" by (simp add: bitmap_bytes_def)
  have "write_secs m (?b + of_nat j div 4096) ?bs a = m a" if "unat (itab s) \<le> unat a" for a
  proof (rule write_secs_other)
    have "?b + of_nat j div 4096 \<le> a" using that l by (simp add: word_le_nat_alt lba)
    then have "unat (a - (?b + of_nat j div 4096)) = unat a - unat (?b + of_nat j div 4096)" by (rule unat_sub_le)
    then show "length ?bs div 512 \<le> unat (a - (?b + of_nat j div 4096))" using that l by (simp add: len lba)
  qed
  moreover have "bitmap_sync (blk_lba s j - data_base s) BLOCK_BITMAP (W s ip c t m bm i) =
      Some (W s ip c t (write_secs m (?b + of_nat j div 4096) ?bs) bm i)"
    using max len by (simp add: bitmap_sync_def Let_def blk_lba_def)
  ultimately show ?thesis using assms(3) by auto
qed


text \<open>The part of the state a write may rely on: sizes, and free blocks that exist.\<close>

definition bm_ok :: "fs \<Rightarrow> bitmap \<Rightarrow> bool" where
  "bm_ok s bm \<longleftrightarrow> bm_bits bm = bm_bits (block_bitmap (cur_part s)) \<and>
     free_blocks bm \<subseteq> free_blocks (block_bitmap (cur_part s))"

lemma bm_ok_blk: "layout_ok s \<Longrightarrow> bm_ok s bm \<Longrightarrow> j \<in> free_blocks bm \<Longrightarrow> blk_ok s j"
  by (auto simp: bm_ok_def layout_ok_def Let_def)

lemma bm_ok_remove: "bm_ok s bm \<Longrightarrow> bm_bits bm' = bm_bits bm \<Longrightarrow> free_blocks bm' \<subseteq> free_blocks bm \<Longrightarrow> bm_ok s bm'"
  by (auto simp: bm_ok_def)

lemma alloc_ok:
  assumes "layout_ok s" "bm_ok s bm" "free_blocks bm \<noteq> {}"
  obtains j bm' where "j \<in> free_blocks bm" "free_blocks bm' = free_blocks bm - {j}" "bm_ok s bm'" "blk_ok s j"
    "\<And>c t m i. block_bitmap_alloc (W s ip c t m bm i) = Some (Some (blk_lba s j), W s ip c t m bm' i)"
proof -
  have N: "bm_bits bm < 2 ^ 32" using assms(1,2) by (simp add: layout_ok_def bm_ok_def Let_def)
  obtain r where r: "bitmap_scan bm 1 = Some r" using bm.scan_returns [OF N zero_less_one_u32] by blast
  have ne: "r \<noteq> -1"
  proof
    assume "r = -1"
    then have "free_blocks bm = {}" using bm.alloc_fails_iff_full [OF N] r by (auto simp: free_blocks_def)
    with assms(3) show False by simp
  qed
  obtain bm' where b': "bitmap_set bm r 1 = Some bm'" using bitmap_set_total [of 1] by blast
  note fresh = bm.alloc_fresh [OF N r ne b']
  have "bm_used bm' x = bm_used bm x" if "x < bm_bits bm" "x \<noteq> unat r" for x
    using fresh(4) [of x] that N by simp
  then have fr: "free_blocks bm' = free_blocks bm - {unat r}"
    using fresh(3,5) by (auto simp: free_blocks_def)
  have mem: "unat r \<in> free_blocks bm" using fresh by (simp add: free_blocks_def)
  show ?thesis
  proof (rule that [OF mem fr])
    show "bm_ok s bm'" using assms(2) fresh(5) fr by (auto simp: bm_ok_def)
    show "blk_ok s (unat r)" by (rule bm_ok_blk [OF assms(1,2) mem])
    show "block_bitmap_alloc (W s ip c t m bm i) = Some (Some (blk_lba s (unat r)), W s ip c t m bm' i)" for c t m i
      using r b' ne by (simp add: block_bitmap_alloc_def blk_lba_def data_base_def upd_part_def W_def)
  qed
qed

section \<open>The blocks of a file\<close>

text \<open>
  \<open>fblk m i k\<close> is the sector of block \<open>k\<close> of a file. \<open>file_map s m bm i n f t\<close>: the file has the
  \<open>n\<close> blocks \<open>f 0, ..., f (n - 1)\<close>, all different and in use, and, behind the twelfth, its table in
  block \<open>t\<close>; the other entries of the inode are 0.
\<close>

definition fblk :: "medium \<Rightarrow> inode \<Rightarrow> nat \<Rightarrow> u32" where
  "fblk m i k = (if k < 12 then i_sectors i ! k else rd32 (m (i_sectors i ! 12)) (4 * (k - 12)))"

definition used_blk :: "fs \<Rightarrow> bitmap \<Rightarrow> nat \<Rightarrow> bool" where
  "used_blk s bm j \<longleftrightarrow> blk_ok s j \<and> j \<notin> free_blocks bm"

definition file_map :: "fs \<Rightarrow> medium \<Rightarrow> bitmap \<Rightarrow> inode \<Rightarrow> nat \<Rightarrow> (nat \<Rightarrow> nat) \<Rightarrow> nat \<Rightarrow> bool" where
  "file_map s m bm i n f t \<longleftrightarrow>
     length (i_sectors i) = 13 \<and> n \<le> 140 \<and> inj_on f {..<n} \<and>
     (\<forall>k<n. used_blk s bm (f k) \<and> fblk m i k = blk_lba s (f k)) \<and>
     (\<forall>k<12. n \<le> k \<longrightarrow> i_sectors i ! k = 0) \<and>
     (if n \<le> 12 then i_sectors i ! 12 = 0
      else used_blk s bm t \<and> i_sectors i ! 12 = blk_lba s t \<and> t \<notin> f ` {..<n})"

lemma write_grow_ok:
  assumes "layout_ok s" "a + d \<le> 140" "bm_ok s bm" "d \<le> card (free_blocks bm)" "sectors_ok m"
    "length blocks = 140" "length (i_sectors i) = 13" "\<forall>k<12. a \<le> k \<longrightarrow> i_sectors i ! k = 0"
  shows "\<exists>m' bm' i' blocks' g. write_grow ip [a..<a + d] blocks (W s ip c t m bm i) =
      Some (Inr (blocks', W s ip c t m' bm' i')) \<and>
    bm_ok s bm' \<and> free_blocks bm' = free_blocks bm - g ` {a..<a + d} \<and> g ` {a..<a + d} \<subseteq> free_blocks bm \<and>
    inj_on g {a..<a + d} \<and> sectors_ok m' \<and> (\<forall>x. unat (itab s) \<le> unat x \<longrightarrow> m' x = m x) \<and>
    length blocks' = 140 \<and> (\<forall>k<140. blocks' ! k = (if a \<le> k \<and> k < a + d then blk_lba s (g k) else blocks ! k)) \<and>
    i' = i\<lparr>i_sectors := map (\<lambda>k. if a \<le> k \<and> k < a + d \<and> k < 12 then blk_lba s (g k) else i_sectors i ! k) [0..<13]\<rparr>"
  using assms(2-8)
proof (induction d arbitrary: a m bm i blocks)
  case 0
  have "map (\<lambda>k. if a \<le> k \<and> k < a + 0 \<and> k < 12 then blk_lba s ((\<lambda>_. 0) k) else i_sectors i ! k) [0..<13] =
      map ((!) (i_sectors i)) [0..<length (i_sectors i)]"
    using 0(6) by (intro map_cong) auto
  then have i: "i = i\<lparr>i_sectors := map (\<lambda>k. if a \<le> k \<and> k < a + 0 \<and> k < 12 then blk_lba s ((\<lambda>_. 0) k) else i_sectors i ! k) [0..<13]\<rparr>"
    by (simp only: map_nth) simp
  have b: "\<forall>k<140. blocks ! k = (if a \<le> k \<and> k < a + 0 then blk_lba s ((\<lambda>_. 0) k) else blocks ! k)"
    by (auto split: if_split)
  show ?case
  proof (intro exI conjI)
    show "write_grow ip [a..<a + 0] blocks (W s ip c t m bm i) = Some (Inr (blocks, W s ip c t m bm i))" by simp
  qed (fact i b 0 | simp)+
next
  case (Suc d)
  have ne: "free_blocks bm \<noteq> {}" using Suc.prems(3) by auto
  obtain j bm1 where j: "j \<in> free_blocks bm" "free_blocks bm1 = free_blocks bm - {j}" "bm_ok s bm1" "blk_ok s j"
    "\<And>c t m i. block_bitmap_alloc (W s ip c t m bm i) = Some (Some (blk_lba s j), W s ip c t m bm1 i)"
    using alloc_ok [OF assms(1) Suc.prems(2) ne] by metis
  let ?i1 = "if a < 12 then set_sector a (blk_lba s j) i else i"
  obtain m1 where m1: "bitmap_sync (blk_lba s j - data_base s) BLOCK_BITMAP (W s ip c t m bm1 ?i1) = Some (W s ip c t m1 bm1 ?i1)"
    "sectors_ok m1" "\<forall>x. unat (itab s) \<le> unat x \<longrightarrow> m1 x = m x"
    using sync_block_bit [OF assms(1) j(4) Suc.prems(4)] by blast
  have i1: "length (i_sectors ?i1) = 13" "\<forall>k<12. Suc a \<le> k \<longrightarrow> i_sectors ?i1 ! k = 0"
    using Suc.prems(6,7) by (auto simp: set_sector_def)
  have card: "d \<le> card (free_blocks bm1)" using Suc.prems(3) j(1,2) by simp
  obtain m' bm' i' blocks' g where IH: "write_grow ip [Suc a..<Suc a + d] (blocks[a := blk_lba s j]) (W s ip c t m1 bm1 ?i1) =
      Some (Inr (blocks', W s ip c t m' bm' i'))"
    "bm_ok s bm'" "free_blocks bm' = free_blocks bm1 - g ` {Suc a..<Suc a + d}" "g ` {Suc a..<Suc a + d} \<subseteq> free_blocks bm1"
    "inj_on g {Suc a..<Suc a + d}" "sectors_ok m'" "\<forall>x. unat (itab s) \<le> unat x \<longrightarrow> m' x = m1 x"
    "length blocks' = 140"
    "\<forall>k<140. blocks' ! k = (if Suc a \<le> k \<and> k < Suc a + d then blk_lba s (g k) else blocks[a := blk_lba s j] ! k)"
    "i' = ?i1\<lparr>i_sectors := map (\<lambda>k. if Suc a \<le> k \<and> k < Suc a + d \<and> k < 12 then blk_lba s (g k) else i_sectors ?i1 ! k) [0..<13]\<rparr>"
    using Suc.IH [of "Suc a" bm1 m1 "blocks[a := blk_lba s j]" ?i1] Suc.prems(1,5) j(3) card m1(2) i1 by auto
  let ?g = "g(a := j)"
  have img: "?g ` {a..<a + Suc d} = insert j (g ` {Suc a..<Suc a + d})"
  proof -
    have "{a..<a + Suc d} = insert a {Suc a..<Suc a + d}" by auto
    then show ?thesis by auto
  qed
  have run: "write_grow ip [a..<a + Suc d] blocks (W s ip c t m bm i) = Some (Inr (blocks', W s ip c t m' bm' i'))"
  proof -
    have l: "[a..<a + Suc d] = a # [Suc a..<Suc a + d]" by (simp add: upt_rec)
    show ?thesis
      unfolding l using m1(1) IH(1) Suc.prems(7)
      by (cases "a < 12") (simp_all add: j(5) data_base_def Let_def del: upt_Suc)
  qed
  have bl: "\<forall>k<140. blocks' ! k = (if a \<le> k \<and> k < a + Suc d then blk_lba s (?g k) else blocks ! k)"
    using IH(9) Suc.prems(1,5) by (auto simp: nth_list_update)
  have ii: "i' = i\<lparr>i_sectors := map (\<lambda>k. if a \<le> k \<and> k < a + Suc d \<and> k < 12 then blk_lba s (?g k) else i_sectors i ! k) [0..<13]\<rparr>"
    unfolding IH(10) using Suc.prems(6) by (auto simp: set_sector_def nth_list_update intro!: inode.equality)
  have inj: "inj_on ?g {a..<a + Suc d}"
  proof -
    have "{a..<a + Suc d} = insert a {Suc a..<Suc a + d}" by auto
    moreover have "j \<notin> g ` {Suc a..<Suc a + d}" using IH(4) j(2) by auto
    moreover have "inj_on ?g {Suc a..<Suc a + d}" using IH(5) by (auto simp: inj_on_def)
    ultimately show ?thesis by (auto simp: inj_on_insert)
  qed
  show ?case
  proof (intro exI conjI)
    show "write_grow ip [a..<a + Suc d] blocks (W s ip c t m bm i) = Some (Inr (blocks', W s ip c t m' bm' i'))" by (rule run)
    show "free_blocks bm' = free_blocks bm - ?g ` {a..<a + Suc d}" unfolding img IH(3) j(2) by blast
    show "?g ` {a..<a + Suc d} \<subseteq> free_blocks bm" unfolding img using IH(4) j(1,2) by blast
    show "\<forall>x. unat (itab s) \<le> unat x \<longrightarrow> m' x = m x" using IH(7) m1(3) by simp
  qed (fact IH(2) inj IH(6) IH(8) bl ii)+
qed


lemma write_one: "length bs = 512 \<Longrightarrow> write_secs m lba bs = m(lba := bs)"
  by (rule ext) (simp add: write_secs_def unat_eq_zero)

lemma sectors_ok_upd: "sectors_ok m \<Longrightarrow> length bs = 512 \<Longrightarrow> sectors_ok (m(a := bs))"
  by (simp add: sectors_ok_def)

lemma length_word_bytes [simp]: "length (word_bytes ws) = 4 * length ws"
  by (simp add: word_bytes_def)

lemma rd32_word_bytes: "k < length ws \<Longrightarrow> rd32 (word_bytes ws) (4 * k) = ws ! k"
  using rd32_concat [of k ws "[]"] by (simp add: word_bytes_def)

lemma used_blk_mono: "used_blk s bm j \<Longrightarrow> free_blocks bm' \<subseteq> free_blocks bm \<Longrightarrow> used_blk s bm' j"
  by (auto simp: used_blk_def)

text \<open>Old and new blocks together.\<close>

definition join_blk :: "nat \<Rightarrow> (nat \<Rightarrow> nat) \<Rightarrow> (nat \<Rightarrow> nat) \<Rightarrow> nat \<Rightarrow> nat" where
  "join_blk u f g k = (if k < u then f k else g k)"

lemma join_blocks:
  assumes "layout_ok s" "bm_ok s bm" "file_map s m bm i u f t" "u \<le> w"
    "g ` {u..<w} \<subseteq> free_blocks bm1" "free_blocks bm1 \<subseteq> free_blocks bm" "inj_on g {u..<w}"
    "free_blocks bm' = free_blocks bm1 - g ` {u..<w}"
  shows "inj_on (join_blk u f g) {..<w}" "\<forall>k<w. used_blk s bm' (join_blk u f g k)"
    "join_blk u f g ` {..<w} = f ` {..<u} \<union> g ` {u..<w}"
proof -
  have f: "inj_on f {..<u}" "\<forall>k<u. used_blk s bm (f k)" using assms(3) by (simp_all add: file_map_def)
  have gf: "g k \<in> free_blocks bm" if "u \<le> k" "k < w" for k
  proof -
    have "g k \<in> g ` {u..<w}" using that by (intro imageI) simp
    then show ?thesis using assms(5,6) by blast
  qed
  have d: "f j \<noteq> g k" if "j < u" "u \<le> k" "k < w" for j k
  proof -
    have "g k \<in> free_blocks bm" using that by (intro gf)
    then show ?thesis using that(1) f(2) by (auto simp: used_blk_def)
  qed
  show "inj_on (join_blk u f g) {..<w}"
    using f(1) assms(7) d by (auto simp: inj_on_def join_blk_def) (metis not_less)+
  show "join_blk u f g ` {..<w} = f ` {..<u} \<union> g ` {u..<w}"
    using assms(4) by (auto simp: join_blk_def image_iff)
  have "blk_ok s (g k)" if "u \<le> k" "k < w" for k
    using that by (intro bm_ok_blk [OF assms(1,2)] gf)
  then show "\<forall>k<w. used_blk s bm' (join_blk u f g k)"
    using f(2) assms(6,8) by (auto simp: used_blk_def join_blk_def)
qed

lemma read_table_ok:
  assumes "lba \<le> max_lba" "length blocks = 140"
  shows "read_table lba blocks (W s ip c t m bm i) = Some (take 12 blocks @ rd_words (m lba) 128)"
    "12 \<le> k \<Longrightarrow> k < 140 \<Longrightarrow> (take 12 blocks @ rd_words (m lba) 128) ! k = rd32 (m lba) (4 * (k - 12))"
  using assms nth_upt [of 0 "k - 12" 128] by (simp_all add: read_table_def nth_append rd_words_def)

text \<open>The blocks of a file, its table included; with the free ones they stay together: no block is lost.\<close>

definition own_blks :: "nat \<Rightarrow> (nat \<Rightarrow> nat) \<Rightarrow> nat \<Rightarrow> nat set" where
  "own_blks n f t = f ` {..<n} \<union> (if n \<le> 12 then {} else {t})"

text \<open>What a filled \<^verbatim>\<open>all_blocks\<close> is good for, in the state after.\<close>

definition grown :: "fs \<Rightarrow> medium \<Rightarrow> bitmap \<Rightarrow> inode \<Rightarrow> nat \<Rightarrow> (nat \<Rightarrow> nat) \<Rightarrow> nat \<Rightarrow> nat \<Rightarrow>
    u32 list \<Rightarrow> medium \<Rightarrow> bitmap \<Rightarrow> inode \<Rightarrow> (nat \<Rightarrow> nat) \<Rightarrow> nat \<Rightarrow> bool" where
  "grown s m bm i u f t w blocks' m' bm' i' f' t' \<longleftrightarrow>
     file_map s m' bm' i' w f' t' \<and> (\<forall>k<u. f' k = f k) \<and>
     (\<forall>k. u \<le> k \<and> k < w \<longrightarrow> f' k \<in> free_blocks bm) \<and> length blocks' = 140 \<and>
     (\<forall>k. u - 1 \<le> k \<and> k < w \<longrightarrow> blocks' ! k = fblk m' i' k) \<and> sectors_ok m' \<and> bm_ok s bm' \<and>
     free_blocks bm' \<subseteq> free_blocks bm \<and> own_blks u f t \<union> free_blocks bm \<subseteq> own_blks w f' t' \<union> free_blocks bm' \<and>
     i' = i\<lparr>i_sectors := i_sectors i'\<rparr> \<and>
     (\<forall>j. used_blk s bm j \<and> (12 < u \<longrightarrow> j \<noteq> t) \<longrightarrow> m' (blk_lba s j) = m (blk_lba s j)) \<and>
     (\<forall>x. unat (itab s) \<le> unat x \<and> unat x < unat (data_base s) \<longrightarrow> m' x = m x)"

lemma blk_lba_data: "layout_ok s \<Longrightarrow> blk_ok s j \<Longrightarrow> unat (itab s) \<le> unat (blk_lba s j) \<and> unat (data_base s) \<le> unat (blk_lba s j)"
  using blk_lba_unat [of s j] by (simp add: layout_ok_def Let_def)

lemma write_blocks_ok:
  assumes "layout_ok s" "bm_ok s bm" "sectors_ok m" "file_map s m bm i u f t" "0 < u" "u \<le> w" "w \<le> 140"
    "w - u + 1 \<le> card (free_blocks bm)"
  shows "\<exists>blocks' m' bm' i' f' t'. write_blocks ip u w (replicate 140 0) (W s ip c tt m bm i) =
      Some (Inr (blocks', W s ip c tt m' bm' i')) \<and> grown s m bm i u f t w blocks' m' bm' i' f' t'"
proof -
  let ?last = "(replicate 140 0)[u - 1 := i_sectors i ! (u - 1)] :: u32 list"
  have fm: "length (i_sectors i) = 13" "\<forall>k<u. used_blk s bm (f k) \<and> fblk m i k = blk_lba s (f k)"
    "\<forall>k<12. u \<le> k \<longrightarrow> i_sectors i ! k = 0" "inj_on f {..<u}"
    using assms(4) by (simp_all add: file_map_def)
  consider (same) "w = u" "u \<le> 12" | (same_table) "w = u" "12 < u" | (direct) "u < w" "w \<le> 12"
    | (cross) "u \<le> 12" "12 < w" "u < w" | (table) "12 < u" "u < w"
    using assms(6) by linarith
  then show ?thesis
  proof cases
    case same
    then have "grown s m bm i u f t w ?last m bm i f t"
      using assms fm by (auto simp: grown_def nth_list_update fblk_def)
    moreover have "write_blocks ip u w (replicate 140 0) (W s ip c tt m bm i) = Some (Inr (?last, W s ip c tt m bm i))"
      using same by (simp add: write_blocks_def)
    ultimately show ?thesis by blast
  next
    case same_table
    have t: "used_blk s bm t" "i_sectors i ! 12 = blk_lba s t" using assms(4) same_table by (simp_all add: file_map_def)
    then have max: "i_sectors i ! 12 \<le> max_lba" using blk_lba_max [OF assms(1)] by (simp add: used_blk_def)
    note rt = read_table_ok [OF max, of "replicate 140 0"]
    let ?bl = "take 12 (replicate 140 0) @ rd_words (m (i_sectors i ! 12)) 128"
    have "grown s m bm i u f t w ?bl m bm i f t"
      using assms same_table rt(2) by (auto simp: grown_def fblk_def rd_words_def)
    moreover have "write_blocks ip u w (replicate 140 0) (W s ip c tt m bm i) = Some (Inr (?bl, W s ip c tt m bm i))"
      using same_table rt(1) by (simp add: write_blocks_def)
    ultimately show ?thesis by blast
  next
    case direct
    define d where "d = w - u"
    have w: "w = u + d" using direct by (simp add: d_def)
    obtain m' bm' i' blocks' g where g: "write_grow ip [u..<u + d] ?last (W s ip c tt m bm i) =
        Some (Inr (blocks', W s ip c tt m' bm' i'))"
      "bm_ok s bm'" "free_blocks bm' = free_blocks bm - g ` {u..<u + d}" "g ` {u..<u + d} \<subseteq> free_blocks bm"
      "inj_on g {u..<u + d}" "sectors_ok m'" "\<forall>x. unat (itab s) \<le> unat x \<longrightarrow> m' x = m x"
      "length blocks' = 140" "\<forall>k<140. blocks' ! k = (if u \<le> k \<and> k < u + d then blk_lba s (g k) else ?last ! k)"
      "i' = i\<lparr>i_sectors := map (\<lambda>k. if u \<le> k \<and> k < u + d \<and> k < 12 then blk_lba s (g k) else i_sectors i ! k) [0..<13]\<rparr>"
      using write_grow_ok [OF assms(1), of u d bm m ?last i ip c tt] assms(2,3,7,8) w fm(1,3) by auto
    note jb = join_blocks [OF assms(1,2,4,6), of g bm bm', folded w, OF g(4)[folded w] subset_refl g(5)[folded w] g(3)[folded w]]
    have i': "length (i_sectors i') = 13" "\<forall>k<12. i_sectors i' ! k = (if u \<le> k \<and> k < w then blk_lba s (g k) else i_sectors i ! k)"
      "i_sectors i' ! 12 = 0"
      using g(10) direct assms(4) w by (auto simp: file_map_def)
    have fb: "fblk m' i' k = blk_lba s (join_blk u f g k)" if "k < w" for k
      using that i'(2) fm(2) direct by (auto simp: fblk_def join_blk_def)
    have "file_map s m' bm' i' w (join_blk u f g) t"
      unfolding file_map_def using i' jb fb direct fm(3) assms(7) by auto
    moreover have "\<forall>k. u \<le> k \<and> k < w \<longrightarrow> join_blk u f g k \<in> free_blocks bm"
      using g(4) w by (simp add: join_blk_def image_subset_iff)
    moreover have "blocks' ! k = fblk m' i' k" if "u - 1 \<le> k" "k < w" for k
    proof (cases "u \<le> k")
      case True then show ?thesis using that g(9) fb [of k] w direct by (simp add: join_blk_def)
    next
      case False
      then have k: "u - 1 = k" "k < 12" "k < 140" using that direct by auto
      then show ?thesis using that False g(9) [rule_format, of k] i'(2) [rule_format, of k]
        by (simp add: fblk_def)
    qed
    moreover have "own_blks u f t \<union> free_blocks bm \<subseteq> own_blks w (join_blk u f g) t \<union> free_blocks bm'"
      unfolding own_blks_def jb(3) using g(3) direct w by auto
    ultimately have "grown s m bm i u f t w blocks' m' bm' i' (join_blk u f g) t"
      unfolding grown_def
      using g(2,3,6,7,8,10) blk_lba_data [OF assms(1)] by (auto simp: join_blk_def used_blk_def)
    moreover have "write_blocks ip u w (replicate 140 0) (W s ip c tt m bm i) = Some (Inr (blocks', W s ip c tt m' bm' i'))"
      using direct g(1) w by (simp add: write_blocks_def)
    ultimately show ?thesis by blast
  next
    case cross
    define d where "d = w - u"
    have w: "w = u + d" using cross by (simp add: d_def)
    have ne: "free_blocks bm \<noteq> {}" using assms(8) by auto
    obtain j bm1 where j: "j \<in> free_blocks bm" "free_blocks bm1 = free_blocks bm - {j}" "bm_ok s bm1" "blk_ok s j"
      "\<And>c t m i. block_bitmap_alloc (W s ip c t m bm i) = Some (Some (blk_lba s j), W s ip c t m bm1 i)"
      using alloc_ok [OF assms(1,2) ne] by metis
    let ?i1 = "set_sector 12 (blk_lba s j) i"
    have card: "d \<le> card (free_blocks bm1)" using assms(8) j(1,2) w by simp
    have i1: "length (i_sectors ?i1) = 13" "\<forall>k<12. u \<le> k \<longrightarrow> i_sectors ?i1 ! k = 0"
      "i_sectors ?i1 = (i_sectors i)[12 := blk_lba s j]"
      using fm by (simp_all add: set_sector_def)
    obtain m' bm' i' blocks' g where g: "write_grow ip [u..<u + d] ?last (W s ip c tt m bm1 ?i1) =
        Some (Inr (blocks', W s ip c tt m' bm' i'))"
      "bm_ok s bm'" "free_blocks bm' = free_blocks bm1 - g ` {u..<u + d}" "g ` {u..<u + d} \<subseteq> free_blocks bm1"
      "inj_on g {u..<u + d}" "sectors_ok m'" "\<forall>x. unat (itab s) \<le> unat x \<longrightarrow> m' x = m x"
      "length blocks' = 140" "\<forall>k<140. blocks' ! k = (if u \<le> k \<and> k < u + d then blk_lba s (g k) else ?last ! k)"
      "i' = ?i1\<lparr>i_sectors := map (\<lambda>k. if u \<le> k \<and> k < u + d \<and> k < 12 then blk_lba s (g k) else i_sectors ?i1 ! k) [0..<13]\<rparr>"
      using write_grow_ok [OF assms(1), of u d bm1 m ?last ?i1 ip c tt] assms(3,7) j(3) card w i1(1,2) by auto
    have sub1: "free_blocks bm1 \<subseteq> free_blocks bm" using j(2) by blast
    note jb = join_blocks [OF assms(1,2,4,6), of g bm1 bm', OF g(4)[folded w] sub1 g(5)[folded w] g(3)[folded w]]
    let ?m = "m'(blk_lba s j := word_bytes (drop 12 blocks'))"
    have i': "length (i_sectors i') = 13"
      "\<forall>k<12. i_sectors i' ! k = (if u \<le> k \<and> k < w then blk_lba s (g k) else i_sectors i ! k)"
      "i_sectors i' ! 12 = blk_lba s j" "i' = i\<lparr>i_sectors := i_sectors i'\<rparr>"
      using g(10) cross w i1(3) fm(1) by (auto simp: set_sector_def nth_list_update)
    have bl: "blocks' ! k = blk_lba s (g k)" if "u \<le> k" "k < w" for k
      using that g(9) w assms(7) by simp
    have tab: "fblk ?m i' k = blocks' ! k" if "12 \<le> k" "k < 140" for k
    proof -
      have "fblk ?m i' k = rd32 (word_bytes (drop 12 blocks')) (4 * (k - 12))" using that i'(3) by (simp add: fblk_def)
      also have "\<dots> = drop 12 blocks' ! (k - 12)" using that g(8) by (intro rd32_word_bytes) simp
      finally show ?thesis using that g(8) by simp
    qed
    have fb: "fblk ?m i' k = blk_lba s (join_blk u f g k)" if "k < w" for k
    proof (cases "k < 12")
      case True then show ?thesis using that i'(2) fm(2) [rule_format, of k] by (auto simp: fblk_def join_blk_def)
    next
      case False then show ?thesis using that tab [of k] bl [of k] cross assms(7) by (simp add: join_blk_def)
    qed
    have jn: "j \<notin> join_blk u f g ` {..<w}" "j \<notin> free_blocks bm'"
      using jb(3) g(3,4) j(1,2) fm(2) w by (auto simp: used_blk_def)
    have "file_map s ?m bm' i' w (join_blk u f g) j"
      unfolding file_map_def using i' jb(1,2) fb cross assms(7) jn j(4) by (auto simp: used_blk_def)
    moreover have "\<forall>k. u \<le> k \<and> k < w \<longrightarrow> join_blk u f g k \<in> free_blocks bm"
      using g(4) w j(2) by (simp add: join_blk_def image_subset_iff)
    moreover have "blocks' ! k = fblk ?m i' k" if "u - 1 \<le> k" "k < w" for k
    proof (cases "u \<le> k")
      case True then show ?thesis using that bl [of k] fb [of k] by (simp add: join_blk_def)
    next
      case False
      then have k: "u - 1 = k" "k < 12" "k < 140" using that cross assms(5) by auto
      then show ?thesis using that False g(9) [rule_format, of k] i'(2) [rule_format, of k]
        by (simp add: fblk_def)
    qed
    moreover have "?m (blk_lba s l) = m (blk_lba s l)" if "used_blk s bm l" for l
    proof -
      have "l \<noteq> j" "blk_ok s l" using that j(1) by (auto simp: used_blk_def)
      then show ?thesis using g(7) blk_lba_inj [OF assms(1) _ j(4)] blk_lba_data [OF assms(1)] by simp
    qed
    moreover have "?m x = m x" if "unat (itab s) \<le> unat x" "unat x < unat (data_base s)" for x
      using that g(7) blk_lba_data [OF assms(1) j(4)] by auto
    moreover have "sectors_ok ?m" using g(6,8) by (simp add: sectors_ok_def)
    moreover have "own_blks u f t \<union> free_blocks bm \<subseteq> own_blks w (join_blk u f g) j \<union> free_blocks bm'"
      unfolding own_blks_def jb(3) using g(3) j(2) cross w by auto
    ultimately have "grown s m bm i u f t w blocks' ?m bm' i' (join_blk u f g) j"
      unfolding grown_def using g(2,3,8) i'(4) sub1 by (auto simp: join_blk_def)
    moreover have "write_blocks ip u w (replicate 140 0) (W s ip c tt m bm i) = Some (Inr (blocks', W s ip c tt ?m bm' i'))"
      using cross g(1,8) w assms(4) blk_lba_max [OF assms(1) j(4)]
      by (simp add: write_blocks_def j(5) file_map_def write_one)
    ultimately show ?thesis by blast
  next
    case table
    define d where "d = w - u"
    have w: "w = u + d" using table by (simp add: d_def)
    have t: "used_blk s bm t" "i_sectors i ! 12 = blk_lba s t" "t \<notin> f ` {..<u}"
      using assms(4) table by (simp_all add: file_map_def)
    then have bt: "blk_ok s t" by (simp add: used_blk_def)
    note max = blk_lba_max [OF assms(1) bt]
    note rt = read_table_ok [of "blk_lba s t" "replicate 140 0", OF max(1)]
    let ?tab = "take 12 (replicate 140 0) @ rd_words (m (blk_lba s t)) 128 :: u32 list"
    have lt: "length ?tab = 140" by (simp add: rd_words_def)
    obtain m' bm' i' blocks' g where g: "write_grow ip [u..<u + d] ?tab (W s ip c tt m bm i) =
        Some (Inr (blocks', W s ip c tt m' bm' i'))"
      "bm_ok s bm'" "free_blocks bm' = free_blocks bm - g ` {u..<u + d}" "g ` {u..<u + d} \<subseteq> free_blocks bm"
      "inj_on g {u..<u + d}" "sectors_ok m'" "\<forall>x. unat (itab s) \<le> unat x \<longrightarrow> m' x = m x"
      "length blocks' = 140" "\<forall>k<140. blocks' ! k = (if u \<le> k \<and> k < u + d then blk_lba s (g k) else ?tab ! k)"
      "i' = i\<lparr>i_sectors := map (\<lambda>k. if u \<le> k \<and> k < u + d \<and> k < 12 then blk_lba s (g k) else i_sectors i ! k) [0..<13]\<rparr>"
      using write_grow_ok [OF assms(1), of u d bm m ?tab i ip c tt] assms(2,3,7,8) w fm(1,3) lt by auto
    note jb = join_blocks [OF assms(1,2,4,6), of g bm bm', OF g(4)[folded w] subset_refl g(5)[folded w] g(3)[folded w]]
    let ?m = "m'(blk_lba s t := word_bytes (drop 12 blocks'))"
    have i': "i' = i"
    proof -
      have "map (\<lambda>k. if u \<le> k \<and> k < u + d \<and> k < 12 then blk_lba s (g k) else i_sectors i ! k) [0..<13] =
          map ((!) (i_sectors i)) [0..<length (i_sectors i)]"
        using fm(1) table by (intro map_cong) auto
      then show ?thesis unfolding g(10) by (simp only: map_nth) simp
    qed
    have bl: "blocks' ! k = blk_lba s (g k)" if "u \<le> k" "k < w" for k
      using that g(9) w assms(7) by simp
    have tab: "fblk ?m i k = blocks' ! k" if "12 \<le> k" "k < 140" for k
    proof -
      have "fblk ?m i k = rd32 (word_bytes (drop 12 blocks')) (4 * (k - 12))" using that t(2) by (simp add: fblk_def)
      also have "\<dots> = drop 12 blocks' ! (k - 12)" using that g(8) by (intro rd32_word_bytes) simp
      finally show ?thesis using that g(8) by simp
    qed
    have old: "blocks' ! k = fblk m i k" if "12 \<le> k" "k < u" for k
      using that g(9) [rule_format, of k] rt(2) [of k m] table assms(7) t(2) by (simp add: fblk_def)
    have fb: "fblk ?m i k = blk_lba s (join_blk u f g k)" if "k < w" for k
    proof (cases "k < 12")
      case True then show ?thesis using that fm(2) [rule_format, of k] table by (auto simp: fblk_def join_blk_def)
    next
      case False
      then show ?thesis using that tab [of k] bl [of k] old [of k] fm(2) assms(7)
        by (cases "k < u") (auto simp: join_blk_def)
    qed
    have tn: "t \<notin> join_blk u f g ` {..<w}" "used_blk s bm' t"
      using jb(3) g(3,4) t w used_blk_mono [of s bm t bm'] by (auto simp: used_blk_def)
    have "file_map s ?m bm' i w (join_blk u f g) t"
      unfolding file_map_def using fm(1) jb(1,2) fb table assms(7) tn t(2) by auto
    moreover have "\<forall>k. u \<le> k \<and> k < w \<longrightarrow> join_blk u f g k \<in> free_blocks bm"
      using g(4) w by (simp add: join_blk_def image_subset_iff)
    moreover have "blocks' ! k = fblk ?m i k" if "u - 1 \<le> k" "k < w" for k
      using that tab [of k] table assms(7) by simp
    moreover have "?m (blk_lba s l) = m (blk_lba s l)" if "used_blk s bm l" "l \<noteq> t" for l
    proof -
      have "blk_ok s l" using that by (auto simp: used_blk_def)
      then show ?thesis using that(2) g(7) blk_lba_inj [OF assms(1) _ bt] blk_lba_data [OF assms(1)] by simp
    qed
    moreover have "?m x = m x" if "unat (itab s) \<le> unat x" "unat x < unat (data_base s)" for x
      using that g(7) blk_lba_data [OF assms(1) bt] by auto
    moreover have "sectors_ok ?m" using g(6,8) by (simp add: sectors_ok_def)
    moreover have "own_blks u f t \<union> free_blocks bm \<subseteq> own_blks w (join_blk u f g) t \<union> free_blocks bm'"
      unfolding own_blks_def jb(3) using g(3) table w by auto
    ultimately have "grown s m bm i u f t w blocks' ?m bm' i (join_blk u f g) t"
      unfolding grown_def using g(2,3,8) table by (auto simp: join_blk_def)
    moreover have "write_blocks ip u w (replicate 140 0) (W s ip c tt m bm i) = Some (Inr (blocks', W s ip c tt ?m bm' i))"
      using table g(1,8) w max rt(1) i' t(2)
      by (simp add: write_blocks_def write_one del: take_replicate)
    ultimately show ?thesis by blast
  qed
qed


section \<open>The bytes of a file\<close>

definition fbyte :: "medium \<Rightarrow> inode \<Rightarrow> nat \<Rightarrow> u8" where
  "fbyte m i k = m (fblk m i (k div 512)) ! (k mod 512)"

definition file_bytes :: "medium \<Rightarrow> inode \<Rightarrow> u8 list" where
  "file_bytes m i = map (fbyte m i) [0..<unat (i_size i)]"

text \<open>Changing one data sector of the file changes neither its block numbers nor its other bytes.\<close>

lemma data_write_map:
  assumes "layout_ok s" "file_map s m bm i n f t" "q < n" "fblk m i q = lba"
  shows "k < n \<Longrightarrow> fblk (m(lba := bs)) (i\<lparr>i_size := z\<rparr>) k = fblk m i k"
    "file_map s (m(lba := bs)) bm (i\<lparr>i_size := z\<rparr>) n f t"
    "k < n \<Longrightarrow> fblk m i k = lba \<longleftrightarrow> k = q"
proof -
  have f: "inj_on f {..<n}" "\<forall>k<n. used_blk s bm (f k) \<and> fblk m i k = blk_lba s (f k)"
    using assms(2) by (simp_all add: file_map_def)
  have eq: "fblk m i k = lba \<longleftrightarrow> k = q" if "k < n" for k
    using f that assms(3,4) blk_lba_inj [OF assms(1), of "f k" "f q"]
    by (auto simp: used_blk_def inj_on_def)
  have tab: "i_sectors i ! 12 \<noteq> lba" if "12 < n"
  proof -
    have "used_blk s bm t" "i_sectors i ! 12 = blk_lba s t" "t \<notin> f ` {..<n}"
      using assms(2) that by (simp_all add: file_map_def)
    then show ?thesis using f(2) assms(3,4) blk_lba_inj [OF assms(1), of t "f q"] by (auto simp: used_blk_def)
  qed
  have b: "fblk (m(lba := bs)) (i\<lparr>i_size := z\<rparr>) k = fblk m i k" if "k < n" for k
    using tab that by (auto simp: fblk_def)
  then show "k < n \<Longrightarrow> fblk (m(lba := bs)) (i\<lparr>i_size := z\<rparr>) k = fblk m i k" .
  show "file_map s (m(lba := bs)) bm (i\<lparr>i_size := z\<rparr>) n f t"
    using assms(2) b by (simp add: file_map_def)
  show "k < n \<Longrightarrow> fblk m i k = lba \<longleftrightarrow> k = q" by (rule eq)
qed

lemma chunk_bytes:
  assumes "layout_ok s" "file_map s m bm i n f t" "sectors_ok m" "z < 512 * n"
    "z div 512 = q" "z mod 512 = o'" "fblk m i q = lba" "io = m lba \<or> o' = 0" "length io = 512"
    "length ch + o' \<le> 512" "m1 = m(lba := splice io o' ch)" "i1 = i\<lparr>i_size := z'\<rparr>"
  shows "k < z \<Longrightarrow> fbyte m1 i1 k = fbyte m i k" "j < length ch \<Longrightarrow> fbyte m1 i1 (z + j) = ch ! j"
proof -
  have q: "q < n" using assms(4,5) by (auto simp: div_less_iff_less_mult mult.commute)
  note dw = data_write_map(1) [OF assms(1,2) q assms(7), where bs = "splice io o' ch" and z = z', folded assms(11,12)]
  note dw3 = data_write_map(3) [OF assms(1,2) q assms(7)]
  have zq: "z = 512 * q + o'" using assms(5,6) mult_div_mod_eq [of 512 z] by simp
  show "fbyte m1 i1 k = fbyte m i k" if "k < z"
  proof -
    have kn: "k div 512 < n" using that assms(4) by (simp add: div_less_iff_less_mult mult.commute)
    show ?thesis
    proof (cases "k div 512 = q")
      case True
      then have "k mod 512 < o'" using that zq mult_div_mod_eq [of 512 k] by (metis nat_add_left_cancel_less)
      then show ?thesis using True dw [OF kn] assms(7-11)
        by (auto simp: fbyte_def nth_splice)
    next
      case False
      then show ?thesis using dw [OF kn] dw3 [OF kn] assms(11) by (simp add: fbyte_def)
    qed
  qed
  show "fbyte m1 i1 (z + j) = ch ! j" if "j < length ch"
  proof -
    have "o' + j < 512" using that assms(10) by simp
    then have "(512 * q + (o' + j)) div 512 = q" "(512 * q + (o' + j)) mod 512 = o' + j"
      by (simp_all only: div_mult_self4 mod_mult_self4) simp_all
    then have "(z + j) div 512 = q" "(z + j) mod 512 = o' + j" unfolding zq by (simp_all only: add.assoc)
    then show ?thesis using dw [OF q] that assms(7,9,10,11) by (simp add: fbyte_def nth_splice)
  qed
qed

lemma write_loop_ok:
  assumes "layout_ok s" "file_map s m bm i n f t" "n \<le> 140" "unat (i_size i) + length src < 512 * n" "sectors_ok m"
    "length blocks = 140" "\<forall>k. unat (i_size i) div 512 \<le> k \<and> k < n \<longrightarrow> blocks ! k = fblk m i k"
    "src = [] \<or> fst' \<or> unat (i_size i) mod 512 = 0" "fi < length tt"
  shows "\<exists>m' tt'. write_loop fi ip blocks fst' src (W s ip c tt m bm i) =
      Some (W s ip c tt' m' bm (i\<lparr>i_size := i_size i + of_nat (length src)\<rparr>)) \<and> sectors_ok m' \<and>
    (\<forall>x. (\<forall>k<n. x \<noteq> blk_lba s (f k)) \<longrightarrow> m' x = m x) \<and>
    file_map s m' bm (i\<lparr>i_size := i_size i + of_nat (length src)\<rparr>) n f t \<and>
    (\<forall>k<unat (i_size i). fbyte m' i k = fbyte m i k) \<and>
    (\<forall>k<length src. fbyte m' i (unat (i_size i) + k) = src ! k) \<and>
    length tt' = length tt \<and> (\<forall>j. j \<noteq> fi \<longrightarrow> tt' ! j = tt ! j) \<and>
    tt' ! fi = (tt ! fi)\<lparr>fd_pos := fd_pos (tt ! fi) + of_nat (length src)\<rparr>"
  using assms(2,4-9)
proof (induction "length src" arbitrary: src m i fst' tt rule: less_induct)
  case less
  show ?case
  proof (cases "src = []")
    case True
    then show ?thesis using less.prems
      by (intro exI [of _ m] exI [of _ tt]) (simp add: write_loop.simps)
  next
    case False
    define z where "z = unat (i_size i)"
    define ch where "ch = min (length src) (512 - z mod 512)"
    let ?q = "z div 512" let ?o = "z mod 512"
    have z: "z + length src < 512 * n" "z < 512 * n" using less.prems(2) by (simp_all add: z_def)
    have qn: "?q < n" using z(2) by (simp add: div_less_iff_less_mult mult.commute)
    have o: "?o < 512" by simp
    have ch: "0 < ch" "ch \<le> length src" "ch + ?o \<le> 512" using False o by (simp_all add: ch_def)
    let ?lba = "fblk m i ?q"
    have lba: "?lba = blk_lba s (f ?q)" "blk_ok s (f ?q)"
      using less.prems(1) qn by (simp_all add: file_map_def used_blk_def)
    note max = blk_lba_max(1) [OF assms(1) lba(2)]
    let ?io = "if fst' then m ?lba else replicate 512 0"
    let ?new = "splice ?io ?o (take ch src)"
    let ?m1 = "m(?lba := ?new)" let ?i1 = "i\<lparr>i_size := i_size i + of_nat ch\<rparr>"
    let ?tt1 = "tt[fi := (tt ! fi)\<lparr>fd_pos := fd_pos (tt ! fi) + of_nat ch\<rparr>]"
    have lio: "length ?io = 512" using less.prems(3) by (simp add: sectors_ok_def)
    have lnew: "length ?new = 512" using lio ch by (simp add: min_def)
    have u: "unat (i_size i div 512) = ?q" "unat (i_size i mod 512) = ?o"
      by (simp_all add: z_def unat_div_word unat_mod_word)
    have z1: "unat (i_size ?i1) = z + ch"
    proof -
      have l: "z + ch < 2 ^ 32" using z(1) ch(2) assms(3) by simp
      then have "unat (of_nat ch :: u32) = ch" by (intro unat_of_nat_32) simp
      then show ?thesis using l by (simp add: z_def unat_add_small)
    qed
    have run: "write_loop fi ip blocks fst' src (W s ip c tt m bm i) =
        write_loop fi ip blocks False (drop ch src) (W s ip c ?tt1 ?m1 bm ?i1)"
    proof -
      have "blocks ! ?q = ?lba" using less.prems(5) qn by (simp add: z_def)
      moreover have "?q < 140" using qn assms(3) by simp
      ultimately show ?thesis
        using False max lnew less.prems(4) lba(1)
        by (subst write_loop.simps; cases fst') (simp_all add: Let_def u write_one flip: ch_def)
    qed
    note dw = data_write_map(1,2) [OF assms(1) less.prems(1) qn refl, where bs = ?new and z = "i_size i + of_nat ch"]
    have io: "?io = m ?lba \<or> ?o = 0" using less.prems(6) False by (auto simp: z_def)
    have lch: "length (take ch src) + ?o \<le> 512" using ch by simp
    note cb = chunk_bytes [OF assms(1) less.prems(1,3) z(2) refl refl refl io lio lch refl refl,
        where z' = "i_size i + of_nat ch"]
    have bl: "\<forall>k. unat (i_size ?i1) div 512 \<le> k \<and> k < n \<longrightarrow> blocks ! k = fblk ?m1 ?i1 k"
    proof (intro allI impI)
      fix k assume k: "unat (i_size ?i1) div 512 \<le> k \<and> k < n"
      have "z div 512 \<le> (z + ch) div 512" by (intro div_le_mono) simp
      then show "blocks ! k = fblk ?m1 ?i1 k" using k z1 less.prems(5) dw(1) by (simp add: z_def)
    qed
    have nx: "drop ch src = [] \<or> False \<or> unat (i_size ?i1) mod 512 = 0"
    proof (cases "ch = length src")
      case False
      then have "ch = 512 - ?o" by (auto simp: ch_def)
      moreover have "512 * ?q + ?o = z" by (rule mult_div_mod_eq)
      ultimately have "z + ch = 512 * ?q + (?o + (512 - ?o))" by (simp only: add.assoc [symmetric])
      then have "z + ch = 512 * (?q + 1)" using o by (simp only: le_add_diff_inverse less_imp_le) simp
      then show ?thesis unfolding z1 by simp
    qed simp
    have sm: "sectors_ok ?m1" by (rule sectors_ok_upd [OF less.prems(3) lnew])
    have len: "unat (i_size ?i1) + length (drop ch src) < 512 * n" unfolding z1 using z(1) ch(2) by simp
    have "length (drop ch src) < length src" using ch by simp
    then obtain m' tt' where IH: "write_loop fi ip blocks False (drop ch src) (W s ip c ?tt1 ?m1 bm ?i1) =
        Some (W s ip c tt' m' bm (?i1\<lparr>i_size := i_size ?i1 + of_nat (length (drop ch src))\<rparr>))" "sectors_ok m'"
      "\<forall>x. (\<forall>k<n. x \<noteq> blk_lba s (f k)) \<longrightarrow> m' x = ?m1 x"
      "file_map s m' bm (?i1\<lparr>i_size := i_size ?i1 + of_nat (length (drop ch src))\<rparr>) n f t"
      "\<forall>k<unat (i_size ?i1). fbyte m' ?i1 k = fbyte ?m1 ?i1 k"
      "\<forall>k<length (drop ch src). fbyte m' ?i1 (unat (i_size ?i1) + k) = drop ch src ! k"
      "length tt' = length ?tt1" "\<forall>j. j \<noteq> fi \<longrightarrow> tt' ! j = ?tt1 ! j"
      "tt' ! fi = (?tt1 ! fi)\<lparr>fd_pos := fd_pos (?tt1 ! fi) + of_nat (length (drop ch src))\<rparr>"
      using less.hyps [OF _ dw(2) len sm less.prems(4) bl nx, of ?tt1] less.prems(7) by (simp only: length_list_update) blast
    have add: "of_nat ch + of_nat (length (drop ch src)) = (of_nat (length src) :: u32)"
      using ch(2) by (simp flip: of_nat_add)
    have i2: "?i1\<lparr>i_size := i_size ?i1 + of_nat (length (drop ch src))\<rparr> = i\<lparr>i_size := i_size i + of_nat (length src)\<rparr>"
      by (simp only: inode.simps add [symmetric] add.assoc) simp
    have fi: "fbyte m' ?i1 k = fbyte m' i k" for k by (simp add: fbyte_def fblk_def)
    have old: "\<forall>k<z. fbyte m' i k = fbyte m i k"
      using IH(5) z1 cb(1) by (simp add: fi)
    have new: "\<forall>k<length src. fbyte m' i (z + k) = src ! k"
    proof (intro allI impI)
      fix k assume k: "k < length src"
      show "fbyte m' i (z + k) = src ! k"
      proof (cases "k < ch")
        case True
        then show ?thesis using IH(5) z1 cb(2) [of k] k ch(2) by (simp add: fi)
      next
        case False
        then have "fbyte m' i (unat (i_size ?i1) + (k - ch)) = drop ch src ! (k - ch)"
          using IH(6) k by (simp only: fi length_drop)
        then show ?thesis using False z1 ch(2) k by (simp add: z1)
      qed
    qed
    have frame: "\<forall>x. (\<forall>k<n. x \<noteq> blk_lba s (f k)) \<longrightarrow> m' x = m x"
      using IH(3) lba(1) qn by auto
    show ?thesis
      using IH(1,2,4,7,8,9) frame old new less.prems(7)
      unfolding run i2 by (intro exI [of _ m'] exI [of _ tt']) (auto simp: z_def add.assoc add [unfolded length_drop])
  qed
qed


section \<open>Writing appends\<close>

lemma file_map_cong:
  assumes "file_map s m bm i n f t" "\<And>j. blk_ok s j \<Longrightarrow> m' (blk_lba s j) = m (blk_lba s j)"
  shows "file_map s m' bm i n f t" "k < n \<Longrightarrow> fblk m' i k = fblk m i k"
    "k < 512 * n \<Longrightarrow> fbyte m' i k = fbyte m i k"
proof -
  have f: "\<forall>k<n. used_blk s bm (f k) \<and> fblk m i k = blk_lba s (f k)" using assms(1) by (simp add: file_map_def)
  have b: "fblk m' i k = fblk m i k" if "k < n" for k
  proof (cases "k < 12")
    case False
    then have "used_blk s bm t" "i_sectors i ! 12 = blk_lba s t" using assms(1) that by (simp_all add: file_map_def)
    then show ?thesis using assms(2) by (simp add: fblk_def used_blk_def)
  qed (simp add: fblk_def)
  then show "file_map s m' bm i n f t" using assms(1) by (simp add: file_map_def)
  show "k < n \<Longrightarrow> fblk m' i k = fblk m i k" by (rule b)
  show "k < 512 * n \<Longrightarrow> fbyte m' i k = fbyte m i k"
  proof -
    assume "k < 512 * n"
    then have "k div 512 < n" by (simp add: div_less_iff_less_mult mult.commute)
    then show ?thesis using b f assms(2) by (simp add: fbyte_def used_blk_def)
  qed
qed

definition file_ok :: "fs \<Rightarrow> inode \<Rightarrow> bool" where
  "file_ok s i \<longleftrightarrow> (\<exists>n f t. file_map s (part_medium s) (block_bitmap (cur_part s)) i n f t \<and>
     (n = 0 \<and> i_size i = 0 \<or> n = unat (i_size i) div 512 + 1))"

text \<open>The sectors a file occupies: its blocks and its table (0 stands for none).\<close>

definition file_sectors :: "medium \<Rightarrow> inode \<Rightarrow> u32 set" where
  "file_sectors m i = insert (i_sectors i ! 12) {fblk m i k | k. k \<le> unat (i_size i) div 512} - {0}"

lemma W_layout: "layout_ok s \<Longrightarrow> bm_ok s bm \<Longrightarrow> layout_ok (W s ip c t m bm i)"
  by (auto simp: layout_ok_def bm_ok_def Let_def data_base_def blk_ok_def)

lemma W_file_map: "bm_ok s bm \<Longrightarrow> file_map (W s ip c t m bm i) m' bm' i' n f u = file_map s m' bm' i' n f u"
  by (simp add: file_map_def used_blk_def blk_ok_def bm_ok_def blk_lba_def data_base_def)

lemma first_block_ok:
  assumes "layout_ok s" "sectors_ok m" "bm_ok s bm" "file_map s m bm i 0 f t" "free_blocks bm \<noteq> {}"
  obtains j m1 bm1 where "block_bitmap_alloc (W s ip c tt m bm i) = Some (Some (blk_lba s j), W s ip c tt m bm1 i)"
    "bitmap_sync (blk_lba s j - data_base s) BLOCK_BITMAP (W s ip c tt m bm1 (set_sector 0 (blk_lba s j) i)) =
      Some (W s ip c tt m1 bm1 (set_sector 0 (blk_lba s j) i))"
    "file_map s m1 bm1 (set_sector 0 (blk_lba s j) i) 1 (\<lambda>_. j) t" "sectors_ok m1" "bm_ok s bm1"
    "card (free_blocks bm) = card (free_blocks bm1) + 1" "free_blocks bm1 = free_blocks bm - {j}"
    "\<forall>x. unat (itab s) \<le> unat x \<longrightarrow> m1 x = m x" "j \<in> free_blocks bm"
proof -
  obtain j bm1 where j: "j \<in> free_blocks bm" "free_blocks bm1 = free_blocks bm - {j}" "bm_ok s bm1" "blk_ok s j"
    "\<And>c t m i. block_bitmap_alloc (W s ip c t m bm i) = Some (Some (blk_lba s j), W s ip c t m bm1 i)"
    using alloc_ok [OF assms(1,3,5)] by metis
  obtain m1 where m1: "bitmap_sync (blk_lba s j - data_base s) BLOCK_BITMAP (W s ip c tt m bm1 (set_sector 0 (blk_lba s j) i)) =
      Some (W s ip c tt m1 bm1 (set_sector 0 (blk_lba s j) i))"
    "sectors_ok m1" "\<forall>x. unat (itab s) \<le> unat x \<longrightarrow> m1 x = m x"
    using sync_block_bit [OF assms(1) j(4) assms(2)] by blast
  have "file_map s m1 bm1 (set_sector 0 (blk_lba s j) i) 1 (\<lambda>_. j) t"
    using assms(4) j(2,4) by (auto simp: file_map_def set_sector_def used_blk_def fblk_def nth_list_update inj_on_def)
  moreover have "card (free_blocks bm) = card (free_blocks bm1) + 1"
    using j(1,2) assms(5) by (simp add: card_gt_0_iff)
  ultimately show ?thesis using that j m1 by blast
qed

text \<open>The inode goes to the table, which holds no data.\<close>

lemma sync_file_inode:
  assumes "layout_ok s" "sectors_ok m" "bm_ok s bm" "length (i_sectors i) = 13" "\<forall>k. mallocs s k"
  obtains m' where "inode_sync i (W s ip c tt m bm i) = Some (W s ip (Suc c) tt m' bm i)" "sectors_ok m'"
    "\<And>j. blk_ok s j \<Longrightarrow> m' (blk_lba s j) = m (blk_lba s j)"
proof -
  let ?s = "W s ip c tt m bm i"
  have tab: "unat (itab s) + 864 \<le> unat (data_base s)" "unat (data_base s) \<le> 163840"
    using assms(1) by (simp_all add: layout_ok_def Let_def)
  have "table_ok ?s" using assms(1,2) tab by (simp add: table_ok_def layout_ok_def Let_def max_lba_def)
  then obtain s1 mm where s1: "inode_sync i ?s = Some s1" "table_ok s1" "s1 = ?s\<lparr>malloc_cnt := Suc c, media := mm\<rparr>"
    "\<forall>d. d \<noteq> my_disk (cur_part s) \<longrightarrow> media s1 d = media ?s d"
    "\<forall>a. 864 \<le> unat (a - itab s) \<longrightarrow> part_medium s1 a = m a"
    using inode_sync_slot [of ?s i] assms(4,5) by auto
  have eq: "s1 = W s ip (Suc c) tt (part_medium s1) bm i"
  proof -
    have "mm = (media s)(my_disk (cur_part s) := part_medium s1)"
      using s1(3,4) by (auto simp: fun_eq_iff part_medium_def W_def)
    then show ?thesis using s1(3) by (simp add: W_def)
  qed
  have "part_medium s1 (blk_lba s j) = m (blk_lba s j)" if "blk_ok s j" for j
  proof -
    have l: "unat (itab s) + 864 \<le> unat (blk_lba s j)" using tab blk_lba_unat [OF assms(1) that] by simp
    then have "itab s \<le> blk_lba s j" by (simp add: word_le_nat_alt)
    then have "unat (blk_lba s j - itab s) = unat (blk_lba s j) - unat (itab s)" by (rule unat_sub_le)
    then show ?thesis using s1(5) l by simp
  qed
  moreover have "sectors_ok (part_medium s1)" using s1(2) by (simp add: table_ok_def)
  ultimately show ?thesis using that s1(1) eq by metis
qed


lemma write_start_ok:
  assumes "layout_ok s" "sectors_ok m" "bm_ok s bm" "file_map s m bm i n f t" "unat (i_size i) = z"
    "n = 0 \<and> z = 0 \<or> n = z div 512 + 1" "2 \<le> card (free_blocks bm)"
  obtains m1 bm1 i1 f1 where "write_start ip i (W s ip c tt m bm i) = Some (Inr (W s ip c tt m1 bm1 i1))"
    "file_map s m1 bm1 i1 (z div 512 + 1) f1 t" "sectors_ok m1" "bm_ok s bm1" "i_size i1 = i_size i"
    "card (free_blocks bm) \<le> card (free_blocks bm1) + 1" "free_blocks bm1 \<subseteq> free_blocks bm"
    "\<forall>x. unat (itab s) \<le> unat x \<longrightarrow> m1 x = m x" "\<forall>k<z. fbyte m1 i1 k = fbyte m i k"
    "n = 0 \<or> i1 = i \<and> m1 = m \<and> f1 = f \<and> bm1 = bm"
    "n = 0 \<longrightarrow> f1 0 \<in> free_blocks bm"
    "own_blks n f t \<union> free_blocks bm \<subseteq> own_blks (z div 512 + 1) f1 t \<union> free_blocks bm1"
proof (cases "n = 0")
  case True
  have ne: "free_blocks bm \<noteq> {}" using assms(7) by auto
  have fm0: "file_map s m bm i 0 f t" using assms(4) True by simp
  have z: "i_sectors i ! 0 = 0" "z = 0" using fm0 assms(6) True by (simp_all add: file_map_def)
  obtain j m1 bm1 where j: "block_bitmap_alloc (W s ip c tt m bm i) = Some (Some (blk_lba s j), W s ip c tt m bm1 i)"
    "bitmap_sync (blk_lba s j - data_base s) BLOCK_BITMAP (W s ip c tt m bm1 (set_sector 0 (blk_lba s j) i)) =
      Some (W s ip c tt m1 bm1 (set_sector 0 (blk_lba s j) i))"
    "file_map s m1 bm1 (set_sector 0 (blk_lba s j) i) 1 (\<lambda>_. j) t" "sectors_ok m1" "bm_ok s bm1"
    "card (free_blocks bm) = card (free_blocks bm1) + 1" "free_blocks bm1 = free_blocks bm - {j}"
    "\<forall>x. unat (itab s) \<le> unat x \<longrightarrow> m1 x = m x" "j \<in> free_blocks bm"
    by (rule first_block_ok [OF assms(1-3) fm0 ne])
  have own: "own_blks n f t \<union> free_blocks bm \<subseteq> own_blks (z div 512 + 1) (\<lambda>_. j) t \<union> free_blocks bm1"
    using True z(2) j(7) by (auto simp: own_blks_def)
  show ?thesis
    by (rule that [of m1 bm1 "set_sector 0 (blk_lba s j) i" "\<lambda>_. j"])
      (use j z True own in \<open>simp_all add: write_start_def data_base_def set_sector_def\<close>)
next
  case False
  then have n: "n = z div 512 + 1" using assms(6) by simp
  have "used_blk s bm (f 0)" "i_sectors i ! 0 = blk_lba s (f 0)"
    using assms(4) n by (auto simp: file_map_def fblk_def)
  then have "i_sectors i ! 0 \<noteq> 0" using blk_lba_max(2) [OF assms(1)] by (simp add: used_blk_def)
  then show ?thesis
    using that [of m bm i f] assms(2-4) False n by (simp add: write_start_def)
qed

lemma file_write_W:
  assumes "layout_ok s" "sectors_ok m" "bm_ok s bm" "file_map s m bm i n f t" "unat (i_size i) = z"
    "n = 0 \<and> z = 0 \<or> n = z div 512 + 1" "length buf div 512 + 3 \<le> card (free_blocks bm)" "\<forall>k. mallocs s k"
    "z + length buf < 71680" "fi < length tt" "fd_inode (tt ! fi) = ip"
  shows "\<exists>m' bm' i' tt' f' t'. file_write fi buf (W s ip c tt m bm i) =
      Some (of_nat (length buf), W s ip (Suc (Suc (Suc c))) tt' m' bm' i') \<and> sectors_ok m' \<and> bm_ok s bm' \<and>
    unat (i_size i') = z + length buf \<and> file_map s m' bm' i' ((z + length buf) div 512 + 1) f' t' \<and>
    file_bytes m' i' = file_bytes m i @ buf \<and> length tt' = length tt \<and> (\<forall>j. j \<noteq> fi \<longrightarrow> tt' ! j = tt ! j) \<and>
    tt' ! fi = (tt ! fi)\<lparr>fd_pos := of_nat (z + length buf) - 1\<rparr> \<and>
    own_blks n f t \<union> free_blocks bm \<subseteq> own_blks ((z + length buf) div 512 + 1) f' t' \<union> free_blocks bm' \<and>
    (\<forall>j. used_blk s bm j \<and> j \<notin> f ` {..<n} \<and> (12 < n \<longrightarrow> j \<noteq> t) \<longrightarrow> m' (blk_lba s j) = m (blk_lba s j))"
proof -
  define l where "l = length buf"
  have zl: "z + l < 71680" using assms(9) by (simp add: l_def)
  have ul: "unat (of_nat l :: u32) = l" using zl by (intro unat_of_nat_32) simp
  have uzl: "unat (i_size i + of_nat l) = z + l" using zl assms(5) ul by (simp add: unat_add_small)
  have big: "\<not> i_size i + of_nat l > 512 * 140" using zl by (simp add: word_less_nat_alt uzl)
  let ?u = "z div 512 + 1" let ?w = "(z + l) div 512 + 1"
  have uw: "?u \<le> ?w" by (simp add: div_le_mono)
  have w140: "?w \<le> 140" using zl by (simp add: Suc_le_eq div_less_iff_less_mult)
  have wu: "?w - ?u \<le> l div 512 + 1"
  proof -
    have "z mod 512 + l mod 512 < 2 * 512" using add_strict_mono [of "z mod 512" 512 "l mod 512" 512] by simp
    then have "(z mod 512 + l mod 512) div 512 < 2" by (rule less_mult_imp_div_less)
    then have "(z + l) div 512 \<le> z div 512 + l div 512 + 1" by (simp add: div_add1_eq [of z l])
    then show ?thesis by simp
  qed
  have used: "unat (i_size i div 512 + 1) = ?u"
  proof -
    have "unat (i_size i div 512) = z div 512" by (simp add: unat_div_word assms(5))
    moreover have "z div 512 + 1 < 2 ^ 32" using zl by simp
    ultimately show ?thesis using unat_inc_small [of "i_size i div 512"] by simp
  qed
  have will: "unat ((i_size i + of_nat l) div 512 + 1) = ?w"
  proof -
    have "unat ((i_size i + of_nat l) div 512) = (z + l) div 512" by (simp add: unat_div_word uzl)
    moreover have "(z + l) div 512 + 1 < 2 ^ 32" using zl by simp
    ultimately show ?thesis using unat_inc_small [of "(i_size i + of_nat l) div 512"] by simp
  qed
  have two: "2 \<le> card (free_blocks bm)" using assms(7) by simp
  obtain m1 bm1 i1 f1 where p1: "write_start ip i (W s ip (Suc (Suc c)) tt m bm i) = Some (Inr (W s ip (Suc (Suc c)) tt m1 bm1 i1))"
    "file_map s m1 bm1 i1 ?u f1 t" "sectors_ok m1" "bm_ok s bm1" "i_size i1 = i_size i"
    "card (free_blocks bm) \<le> card (free_blocks bm1) + 1" "free_blocks bm1 \<subseteq> free_blocks bm"
    "\<forall>x. unat (itab s) \<le> unat x \<longrightarrow> m1 x = m x" "\<forall>k<z. fbyte m1 i1 k = fbyte m i k"
    "n = 0 \<or> i1 = i \<and> m1 = m \<and> f1 = f \<and> bm1 = bm" "n = 0 \<longrightarrow> f1 0 \<in> free_blocks bm"
    "own_blks n f t \<union> free_blocks bm \<subseteq> own_blks ?u f1 t \<union> free_blocks bm1"
    by (rule write_start_ok [OF assms(1-6) two])
  have free1: "?w - ?u + 1 \<le> card (free_blocks bm1)" using assms(7) p1(6) wu by (simp add: l_def)
  obtain blocks m2 bm2 i2 f2 t2 where p2: "write_blocks ip ?u ?w (replicate 140 0) (W s ip (Suc (Suc c)) tt m1 bm1 i1) =
      Some (Inr (blocks, W s ip (Suc (Suc c)) tt m2 bm2 i2))" "grown s m1 bm1 i1 ?u f1 t ?w blocks m2 bm2 i2 f2 t2"
    using write_blocks_ok [OF assms(1) p1(4,3,2) _ uw w140 free1, of ip "Suc (Suc c)" tt] by auto
  have g: "file_map s m2 bm2 i2 ?w f2 t2" "\<forall>k<?u. f2 k = f1 k" "length blocks = 140"
    "\<forall>k. z div 512 \<le> k \<and> k < ?w \<longrightarrow> blocks ! k = fblk m2 i2 k" "sectors_ok m2" "bm_ok s bm2"
    "free_blocks bm2 \<subseteq> free_blocks bm1" "i_size i2 = i_size i1"
    "\<forall>j. used_blk s bm1 j \<and> (12 < ?u \<longrightarrow> j \<noteq> t) \<longrightarrow> m2 (blk_lba s j) = m1 (blk_lba s j)"
    "\<forall>k. ?u \<le> k \<and> k < ?w \<longrightarrow> f2 k \<in> free_blocks bm1"
    using p2(2) unfolding grown_def by (auto, metis inode.select_convs(2) inode.surjective inode.update_convs(10))
  have own: "own_blks n f t \<union> free_blocks bm \<subseteq> own_blks ?w f2 t2 \<union> free_blocks bm2"
    using p1(12) p2(2) unfolding grown_def by blast
  have sz: "unat (i_size i2) = z" using g(8) p1(5) assms(5) by simp
  have l512: "unat (i_size i2) + length buf < 512 * ?w"
    unfolding sz l_def [symmetric] using dividend_less_div_times [of 512 "z + l"] by simp
  let ?tt = "tt[fi := (tt ! fi)\<lparr>fd_pos := i_size i - 1\<rparr>]"
  obtain m3 tt3 where p3: "write_loop fi ip blocks True buf (W s ip (Suc (Suc c)) ?tt m2 bm2 i2) =
      Some (W s ip (Suc (Suc c)) tt3 m3 bm2 (i2\<lparr>i_size := i_size i2 + of_nat (length buf)\<rparr>))" "sectors_ok m3"
    "\<forall>x. (\<forall>k<?w. x \<noteq> blk_lba s (f2 k)) \<longrightarrow> m3 x = m2 x"
    "file_map s m3 bm2 (i2\<lparr>i_size := i_size i2 + of_nat (length buf)\<rparr>) ?w f2 t2"
    "\<forall>k<unat (i_size i2). fbyte m3 i2 k = fbyte m2 i2 k"
    "\<forall>k<length buf. fbyte m3 i2 (unat (i_size i2) + k) = buf ! k"
    "length tt3 = length ?tt" "\<forall>j. j \<noteq> fi \<longrightarrow> tt3 ! j = ?tt ! j"
    "tt3 ! fi = (?tt ! fi)\<lparr>fd_pos := fd_pos (?tt ! fi) + of_nat (length buf)\<rparr>"
    using write_loop_ok [OF assms(1) g(1) w140 l512 g(5,3), of True fi ?tt ip "Suc (Suc c)"] g(4) sz assms(10) by auto
  let ?i3 = "i2\<lparr>i_size := i_size i2 + of_nat (length buf)\<rparr>"
  have len3: "length (i_sectors ?i3) = 13" using p3(4) by (simp add: file_map_def)
  obtain m4 where p4: "inode_sync ?i3 (W s ip (Suc (Suc c)) tt3 m3 bm2 ?i3) = Some (W s ip (Suc (Suc (Suc c))) tt3 m4 bm2 ?i3)"
    "sectors_ok m4" "\<And>j. blk_ok s j \<Longrightarrow> m4 (blk_lba s j) = m3 (blk_lba s j)"
    using sync_file_inode [OF assms(1) p3(2) g(6) len3 assms(8)] by metis
  have sz3: "unat (i_size ?i3) = z + l"
    using sz ul zl by (simp add: l_def [symmetric] unat_add_small)
  have run: "file_write fi buf (W s ip c tt m bm i) = Some (of_nat (length buf), W s ip (Suc (Suc (Suc c))) tt3 m4 bm2 ?i3)"
    using p1(1) p2(1) p3(1) p4(1) assms(8,11) big used will w140
    by (simp add: file_write_def Let_def l_def [symmetric])
  have old: "fbyte m4 ?i3 k = fbyte m i k" if "k < z" for k
  proof -
    have k: "k div 512 < ?u" "k div 512 < ?w" using that uw by (simp_all add: div_le_mono less_imp_le le_imp_less_Suc)
    have fb1: "fblk m1 i1 (k div 512) = blk_lba s (f1 (k div 512))" "used_blk s bm1 (f1 (k div 512))"
      using p1(2) k by (simp_all add: file_map_def)
    have fb2: "fblk m2 i2 (k div 512) = blk_lba s (f1 (k div 512))" using g(1,2) k by (simp add: file_map_def)
    have "12 < ?u \<longrightarrow> f1 (k div 512) \<noteq> t" using p1(2) k by (auto simp: file_map_def)
    then have "m2 (blk_lba s (f1 (k div 512))) = m1 (blk_lba s (f1 (k div 512)))" using g(9) fb1(2) by blast
    then have "fbyte m2 i2 k = fbyte m1 i1 k" by (simp add: fbyte_def fb1 fb2)
    moreover have "fbyte m4 ?i3 k = fbyte m3 ?i3 k"
      using file_map_cong(3) [OF p3(4) p4(3)] that l512 sz by simp
    moreover have "fbyte m3 ?i3 k = fbyte m3 i2 k" by (simp add: fbyte_def fblk_def)
    ultimately show ?thesis using p3(5) p1(9) that sz by simp
  qed
  have new: "fbyte m4 ?i3 (z + k) = buf ! k" if "k < l" for k
  proof -
    have "fbyte m4 ?i3 (z + k) = fbyte m3 ?i3 (z + k)"
      using file_map_cong(3) [OF p3(4) p4(3)] that l512 sz by (simp add: l_def)
    moreover have "fbyte m3 ?i3 (z + k) = fbyte m3 i2 (z + k)" by (simp add: fbyte_def fblk_def)
    ultimately show ?thesis using p3(6) that sz by (simp add: l_def)
  qed
  have bytes: "file_bytes m4 ?i3 = file_bytes m i @ buf"
  proof (rule nth_equalityI)
    show "length (file_bytes m4 ?i3) = length (file_bytes m i @ buf)"
      unfolding file_bytes_def length_map length_upt length_append using sz3 assms(5) by (simp only: l_def)
    fix k assume "k < length (file_bytes m4 ?i3)"
    then have k: "k < z + l" unfolding file_bytes_def length_map length_upt sz3 by simp
    have left: "file_bytes m4 ?i3 ! k = fbyte m4 ?i3 k"
      unfolding file_bytes_def sz3 using k by simp
    show "file_bytes m4 ?i3 ! k = (file_bytes m i @ buf) ! k"
    proof (cases "k < z")
      case True
      then show ?thesis unfolding left old [OF True] by (simp add: file_bytes_def assms(5) nth_append)
    next
      case False
      then have "fbyte m4 ?i3 (z + (k - z)) = buf ! (k - z)" using k by (intro new) simp
      with False show ?thesis unfolding left by (simp add: file_bytes_def assms(5) nth_append)
    qed
  qed
  have frame: "m4 (blk_lba s j) = m (blk_lba s j)"
    if j: "used_blk s bm j" "j \<notin> f ` {..<n}" "12 < n \<longrightarrow> j \<noteq> t" for j
  proof -
    have bj: "blk_ok s j" using j(1) by (simp add: used_blk_def)
    have j1: "used_blk s bm1 j" by (rule used_blk_mono [OF j(1) p1(7)])
    have tn: "12 < ?u \<longrightarrow> j \<noteq> t" using j(3) assms(6) by auto
    have nf2: "j \<noteq> f2 k" if "k < ?w" for k
    proof
      assume e: "j = f2 k"
      show False
      proof (cases "k < ?u")
        case True
        then have "j = f1 k" using g(2) e by simp
        then show False using p1(10,11) j(1,2) True assms(6) by (auto simp: used_blk_def)
      next
        case False
        then have "f2 k \<in> free_blocks bm1" using g(10) that by simp
        then show False using e j(1) p1(7) by (auto simp: used_blk_def)
      qed
    qed
    have "m4 (blk_lba s j) = m3 (blk_lba s j)" by (rule p4(3) [OF bj])
    also have "\<dots> = m2 (blk_lba s j)"
      using p3(3) nf2 blk_lba_inj [OF assms(1) bj] g(1) by (auto simp: file_map_def used_blk_def)
    also have "\<dots> = m1 (blk_lba s j)" using g(9) j1 tn by blast
    also have "\<dots> = m (blk_lba s j)" using p1(8) blk_lba_data [OF assms(1) bj] by blast
    finally show ?thesis .
  qed
  have tt: "length tt3 = length tt" "\<forall>j. j \<noteq> fi \<longrightarrow> tt3 ! j = tt ! j"
    "tt3 ! fi = (tt ! fi)\<lparr>fd_pos := of_nat (z + length buf) - 1\<rparr>"
  proof -
    have "i_size i = of_nat z" using assms(5) by auto
    then show "tt3 ! fi = (tt ! fi)\<lparr>fd_pos := of_nat (z + length buf) - 1\<rparr>"
      using p3(9) assms(10) by simp
  qed (use p3(7,8) in simp_all)
  have map4: "file_map s m4 bm2 ?i3 ?w f2 t2" by (rule file_map_cong(1) [OF p3(4) p4(3)])
  show ?thesis
    using run p4(2) g(6) sz3 map4 bytes tt own frame unfolding l_def by blast
qed


section \<open>Reading takes a slice\<close>

lemma read_loop_ok:
  assumes "layout_ok s" "file_map s m bm i n f t" "n \<le> 140" "sectors_ok m" "length blocks = 140"
    "unat (fd_pos (tt ! fi)) + left \<le> 512 * n" "fi < length tt"
    "\<forall>k. unat (fd_pos (tt ! fi)) div 512 \<le> k \<and> k < n \<and> 512 * k < unat (fd_pos (tt ! fi)) + left \<longrightarrow> blocks ! k = fblk m i k"
  shows "read_loop fi blocks left (W s ip c tt m bm i) =
    Some (map (fbyte m i) [unat (fd_pos (tt ! fi))..<unat (fd_pos (tt ! fi)) + left],
      W s ip c (tt[fi := (tt ! fi)\<lparr>fd_pos := fd_pos (tt ! fi) + of_nat left\<rparr>]) m bm i)"
  using assms(6-8)
proof (induction left arbitrary: tt rule: less_induct)
  case (less left)
  show ?case
  proof (cases "left = 0")
    case True
    have "(tt ! fi)\<lparr>fd_pos := fd_pos (tt ! fi)\<rparr> = tt ! fi" by simp
    then show ?thesis using True by (simp add: read_loop.simps [where size_left = 0])
  next
    case False
    define p where "p = unat (fd_pos (tt ! fi))"
    define ch where "ch = min left (512 - p mod 512)"
    have o: "p mod 512 < 512" by simp
    have ch: "0 < ch" "ch \<le> left" "ch + p mod 512 \<le> 512" using False o by (simp_all add: ch_def)
    have p: "p + left \<le> 512 * n" using less.prems(1) by (simp add: p_def)
    have q: "p div 512 < n" using p False by (simp add: div_less_iff_less_mult mult.commute)
    have pq: "512 * (p div 512) \<le> p" by simp
    have b: "blocks ! (p div 512) = fblk m i (p div 512)"
      using less.prems(3) q pq False by (auto simp: p_def)
    have lba: "fblk m i (p div 512) \<le> max_lba"
      using assms(2) q blk_lba_max(1) [OF assms(1)] by (auto simp: file_map_def used_blk_def)
    have u: "unat (fd_pos (tt ! fi) div 512) = p div 512" "unat (fd_pos (tt ! fi) mod 512) = p mod 512"
      by (simp_all add: p_def unat_div_word unat_mod_word)
    let ?tt = "tt[fi := (tt ! fi)\<lparr>fd_pos := fd_pos (tt ! fi) + of_nat ch\<rparr>]"
    have p1: "unat (fd_pos (?tt ! fi)) = p + ch"
    proof -
      have l: "p + ch < 2 ^ 32" using p ch(2) assms(3) by simp
      then have "unat (of_nat ch :: u32) = ch" by (intro unat_of_nat_32) simp
      then show ?thesis using l less.prems(2) by (simp add: p_def unat_add_small)
    qed
    have pm: "p div 512 \<le> (p + ch) div 512" by (intro div_le_mono) simp
    have IH: "read_loop fi blocks (left - ch) (W s ip c ?tt m bm i) =
      Some (map (fbyte m i) [p + ch..<p + left], W s ip c (?tt[fi := (?tt ! fi)\<lparr>fd_pos := fd_pos (?tt ! fi) + of_nat (left - ch)\<rparr>]) m bm i)"
    proof -
      have "left - ch < left" using ch by simp
      moreover have "p + ch + (left - ch) \<le> 512 * n" using p ch(2) by simp
      moreover have "\<forall>k. (p + ch) div 512 \<le> k \<and> k < n \<and> 512 * k < p + ch + (left - ch) \<longrightarrow> blocks ! k = fblk m i k"
        using less.prems(3) pm ch(2) by (auto simp: p_def)
      ultimately show ?thesis
        using less.IH [of "left - ch" ?tt] p1 less.prems(2) ch(2) by simp
    qed
    have add: "of_nat ch + of_nat (left - ch) = (of_nat left :: u32)"
      using ch(2) by (simp flip: of_nat_add)
    have tt: "?tt[fi := (?tt ! fi)\<lparr>fd_pos := fd_pos (?tt ! fi) + of_nat (left - ch)\<rparr>] =
        tt[fi := (tt ! fi)\<lparr>fd_pos := fd_pos (tt ! fi) + of_nat left\<rparr>]"
      using less.prems(2) by (simp add: add.assoc add)
    have chunk: "take ch (drop (p mod 512) (m (fblk m i (p div 512)))) = map (fbyte m i) [p..<p + ch]"
    proof (rule nth_equalityI)
      have len: "length (m (fblk m i (p div 512))) = 512" using assms(4) by (simp add: sectors_ok_def)
      then show "length (take ch (drop (p mod 512) (m (fblk m i (p div 512))))) = length (map (fbyte m i) [p..<p + ch])"
        using ch(3) by simp
      fix k assume "k < length (take ch (drop (p mod 512) (m (fblk m i (p div 512)))))"
      then have k: "k < ch" by simp
      have e: "(512 * (p div 512) + (p mod 512 + k)) div 512 = p div 512"
        "(512 * (p div 512) + (p mod 512 + k)) mod 512 = p mod 512 + k"
        using k ch(3) by (simp_all only: div_mult_self4 mod_mult_self4) simp_all
      have "512 * (p div 512) + (p mod 512 + k) = p + k" using mult_div_mod_eq [of 512 p] by (simp only: add.assoc [symmetric])
      note e = e [unfolded this]
      show "take ch (drop (p mod 512) (m (fblk m i (p div 512)))) ! k = map (fbyte m i) [p..<p + ch] ! k"
        using k ch(3) len by (simp add: fbyte_def e)
    qed
    have q140: "p div 512 < 140" using q assms(3) by simp
    have "read_loop fi blocks left (W s ip c tt m bm i) =
        Some (take ch (drop (p mod 512) (m (fblk m i (p div 512)))) @ map (fbyte m i) [p + ch..<p + left],
          W s ip c (tt[fi := (tt ! fi)\<lparr>fd_pos := fd_pos (tt ! fi) + of_nat left\<rparr>]) m bm i)"
      using False IH lba b assms(5) q140 unfolding tt
      by (subst read_loop.simps) (simp add: Let_def u flip: ch_def)
    also have "take ch (drop (p mod 512) (m (fblk m i (p div 512)))) @ map (fbyte m i) [p + ch..<p + left] =
        map (fbyte m i) [p..<p + left]"
      unfolding chunk map_append [symmetric] using upt_add_eq_append [of p "p + ch" "left - ch"] ch(2) by simp
    finally show ?thesis by (simp add: p_def)
  qed
qed

lemma read_blocks_ok:
  assumes "layout_ok s" "file_map s m bm i n f t" "a \<le> e" "e < n"
  shows "\<exists>blocks. read_blocks i a e (replicate 140 0) (W s ip c tt m bm i) = Some blocks \<and> length blocks = 140 \<and>
    (\<forall>k. a \<le> k \<and> k \<le> e \<longrightarrow> blocks ! k = fblk m i k)"
proof -
  have n: "n \<le> 140" using assms(2) by (simp add: file_map_def)
  show ?thesis
  proof (cases "e < 12")
    case True
    then show ?thesis by (auto simp: read_blocks_def fblk_def)
  next
    case False
    then have t: "used_blk s bm t" "i_sectors i ! 12 = blk_lba s t" using assms(2,4) by (simp_all add: file_map_def)
    then have max: "i_sectors i ! 12 \<le> max_lba" "i_sectors i ! 12 \<noteq> 0"
      using blk_lba_max [OF assms(1)] by (auto simp: used_blk_def)
    let ?b = "map (\<lambda>k. if a \<le> k \<and> k < 12 then i_sectors i ! k else replicate 140 0 ! k) [0..<140]"
    show ?thesis
    proof (cases "a = e")
      case True
      then show ?thesis
        using False max n assms(4) read_table_ok(1) [OF max(1), of "replicate 140 0"]
          read_table_ok(2) [OF max(1), of "replicate 140 0" e m]
        by (auto simp: read_blocks_def fblk_def rd_words_def simp del: take_replicate)
    next
      case neq: False
      have "(take 12 ?b @ rd_words (m (i_sectors i ! 12)) 128) ! k = fblk m i k" if "a \<le> k" "k \<le> e" for k
      proof (cases "k < 12")
        case True then show ?thesis using that by (simp add: nth_append fblk_def)
      next
        case ge: False
        then show ?thesis using that read_table_ok(2) [OF max(1), of ?b k m] n assms(4) by (simp add: fblk_def)
      qed
      moreover have "read_blocks i a e (replicate 140 0) (W s ip c tt m bm i) =
          Some (take 12 ?b @ rd_words (m (i_sectors i ! 12)) 128)"
        using False neq max read_table_ok(1) [OF max(1), of ?b] by (simp add: read_blocks_def)
      ultimately show ?thesis by (auto simp: rd_words_def)
    qed
  qed
qed

lemma file_read_W:
  assumes "layout_ok s" "sectors_ok m" "file_map s m bm i n f t" "unat (i_size i) = z"
    "n = 0 \<and> z = 0 \<or> n = z div 512 + 1" "\<forall>k. mallocs s k" "z < 71168" "fi < length tt" "fd_inode (tt ! fi) = ip"
    "unat (fd_pos (tt ! fi)) = p" "p \<le> z" "p + unat count < 2 ^ 32"
  shows "if p = z \<and> 0 < unat count then file_read fi count (W s ip c tt m bm i) = Some (None, W s ip c tt m bm i)
    else n \<noteq> 0 \<longrightarrow> file_read fi count (W s ip c tt m bm i) =
      Some (Some (take (unat count) (drop p (file_bytes m i))),
        W s ip (Suc (Suc c)) (tt[fi := (tt ! fi)\<lparr>fd_pos := of_nat (min z (p + unat count))\<rparr>]) m bm i)"
proof -
  define cnt where "cnt = unat count"
  have upc: "unat (fd_pos (tt ! fi) + count) = p + cnt" using assms(10,12) by (simp add: cnt_def unat_add_small)
  have gt: "fd_pos (tt ! fi) + count > i_size i \<longleftrightarrow> z < p + cnt" by (simp add: word_less_nat_alt upc assms(4))
  have "fd_pos (tt ! fi) \<le> i_size i" using assms(4,10,11) by (simp add: word_le_nat_alt)
  then have sub: "unat (i_size i - fd_pos (tt ! fi)) = z - p" by (simp add: unat_sub_le assms(4,10))
  then have sub0: "i_size i - fd_pos (tt ! fi) = 0 \<longleftrightarrow> z \<le> p" by (metis diff_is_0_eq unat_eq_zero)
  define sz where "sz = min cnt (z - p)"
  have usz: "unat (if fd_pos (tt ! fi) + count > i_size i then i_size i - fd_pos (tt ! fi) else count) = sz"
    using gt sub assms(11) by (auto simp: sz_def cnt_def)
  show ?thesis
  proof (cases "p = z \<and> 0 < unat count")
    case True
    then have "fd_pos (tt ! fi) + count > i_size i" using gt by (simp add: cnt_def)
    then show ?thesis using True sub0 assms(9) by (simp add: file_read_def)
  next
    case False
    show ?thesis
    proof (cases "n = 0")
      case n0: False
      then have n: "n = z div 512 + 1" using assms(5) by simp
      let ?size = "if fd_pos (tt ! fi) + count > i_size i then i_size i - fd_pos (tt ! fi) else count"
      let ?a = "p div 512" let ?e = "(p + sz) div 512"
      have pz: "p + sz \<le> z" using assms(11) by (simp add: sz_def)
      have ae: "?a \<le> ?e" "?e < n" using pz div_le_mono [OF pz, of 512] by (simp_all add: div_le_mono n)
      have e139: "?e < 139" using pz assms(7) by (simp add: div_less_iff_less_mult)
      have ua: "unat (fd_pos (tt ! fi) div 512) = ?a" by (simp add: unat_div_word assms(10))
      have ps: "unat (fd_pos (tt ! fi) + ?size) = p + sz"
        using pz assms(7,10) by (subst unat_add_small) (simp_all only: usz, simp_all)
      have ue: "unat ((fd_pos (tt ! fi) + ?size) div 512) = ?e" by (simp only: unat_div_word ps) simp
      obtain blocks where bl: "read_blocks i ?a ?e (replicate 140 0) (W s ip (Suc (Suc c)) tt m bm i) = Some blocks"
        "length blocks = 140" "\<forall>k. ?a \<le> k \<and> k \<le> ?e \<longrightarrow> blocks ! k = fblk m i k"
        using read_blocks_ok [OF assms(1,3) ae, of ip "Suc (Suc c)" tt] by blast
      have n140: "n \<le> 140" using assms(3) by (simp add: file_map_def)
      have le: "p + sz \<le> 512 * n" using pz dividend_less_div_times [of 512 z] by (simp add: n)
      have loop: "read_loop fi blocks sz (W s ip (Suc (Suc c)) tt m bm i) =
          Some (map (fbyte m i) [p..<p + sz], W s ip (Suc (Suc c)) (tt[fi := (tt ! fi)\<lparr>fd_pos := fd_pos (tt ! fi) + of_nat sz\<rparr>]) m bm i)"
        using read_loop_ok [OF assms(1,3) n140 assms(2) bl(2) _ assms(8), where left = sz] bl(3) le
        by (simp add: assms(10) less_eq_div_iff_mult_less_eq mult.commute)
      have posn: "fd_pos (tt ! fi) + of_nat sz = of_nat (min z (p + cnt))"
      proof -
        have "fd_pos (tt ! fi) = of_nat p" using assms(10) by auto
        moreover have "p + sz = min z (p + cnt)" using assms(11) by (simp add: sz_def)
        ultimately show ?thesis by (simp flip: of_nat_add)
      qed
      have slice: "map (fbyte m i) [p..<p + sz] = take cnt (drop p (file_bytes m i))"
        using assms(11) by (simp add: file_bytes_def assms(4) drop_map take_map sz_def min_def add.commute)
      have c1: "fd_pos (tt ! fi) div 512 < 139" "(fd_pos (tt ! fi) + ?size) div 512 < 139"
        by (rule word_less_nat_alt [THEN iffD2], use ua ue ae(1) e139 in simp)+
      have nz: "\<not> (fd_pos (tt ! fi) + count > i_size i \<and> ?size = 0)"
        using False gt sub0 assms(11) by (auto simp: cnt_def)
      have "file_read fi count (W s ip c tt m bm i) =
          Some (Some (map (fbyte m i) [p..<p + sz]), W s ip (Suc (Suc c)) (tt[fi := (tt ! fi)\<lparr>fd_pos := fd_pos (tt ! fi) + of_nat sz\<rparr>]) m bm i)"
      proof -
        have ml: "heap_alloc (W s ip c tt m bm i) = (True, W s ip (Suc c) tt m bm i)"
          "heap_alloc (W s ip (Suc c) tt m bm i) = (True, W s ip (Suc (Suc c)) tt m bm i)"
          using assms(6) by (simp_all add: heap_alloc_def W_def)
        show ?thesis
        proof (cases "fd_pos (tt ! fi) + count > i_size i")
          case True
          then show ?thesis using nz c1 bl(1) loop usz ua ue assms(6,9)
            by (simp add: file_read_def Let_def)
        next
          case False
          then show ?thesis using nz c1 bl(1) loop usz ua ue assms(6,9)
            by (simp add: file_read_def Let_def)
        qed
      qed
      then show ?thesis using False by (simp add: slice posn cnt_def [symmetric])
    qed (use False in auto)
  qed
qed


section \<open>Results\<close>

lemma file_sectors_mem:
  assumes "layout_ok s" "file_map s m bm i n f t" "n = 0 \<and> i_size i = 0 \<or> n = unat (i_size i) div 512 + 1"
  shows "k < n \<Longrightarrow> blk_lba s (f k) \<in> file_sectors m i" "12 < n \<Longrightarrow> blk_lba s t \<in> file_sectors m i"
proof -
  show "blk_lba s (f k) \<in> file_sectors m i" if "k < n"
  proof -
    have "used_blk s bm (f k)" "fblk m i k = blk_lba s (f k)" using assms(2) that by (simp_all add: file_map_def)
    moreover from this have "blk_lba s (f k) \<noteq> 0" using blk_lba_max [OF assms(1)] by (simp add: used_blk_def)
    moreover have "k \<le> unat (i_size i) div 512" using that assms(3) by auto
    ultimately show ?thesis by (auto simp: file_sectors_def intro!: exI [of _ k])
  qed
  show "blk_lba s t \<in> file_sectors m i" if "12 < n"
  proof -
    have "used_blk s bm t" "i_sectors i ! 12 = blk_lba s t" using assms(2) that by (simp_all add: file_map_def)
    moreover from this have "blk_lba s t \<noteq> 0" using blk_lba_max [OF assms(1)] by (simp add: used_blk_def)
    ultimately show ?thesis by (auto simp: file_sectors_def)
  qed
qed

text \<open>A file whose blocks keep their content keeps its bytes.\<close>

lemma file_map_kept:
  assumes "file_map s m bm i n f t" "\<And>k. k < n \<Longrightarrow> m' (blk_lba s (f k)) = m (blk_lba s (f k))"
    "12 < n \<Longrightarrow> m' (blk_lba s t) = m (blk_lba s t)" "free_blocks bm' \<subseteq> free_blocks bm"
  shows "file_map s m' bm' i n f t" "k < 512 * n \<Longrightarrow> fbyte m' i k = fbyte m i k"
proof -
  have f: "\<forall>k<n. used_blk s bm (f k) \<and> fblk m i k = blk_lba s (f k)" using assms(1) by (simp add: file_map_def)
  have b: "fblk m' i k = fblk m i k" if "k < n" for k
  proof (cases "k < 12")
    case False
    then have "i_sectors i ! 12 = blk_lba s t" using assms(1) that by (simp add: file_map_def)
    then show ?thesis using assms(3) False that by (simp add: fblk_def)
  qed (simp add: fblk_def)
  then show "file_map s m' bm' i n f t"
    using assms(1,4) used_blk_mono by (auto simp: file_map_def)
  assume "k < 512 * n"
  then have "k div 512 < n" by (simp add: div_less_iff_less_mult mult.commute)
  then show "fbyte m' i k = fbyte m i k" using b f assms(2) by (simp add: fbyte_def)
qed

lemma file_write_correct:
  assumes "layout_ok s" "sectors_ok (part_medium s)" "inodes s ip = Some i" "file_ok s i"
    "length buf div 512 + 3 \<le> card (free_blocks (block_bitmap (cur_part s)))" "\<forall>k. mallocs s k"
    "unat (i_size i) + length buf < 71680" "fi < length (file_table s)" "fd_inode (file_table s ! fi) = ip"
  shows "\<exists>s' i'. file_write fi buf s = Some (of_nat (length buf), s') \<and> inodes s' = (inodes s)(ip \<mapsto> i') \<and>
    layout_ok s' \<and> sectors_ok (part_medium s') \<and> file_ok s' i' \<and> mallocs s' = mallocs s \<and>
    unat (i_size i') = unat (i_size i) + length buf \<and>
    file_bytes (part_medium s') i' = file_bytes (part_medium s) i @ buf \<and>
    tasks s' = tasks s \<and> running s' = running s \<and>
    length (file_table s') = length (file_table s) \<and> (\<forall>j. j \<noteq> fi \<longrightarrow> file_table s' ! j = file_table s ! j) \<and>
    file_table s' ! fi = (file_table s ! fi)\<lparr>fd_pos := i_size i' - 1\<rparr> \<and>
    (\<forall>i2. file_ok s i2 \<and> file_sectors (part_medium s) i2 \<inter> file_sectors (part_medium s) i = {} \<longrightarrow>
       file_ok s' i2 \<and> file_bytes (part_medium s') i2 = file_bytes (part_medium s) i2)"
proof -
  let ?m = "part_medium s" and ?bm = "block_bitmap (cur_part s)"
  obtain n f t where fm: "file_map s ?m ?bm i n f t" "n = 0 \<and> i_size i = 0 \<or> n = unat (i_size i) div 512 + 1"
    using assms(4) by (auto simp: file_ok_def)
  have bm: "bm_ok s ?bm" by (simp add: bm_ok_def)
  have n: "n = 0 \<and> unat (i_size i) = 0 \<or> n = unat (i_size i) div 512 + 1" using fm(2) by auto
  obtain m' bm' i' tt' f' t' where w: "file_write fi buf (W s ip (malloc_cnt s) (file_table s) ?m ?bm i) =
      Some (of_nat (length buf), W s ip (Suc (Suc (Suc (malloc_cnt s)))) tt' m' bm' i')"
    "sectors_ok m'" "bm_ok s bm'" "unat (i_size i') = unat (i_size i) + length buf"
    "file_map s m' bm' i' ((unat (i_size i) + length buf) div 512 + 1) f' t'"
    "file_bytes m' i' = file_bytes ?m i @ buf" "length tt' = length (file_table s)"
    "\<forall>j. j \<noteq> fi \<longrightarrow> tt' ! j = file_table s ! j"
    "tt' ! fi = (file_table s ! fi)\<lparr>fd_pos := of_nat (unat (i_size i) + length buf) - 1\<rparr>"
    "\<forall>j. used_blk s ?bm j \<and> j \<notin> f ` {..<n} \<and> (12 < n \<longrightarrow> j \<noteq> t) \<longrightarrow> m' (blk_lba s j) = ?m (blk_lba s j)"
    using file_write_W [OF assms(1,2) bm fm(1) refl n assms(5,6,7,8,9), of "malloc_cnt s"] by blast
  let ?s = "W s ip (Suc (Suc (Suc (malloc_cnt s)))) tt' m' bm' i'"
  have sub: "free_blocks bm' \<subseteq> free_blocks ?bm" using w(3) by (simp add: bm_ok_def)
  have sz: "of_nat (unat (i_size i) + length buf) = i_size i'" by (simp flip: w(4))
  have other: "file_ok ?s i2 \<and> file_bytes m' i2 = file_bytes ?m i2"
    if i2: "file_ok s i2" "file_sectors ?m i2 \<inter> file_sectors ?m i = {}" for i2
  proof -
    obtain n2 f2 t2 where f2: "file_map s ?m ?bm i2 n2 f2 t2" "n2 = 0 \<and> i_size i2 = 0 \<or> n2 = unat (i_size i2) div 512 + 1"
      using i2(1) by (auto simp: file_ok_def)
    note in1 = file_sectors_mem [OF assms(1) fm] and in2 = file_sectors_mem [OF assms(1) f2]
    have keep: "m' (blk_lba s j) = ?m (blk_lba s j)" if "used_blk s ?bm j" "blk_lba s j \<in> file_sectors ?m i2" for j
      using w(10) that i2(2) in1 by blast
    have "m' (blk_lba s (f2 k)) = ?m (blk_lba s (f2 k))" if "k < n2" for k
      using keep in2(1) [OF that] f2(1) that by (simp add: file_map_def)
    moreover have "m' (blk_lba s t2) = ?m (blk_lba s t2)" if "12 < n2"
      using keep in2(2) [OF that] f2(1) that by (simp add: file_map_def)
    ultimately have k: "file_map s m' bm' i2 n2 f2 t2" "\<And>k. k < 512 * n2 \<Longrightarrow> fbyte m' i2 k = fbyte ?m i2 k"
      using file_map_kept [OF f2(1) _ _ sub] by blast+
    have "unat (i_size i2) \<le> 512 * n2" using f2(2) dividend_less_div_times [of 512 "unat (i_size i2)"] by auto
    then have "file_bytes m' i2 = file_bytes ?m i2" using k(2) by (simp add: file_bytes_def)
    then show ?thesis using k(1) f2(2) w(3) by (auto simp: file_ok_def W_file_map)
  qed
  have ok: "file_ok ?s i'" using w(3,4,5) by (auto simp: file_ok_def W_file_map)
  have "file_write fi buf s = Some (of_nat (length buf), ?s)" using w(1) W_self [OF assms(3)] by simp
  moreover have "inodes ?s = (inodes s)(ip \<mapsto> i')" "tasks ?s = tasks s" "running ?s = running s" by (simp_all add: W_def)
  ultimately show ?thesis
    using ok other W_layout [OF assms(1) w(3)] w(2,4,6,7,8,9) sz by (intro exI [of _ ?s] exI [of _ i']) simp
qed

lemma file_read_correct:
  assumes "layout_ok s" "sectors_ok (part_medium s)" "inodes s ip = Some i" "file_ok s i"
    "\<forall>k. mallocs s k" "unat (i_size i) < 71168" "fi < length (file_table s)" "fd_inode (file_table s ! fi) = ip"
    "fd_pos (file_table s ! fi) \<le> i_size i" "unat (fd_pos (file_table s ! fi)) + unat count < 2 ^ 32" "0 < count"
  shows "\<exists>s'. file_read fi count s =
      Some (if fd_pos (file_table s ! fi) = i_size i then None
            else Some (take (unat count) (drop (unat (fd_pos (file_table s ! fi))) (file_bytes (part_medium s) i))), s') \<and>
    inodes s' = inodes s \<and> part_medium s' = part_medium s \<and> cur_part s' = cur_part s \<and>
    file_table s' = (file_table s)[fi := (file_table s ! fi)\<lparr>fd_pos := min (i_size i) (fd_pos (file_table s ! fi) + count)\<rparr>]"
proof -
  let ?m = "part_medium s" and ?bm = "block_bitmap (cur_part s)" and ?p = "fd_pos (file_table s ! fi)"
  have s: "W s ip (malloc_cnt s) (file_table s) ?m ?bm i = s" by (rule W_self [OF assms(3)])
  obtain n f t where fm: "file_map s ?m ?bm i n f t" "n = 0 \<and> i_size i = 0 \<or> n = unat (i_size i) div 512 + 1"
    using assms(4) by (auto simp: file_ok_def)
  have n: "n = 0 \<and> unat (i_size i) = 0 \<or> n = unat (i_size i) div 512 + 1" using fm(2) by auto
  have p: "unat ?p \<le> unat (i_size i)" using assms(9) by (simp add: word_le_nat_alt)
  have cnt: "0 < unat count" using assms(11) by (simp add: word_less_nat_alt)
  have upc: "unat (?p + count) = unat ?p + unat count" using assms(10) by (simp add: unat_add_small)
  note r = file_read_W [OF assms(1,2) fm(1) refl n assms(5,6,7,8) refl p assms(10), of "malloc_cnt s", unfolded s]
  show ?thesis
  proof (cases "?p = i_size i")
    case True
    have "i_size i \<le> i_size i + count" using upc True by (simp add: word_le_nat_alt)
    then have "min (i_size i) (?p + count) = ?p" using True by (simp add: min_def)
    then have "file_table s = (file_table s)[fi := (file_table s ! fi)\<lparr>fd_pos := min (i_size i) (?p + count)\<rparr>]"
      by simp
    then show ?thesis using r True cnt by (intro exI [of _ s]) simp
  next
    case False
    then have "unat ?p \<noteq> unat (i_size i)" by (simp add: word_unat_eq_iff)
    then have r': "file_read fi count s = Some (Some (take (unat count) (drop (unat ?p) (file_bytes ?m i))),
        W s ip (Suc (Suc (malloc_cnt s))) ((file_table s)[fi := (file_table s ! fi)\<lparr>fd_pos := of_nat (min (unat (i_size i)) (unat ?p + unat count))\<rparr>]) ?m ?bm i)"
      (is "_ = Some (_, ?s)")
      using r n p by auto
    have pos: "of_nat (min (unat (i_size i)) (unat ?p + unat count)) = min (i_size i) (?p + count)"
      by (simp add: min_def word_le_nat_alt upc)
    have "inodes ?s = inodes s" "cur_part ?s = cur_part s"
      using assms(3) by (auto simp: W_def)
    then show ?thesis using r' False by (intro exI [of _ ?s]) (simp add: pos)
  qed
qed


text \<open>
  A file that can still grow: with at least \<open>K\<close> blocks, its own and the free ones. What a write takes
  from the bitmap it puts into the file, so \<open>K\<close> stays.
\<close>

definition file_room :: "fs \<Rightarrow> inode \<Rightarrow> nat \<Rightarrow> bool" where
  "file_room s i K \<longleftrightarrow> (\<exists>n f t. file_map s (part_medium s) (block_bitmap (cur_part s)) i n f t \<and>
     (n = 0 \<and> i_size i = 0 \<or> n = unat (i_size i) div 512 + 1) \<and>
     K \<le> card (own_blks n f t \<union> free_blocks (block_bitmap (cur_part s))))"

lemma file_room_ok: "file_room s i K \<Longrightarrow> file_ok s i"
  by (auto simp: file_room_def file_ok_def)

lemma finite_own_blks [simp]: "finite (own_blks n f t)"
  by (simp add: own_blks_def)

lemma card_own_blks: "n \<le> 140 \<Longrightarrow> card (own_blks n f t) \<le> 141"
proof -
  assume "n \<le> 140"
  moreover have "card (f ` {..<n}) \<le> n" using card_image_le [of "{..<n}" f] by simp
  ultimately show ?thesis
    using card_Un_le [of "f ` {..<n}" "if n \<le> 12 then {} else {t}"] by (auto simp: own_blks_def split: if_splits)
qed

lemma file_write_room:
  assumes "layout_ok s" "sectors_ok (part_medium s)" "inodes s ip = Some i" "file_room s i 284" "\<forall>k. mallocs s k"
    "unat (i_size i) + length buf < 71680" "fi < length (file_table s)" "fd_inode (file_table s ! fi) = ip"
  shows "\<exists>s' i'. file_write fi buf s = Some (of_nat (length buf), s') \<and> inodes s' = (inodes s)(ip \<mapsto> i') \<and>
    layout_ok s' \<and> sectors_ok (part_medium s') \<and> file_room s' i' 284 \<and> mallocs s' = mallocs s \<and>
    unat (i_size i') = unat (i_size i) + length buf \<and>
    file_bytes (part_medium s') i' = file_bytes (part_medium s) i @ buf \<and>
    tasks s' = tasks s \<and> running s' = running s \<and> length (file_table s') = length (file_table s) \<and>
    fd_inode (file_table s' ! fi) = ip \<and> fd_flag (file_table s' ! fi) = fd_flag (file_table s ! fi)"
proof -
  let ?m = "part_medium s" and ?bm = "block_bitmap (cur_part s)"
  obtain n f t where fm: "file_map s ?m ?bm i n f t" "n = 0 \<and> i_size i = 0 \<or> n = unat (i_size i) div 512 + 1"
      "284 \<le> card (own_blks n f t \<union> free_blocks ?bm)"
    using assms(4) by (auto simp: file_room_def)
  have bm: "bm_ok s ?bm" by (simp add: bm_ok_def)
  have n: "n = 0 \<and> unat (i_size i) = 0 \<or> n = unat (i_size i) div 512 + 1" using fm(2) by auto
  have "n \<le> 140" using fm(1) by (simp add: file_map_def)
  then have free: "143 \<le> card (free_blocks ?bm)"
    using fm(3) card_Un_le [of "own_blks n f t" "free_blocks ?bm"] card_own_blks [of n f t] by linarith
  have "length buf < 140 * 512" using assms(6) by simp
  then have "length buf div 512 < 140" by (rule less_mult_imp_div_less)
  then have room: "length buf div 512 + 3 \<le> card (free_blocks ?bm)" using free by linarith
  obtain m' bm' i' tt' f' t' where w: "file_write fi buf (W s ip (malloc_cnt s) (file_table s) ?m ?bm i) =
      Some (of_nat (length buf), W s ip (Suc (Suc (Suc (malloc_cnt s)))) tt' m' bm' i')"
    "sectors_ok m'" "bm_ok s bm'" "unat (i_size i') = unat (i_size i) + length buf"
    "file_map s m' bm' i' ((unat (i_size i) + length buf) div 512 + 1) f' t'"
    "file_bytes m' i' = file_bytes ?m i @ buf" "length tt' = length (file_table s)"
    "tt' ! fi = (file_table s ! fi)\<lparr>fd_pos := of_nat (unat (i_size i) + length buf) - 1\<rparr>"
    "own_blks n f t \<union> free_blocks ?bm \<subseteq> own_blks ((unat (i_size i) + length buf) div 512 + 1) f' t' \<union> free_blocks bm'"
    using file_write_W [OF assms(1,2) bm fm(1) refl n room assms(5,6,7,8), of "malloc_cnt s"] by blast
  let ?s = "W s ip (Suc (Suc (Suc (malloc_cnt s)))) tt' m' bm' i'"
  have "card (own_blks n f t \<union> free_blocks ?bm) \<le>
      card (own_blks ((unat (i_size i) + length buf) div 512 + 1) f' t' \<union> free_blocks bm')"
    using w(9) by (intro card_mono) simp_all
  then have ok: "file_room ?s i' 284"
    using w(3,4,5) fm(3) unfolding file_room_def
    by (intro exI [of _ "(unat (i_size i) + length buf) div 512 + 1"] exI [of _ f'] exI [of _ t']) (simp add: W_file_map)
  have "file_write fi buf s = Some (of_nat (length buf), ?s)" using w(1) W_self [OF assms(3)] by simp
  moreover have "inodes ?s = (inodes s)(ip \<mapsto> i')" "tasks ?s = tasks s" "running ?s = running s" by (simp_all add: W_def)
  ultimately show ?thesis
    using ok W_layout [OF assms(1) w(3)] w(2,4,6,7,8) assms(8) by (intro exI [of _ ?s] exI [of _ i']) simp
qed

lemma set_file_simps [simp]:
  "layout_ok (set_file k f s) = layout_ok s" "part_medium (set_file k f s) = part_medium s"
  "inodes (set_file k f s) = inodes s" "file_ok (set_file k f s) i = file_ok s i" "mallocs (set_file k f s) = mallocs s"
  "cur_part (set_file k f s) = cur_part s" "file_table (set_file k f s) = (file_table s)[k := f]"
  "fd_local2global fd (set_file k f s) = fd_local2global fd s"
  by (simp_all add: set_file_def layout_ok_def part_medium_def itab_def data_base_def blk_ok_def Let_def
      file_ok_def file_map_def used_blk_def blk_lba_def fd_local2global_def)

text \<open>The invariants hold of the demo partition, with an empty file open as descriptor 3.\<close>

lemma demo_layout: "layout_ok demo_fs" "sectors_ok (part_medium demo_fs)" "inodes demo_fs 2 = Some demo_inode"
  "file_ok demo_fs demo_inode" "\<forall>k. mallocs demo_fs k" "3 < length (file_table demo_fs)"
  "fd_inode (file_table demo_fs ! 3) = 2" "unat (i_size demo_inode) = 0"
proof -
  show "layout_ok demo_fs"
    by (auto simp: layout_ok_def demo_fs_def demo_part_def itab_def data_base_def blk_ok_def Let_def
        free_blocks_def bm_bits_def)
  show "file_ok demo_fs demo_inode"
    by (auto simp: file_ok_def file_map_def demo_inode_def intro!: exI [of _ 0])
qed (simp_all add: demo_fs_def demo_inode_def sectors_ok_def part_medium_def)

lemma demo_free: "3 \<le> card (free_blocks (block_bitmap (cur_part demo_fs)))"
proof -
  let ?b = "block_bitmap (cur_part demo_fs)"
  have "\<not> bm_used ?b 8" "\<not> bm_used ?b 9" "\<not> bm_used ?b 10" "10 < bm_bits ?b"
    by (simp_all add: demo_fs_def demo_part_def bm_used_def bitmap_scan_test_def bm_bits_def)
  then have "{8, 9, 10} \<subseteq> free_blocks ?b" by (auto simp: free_blocks_def)
  from card_mono [OF finite_free_blocks this] show ?thesis by simp
qed

text \<open>A file of five bytes in block 0.\<close>

definition demo_five :: fs where
  "demo_five = demo_fs\<lparr>inodes := [2 \<mapsto> demo_inode\<lparr>i_size := 5, i_sectors := 868 # replicate 12 0\<rparr>]\<rparr>"

lemma demo_five:
  "layout_ok demo_five" "sectors_ok (part_medium demo_five)"
  "inodes demo_five 2 = Some (demo_inode\<lparr>i_size := 5, i_sectors := 868 # replicate 12 0\<rparr>)"
  "file_ok demo_five (demo_inode\<lparr>i_size := 5, i_sectors := 868 # replicate 12 0\<rparr>)"
  "\<forall>k. mallocs demo_five k" "3 < length (file_table demo_five)" "fd_inode (file_table demo_five ! 3) = 2"
  "fd_pos (file_table demo_five ! 3) = 0" "part_medium demo_five 868 = replicate 512 0"
proof -
  have eq: "layout_ok demo_five = layout_ok demo_fs" "part_medium demo_five = part_medium demo_fs"
    by (simp_all add: demo_five_def layout_ok_def itab_def data_base_def blk_ok_def part_medium_def Let_def)
  show "layout_ok demo_five" "sectors_ok (part_medium demo_five)" by (simp_all add: eq demo_layout)
  have "used_blk demo_five (block_bitmap (cur_part demo_five)) 0" "blk_lba demo_five 0 = 868"
    by (simp_all add: used_blk_def blk_ok_def free_blocks_def bm_used_def bitmap_scan_test_def demo_five_def
        demo_fs_def demo_part_def bm_bits_def data_base_def blk_lba_def bitmap_mask_def)
  then show "file_ok demo_five (demo_inode\<lparr>i_size := 5, i_sectors := 868 # replicate 12 0\<rparr>)"
    unfolding file_ok_def by (intro exI [of _ 1] exI [of _ "\<lambda>_. 0"])
      (simp add: file_map_def fblk_def nth_Cons' inj_on_def)
qed (simp_all add: demo_five_def demo_fs_def part_medium_def demo_part_def)

text \<open>
  C7. Writing to a file appends: with memory, with enough free blocks, and while the file stays below its
  140 blocks, \<open>file_write\<close> returns the length of the buffer, the bytes of the file are the old ones
  followed by the buffer (whatever \<open>fd_pos\<close> was), the invariants of the file and of the partition are
  kept, and every other file whose sectors are not this file's keeps its bytes. The position becomes
  the size minus 1.
\<close>

theorem file_write_appends:
  assumes "layout_ok s" "sectors_ok (part_medium s)" "inodes s ip = Some i" "file_ok s i"
    "length buf div 512 + 3 \<le> card (free_blocks (block_bitmap (cur_part s)))" "\<forall>k. mallocs s k"
    "unat (i_size i) + length buf < 71680" "fi < length (file_table s)" "fd_inode (file_table s ! fi) = ip"
  shows "\<exists>s' i'. file_write fi buf s = Some (of_nat (length buf), s') \<and> inodes s' = (inodes s)(ip \<mapsto> i') \<and>
    layout_ok s' \<and> sectors_ok (part_medium s') \<and> file_ok s' i' \<and>
    unat (i_size i') = unat (i_size i) + length buf \<and>
    file_bytes (part_medium s') i' = file_bytes (part_medium s) i @ buf \<and>
    fd_pos (file_table s' ! fi) = i_size i' - 1 \<and> (\<forall>j. j \<noteq> fi \<longrightarrow> file_table s' ! j = file_table s ! j) \<and>
    (\<forall>i2. file_ok s i2 \<and> file_sectors (part_medium s) i2 \<inter> file_sectors (part_medium s) i = {} \<longrightarrow>
       file_ok s' i2 \<and> file_bytes (part_medium s') i2 = file_bytes (part_medium s) i2)"
  using file_write_correct [OF assms] by fastforce

lemma file_write_appends_witness:
  "\<exists>s'. file_write 3 [104, 105] demo_fs = Some (2, s') \<and> (\<exists>i'. inodes s' 2 = Some i' \<and>
     file_bytes (part_medium s') i' = [104, 105])"
  using file_write_appends [OF demo_layout(1,2,3,4) _ demo_layout(5) _ demo_layout(6,7), of "[104, 105]"]
  by (auto simp: demo_free demo_layout(8) file_bytes_def [of _ demo_inode])

text \<open>
  C8. Reading returns the file's bytes from the position on, at most \<open>count\<close> of them, and moves the
  position behind them; at the end of the file it fails. The file must be shorter than 139 blocks
  and the position at most its size; nothing else changes.
\<close>

theorem file_read_slice:
  assumes "layout_ok s" "sectors_ok (part_medium s)" "inodes s ip = Some i" "file_ok s i"
    "\<forall>k. mallocs s k" "unat (i_size i) < 71168" "fi < length (file_table s)" "fd_inode (file_table s ! fi) = ip"
    "fd_pos (file_table s ! fi) \<le> i_size i" "unat (fd_pos (file_table s ! fi)) + unat count < 2 ^ 32" "0 < count"
  shows "\<exists>s'. file_read fi count s =
      Some (if fd_pos (file_table s ! fi) = i_size i then None
            else Some (take (unat count) (drop (unat (fd_pos (file_table s ! fi))) (file_bytes (part_medium s) i))), s') \<and>
    inodes s' = inodes s \<and> part_medium s' = part_medium s \<and> cur_part s' = cur_part s \<and>
    file_table s' = (file_table s)[fi := (file_table s ! fi)\<lparr>fd_pos := min (i_size i) (fd_pos (file_table s ! fi) + count)\<rparr>]"
  using file_read_correct [OF assms] .

lemma file_read_slice_witness:
  "\<exists>s'. file_read 3 3 demo_five = Some (Some [0, 0, 0], s') \<and> fd_pos (file_table s' ! 3) = 3"
proof -
  have "take 3 (file_bytes (part_medium demo_five) (demo_inode\<lparr>i_size := 5, i_sectors := 868 # replicate 12 0\<rparr>)) = [0, 0, 0]"
    by (simp add: file_bytes_def fbyte_def fblk_def demo_five(9) upt_rec)
  then show ?thesis
    using file_read_slice [OF demo_five(1,2,3,4,5) _ demo_five(6,7), of 3] demo_five(6)
    by (auto simp: demo_five(8) min_def)
qed



end
