(* ===== verification/Thread.thy ===== *)
theory Thread
  imports Fs Ioqueue Heap
begin

text \<open>
  The life of kernel threads, \<^verbatim>\<open>src/thread/thread.c\<close>: process numbers, building a task, starting
  it and taking it apart. The state is the whole kernel: the memory of theory Memory, the file
  system of theory Fs, and the words of the kernel stacks.

  \<^item> A task is its record in \<open>tasks\<close> at the address of its page; the words of the kernel stack in
    the same page are \<open>kstk\<close>. The bytes of a process's address bitmap are in \<open>userprog_vaddr\<close>, the
    address of their pages is \<open>bits_addr\<close>.
  \<^item> \<open>data\<close>, \<open>ptab\<close> and \<open>arenas\<close> are those of the active address space. Below \<^verbatim>\<open>0xc0000000\<close> they
    change when \<^verbatim>\<open>cr3\<close> does: \<open>spaces\<close> keeps that half of the inactive spaces by the physical
    address of their directory, \<open>enter_space\<close> exchanges it. The kernel half is shared.
  \<^item> \<open>kfs\<close> holds the fields of the file system (its scheduler part is not used): \<open>fs_run\<close> runs an
    operation of theory Fs on the current scheduler state.
  \<^item> Addresses of functions are the record \<open>sym\<close>, given by the linker.
\<close>

section \<open>State\<close>

record space =
  sp_ptab :: ptab
  sp_data :: mem
  sp_arenas :: "u32 \<Rightarrow> arena"

record symbols =
  kernel_thread :: u32
  start_process_entry :: u32
  intr_exit :: u32
  idle_entry :: u32
  init_entry :: u32

record kernel = vm +
  pid_bitmap :: bitmap
  pid_start :: u32
  pid_lock :: lock
  kstk :: "u32 \<Rightarrow> u32"
  bits_addr :: "u32 \<Rightarrow> u32"
  spaces :: "u32 \<Rightarrow> space"
  pipes :: "u32 \<Rightarrow> ioqueue"
  kfs :: fs
  sym :: symbols

definition fs_run :: "(fs \<Rightarrow> ('r \<times> fs) option) \<Rightarrow> kernel \<Rightarrow> ('r \<times> kernel) option" where
  "fs_run f k =
     do { (r, s) \<leftarrow> f (sched.extend (sched.truncate k) (sched.more (kfs k)));
          Some (r, sched.extend (sched.truncate s) (sched.more (k\<lparr>kfs := s\<rparr>))) }"

text \<open>\<open>kfs\<close> has the scheduler fields itself, so the record package does not move their updates out.\<close>

lemma kfs_sched_upd [simp]:
  "kfs (ptab_update f1 k) = kfs k" "kfs (tasks_update f2 k) = kfs k" "kfs (running_update f3 k) = kfs k"
  "kfs (thread_ready_list_update f4 k) = kfs k" "kfs (thread_all_list_update f4 k) = kfs k"
  "kfs (main_thread_update f3 k) = kfs k" "kfs (idle_thread_update f3 k) = kfs k" "kfs (intr_update f5 k) = kfs k"
  "kfs (cr3_update f3 k) = kfs k" "kfs (tss_esp0_update f3 k) = kfs k" "kfs (ticks_update f3 k) = kfs k"
  by (cases k; simp)+

section \<open>Address spaces\<close>

text \<open>The words of the window that belong to one directory: its user tables, their entries, its own entry.\<close>

definition own_window :: "u32 \<Rightarrow> bool" where
  "own_window p \<longleftrightarrow> 0xffc00000 \<le> p \<and> p < 0xfff00000 \<or> 0xfffff000 \<le> p \<and> p < 0xfffffc00 \<or> 0xfffffffc \<le> p"

definition load_space :: "space \<Rightarrow> kernel \<Rightarrow> kernel" where
  "load_space sp k =
     k\<lparr>ptab := (\<lambda>p. if own_window p then sp_ptab sp p else ptab k p),
       data := (\<lambda>a. if a < 0xc0000000 then sp_data sp a else data k a),
       arenas := (\<lambda>a. if a < 0xc0000000 then sp_arenas sp a else arenas k a)\<rparr>"

definition enter_space :: "u32 \<Rightarrow> kernel \<Rightarrow> kernel" where
  "enter_space old k =
     (if cr3 k = old then k
      else load_space (spaces k (cr3 k))
             (k\<lparr>spaces := (spaces k)(old := \<lparr>sp_ptab = ptab k, sp_data = data k, sp_arenas = arenas k\<rparr>)\<rparr>))"

text \<open>\<^verbatim>\<open>page_dir_activate\<close> and the operations that end in it through \<^verbatim>\<open>schedule\<close>.\<close>

definition activate :: "u32 \<Rightarrow> kernel \<Rightarrow> kernel" where
  "activate thread k = enter_space (cr3 k) (page_dir_activate thread k)"

definition switching :: "(kernel \<Rightarrow> kernel option) \<Rightarrow> kernel \<Rightarrow> kernel option" where
  "switching f k = do { k' \<leftarrow> f k; Some (enter_space (cr3 k) k') }"

section \<open>Process numbers\<close>

text \<open>A result of \<open>-1\<close> of \<^verbatim>\<open>bitmap_scan\<close> is not tested.\<close>

definition allocate_pid :: "kernel \<Rightarrow> (u16 \<times> kernel) option" where
  "allocate_pid k =
     do { (l, k) \<leftarrow> lock_acquire (pid_lock k) k;
          let k = k\<lparr>pid_lock := l\<rparr>;
          bit_idx \<leftarrow> bitmap_scan (pid_bitmap k) 1;
          bm \<leftarrow> bitmap_set (pid_bitmap k) bit_idx 1;
          let k = k\<lparr>pid_bitmap := bm\<rparr>;
          (l, k) \<leftarrow> lock_release (pid_lock k) k;
          let k = k\<lparr>pid_lock := l\<rparr>;
          Some (ucast (bit_idx + pid_start k), k) }"

definition fork_pid :: "kernel \<Rightarrow> (u16 \<times> kernel) option" where
  "fork_pid k = allocate_pid k"

definition release_pid :: "u16 \<Rightarrow> kernel \<Rightarrow> kernel option" where
  "release_pid the_pid k =
     do { (l, k) \<leftarrow> lock_acquire (pid_lock k) k;
          let k = k\<lparr>pid_lock := l\<rparr>;
          let bit_idx = ucast the_pid - pid_start k;
          bm \<leftarrow> bitmap_set (pid_bitmap k) bit_idx 0;
          let k = k\<lparr>pid_bitmap := bm\<rparr>;
          (l, k) \<leftarrow> lock_release (pid_lock k) k;
          Some (k\<lparr>pid_lock := l\<rparr>) }"

definition pid_pool_init :: "kernel \<Rightarrow> kernel" where
  "pid_pool_init k =
     k\<lparr>pid_start := 1, pid_bitmap := bitmap_init ((pid_bitmap k)\<lparr>btmp_bytes_len := 128\<rparr>), pid_lock := lock_init\<rparr>"

section \<open>Building a task\<close>

definition zero_task :: task_struct where
  "zero_task =
     \<lparr>self_kstack = 0, pid = 0, status = TASK_RUNNING, priority = 0, task_name = replicate 16 0, task_ticks = 0,
      elapsed_ticks = 0, pgdir = 0, fd_table = replicate 8 0, cwd_inode_nr = 0, parent_pid = 0, exit_status = 0,
      stack_magic = 0\<rparr>"

definition zero_vaddr :: virtual_addr where
  "zero_vaddr = \<lparr>vaddr_bitmap = \<lparr>btmp_bytes_len = 0, bits = (\<lambda>_. 0)\<rparr>, vaddr_start = 0\<rparr>"

definition zero_desc :: "nat \<Rightarrow> mem_block_desc" where
  "zero_desc idx = \<lparr>block_size = 0, blocks_per_arena = 0, free_list = []\<rparr>"

text \<open>\<^verbatim>\<open>memset\<close> asserts that the page is there; a name of 16 bytes or more overruns its field (\<open>None\<close>).\<close>

definition init_thread :: "u32 \<Rightarrow> u8 list \<Rightarrow> u8 \<Rightarrow> kernel \<Rightarrow> kernel option" where
  "init_thread pthread name prio k =
     (if pthread = 0 \<or> 16 \<le> length name then None
      else do {
        let k = upd_task pthread (\<lambda>_. zero_task) k;
        let k = k\<lparr>userprog_vaddr := (userprog_vaddr k)(pthread := zero_vaddr),
                  u_block_desc := (u_block_desc k)(pthread := zero_desc), bits_addr := (bits_addr k)(pthread := 0)\<rparr>;
        (new_pid, k) \<leftarrow> allocate_pid k;
        Some (upd_task pthread (\<lambda>t. t\<lparr>
          pid := new_pid, task_name := splice (task_name t) 0 (name @ [0]),
          status := (if pthread = main_thread k then TASK_RUNNING else TASK_READY),
          priority := prio, task_ticks := prio, elapsed_ticks := 0, pgdir := 0,
          self_kstack := pthread + PG_SIZE,
          fd_table := [0, 1, 2] @ replicate 5 (-1),
          cwd_inode_nr := 0, parent_pid := -1, stack_magic := 0x19870916\<rparr>) k) })"

text \<open>
  \<^verbatim>\<open>self_kstack\<close> is a pointer to words, so the two subtractions move it by four times the 76
  bytes of \<^verbatim>\<open>intr_stack\<close> and the 32 bytes of \<^verbatim>\<open>thread_stack\<close>.
\<close>

definition sizeof_intr_stack :: u32 where "sizeof_intr_stack = 76"
definition sizeof_thread_stack :: u32 where "sizeof_thread_stack = 32"

definition thread_create :: "u32 \<Rightarrow> u32 \<Rightarrow> u32 \<Rightarrow> kernel \<Rightarrow> kernel" where
  "thread_create pthread function func_arg k =
     (let k = upd_task pthread (\<lambda>t. t\<lparr>self_kstack := self_kstack t - 4 * sizeof_intr_stack\<rparr>) k;
          k = upd_task pthread (\<lambda>t. t\<lparr>self_kstack := self_kstack t - 4 * sizeof_thread_stack\<rparr>) k;
          kthread_stack = self_kstack (tasks k pthread)
      in k\<lparr>kstk := (kstk k)(kthread_stack + 16 := kernel_thread (sym k), kthread_stack + 24 := function,
             kthread_stack + 28 := func_arg, kthread_stack + 12 := 0, kthread_stack + 8 := 0, kthread_stack + 4 := 0,
             kthread_stack := 0)\<rparr>)"

definition thread_lists_append :: "u32 \<Rightarrow> kernel \<Rightarrow> kernel option" where
  "thread_lists_append thread k =
     (if thread \<in> set (thread_ready_list k) then None
      else let k = k\<lparr>thread_ready_list := thread_ready_list k @ [thread]\<rparr>
        in if thread \<in> set (thread_all_list k) then None
           else Some (k\<lparr>thread_all_list := thread_all_list k @ [thread]\<rparr>))"

definition thread_start :: "u8 list \<Rightarrow> u8 \<Rightarrow> u32 \<Rightarrow> u32 \<Rightarrow> kernel \<Rightarrow> (u32 \<times> kernel) option" where
  "thread_start name prio function func_arg k =
     do { (thread, k) \<leftarrow> get_kernel_pages 1 k;
          k \<leftarrow> init_thread thread name prio k;
          let k = thread_create thread function func_arg k;
          k \<leftarrow> thread_lists_append thread k;
          Some (thread, k) }"

definition main_name :: "u8 list" where "main_name = [0x6d, 0x61, 0x69, 0x6e]"
definition idle_name :: "u8 list" where "idle_name = [0x69, 0x64, 0x6c, 0x65]"
definition init_name :: "u8 list" where "init_name = [0x69, 0x6e, 0x69, 0x74]"

definition make_main_thread :: "kernel \<Rightarrow> kernel option" where
  "make_main_thread k =
     do { let k = k\<lparr>main_thread := running k\<rparr>;
          k \<leftarrow> init_thread (main_thread k) main_name 31 k;
          if main_thread k \<in> set (thread_all_list k) then None
          else Some (k\<lparr>thread_all_list := thread_all_list k @ [main_thread k]\<rparr>) }"

section \<open>Processes\<close>

text \<open>\<^verbatim>\<open>src/userprog/process.c\<close>. The bitmap has one bit for each page from \<^verbatim>\<open>0x8048000\<close> to \<^verbatim>\<open>0xc0000000\<close>.\<close>

definition USER_VADDR_START :: u32 where "USER_VADDR_START = 0x8048000"
definition USER_STACK3_VADDR :: u32 where "USER_STACK3_VADDR = 0xc0000000 - 0x1000"
definition default_prio :: u8 where "default_prio = 31"

definition user_bitmap_len :: u32 where
  "user_bitmap_len = (0xc0000000 - USER_VADDR_START) div PG_SIZE div 8"

definition bitmap_pg_cnt :: u32 where
  "bitmap_pg_cnt = (user_bitmap_len + PG_SIZE - 1) div PG_SIZE"

definition create_user_vaddr_bitmap :: "u32 \<Rightarrow> kernel \<Rightarrow> kernel option" where
  "create_user_vaddr_bitmap user_prog k =
     do { (p, k) \<leftarrow> get_kernel_pages bitmap_pg_cnt k;
          if p = 0 then None
          else Some (k\<lparr>bits_addr := (bits_addr k)(user_prog := p),
            userprog_vaddr := (userprog_vaddr k)(user_prog :=
              \<lparr>vaddr_bitmap = bitmap_init \<lparr>btmp_bytes_len = user_bitmap_len, bits = (\<lambda>i. data k (p + i))\<rparr>,
               vaddr_start = USER_VADDR_START\<rparr>)\<rparr>) }"

text \<open>A new directory has no user tables, the kernel's tables and its own entry.\<close>

definition no_arena :: arena where
  "no_arena = \<lparr>a_desc = None, a_cnt = 0, a_large = False\<rparr>"

definition new_space :: "u32 \<Rightarrow> space" where
  "new_space page_dir_phy =
     \<lparr>sp_ptab = (\<lambda>p. if p = 0xfffffffc then page_entry page_dir_phy else 0), sp_data = (\<lambda>_. 0), sp_arenas = (\<lambda>_. no_arena)\<rparr>"

definition create_page_dir :: "kernel \<Rightarrow> (u32 \<times> kernel) option" where
  "create_page_dir k =
     do { (page_dir_vaddr, k) \<leftarrow> get_kernel_pages 1 k;
          if page_dir_vaddr = 0 then Some (0, k)
          else let new_page_dir_phy_addr = addr_v2p (ptab k) page_dir_vaddr
            in Some (page_dir_vaddr, k\<lparr>spaces := (spaces k)(new_page_dir_phy_addr := new_space new_page_dir_phy_addr)\<rparr>) }"

definition SELECTOR_U_CODE :: u32 where "SELECTOR_U_CODE = 43"
definition SELECTOR_U_DATA :: u32 where "SELECTOR_U_DATA = 51"

text \<open>What a new process does first, up to the jump to \<^verbatim>\<open>intr_exit\<close>: build the frame it returns through.\<close>

definition start_process :: "u32 \<Rightarrow> kernel \<Rightarrow> kernel option" where
  "start_process prog k =
     do { let cur = running k;
          let k = upd_task cur (\<lambda>t. t\<lparr>self_kstack := self_kstack t + 4 * sizeof_thread_stack\<rparr>) k;
          let proc_stack = self_kstack (tasks k cur);
          let k = k\<lparr>kstk := (kstk k)(proc_stack + 16 := 0, proc_stack + 12 := 0, proc_stack + 8 := 0, proc_stack + 4 := 0,
                proc_stack + 32 := 0, proc_stack + 28 := 0, proc_stack + 24 := 0, proc_stack + 20 := 0,
                proc_stack + 36 := 0,
                proc_stack + 40 := SELECTOR_U_DATA, proc_stack + 44 := SELECTOR_U_DATA, proc_stack + 48 := SELECTOR_U_DATA,
                proc_stack + 56 := prog, proc_stack + 60 := SELECTOR_U_CODE, proc_stack + 64 := 0x202)\<rparr>;
          (p, k) \<leftarrow> get_a_page PF_USER USER_STACK3_VADDR k;
          Some (k\<lparr>kstk := (kstk k)(proc_stack + 68 := p + PG_SIZE, proc_stack + 72 := SELECTOR_U_DATA)\<rparr>) }"

definition process_execute :: "u32 \<Rightarrow> u8 list \<Rightarrow> kernel \<Rightarrow> kernel option" where
  "process_execute prog name k =
     do { (thread, k) \<leftarrow> get_kernel_pages 1 k;
          k \<leftarrow> init_thread thread name default_prio k;
          k \<leftarrow> create_user_vaddr_bitmap thread k;
          let k = thread_create thread (start_process_entry (sym k)) prog k;
          (dir, k) \<leftarrow> create_page_dir k;
          let k = upd_task thread (\<lambda>t. t\<lparr>pgdir := dir\<rparr>) k;
          let k = k\<lparr>u_block_desc := (u_block_desc k)(thread := block_desc_init)\<rparr>;
          let (old_status, k) = cpu_intr_disable k;
          k \<leftarrow> thread_lists_append thread k;
          Some (cpu_intr_set_status old_status k) }"

definition thread_init :: "kernel \<Rightarrow> kernel option" where
  "thread_init k =
     do { let k = k\<lparr>thread_ready_list := [], thread_all_list := []\<rparr>;
          let k = pid_pool_init k;
          k \<leftarrow> process_execute (init_entry (sym k)) init_name k;
          k \<leftarrow> make_main_thread k;
          (idle, k) \<leftarrow> thread_start idle_name 10 (idle_entry (sym k)) 0 k;
          Some (k\<lparr>idle_thread := idle\<rparr>) }"

section \<open>The end of a task\<close>

text \<open>
  The number is read from the task's page after that page has been given back; \<open>tasks\<close> still holds
  it, as the code relies on. \<^verbatim>\<open>list_remove\<close> of a task that is in no list is not defined (\<open>None\<close>).
  The second case of the result is the \<^verbatim>\<open>schedule\<close> that does not return.
\<close>

definition thread_exit :: "u32 \<Rightarrow> bool \<Rightarrow> kernel \<Rightarrow> kernel option" where
  "thread_exit thread_over need_schedule k =
     do { let (_, k) = cpu_intr_disable k;
          let k = set_status thread_over TASK_DIED k;
          let k = (if thread_over \<in> set (thread_ready_list k)
                   then k\<lparr>thread_ready_list := remove1 thread_over (thread_ready_list k)\<rparr> else k);
          k \<leftarrow> (if pgdir (tasks k thread_over) \<noteq> 0 then mfree_page PF_KERNEL (pgdir (tasks k thread_over)) 1 k else Some k);
          if thread_over \<notin> set (thread_all_list k) then None
          else do {
            let k = k\<lparr>thread_all_list := remove1 thread_over (thread_all_list k)\<rparr>;
            k \<leftarrow> (if thread_over \<noteq> main_thread k then mfree_page PF_KERNEL thread_over 1 k else Some k);
            k \<leftarrow> release_pid (pid (tasks k thread_over)) k;
            if need_schedule then switching schedule k else Some k } }"

text \<open>\<^verbatim>\<open>list_traversal\<close> with \<^verbatim>\<open>pid_check\<close> (theory KList shows that it finds the first match).\<close>

definition pid_check :: "kernel \<Rightarrow> u32 \<Rightarrow> u32 \<Rightarrow> bool" where
  "pid_check k the_pid pthread \<longleftrightarrow> ucast (pid (tasks k pthread)) = the_pid"

definition pid2thread :: "u32 \<Rightarrow> kernel \<Rightarrow> u32" where
  "pid2thread the_pid k = (case find (pid_check k the_pid) (thread_all_list k) of Some t \<Rightarrow> t | None \<Rightarrow> 0)"

section \<open>Process numbers as a set\<close>

definition pid_pool_ok :: "kernel \<Rightarrow> bool" where
  "pid_pool_ok k \<longleftrightarrow> pid_start k = 1 \<and> btmp_bytes_len (pid_bitmap k) = 128 \<and> pid_lock k = lock_init \<and> running k \<noteq> 0"

definition pids_in_use :: "kernel \<Rightarrow> u16 set" where
  "pids_in_use k = {p. \<exists>i < 1024. bm_used (pid_bitmap k) i \<and> unat p = i + 1}"

lemma pid_pool_bits: "pid_pool_ok k \<Longrightarrow> bm_bits (pid_bitmap k) = 1024"
  by (simp add: pid_pool_ok_def bm_bits_def)

lemma pid_pool_ok_set:
  "pid_pool_ok k \<Longrightarrow> bitmap_set (pid_bitmap k) i v = Some bm \<Longrightarrow> pid_pool_ok (k\<lparr>pid_bitmap := bm, pid_lock := lock_init\<rparr>)"
  by (simp add: pid_pool_ok_def bitmap_set_len)

text \<open>\<^verbatim>\<open>allocate_pid\<close> and \<^verbatim>\<open>release_pid\<close> with a free lock are a scan and a set.\<close>

lemma allocate_pid_eq:
  assumes "pid_pool_ok k" "bitmap_scan (pid_bitmap k) 1 = Some i" "bitmap_set (pid_bitmap k) i 1 = Some bm"
  shows "allocate_pid k = Some (ucast (i + 1), k\<lparr>pid_bitmap := bm, pid_lock := lock_init\<rparr>)"
proof -
  define k1 where "k1 = k\<lparr>pid_lock := held_once (running k), pid_bitmap := bm\<rparr>"
  have "lock_release (held_once (running k1)) k1 = Some (lock_init, k1)" by (rule lock_release_once)
  then show ?thesis using assms by (simp add: allocate_pid_def pid_pool_ok_def k1_def)
qed

lemma release_pid_eq:
  assumes "pid_pool_ok k" "bitmap_set (pid_bitmap k) (ucast p - 1) 0 = Some bm"
  shows "release_pid p k = Some (k\<lparr>pid_bitmap := bm, pid_lock := lock_init\<rparr>)"
proof -
  define k1 where "k1 = k\<lparr>pid_lock := held_once (running k), pid_bitmap := bm\<rparr>"
  have "lock_release (held_once (running k1)) k1 = Some (lock_init, k1)" by (rule lock_release_once)
  then show ?thesis using assms by (simp add: release_pid_def pid_pool_ok_def k1_def)
qed

lemma unat_ucast_pid: "unat (ucast (p :: u16) :: u32) = unat p"
  using unsigned_less [of p, where 'a = nat] by (simp only: unsigned_ucast_eq) (simp add: take_bit_nat_eq_self)

lemma pid_index: "p \<noteq> 0 \<Longrightarrow> unat ((ucast (p :: u16) :: u32) - 1) = unat p - 1"
proof -
  assume p: "p \<noteq> 0"
  note u = unat_ucast_pid [of p]
  have "0 < unat p" using p by (simp add: unat_gt_0)
  then have "(1 :: u32) \<le> ucast p" using u by (simp add: word_le_nat_alt)
  then show ?thesis by (subst unat_sub_le) (simp_all add: u)
qed

lemma release_pid_spec:
  assumes k: "pid_pool_ok k" and p: "p \<noteq> 0"
  shows "\<exists>k'. release_pid p k = Some k' \<and> pid_pool_ok k' \<and> pids_in_use k' = pids_in_use k - {p}"
proof -
  obtain bm where bm: "bitmap_set (pid_bitmap k) (ucast p - 1) 0 = Some bm" using bitmap_set_total [of 0] by blast
  have used: "bm_used bm j \<longleftrightarrow> j \<noteq> unat p - 1 \<and> bm_used (pid_bitmap k) j" if "j < 1024" for j
    using bitmap_set_used [OF bm, of j] that pid_index [OF p] by auto
  have "0 < unat p" using p by (simp add: unat_gt_0)
  then have "pids_in_use (k\<lparr>pid_bitmap := bm, pid_lock := lock_init\<rparr>) = pids_in_use k - {p}"
    by (auto simp: pids_in_use_def used word_eq_unat)
  then show ?thesis using release_pid_eq [OF k bm] pid_pool_ok_set [OF k bm] by blast
qed

lemma pids_full_iff: "pids_in_use k = {1..1024} \<longleftrightarrow> (\<forall>i < 1024. bm_used (pid_bitmap k) i)"
proof
  assume e: "pids_in_use k = {1..1024}"
  show "\<forall>i < 1024. bm_used (pid_bitmap k) i"
  proof (intro allI impI)
    fix i :: nat assume i: "i < 1024"
    have u: "unat (of_nat (i + 1) :: u16) = i + 1" using i by (intro unat_of_nat_small) simp
    then have "(of_nat (i + 1) :: u16) \<in> {1..1024}" using i by (simp add: word_le_nat_alt del: of_nat_add of_nat_Suc)
    then have "(of_nat (i + 1) :: u16) \<in> pids_in_use k" using e by (simp only:)
    then show "bm_used (pid_bitmap k) i" using u by (auto simp: pids_in_use_def simp del: of_nat_add of_nat_Suc)
  qed
next
  assume a: "\<forall>i < 1024. bm_used (pid_bitmap k) i"
  have "p \<in> pids_in_use k \<longleftrightarrow> p \<in> {1..1024}" for p :: u16
  proof
    assume "p \<in> {1..1024}"
    then have "1 \<le> unat p" "unat p \<le> 1024" by (simp_all add: word_le_nat_alt)
    then have "unat p - 1 < 1024" "unat p = unat p - 1 + 1" by auto
    then show "p \<in> pids_in_use k" using a unfolding pids_in_use_def by blast
  qed (auto simp: pids_in_use_def word_le_nat_alt)
  then show "pids_in_use k = {1..1024}" by blast
qed


definition demo_task :: task_struct where
  "demo_task = zero_task\<lparr>status := TASK_BLOCKED, priority := 10, task_ticks := 10, fd_table := [0, 1, 2] @ replicate 5 (-1),
     parent_pid := -1, stack_magic := 0x19870916\<rparr>"

text \<open>
  A kernel with two processes, 2 at \<^verbatim>\<open>0xc0101000\<close> and its child 3 at \<^verbatim>\<open>0xc0102000\<close>, and the idle thread. The
  64 kernel pages from \<^verbatim>\<open>0xc0100000\<close> are mapped to the frames from \<^verbatim>\<open>0x200000\<close>; process 2 is active and
  has two pages.
\<close>

definition demo_ptab :: ptab where
  "demo_ptab p =
     (if own_window p then
        if p = 0xfffff080 \<or> p = 0xffc20120 \<or> p = 0xffc2013c then 0x240007 else 0
      else ((p - 0xffc00000) * 1024 - 0xbff00000) OR 7)"

definition demo_kernel :: kernel where
  "demo_kernel =
     \<lparr>ptab = demo_ptab,
      tasks = (\<lambda>_. demo_task)(
        0xc0101000 := demo_task\<lparr>pid := 2, status := TASK_RUNNING, pgdir := 0xc0103000, parent_pid := 1\<rparr>,
        0xc0102000 := demo_task\<lparr>pid := 3, status := TASK_READY, pgdir := 0xc0104000, parent_pid := 2\<rparr>),
      running = 0xc0101000, thread_ready_list = [0xc0102000], thread_all_list = [0xc0101000, 0xc0102000, 0xc0100000],
      main_thread = 0xc009e000, idle_thread = 0xc0100000, intr = INTR_OFF, cr3 = 0x203000, tss_esp0 = 0xc0102000, ticks = 0,
      kernel_pool = \<lparr>pool_bitmap = \<lparr>btmp_bytes_len = 8, bits = (\<lambda>_. 0xff)\<rparr>, phy_addr_start = 0x200000, pool_size = 0x40000, pool_lock = lock_init\<rparr>,
      user_pool = \<lparr>pool_bitmap = \<lparr>btmp_bytes_len = 8, bits = (\<lambda>i. if i = 0 then 3 else 0)\<rparr>, phy_addr_start = 0x240000, pool_size = 0x40000, pool_lock = lock_init\<rparr>,
      kernel_vaddr = \<lparr>vaddr_bitmap = \<lparr>btmp_bytes_len = 8, bits = (\<lambda>_. 0xff)\<rparr>, vaddr_start = K_HEAP_START\<rparr>,
      userprog_vaddr = (\<lambda>_. \<lparr>vaddr_bitmap = \<lparr>btmp_bytes_len = 1, bits = (\<lambda>_. 0x81)\<rparr>, vaddr_start = USER_VADDR_START\<rparr>),
      k_block_descs = block_desc_init, u_block_desc = (\<lambda>_. block_desc_init), arenas = (\<lambda>_. no_arena), data = (\<lambda>_. 7),
      pid_bitmap = \<lparr>btmp_bytes_len = 128, bits = (\<lambda>i. if i = 0 then 7 else 0)\<rparr>, pid_start = 1, pid_lock = lock_init,
      kstk = (\<lambda>_. 0), bits_addr = (\<lambda>_. 0xc0110000), spaces = (\<lambda>_. new_space 0x204000), pipes = (\<lambda>_. empty_queue),
      kfs = demo_fs,
      sym = \<lparr>kernel_thread = 0xc0001500, start_process_entry = 0xc0001600, intr_exit = 0xc0001700, idle_entry = 0xc0001800, init_entry = 0xc0001900\<rparr>\<rparr>"


end
