(* ===== verification/Fork.thy ===== *)
theory Fork
  imports Thread
begin

text \<open>
  Copying a process, \<^verbatim>\<open>src/userprog/fork.c\<close>, and the calls on descriptors of
  \<^verbatim>\<open>src/shell/pipe.c\<close> that it needs. The inode pointer of a pipe is the address of the
  kernel page that holds its queue (\<open>pipes\<close>).
\<close>

section \<open>Pipe descriptors\<close>

definition PIPE_FLAG :: u32 where "PIPE_FLAG = 0xffff"

definition is_pipe :: "u32 \<Rightarrow> fs \<Rightarrow> bool option" where
  "is_pipe local_fd s = do { global_fd \<leftarrow> fd_local2global local_fd s; Some (fd_flag (file_table s ! global_fd) = PIPE_FLAG) }"

text \<open>
  With no slot in the file table the code writes to \<^verbatim>\<open>file_table[-1]\<close> (\<open>None\<close>); with no page it
  initialises a queue at address 0 before it tests the pointer (\<open>None\<close>). The two descriptors are
  the second result.
\<close>

definition sys_pipe :: "kernel \<Rightarrow> (u32 \<times> u32 list \<times> kernel) option" where
  "sys_pipe k =
     do { global_fd \<leftarrow> get_free_slot_in_global (kfs k);
          (p, k) \<leftarrow> get_kernel_pages 1 k;
          if p = 0 then None
          else do {
            let k = k\<lparr>pipes := (pipes k)(p := ioqueue_init (pipes k p))\<rparr>;
            (fds, k) \<leftarrow> fs_run (\<lambda>s.
              let s = set_file global_fd \<lparr>fd_pos = 2, fd_flag = PIPE_FLAG, fd_inode = unat p\<rparr> s;
                  (fd0, s) = pcb_fd_install (of_nat global_fd) s;
                  (fd1, s) = pcb_fd_install (of_nat global_fd) s
              in Some ([fd0, fd1], s)) k;
            Some (0, fds, k) } }"

text \<open>Both descriptors must be inside \<^verbatim>\<open>fd_table[8]\<close>.\<close>

definition sys_fd_redirect :: "u32 \<Rightarrow> u32 \<Rightarrow> 'a sched_scheme \<Rightarrow> 'a sched_scheme option" where
  "sys_fd_redirect old_local_fd new_local_fd s =
     (let cur = running s; tab = fd_table (tasks s cur) in
      if \<not> unat old_local_fd < length tab then None
      else if new_local_fd < 3 then Some (upd_task cur (\<lambda>t. t\<lparr>fd_table := tab[unat old_local_fd := new_local_fd]\<rparr>) s)
      else if \<not> unat new_local_fd < length tab then None
      else let new_global_fd = tab ! unat new_local_fd
        in Some (upd_task cur (\<lambda>t. t\<lparr>fd_table := tab[unat old_local_fd := new_global_fd]\<rparr>) s))"

section \<open>Copying pages\<close>

definition page_present :: "kernel \<Rightarrow> u32 \<Rightarrow> bool" where
  "page_present k v \<longleftrightarrow> present (ptab k) (pde_ptr v) \<and> present (ptab k) (pte_ptr v)"

text \<open>\<^verbatim>\<open>memcpy(dst, src, PG_SIZE)\<close>; an absent page stops the kernel in its page fault handler.\<close>

definition copy_page :: "u32 \<Rightarrow> u32 \<Rightarrow> kernel \<Rightarrow> kernel option" where
  "copy_page dst src k =
     (if page_present k dst \<and> page_present k src then
        Some (k\<lparr>data := (\<lambda>a. if a - dst < PG_SIZE then data k (a - dst + src) else data k a),
                arenas := (\<lambda>a. if a - dst < PG_SIZE then arenas k (a - dst + src) else arenas k a)\<rparr>)
      else None)"

text \<open>\<^verbatim>\<open>memcpy(child_thread, parent_thread, PG_SIZE)\<close>: the task and its kernel stack.\<close>

definition copy_pcb :: "u32 \<Rightarrow> u32 \<Rightarrow> kernel \<Rightarrow> kernel" where
  "copy_pcb child parent k =
     (let k = upd_task child (\<lambda>_. tasks k parent) k
      in k\<lparr>userprog_vaddr := (userprog_vaddr k)(child := userprog_vaddr k parent),
           u_block_desc := (u_block_desc k)(child := u_block_desc k parent),
           bits_addr := (bits_addr k)(child := bits_addr k parent),
           kstk := (\<lambda>a. if a - child < PG_SIZE then kstk k (a - child + parent) else kstk k a)\<rparr>)"

text \<open>The result is the code's 0 (\<open>True\<close>) or \<open>-1\<close>. \<open>copy_pcb\<close> has copied the bytes of the bitmap already.\<close>

definition copy_pcb_vaddrbitmap_stack0 :: "u32 \<Rightarrow> u32 \<Rightarrow> kernel \<Rightarrow> (bool \<times> kernel) option" where
  "copy_pcb_vaddrbitmap_stack0 child_thread parent_thread k =
     do { let k = copy_pcb child_thread parent_thread k;
          (new_pid, k) \<leftarrow> fork_pid k;
          let k = upd_task child_thread (\<lambda>t. t\<lparr>pid := new_pid, elapsed_ticks := 0, status := TASK_READY,
                task_ticks := priority t, parent_pid := pid (tasks k parent_thread)\<rparr>) k;
          let k = k\<lparr>u_block_desc := (u_block_desc k)(child_thread := block_desc_init)\<rparr>;
          (vaddr_btmp, k) \<leftarrow> get_kernel_pages bitmap_pg_cnt k;
          if vaddr_btmp = 0 then Some (False, k)
          else Some (True, k\<lparr>bits_addr := (bits_addr k)(child_thread := vaddr_btmp)\<rparr>) }"

text \<open>The pages whose bit is set, in the order of the two loops.\<close>

definition byte_bits :: "u8 \<Rightarrow> u32 list" where
  "byte_bits b = (if b \<noteq> 0 then filter (\<lambda>idx_bit. bitmap_mask idx_bit AND b \<noteq> 0) [0, 1, 2, 3, 4, 5, 6, 7] else [])"

definition used_pages :: "virtual_addr \<Rightarrow> u32 list" where
  "used_pages va =
     concat (map (\<lambda>idx_byte. map (\<lambda>idx_bit. (of_nat idx_byte * 8 + idx_bit) * PG_SIZE + vaddr_start va)
                    (byte_bits (bits (vaddr_bitmap va) (of_nat idx_byte))))
       [0..<unat (btmp_bytes_len (vaddr_bitmap va))])"

fun copy_user_pages :: "u32 \<Rightarrow> u32 \<Rightarrow> u32 \<Rightarrow> u32 list \<Rightarrow> kernel \<Rightarrow> kernel option" where
  "copy_user_pages child_thread parent_thread buf_page [] k = Some k"
| "copy_user_pages child_thread parent_thread buf_page (prog_vaddr # rest) k =
     do { k \<leftarrow> copy_page buf_page prog_vaddr k;
          let k = activate child_thread k;
          (_, k) \<leftarrow> get_a_page_without_opvaddrbitmap PF_USER prog_vaddr k;
          k \<leftarrow> copy_page prog_vaddr buf_page k;
          let k = activate parent_thread k;
          copy_user_pages child_thread parent_thread buf_page rest k }"

definition copy_body_stack3 :: "u32 \<Rightarrow> u32 \<Rightarrow> u32 \<Rightarrow> kernel \<Rightarrow> kernel option" where
  "copy_body_stack3 child_thread parent_thread buf_page k =
     copy_user_pages child_thread parent_thread buf_page (used_pages (userprog_vaddr k parent_thread)) k"

text \<open>
  The child leaves through \<^verbatim>\<open>intr_exit\<close> with \<^verbatim>\<open>eax\<close> 0: below the interrupt frame at the top of its
  page stand the four saved registers and the return address that \<^verbatim>\<open>switch_to\<close> pops.
\<close>

definition build_child_stack :: "u32 \<Rightarrow> kernel \<Rightarrow> kernel" where
  "build_child_stack child_thread k =
     (let intr_0_stack = child_thread + PG_SIZE - sizeof_intr_stack;
          k = k\<lparr>kstk := (kstk k)(intr_0_stack + 32 := 0, intr_0_stack - 4 := intr_exit (sym k),
                  intr_0_stack - 8 := 0, intr_0_stack - 12 := 0, intr_0_stack - 16 := 0, intr_0_stack - 20 := 0)\<rparr>
      in upd_task child_thread (\<lambda>t. t\<lparr>self_kstack := intr_0_stack - 20\<rparr>) k)"

text \<open>\<^verbatim>\<open>is_pipe\<close> looks into the table of the running thread, the parent, which equals the child's.\<close>

fun count_open :: "u32 list \<Rightarrow> u32 \<Rightarrow> fs \<Rightarrow> fs option" where
  "count_open [] thread s = Some s"
| "count_open (local_fd # rest) thread s =
     (let global_fd = fd_table (tasks s thread) ! unat local_fd in
      if \<not> sint global_fd < 32 then None
      else if global_fd \<noteq> -1 then
        do { pipe \<leftarrow> is_pipe local_fd s;
             if pipe then
               (let f = file_table s ! unat global_fd
                in count_open rest thread (set_file (unat global_fd) (f\<lparr>fd_pos := fd_pos f + 1\<rparr>) s))
             else do {
               let ip = fd_inode (file_table s ! unat global_fd);
               _ \<leftarrow> inodes s ip;
               count_open rest thread (upd_inode ip (\<lambda>i. i\<lparr>i_open_cnts := i_open_cnts i + 1\<rparr>) s) } }
      else count_open rest thread s)"

definition update_inode_open_cnts :: "u32 \<Rightarrow> kernel \<Rightarrow> kernel option" where
  "update_inode_open_cnts thread k =
     do { (_, k) \<leftarrow> fs_run (\<lambda>s. do { s \<leftarrow> count_open [3, 4, 5, 6, 7] thread s; Some ((), s) }) k; Some k }"

definition copy_process :: "u32 \<Rightarrow> u32 \<Rightarrow> kernel \<Rightarrow> (bool \<times> kernel) option" where
  "copy_process child_thread parent_thread k =
     do { (buf_page, k) \<leftarrow> get_kernel_pages 1 k;
          if buf_page = 0 then Some (False, k)
          else do {
            (ok, k) \<leftarrow> copy_pcb_vaddrbitmap_stack0 child_thread parent_thread k;
            if \<not> ok then Some (False, k)
            else do {
              (page_dir, k) \<leftarrow> create_page_dir k;
              let k = upd_task child_thread (\<lambda>t. t\<lparr>pgdir := page_dir\<rparr>) k;
              if page_dir = 0 then Some (False, k)
              else do {
                k \<leftarrow> copy_body_stack3 child_thread parent_thread buf_page k;
                let k = build_child_stack child_thread k;
                k \<leftarrow> update_inode_open_cnts child_thread k;
                k \<leftarrow> mfree_page PF_KERNEL buf_page 1 k;
                Some (True, k) } } } }"

text \<open>\<^verbatim>\<open>pid_t\<close> has 16 bits, so the error value is \<open>0xffff\<close>.\<close>

definition sys_fork :: "kernel \<Rightarrow> (u16 \<times> kernel) option" where
  "sys_fork k =
     do { let parent_thread = running k;
          (child_thread, k) \<leftarrow> get_kernel_pages 1 k;
          if child_thread = 0 then Some (-1, k)
          else if \<not> (intr k = INTR_OFF \<and> pgdir (tasks k parent_thread) \<noteq> 0) then None
          else do {
            (ok, k) \<leftarrow> copy_process child_thread parent_thread k;
            if \<not> ok then Some (-1, k)
            else do {
              k \<leftarrow> thread_lists_append child_thread k;
              Some (pid (tasks k child_thread), k) } } }"

end
