(* ===== verification/ForkCorrect.thy ===== *)
theory ForkCorrect
  imports Fork
begin

text \<open>
  What \<^verbatim>\<open>fork\<close> copies: after \<^verbatim>\<open>copy_body_stack3\<close> every page of the parent's bitmap is mapped in the
  child's address space to a frame of its own that was free, with the parent's bytes.
\<close>

section \<open>The two halves of an address space\<close>

abbreviation user_addr :: "u32 \<Rightarrow> bool" where
  "user_addr v \<equiv> unat v < 0xc0000000"

definition kernel_page :: "u32 \<Rightarrow> bool" where
  "kernel_page v \<longleftrightarrow> 0xc0000000 \<le> unat v \<and> unat v < 0xffc00000 \<and> page_aligned v"

lemma user_window: "user_addr v \<Longrightarrow> own_window (pte_ptr v) \<and> own_window (pde_ptr v)"
proof -
  assume "user_addr v"
  then have "unat v div 4096 < 0xc0000" "unat v div 2 ^ 22 < 0x300" by auto
  then show ?thesis by (simp add: own_window_def word_le_nat_alt word_less_nat_alt unat_pte_ptr unat_pde_ptr)
qed

lemma kernel_window: "0xc0000000 \<le> unat v \<Longrightarrow> unat v < 0xffc00000 \<Longrightarrow> \<not> own_window (pte_ptr v) \<and> \<not> own_window (pde_ptr v)"
proof -
  assume "0xc0000000 \<le> unat v" "unat v < 0xffc00000"
  then have "0xc0000 \<le> unat v div 4096" "unat v div 4096 < 0xffc00" "0x300 \<le> unat v div 2 ^ 22" "unat v div 2 ^ 22 < 0x3ff"
    by auto
  then show ?thesis by (simp add: own_window_def word_le_nat_alt word_less_nat_alt unat_pte_ptr unat_pde_ptr)
qed

lemma user_table_own:
  assumes "user_addr v" "p AND 0xfffff000 = pte_ptr v AND 0xfffff000"
  shows "own_window p"
proof -
  have "unat p div 4096 = 0xffc00 + unat v div 2 ^ 22" using assms(2) by (simp only: page_base_eq_iff window_div)
  moreover have "unat v div 2 ^ 22 < 0x300" using assms(1) by simp
  ultimately have "0xffc00 \<le> unat p div 4096" "unat p div 4096 < 0xfff00" by simp_all
  then have "0xffc00000 \<le> unat p" "unat p < 0xfff00000" by auto
  then show ?thesis by (simp add: own_window_def word_le_nat_alt word_less_nat_alt)
qed

lemma map_page_shared: "user_addr v \<Longrightarrow> \<not> own_window p \<Longrightarrow> map_page t v f d p = t p"
  using user_window [of v] user_table_own [of v p] by (auto simp: map_page_def clear_table_def)

text \<open>The window a directory would show: its own words, and the shared ones of the active window.\<close>

definition space_ptab :: "u32 \<Rightarrow> kernel \<Rightarrow> ptab" where
  "space_ptab c k = (\<lambda>p. if own_window p then sp_ptab (spaces k c) p else ptab k p)"

lemma present_translate: "page_present k v \<longleftrightarrow> translate (ptab k) v \<noteq> None"
  by (simp add: page_present_def translate_def)

lemma translate_shared:
  "0xc0000000 \<le> unat v \<Longrightarrow> unat v < 0xffc00000 \<Longrightarrow> \<forall>p. \<not> own_window p \<longrightarrow> t' p = t p \<Longrightarrow>
   translate t' v = translate t v \<and> addr_v2p t' v = addr_v2p t v"
  using kernel_window [of v] by (simp add: translate_def addr_v2p_def present_def)

lemma in_page: "(a :: u32) - v < PG_SIZE \<Longrightarrow> unat v \<le> 0xffffefff \<Longrightarrow> unat v \<le> unat a \<and> unat a < unat v + 4096"
proof -
  assume a: "a - v < PG_SIZE" and v: "unat v \<le> 0xffffefff"
  have lt: "unat (a - v) < 4096" using a by (simp add: word_less_nat_alt PG_SIZE_def)
  have "unat ((a - v) + v) = unat (a - v) + unat v" using lt v by (intro unat_add_small) simp
  then show ?thesis using lt by simp
qed

section \<open>One page\<close>

lemma get_page_without_spec:
  assumes ok: "pool_ok (kernel_pool s)" "pool_ok (user_pool s)" and l: "pool_lock (user_pool s) = lock_init" "running s \<noteq> 0"
    and v: "low_addr v" and un: "translate (ptab s) v = None" and fr: "free_frames (user_pool s) \<noteq> {}"
  shows "\<exists>f d p p'. get_a_page_without_opvaddrbitmap PF_USER v s =
      Some (v, s\<lparr>kernel_pool := p, user_pool := p', ptab := map_page (ptab s) v f d\<rparr>) \<and>
    pool_le p (kernel_pool s) \<and> pool_le p' (user_pool s) \<and>
    f \<in> free_frames (user_pool s) \<and> free_frames p' = free_frames (user_pool s) - {f}"
proof -
  define h where "h = held_once (running s)"
  have acq: "pool_acquire PF_USER s = Some (s\<lparr>user_pool := (user_pool s)\<lparr>pool_lock := h\<rparr>\<rparr>)"
    using l by (simp add: pool_acquire_def get_pool_def set_pool_def h_def)
  have ff: "free_frames (q\<lparr>pool_lock := x\<rparr>) = free_frames q" for q x by (simp add: free_frames_def)
  have "pool_ok ((user_pool s)\<lparr>pool_lock := h\<rparr>)" using ok by (simp add: pool_ok_def)
  then obtain f q where q: "palloc ((user_pool s)\<lparr>pool_lock := h\<rparr>) = Some (f, q)"
    "pool_le q ((user_pool s)\<lparr>pool_lock := h\<rparr>)" "f \<in> free_frames (user_pool s)" "free_frames q = free_frames (user_pool s) - {f}"
    using palloc_le [of "(user_pool s)\<lparr>pool_lock := h\<rparr>"] fr unfolding ff by metis
  have "f \<noteq> 0" using frame_aligned [OF ok(2)] q(3) free_frames_sub by blast
  define s1 where "s1 = s\<lparr>user_pool := q\<rparr>"
  have s1: "kernel_pool s1 = kernel_pool s" "ptab s1 = ptab s" by (simp_all add: s1_def)
  obtain p d where pd: "page_table_add v f s1 = Some (s1\<lparr>kernel_pool := p, ptab := map_page (ptab s1) v f d\<rparr>)"
    "pool_le p (kernel_pool s1)" using page_table_add_spec [of s1 v f] ok(1) v un unfolding s1 by metis
  define p' where "p' = q\<lparr>pool_lock := lock_init\<rparr>"
  define s2 where "s2 = s1\<lparr>kernel_pool := p, ptab := map_page (ptab s1) v f d\<rparr>"
  have us: "user_pool s2 = q" "running s2 = running s" by (simp_all add: s2_def s1_def)
  have "pool_lock q = held_once (running s2)" using q(2) by (simp add: pool_le_def h_def us)
  then have "lock_release (pool_lock (user_pool s2)) s2 = Some (lock_init, s2)" using lock_release_once [of s2] by (simp only: us)
  then have rel: "pool_release PF_USER s2 = Some (s2\<lparr>user_pool := p'\<rparr>)"
    by (simp add: pool_release_def get_pool_def set_pool_def us p'_def)
  have "get_a_page_without_opvaddrbitmap PF_USER v s = Some (v, s2\<lparr>user_pool := p'\<rparr>)"
    using acq q(1) \<open>f \<noteq> 0\<close> pd(1) rel
    by (simp add: get_a_page_without_opvaddrbitmap_def get_pool_def set_pool_def s1_def [symmetric] s2_def [symmetric])
  moreover have "s2\<lparr>user_pool := p'\<rparr> = s\<lparr>kernel_pool := p, user_pool := p', ptab := map_page (ptab s) v f d\<rparr>"
    by (simp add: s2_def s1_def)
  moreover have "pool_le p' (user_pool s)" using q(2) l by (simp add: pool_le_def p'_def ff)
  moreover have "free_frames p' = free_frames (user_pool s) - {f}" using q(4) by (simp add: p'_def ff)
  ultimately show ?thesis using pd(2) q(3) s1(1) by auto
qed

definition child_dir :: "u32 \<Rightarrow> kernel \<Rightarrow> u32" where
  "child_dir c k = addr_v2p (ptab k) (pgdir (tasks k c))"

text \<open>The situation in which \<^verbatim>\<open>copy_body_stack3\<close> is called: two directories, the parent's active, a buffer page.\<close>

definition fork_ready :: "u32 \<Rightarrow> u32 \<Rightarrow> u32 \<Rightarrow> kernel \<Rightarrow> bool" where
  "fork_ready child parent buf_page k \<longleftrightarrow>
     pool_ok (kernel_pool k) \<and> pool_ok (user_pool k) \<and> pool_lock (user_pool k) = lock_init \<and> running k \<noteq> 0 \<and>
     kernel_page (pgdir (tasks k parent)) \<and> kernel_page (pgdir (tasks k child)) \<and>
     cr3 k = child_dir parent k \<and> child_dir child k \<noteq> cr3 k \<and> kernel_page buf_page \<and> page_present k buf_page"

text \<open>What copying leaves alone: everything but the buffer page, the inactive spaces and the frames taken.\<close>

definition fork_step :: "u32 \<Rightarrow> kernel \<Rightarrow> kernel \<Rightarrow> bool" where
  "fork_step buf_page k k' \<longleftrightarrow>
     k' = k\<lparr>data := data k', arenas := arenas k', spaces := spaces k', kernel_pool := kernel_pool k', user_pool := user_pool k'\<rparr> \<and>
     pool_le (kernel_pool k') (kernel_pool k) \<and> pool_le (user_pool k') (user_pool k) \<and>
     (\<forall>a. \<not> a - buf_page < PG_SIZE \<longrightarrow> data k' a = data k a \<and> arenas k' a = arenas k a)"

lemma fork_step_refl: "fork_step b k k"
  by (simp add: fork_step_def)

lemma fork_step_trans: "fork_step b k k1 \<Longrightarrow> fork_step b k1 k2 \<Longrightarrow> fork_step b k k2"
proof -
  assume a: "fork_step b k k1" "fork_step b k1 k2"
  have 1: "k1 = k\<lparr>data := data k1, arenas := arenas k1, spaces := spaces k1, kernel_pool := kernel_pool k1, user_pool := user_pool k1\<rparr>"
    and 2: "k2 = k1\<lparr>data := data k2, arenas := arenas k2, spaces := spaces k2, kernel_pool := kernel_pool k2, user_pool := user_pool k2\<rparr>"
    using a by (simp_all only: fork_step_def)
  have "k2 = k\<lparr>data := data k2, arenas := arenas k2, spaces := spaces k2, kernel_pool := kernel_pool k2, user_pool := user_pool k2\<rparr>"
    by (subst 2, subst 1) simp
  moreover have "pool_le (kernel_pool k2) (kernel_pool k)" "pool_le (user_pool k2) (user_pool k)"
    using a pool_le_trans by (auto simp only: fork_step_def)
  moreover have "\<forall>a. \<not> a - b < PG_SIZE \<longrightarrow> data k1 a = data k a \<and> arenas k1 a = arenas k a"
    "\<forall>a. \<not> a - b < PG_SIZE \<longrightarrow> data k2 a = data k1 a \<and> arenas k2 a = arenas k1 a"
    using a [unfolded fork_step_def] by blast+
  then have "\<forall>a. \<not> a - b < PG_SIZE \<longrightarrow> data k2 a = data k a \<and> arenas k2 a = arenas k a" by metis
  ultimately show ?thesis unfolding fork_step_def by (intro conjI)
qed

lemma fork_step_same:
  assumes "fork_step b k k'"
  shows "ptab k' = ptab k" "tasks k' = tasks k" "running k' = running k" "cr3 k' = cr3 k"
    "page_present k' v = page_present k v" "child_dir c k' = child_dir c k"
proof -
  have e: "k' = k\<lparr>data := data k', arenas := arenas k', spaces := spaces k', kernel_pool := kernel_pool k', user_pool := user_pool k'\<rparr>"
    using assms by (simp only: fork_step_def)
  show "ptab k' = ptab k" "tasks k' = tasks k" "running k' = running k" "cr3 k' = cr3 k" by (subst e, simp)+
  then show "page_present k' v = page_present k v" "child_dir c k' = child_dir c k"
    by (simp_all add: page_present_def child_dir_def)
qed

lemma fork_step_ready:
  assumes "fork_step b k k'" "fork_ready c p b' k"
  shows "fork_ready c p b' k'"
proof -
  have le: "pool_le (kernel_pool k') (kernel_pool k)" "pool_le (user_pool k') (user_pool k)"
    using assms(1) by (simp_all only: fork_step_def)
  then have "pool_lock (user_pool k') = pool_lock (user_pool k)" by (simp add: pool_le_def)
  then show ?thesis using assms(2) le pool_le_ok
    unfolding fork_ready_def fork_step_same [OF assms(1)] by auto
qed

lemma enter_space_sel [simp]:
  "cr3 (enter_space old k) = cr3 k" "tasks (enter_space old k) = tasks k" "running (enter_space old k) = running k"
  "user_pool (enter_space old k) = user_pool k" "kernel_pool (enter_space old k) = kernel_pool k"
  by (simp_all add: enter_space_def load_space_def)

lemma load_space_upd:
  "load_space sp k = k\<lparr>ptab := ptab (load_space sp k), data := data (load_space sp k), arenas := arenas (load_space sp k)\<rparr>"
  by (simp add: load_space_def)

lemma page_offset: "(a :: u32) - d < PG_SIZE \<Longrightarrow> kernel_page b \<Longrightarrow> 0xc0000000 \<le> unat (a - d + b)"
proof -
  assume a: "a - d < PG_SIZE" and b: "kernel_page b"
  have "unat (a - d) < 4096" using a by (simp add: word_less_nat_alt PG_SIZE_def)
  then have "unat (a - d + b) = unat (a - d) + unat b" using b by (intro unat_add_small) (simp add: kernel_page_def)
  then show ?thesis using b by (simp add: kernel_page_def)
qed

lemma user_not_in_page: "user_addr a \<Longrightarrow> kernel_page b \<Longrightarrow> \<not> a - b < PG_SIZE"
  using in_page [of a b] by (auto simp: kernel_page_def)

lemma copy_one_page:
  assumes r: "fork_ready c p b k" and v: "user_addr v" "page_present k v"
    and un: "translate (space_ptab (child_dir c k) k) v = None" and fr: "free_frames (user_pool k) \<noteq> {}"
  shows "\<exists>k' f d. (\<forall>rest. copy_user_pages c p b (v # rest) k = copy_user_pages c p b rest k') \<and> fork_step b k k' \<and>
    space_ptab (child_dir c k) k' = map_page (space_ptab (child_dir c k) k) v f d \<and>
    f \<in> free_frames (user_pool k) \<and> free_frames (user_pool k') = free_frames (user_pool k) - {f} \<and>
    (\<forall>a. user_addr a \<longrightarrow>
       sp_data (spaces k' (child_dir c k)) a = (if a - v < PG_SIZE then data k a else sp_data (spaces k (child_dir c k)) a) \<and>
       sp_arenas (spaces k' (child_dir c k)) a = (if a - v < PG_SIZE then arenas k a else sp_arenas (spaces k (child_dir c k)) a))"
proof -
  define cc where "cc = child_dir c k"
  define k1 where "k1 = k\<lparr>data := (\<lambda>a. if a - b < PG_SIZE then data k (a - b + v) else data k a),
      arenas := (\<lambda>a. if a - b < PG_SIZE then arenas k (a - b + v) else arenas k a)\<rparr>"
  have c1: "copy_page b v k = Some k1" using r v(2) by (simp add: copy_page_def fork_ready_def k1_def)
  have s1: "ptab k1 = ptab k" "tasks k1 = tasks k" "running k1 = running k" "cr3 k1 = cr3 k" "spaces k1 = spaces k"
    "kernel_pool k1 = kernel_pool k" "user_pool k1 = user_pool k" by (simp_all add: k1_def)
  have kp: "pgdir (tasks k c) \<noteq> 0" "pgdir (tasks k p) \<noteq> 0" "kernel_page b" "cc \<noteq> cr3 k" "cr3 k = child_dir p k"
    using r by (auto simp: fork_ready_def kernel_page_def cc_def)
  define sp1 where "sp1 = \<lparr>sp_ptab = ptab k, sp_data = data k1, sp_arenas = arenas k1\<rparr>"
  define k2 where "k2 = activate c k1"
  have k2: "k2 = load_space (spaces k cc) (k1\<lparr>cr3 := cc, spaces := (spaces k)(cr3 k := sp1)\<rparr>)"
    using kp by (simp add: k2_def activate_def page_dir_activate_def enter_space_def s1 cc_def child_dir_def sp1_def)
  have s2: "ptab k2 = space_ptab cc k" "tasks k2 = tasks k" "running k2 = running k" "cr3 k2 = cc"
    "spaces k2 = (spaces k)(cr3 k := sp1)" "kernel_pool k2 = kernel_pool k" "user_pool k2 = user_pool k"
    "data k2 a = (if a < 0xc0000000 then sp_data (spaces k cc) a else data k1 a)"
    "arenas k2 a = (if a < 0xc0000000 then sp_arenas (spaces k cc) a else arenas k1 a)" for a
    by (simp_all add: k2 load_space_def s1 space_ptab_def fun_eq_iff)
  have low: "low_addr v" using v(1) by (simp add: low_addr_def)
  obtain f d q q' where g: "get_a_page_without_opvaddrbitmap PF_USER v k2 =
        Some (v, k2\<lparr>kernel_pool := q, user_pool := q', ptab := map_page (ptab k2) v f d\<rparr>)"
    "pool_le q (kernel_pool k)" "pool_le q' (user_pool k)" "f \<in> free_frames (user_pool k)"
    "free_frames q' = free_frames (user_pool k) - {f}"
    using get_page_without_spec [of k2 v] r low un fr unfolding s2 fork_ready_def cc_def [symmetric] by metis
  define k3 where "k3 = k2\<lparr>kernel_pool := q, user_pool := q', ptab := map_page (ptab k2) v f d\<rparr>"
  have fa: "page_aligned f" using r g(4) free_frames_sub frame_aligned unfolding fork_ready_def by blast
  have tv: "translate (ptab k3) v = Some (f + (v AND 0xfff))"
    using translate_map_page [OF low low fa, of "space_ptab cc k" d] un by (simp add: k3_def s2 cc_def same_page_def)
  have shared: "\<forall>p. \<not> own_window p \<longrightarrow> ptab k3 p = ptab k p"
    using map_page_shared [OF v(1)] by (simp add: k3_def s2 space_ptab_def)
  have tb: "translate (ptab k3) b \<noteq> None"
    using translate_shared [OF _ _ shared, of b] r present_translate by (auto simp: fork_ready_def kernel_page_def)
  define k4 where "k4 = k3\<lparr>data := (\<lambda>a. if a - v < PG_SIZE then data k3 (a - v + b) else data k3 a),
      arenas := (\<lambda>a. if a - v < PG_SIZE then arenas k3 (a - v + b) else arenas k3 a)\<rparr>"
  have c4: "copy_page v b k3 = Some k4" using tv tb by (simp add: copy_page_def present_translate k4_def)
  have s4: "ptab k4 = map_page (space_ptab cc k) v f d" "tasks k4 = tasks k" "cr3 k4 = cc" "spaces k4 = (spaces k)(cr3 k := sp1)"
    "kernel_pool k4 = q" "user_pool k4 = q'"
    by (simp_all add: k4_def k3_def s2)
  define sp4 where "sp4 = \<lparr>sp_ptab = ptab k4, sp_data = data k4, sp_arenas = arenas k4\<rparr>"
  define k5 where "k5 = activate p k4"
  have dir: "addr_v2p (ptab k4) (pgdir (tasks k p)) = cr3 k"
    using translate_shared [OF _ _ shared, of "pgdir (tasks k p)"] r kp(5)
    by (auto simp: fork_ready_def kernel_page_def child_dir_def s4 k3_def s2)
  have k5: "k5 = load_space sp1 (k4\<lparr>cr3 := cr3 k, spaces := (spaces k4)(cc := sp4)\<rparr>)"
    using kp dir by (simp add: k5_def activate_def page_dir_activate_def enter_space_def s4 sp4_def)
  have "ptab k5 a = ptab k a" for a
    using map_page_shared [OF v(1), of a "space_ptab cc k" f d] by (simp add: k5 load_space_def sp1_def s4 space_ptab_def)
  then have pt5: "ptab k5 = ptab k" by auto
  have step: "copy_user_pages c p b (v # rest) k = copy_user_pages c p b rest k5" for rest
    using c1 g(1) c4 by (simp add: k2_def [symmetric] k3_def [symmetric] k5_def)
  have s5: "spaces k5 = (spaces k)(cr3 k := sp1, cc := sp4)" "kernel_pool k5 = q" "user_pool k5 = q'"
    "data k5 a = (if a < 0xc0000000 then data k1 a else data k4 a)"
    "arenas k5 a = (if a < 0xc0000000 then arenas k1 a else arenas k4 a)" for a
    by (simp_all add: k5 load_space_def s4 sp1_def)
  have usr: "a < 0xc0000000 \<longleftrightarrow> user_addr a" for a :: u32 by (simp add: word_less_nat_alt)
  have off: "\<not> a - v + b < 0xc0000000" if "a - v < PG_SIZE" for a
    using page_offset [OF that kp(3)] by (simp add: usr)
  have back1: "data k1 (a - v + b) = data k a \<and> arenas k1 (a - v + b) = arenas k a" if "a - v < PG_SIZE" for a
    using that by (simp add: k1_def)
  have k1u: "data k1 a = data k a \<and> arenas k1 a = arenas k a" if "\<not> a - b < PG_SIZE" for a
    using that by (simp add: k1_def)
  have d4: "data k4 a = (if a - v < PG_SIZE then data k a else data k2 a) \<and>
      arenas k4 a = (if a - v < PG_SIZE then arenas k a else arenas k2 a)" for a
    using back1 [of a] off [of a] by (auto simp: k4_def k3_def s2)
  have dat5: "data k5 a = data k a \<and> arenas k5 a = arenas k a" if "\<not> a - b < PG_SIZE" for a
    using k1u [OF that] d4 [of a] in_page [of a v] v(1) by (auto simp: s5 s2 usr)
  have eq5: "k5 = k\<lparr>data := data k5, arenas := arenas k5, spaces := spaces k5, kernel_pool := kernel_pool k5, user_pool := user_pool k5\<rparr>"
  proof -
    define D A S where "D = data k5" and "A = arenas k5" and "S = spaces k5"
    have "S = (spaces k4)(cc := sp4)" by (simp add: S_def s5 s4)
    then have e: "k5 = load_space sp1 (k4\<lparr>cr3 := cr3 k, spaces := S\<rparr>)" by (simp only: k5)
    have "k5 = k4\<lparr>cr3 := cr3 k, spaces := S, ptab := ptab k5, data := D, arenas := A\<rparr>"
      using load_space_upd [of sp1 "k4\<lparr>cr3 := cr3 k, spaces := S\<rparr>"] by (simp only: e [symmetric] D_def A_def)
    also have "\<dots> = k2\<lparr>cr3 := cr3 k, spaces := S, ptab := ptab k5, data := D, arenas := A, kernel_pool := q, user_pool := q'\<rparr>"
      unfolding k4_def k3_def by (rule kernel.equality) simp_all
    also have "\<dots> = k\<lparr>cr3 := cr3 k, spaces := S, ptab := ptab k5, data := D, arenas := A, kernel_pool := q, user_pool := q'\<rparr>"
      by (subst k2, subst load_space_upd) (rule kernel.equality, simp_all add: k1_def)
    also have "\<dots> = k\<lparr>data := D, arenas := A, spaces := S, kernel_pool := q, user_pool := q'\<rparr>"
      by (rule kernel.equality) (simp_all add: pt5)
    finally show ?thesis by (simp add: D_def A_def S_def s5(2,3))
  qed
  have "fork_step b k k5" using eq5 dat5 g(2,3) unfolding fork_step_def s5(2,3) by blast
  moreover have "space_ptab cc k5 = map_page (space_ptab cc k) v f d"
  proof
    fix a
    show "space_ptab cc k5 a = map_page (space_ptab cc k) v f d a"
      using map_page_shared [OF v(1), of a "space_ptab cc k" f d]
      by (cases "own_window a") (simp_all add: space_ptab_def [of cc k5] s5 sp4_def s4 pt5 space_ptab_def)
  qed
  moreover have "sp_data (spaces k5 cc) a = (if a - v < PG_SIZE then data k a else sp_data (spaces k cc) a) \<and>
       sp_arenas (spaces k5 cc) a = (if a - v < PG_SIZE then arenas k a else sp_arenas (spaces k cc) a)" if "user_addr a" for a
    using d4 [of a] that by (simp add: s5 sp4_def s2 usr)
  ultimately show ?thesis using step g(4,5) s5(3) unfolding cc_def [symmetric] by metis
qed


section \<open>All pages\<close>

definition copies :: "u32 \<Rightarrow> u32 list \<Rightarrow> kernel \<Rightarrow> kernel \<Rightarrow> bool" where
  "copies c vs k k' \<longleftrightarrow>
     (\<forall>a. user_addr a \<longrightarrow>
        sp_data (spaces k' c) a = (if \<exists>v\<in>set vs. a - v < PG_SIZE then data k a else sp_data (spaces k c) a) \<and>
        sp_arenas (spaces k' c) a = (if \<exists>v\<in>set vs. a - v < PG_SIZE then arenas k a else sp_arenas (spaces k c) a))"

definition fresh_pages :: "u32 \<Rightarrow> u32 list \<Rightarrow> u32 list \<Rightarrow> kernel \<Rightarrow> kernel \<Rightarrow> bool" where
  "fresh_pages c vs fs k k' \<longleftrightarrow>
     length fs = length vs \<and> distinct fs \<and> set fs \<subseteq> free_frames (user_pool k) \<and>
     free_frames (user_pool k') = free_frames (user_pool k) - set fs \<and>
     (\<forall>i<length vs. translate (space_ptab c k') (vs ! i) = Some (fs ! i)) \<and>
     (\<forall>w. low_addr w \<longrightarrow> (\<forall>v\<in>set vs. \<not> same_page v w) \<longrightarrow>
        translate (space_ptab c k') w = translate (space_ptab c k) w)"

lemma finite_free [simp]: "finite (free_frames p)"
  by (rule finite_subset [OF subset_UNIV]) simp

lemma copy_user_pages_spec:
  assumes "fork_ready c p b k" "distinct vs"
    and "\<forall>v\<in>set vs. user_addr v \<and> page_aligned v \<and> page_present k v \<and> translate (space_ptab (child_dir c k) k) v = None"
    and "length vs \<le> card (free_frames (user_pool k))"
  shows "\<exists>k' fs. copy_user_pages c p b vs k = Some k' \<and> fork_step b k k' \<and>
    copies (child_dir c k) vs k k' \<and> fresh_pages (child_dir c k) vs fs k k'"
  using assms
proof (induction vs arbitrary: k)
  case Nil
  have "copy_user_pages c p b [] k = Some k \<and> fork_step b k k \<and> copies (child_dir c k) [] k k \<and>
      fresh_pages (child_dir c k) [] [] k k"
    by (simp add: fork_step_refl copies_def fresh_pages_def)
  then show ?case by blast
next
  case (Cons v vs)
  define cc where "cc = child_dir c k"
  have v: "user_addr v" "page_aligned v" "page_present k v" "translate (space_ptab cc k) v = None"
    using Cons.prems(3) by (simp_all add: cc_def)
  have ne: "free_frames (user_pool k) \<noteq> {}" using Cons.prems(4) by auto
  obtain k1 f d where st: "\<forall>rest. copy_user_pages c p b (v # rest) k = copy_user_pages c p b rest k1"
    and fs1: "fork_step b k k1" and pt: "space_ptab cc k1 = map_page (space_ptab cc k) v f d"
    and f: "f \<in> free_frames (user_pool k)" "free_frames (user_pool k1) = free_frames (user_pool k) - {f}"
    and sp: "\<forall>a. user_addr a \<longrightarrow>
       sp_data (spaces k1 cc) a = (if a - v < PG_SIZE then data k a else sp_data (spaces k cc) a) \<and>
       sp_arenas (spaces k1 cc) a = (if a - v < PG_SIZE then arenas k a else sp_arenas (spaces k cc) a)"
    using copy_one_page [OF Cons.prems(1) v(1,3) v(4) [unfolded cc_def] ne] unfolding cc_def by blast
  note same = fork_step_same [OF fs1]
  have cd: "child_dir c k1 = cc" using same(6) by (simp add: cc_def)
  have fa: "page_aligned f" using Cons.prems(1) f(1) free_frames_sub frame_aligned unfolding fork_ready_def by blast
  have low: "low_addr w" if "user_addr w" for w using that by (simp add: low_addr_def)
  have tr: "translate (space_ptab cc k1) w = (if same_page v w then Some (f + (w AND 0xfff)) else translate (space_ptab cc k) w)"
    if "low_addr w" for w unfolding pt using low [OF v(1)] that fa v(4) by (rule translate_map_page)
  have ap: "\<not> same_page v w" if "w \<in> set vs" for w
    using same_page_aligned [of v w] v(2) Cons.prems(2,3) that by auto
  have "\<exists>k' fs. copy_user_pages c p b vs k1 = Some k' \<and> fork_step b k1 k' \<and> copies cc vs k1 k' \<and> fresh_pages cc vs fs k1 k'"
  proof (rule Cons.IH [of k1, unfolded cd])
    show "fork_ready c p b k1" using fork_step_ready [OF fs1 Cons.prems(1)] .
    show "distinct vs" using Cons.prems(2) by simp
    show "\<forall>v\<in>set vs. user_addr v \<and> page_aligned v \<and> page_present k1 v \<and> translate (space_ptab cc k1) v = None"
      using Cons.prems(3) tr [OF low] ap by (simp add: same(5) cc_def)
    show "length vs \<le> card (free_frames (user_pool k1))" using Cons.prems(4) f by simp
  qed
  then obtain k' fs where k': "copy_user_pages c p b vs k1 = Some k'" "fork_step b k1 k'" "copies cc vs k1 k'"
    "fresh_pages cc vs fs k1 k'" by blast
  have dat: "data k1 a = data k a \<and> arenas k1 a = arenas k a" if "user_addr a" for a
  proof -
    have "kernel_page b" using Cons.prems(1) by (simp add: fork_ready_def)
    then have "\<not> a - b < PG_SIZE" using user_not_in_page [OF that] by blast
    then show ?thesis using fs1 unfolding fork_step_def by blast
  qed
  have "copies cc (v # vs) k k'"
    using k'(3) sp dat unfolding copies_def by auto
  moreover have "fresh_pages cc (v # vs) (f # fs) k k'"
  proof -
    note F = k'(4) [unfolded fresh_pages_def f(2)]
    have tv: "translate (space_ptab cc k1) v = Some f"
      using tr [OF low [OF v(1)]] aligned_offset [OF v(2)] by (simp add: same_page_def)
    have "\<forall>u\<in>set vs. \<not> same_page u v" using ap by (metis same_page_def)
    then have "translate (space_ptab cc k') v = Some f" using F low [OF v(1)] tv by auto
    moreover have "translate (space_ptab cc k') w = translate (space_ptab cc k) w"
      if "low_addr w" "\<forall>u\<in>set (v # vs). \<not> same_page u w" for w using F that tr [OF that(1)] by auto
    ultimately show ?thesis unfolding fresh_pages_def using F f(1)
      by (auto simp: nth_Cons split: nat.splits)
  qed
  moreover have "copy_user_pages c p b (v # vs) k = Some k'" using st k'(1) by (simp del: copy_user_pages.simps)
  ultimately show ?case using fork_step_trans [OF fs1 k'(2)] unfolding cc_def by blast
qed

section \<open>The pages of the bitmap\<close>

lemma byte_bits_filter: "byte_bits b = map of_nat (filter (bit b) [0..<8])"
proof -
  have m: "(bitmap_mask (of_nat j) AND b \<noteq> 0) = bit b j" if "j < 8" for j
    using bit_and_mask_nonzero [of "of_nat j" b] that by (simp add: and.commute unat_of_nat_small)
  have l: "[0, 1, 2, 3, 4, 5, 6, 7] = map (of_nat :: nat \<Rightarrow> u32) [0..<8]" by (simp add: upt_rec)
  have "filter (\<lambda>i. bitmap_mask i AND b \<noteq> 0) (map (of_nat :: nat \<Rightarrow> u32) [0..<8]) = map of_nat (filter (bit b) [0..<8])"
    unfolding filter_map by (rule arg_cong [where f = "map _"], rule filter_cong) (simp_all add: m)
  then show ?thesis unfolding byte_bits_def l by simp
qed

lemma filter_upt_shift: "filter P [n..<n + m] = map (\<lambda>j. n + j) (filter (\<lambda>j. P (n + j)) [0..<m])"
proof -
  have "[n..<n + m] = map (\<lambda>j. n + j) [0..<m]" using map_add_upt [of n m] by (simp add: add.commute)
  then show ?thesis by (simp add: filter_map o_def)
qed

lemma used_pages_filter:
  assumes "bm_bits (vaddr_bitmap va) < 2 ^ 32"
  shows "used_pages va = map (page_at (vaddr_start va)) (filter (bm_used (vaddr_bitmap va)) [0..<bm_bits (vaddr_bitmap va)])"
proof -
  let ?b = "vaddr_bitmap va"
  have "concat (map (\<lambda>idx_byte. map (\<lambda>idx_bit. (of_nat idx_byte * 8 + idx_bit) * PG_SIZE + vaddr_start va)
          (byte_bits (bits ?b (of_nat idx_byte)))) [0..<n]) = map (page_at (vaddr_start va)) (filter (bm_used ?b) [0..<8 * n])"
    if "8 * n \<le> bm_bits ?b" for n
    using that
  proof (induction n)
    case (Suc n)
    have u: "bm_used ?b (8 * n + j) = bit (bits ?b (of_nat n)) j" if j: "j < 8" for j
    proof -
      have lt: "8 * n + j < 2 ^ 32" using Suc.prems assms j by simp
      have "unat (of_nat (8 * n + j) :: u32) = 8 * n + j" using lt by (rule unat_of_nat_32)
      then have "(of_nat (8 * n + j) :: u32) div 8 = of_nat n" "unat (of_nat (8 * n + j) :: u32) mod 8 = j"
        using j lt by (simp_all add: word_eq_unat unat_div unat_of_nat_32 del: of_nat_add of_nat_mult)
      then show ?thesis by (simp only: bm_used_def scan_test_bit)
    qed
    have p: "(of_nat n * 8 + of_nat j) * PG_SIZE + vaddr_start va = page_at (vaddr_start va) (8 * n + j)" for j
      by (simp add: page_at_def PG_SIZE_def algebra_simps)
    have "filter (bm_used ?b) [8 * n..<8 * n + 8] = map (\<lambda>j. 8 * n + j) (filter (bit (bits ?b (of_nat n))) [0..<8])"
      unfolding filter_upt_shift by (rule arg_cong [where f = "map _"], rule filter_cong) (simp_all add: u)
    moreover have "[0..<8 * Suc n] = [0..<8 * n] @ [8 * n..<8 * n + 8]" using upt_add_eq_append [of 0 "8 * n" 8] by (simp add: add.commute)
    ultimately show ?case using Suc by (simp add: byte_bits_filter o_def p)
  qed simp
  from this [of "unat (btmp_bytes_len ?b)"] show ?thesis by (simp add: used_pages_def bm_bits_def)
qed
section \<open>Properties\<close>



end
