(* ===== verification/Exit.thy ===== *)
theory Exit
  imports Fork
begin

text \<open>
  The end of a process, \<^verbatim>\<open>src/userprog/wait_exit.c\<close>: \<^verbatim>\<open>exit\<close> gives back the memory and the
  descriptors, hands the children to \<^verbatim>\<open>init\<close>, wakes a waiting parent and hangs; \<^verbatim>\<open>wait\<close> collects a
  hanging child.
\<close>

section \<open>Giving back resources\<close>

text \<open>
  The directory of the exiting process is read through \<^verbatim>\<open>pgdir\<close>; it is the active one, so its words are
  the last page of the window.
\<close>

fun free_frames_of :: "u32 list \<Rightarrow> kernel \<Rightarrow> kernel option" where
  "free_frames_of [] k = Some k"
| "free_frames_of (v_pte_ptr # rest) k =
     (let pte = ptab k v_pte_ptr in
      if pte AND 1 \<noteq> 0 then do { k \<leftarrow> free_a_phy_page (pte AND 0xfffff000) k; free_frames_of rest k }
      else free_frames_of rest k)"

fun free_tables :: "nat list \<Rightarrow> kernel \<Rightarrow> kernel option" where
  "free_tables [] k = Some k"
| "free_tables (pde_idx # rest) k =
     (let pde = ptab k (0xfffff000 + 4 * of_nat pde_idx) in
      if pde AND 1 \<noteq> 0 then
        do { let first_pte_vaddr_in_pde = pte_ptr (of_nat pde_idx * 0x400000);
             k \<leftarrow> free_frames_of (map (\<lambda>pte_idx. first_pte_vaddr_in_pde + 4 * of_nat pte_idx) [0..<1024]) k;
             k \<leftarrow> free_a_phy_page (pde AND 0xfffff000) k;
             free_tables rest k }
      else free_tables rest k)"

fun close_fds :: "u32 list \<Rightarrow> u32 \<Rightarrow> kernel \<Rightarrow> kernel option" where
  "close_fds [] release_thread k = Some k"
| "close_fds (local_fd # rest) release_thread k =
     (if fd_table (tasks k release_thread) ! unat local_fd \<noteq> -1 then
        do { (pipe, k) \<leftarrow> fs_run (\<lambda>s. do { p \<leftarrow> is_pipe local_fd s; Some (p, s) }) k;
             if pipe then
               do { ((global_fd, f), k) \<leftarrow> fs_run (\<lambda>s. do {
                        global_fd \<leftarrow> fd_local2global local_fd s;
                        let f = file_table s ! global_fd;
                        let f = f\<lparr>fd_pos := fd_pos f - 1\<rparr>;
                        Some ((global_fd, f), set_file global_fd f s) }) k;
                    if fd_pos f = 0 then
                      do { k \<leftarrow> mfree_page PF_KERNEL (of_nat (fd_inode f)) 1 k;
                           (_, k) \<leftarrow> fs_run (\<lambda>s. Some ((), set_file global_fd (f\<lparr>fd_inode := 0\<rparr>) s)) k;
                           close_fds rest release_thread k }
                    else close_fds rest release_thread k }
             else do { (_, k) \<leftarrow> fs_run (sys_close local_fd) k; close_fds rest release_thread k } }
      else close_fds rest release_thread k)"

text \<open>\<^verbatim>\<open>btmp_bytes_len / PG_SIZE\<close> rounds down: of the 23 pages of the bitmap 22 are given back.\<close>

definition release_prog_resource :: "u32 \<Rightarrow> kernel \<Rightarrow> kernel option" where
  "release_prog_resource release_thread k =
     do { k \<leftarrow> free_tables [0..<768] k;
          let bitmap_pages = btmp_bytes_len (vaddr_bitmap (userprog_vaddr k release_thread)) div PG_SIZE;
          k \<leftarrow> mfree_page PF_KERNEL (bits_addr k release_thread) bitmap_pages k;
          close_fds [3, 4, 5, 6, 7] release_thread k }"

section \<open>Waiting and exiting\<close>

text \<open>\<^verbatim>\<open>parent_pid\<close> is an \<^verbatim>\<open>int16_t\<close>, the argument an \<^verbatim>\<open>int32_t\<close>.\<close>

definition parent_of :: "'a sched_scheme \<Rightarrow> u32 \<Rightarrow> u32" where
  "parent_of s pthread = scast (parent_pid (tasks s pthread))"

definition find_child :: "kernel \<Rightarrow> u32 \<Rightarrow> u32 \<Rightarrow> bool" where
  "find_child k ppid pthread \<longleftrightarrow> parent_of k pthread = ppid"

definition find_hanging_child :: "kernel \<Rightarrow> u32 \<Rightarrow> u32 \<Rightarrow> bool" where
  "find_hanging_child k ppid pthread \<longleftrightarrow> parent_of k pthread = ppid \<and> stat k pthread = TASK_HANGING"

definition init_adopt_a_child :: "u32 \<Rightarrow> u32 \<Rightarrow> kernel \<Rightarrow> kernel" where
  "init_adopt_a_child the_pid pthread k =
     (if parent_of k pthread = the_pid then upd_task pthread (\<lambda>t. t\<lparr>parent_pid := 1\<rparr>) k else k)"

fun adopt_all :: "u32 \<Rightarrow> u32 list \<Rightarrow> kernel \<Rightarrow> kernel" where
  "adopt_all the_pid [] k = k"
| "adopt_all the_pid (t # ts) k = adopt_all the_pid ts (init_adopt_a_child the_pid t k)"

text \<open>
  One pass of the loop of \<^verbatim>\<open>sys_wait\<close>: the collected child's status and number, no child at all, or
  asleep until the next pass.
\<close>

datatype wait_result = Collected u32 u16 | No_child | Asleep

definition sys_wait_pass :: "kernel \<Rightarrow> (wait_result \<times> kernel) option" where
  "sys_wait_pass k =
     (let parent_pid = ucast (pid (tasks k (running k))) in
      case find (find_hanging_child k parent_pid) (thread_all_list k) of
        Some child_thread \<Rightarrow>
          do { let status = scast (exit_status (tasks k child_thread));
               let child_pid = pid (tasks k child_thread);
               k \<leftarrow> thread_exit child_thread False k;
               Some (Collected status child_pid, k) }
      | None \<Rightarrow>
          (case find (find_child k parent_pid) (thread_all_list k) of
             None \<Rightarrow> Some (No_child, k)
           | Some _ \<Rightarrow> do { k \<leftarrow> switching (thread_block TASK_WAITING) k; Some (Asleep, k) }))"

definition sys_exit :: "u32 \<Rightarrow> kernel \<Rightarrow> kernel option" where
  "sys_exit st k =
     do { let child_thread = running k;
          let k = upd_task child_thread (\<lambda>t. t\<lparr>exit_status := ucast st\<rparr>) k;
          if parent_pid (tasks k child_thread) = -1 then None
          else do {
            let k = adopt_all (ucast (pid (tasks k child_thread))) (thread_all_list k) k;
            k \<leftarrow> release_prog_resource child_thread k;
            let parent_thread = pid2thread (parent_of k child_thread) k;
            if parent_thread = 0 then None
            else do {
              k \<leftarrow> (if stat k parent_thread = TASK_WAITING then thread_unblock parent_thread k else Some k);
              switching (thread_block TASK_HANGING) k } } }"

end
