(* ===== verification/ExitCorrect.thy ===== *)
theory ExitCorrect
  imports Exit ForkCorrect
begin

text \<open>
  The handshake of \<^verbatim>\<open>exit\<close> and \<^verbatim>\<open>wait\<close>: a process that exits wakes its waiting parent, which runs next
  and collects it.
\<close>

section \<open>Kernel pages\<close>

definition kmem_ok :: "kernel \<Rightarrow> bool" where
  "kmem_ok k \<longleftrightarrow> pools_apart k \<and> 0x102000 \<le> phy_addr_start (kernel_pool k) \<and>
     0xc0000000 \<le> unat (vaddr_start (kernel_vaddr k)) \<and>
     unat (vaddr_start (kernel_vaddr k)) + 4096 * bm_bits (vaddr_bitmap (kernel_vaddr k)) \<le> 0xffc00000"

text \<open>The pages from \<open>v\<close> are the kernel's, mapped to the frames \<open>fs\<close>.\<close>

definition owns :: "kernel \<Rightarrow> u32 \<Rightarrow> u32 list \<Rightarrow> bool" where
  "owns k v fs \<longleftrightarrow> mapped_run (ptab k) v fs \<and> distinct fs \<and> set fs \<subseteq> pool_frames (kernel_pool k) \<and>
     (\<exists>i. in_region (kernel_vaddr k) v i (length fs)) \<and> 0 < length fs"

definition apart :: "u32 \<Rightarrow> nat \<Rightarrow> u32 \<Rightarrow> nat \<Rightarrow> bool" where
  "apart v m w n \<longleftrightarrow> unat v + 4096 * m \<le> unat w \<or> unat w + 4096 * n \<le> unat v"

definition mem_only :: "kernel \<Rightarrow> kernel \<Rightarrow> bool" where
  "mem_only k k' \<longleftrightarrow>
     k' = k\<lparr>kernel_pool := kernel_pool k', user_pool := user_pool k', ptab := ptab k', kernel_vaddr := kernel_vaddr k'\<rparr>"

lemma mem_only_refl: "mem_only k k"
  by (simp add: mem_only_def)

lemma mem_only_trans: "mem_only k k1 \<Longrightarrow> mem_only k1 k2 \<Longrightarrow> mem_only k k2"
proof -
  assume "mem_only k k1" "mem_only k1 k2"
  then have 1: "k1 = k\<lparr>kernel_pool := kernel_pool k1, user_pool := user_pool k1, ptab := ptab k1, kernel_vaddr := kernel_vaddr k1\<rparr>"
    and 2: "k2 = k1\<lparr>kernel_pool := kernel_pool k2, user_pool := user_pool k2, ptab := ptab k2, kernel_vaddr := kernel_vaddr k2\<rparr>"
    by (simp_all only: mem_only_def)
  show ?thesis unfolding mem_only_def by (subst 2, subst 1) (rule kernel.equality, simp_all)
qed

lemma mem_only_same:
  assumes "mem_only k k'"
  shows "tasks k' = tasks k" "running k' = running k" "cr3 k' = cr3 k" "thread_ready_list k' = thread_ready_list k"
    "thread_all_list k' = thread_all_list k" "main_thread k' = main_thread k" "idle_thread k' = idle_thread k" "intr k' = intr k"
    "pid_bitmap k' = pid_bitmap k" "pid_start k' = pid_start k" "pid_lock k' = pid_lock k" "bits_addr k' = bits_addr k"
    "userprog_vaddr k' = userprog_vaddr k" "spaces k' = spaces k" "kfs k' = kfs k"
proof -
  have e: "k' = k\<lparr>kernel_pool := kernel_pool k', user_pool := user_pool k', ptab := ptab k', kernel_vaddr := kernel_vaddr k'\<rparr>"
    using assms by (simp only: mem_only_def)
  show "tasks k' = tasks k" "running k' = running k" "cr3 k' = cr3 k" "thread_ready_list k' = thread_ready_list k"
    "thread_all_list k' = thread_all_list k" "main_thread k' = main_thread k" "idle_thread k' = idle_thread k" "intr k' = intr k"
    "pid_bitmap k' = pid_bitmap k" "pid_start k' = pid_start k" "pid_lock k' = pid_lock k" "bits_addr k' = bits_addr k"
    "userprog_vaddr k' = userprog_vaddr k" "spaces k' = spaces k" "kfs k' = kfs k" by (subst e, simp)+
qed

lemma owns_at:
  assumes "kmem_ok k" "owns k v fs"
  shows "page_aligned v" "0xc0000000 \<le> unat v" "unat v + 4096 * length fs \<le> 0xffc00000"
    "i < length fs \<Longrightarrow> unat (page_at v i) = unat v + 4096 * i \<and> low_addr (page_at v i)"
proof -
  show al: "page_aligned v" and hi: "unat v + 4096 * length fs \<le> 0xffc00000"
    using assms(2) by (simp_all add: owns_def mapped_run_def)
  obtain j where "in_region (kernel_vaddr k) v j (length fs)" using assms(2) by (auto simp: owns_def)
  then have j: "v = page_at (vaddr_start (kernel_vaddr k)) j" "j + length fs \<le> bm_bits (vaddr_bitmap (kernel_vaddr k))"
    by (simp_all add: in_region_def)
  have "unat (vaddr_start (kernel_vaddr k)) + 4096 * j \<le> 0xffc00000" using assms(1) j(2) by (simp add: kmem_ok_def)
  then have "unat v = unat (vaddr_start (kernel_vaddr k)) + 4096 * j" unfolding j(1) by (intro unat_page_at) simp
  then show "0xc0000000 \<le> unat v" using assms(1) by (simp add: kmem_ok_def)
  assume "i < length fs"
  then have "unat v + 4096 * i < 0xffc00000" using hi by simp
  then show "unat (page_at v i) = unat v + 4096 * i \<and> low_addr (page_at v i)" by (simp add: unat_page_at low_addr_def)
qed

lemma apart_pages:
  assumes "kmem_ok k" "owns k v fs" "owns k w gs" "apart v (length fs) w (length gs)" "i < length fs" "j < length gs"
  shows "\<not> same_page (page_at v i) (page_at w j)"
proof -
  note 1 = owns_at [OF assms(1,2)] and 2 = owns_at [OF assms(1,3)]
  have "unat v mod 4096 = 0" "unat w mod 4096 = 0" using 1(1) 2(1) by (simp_all add: page_aligned_def)
  then obtain a b where "unat v = 4096 * a" "unat w = 4096 * b" by (metis mod_0_imp_dvd dvdE)
  then show ?thesis using 1(4) [OF assms(5)] 2(4) [OF assms(6)] assms(4-6) by (auto simp: same_page_def apart_def)
qed

lemma free_kernel_pages:
  assumes ok: "kmem_ok k" and v: "owns k v fs" and n: "unat n = length fs"
  shows "\<exists>k'. mfree_page PF_KERNEL v n k = Some k' \<and> mem_only k k' \<and> kmem_ok k' \<and>
    free_frames (kernel_pool k') = set fs \<union> free_frames (kernel_pool k) \<and> user_pool k' = user_pool k \<and>
    (\<forall>w gs. owns k w gs \<and> apart v (length fs) w (length gs) \<longrightarrow> owns k' w gs)"
proof -
  note ap = ok [unfolded kmem_ok_def, THEN conjunct1]
  define va where "va = kernel_vaddr k"
  obtain i where reg: "in_region va v i (length fs)" using v by (auto simp: owns_def va_def)
  have run: "mapped_run (ptab k) v fs" and d: "distinct fs" and sub: "set fs \<subseteq> pool_frames (get_pool PF_KERNEL k)" and len: "0 < length fs"
    using v by (simp_all add: owns_def get_pool_def)
  have f: "hd fs \<in> pool_frames (get_pool PF_KERNEL k)" using sub len by (cases fs) auto
  have af: "addr_v2p (ptab k) v = hd fs"
    using run len translate_frame by (cases fs) (auto simp: mapped_run_def)
  have al: "page_aligned v" using run by (simp add: mapped_run_def)
  have pre: "n \<ge> 1" "v mod PG_SIZE = 0" "hd fs mod PG_SIZE = 0"
    using n len al frame_side(3) [OF ap f]
    by (simp_all add: word_eq_unat unat_mod PG_SIZE_def page_aligned_def word_le_nat_alt Suc_le_eq)
  have f2: "hd fs \<ge> 0x102000"
    using ok frame_side(2) [OF ap f] unfolding kmem_ok_def get_pool_def by (auto intro: order_trans)
  have side: "\<not> hd fs \<ge> phy_addr_start (user_pool k)" using frame_side(1) [OF ap f] by simp
  obtain q t where L: "mfree_page_loop (length fs) (PF_KERNEL = PF_USER) v k = Some ((set_pool PF_KERNEL q k)\<lparr>ptab := t\<rparr>)"
    "free_frames q = set fs \<union> free_frames (get_pool PF_KERNEL k)" "phy_addr_start q = phy_addr_start (get_pool PF_KERNEL k)"
    "bm_bits (pool_bitmap q) = bm_bits (pool_bitmap (get_pool PF_KERNEL k))"
    "\<forall>w. low_addr w \<longrightarrow> translate t w =
        (if \<exists>i<length fs. same_page (page_at v i) w then None else translate (ptab k) w)"
    using mfree_page_loop_spec [OF ap run d sub] by blast
  obtain bm where bm: "bitmap_set_run (unat n) (vaddr_bitmap va) ((v - vaddr_start va) div PG_SIZE) 0 = Some bm"
    using bitmap_set_run_total [of 0] by blast
  have bits: "bm_bits bm = bm_bits (vaddr_bitmap va)" using bitmap_set_run_bits [OF bm] by (simp add: bm_bits_def)
  define k' where "k' = k\<lparr>kernel_pool := q, ptab := t, kernel_vaddr := va\<lparr>vaddr_bitmap := bm\<rparr>\<rparr>"
  have m: "mfree_page PF_KERNEL v n k = Some k'"
    using pre f2 side L(1) n bm unfolding mfree_page_def vaddr_remove_def
    by (simp add: af set_pool_def get_vaddr_def set_vaddr_def va_def [symmetric] k'_def Let_def)
  have k': "kernel_pool k' = q" "user_pool k' = user_pool k" "ptab k' = t" "kernel_vaddr k' = va\<lparr>vaddr_bitmap := bm\<rparr>"
    by (simp_all add: k'_def)
  have "mem_only k k'" unfolding mem_only_def k' unfolding k'_def by (rule kernel.equality) simp_all
  moreover have "kmem_ok k'"
    using ok L(3,4) bits by (simp add: kmem_ok_def k' pools_apart_def pool_ok_def get_pool_def va_def)
  moreover have "owns k' w gs" if w: "owns k w gs" "apart v (length fs) w (length gs)" for w gs
  proof -
    have "translate t (page_at w j) = Some (gs ! j)" if "j < length gs" for j
      using L(5) apart_pages [OF ok v w _ that] owns_at(4) [OF ok w(1) that] w(1) that
      by (auto simp: owns_def mapped_run_def)
    moreover have "pool_frames q = pool_frames (kernel_pool k)"
      using pool_frames_cong [OF L(3,4)] by (simp add: get_pool_def)
    ultimately show ?thesis using w(1) bits by (auto simp: owns_def mapped_run_def k' in_region_def va_def)
  qed
  ultimately show ?thesis using m L(2) by (auto simp: k' get_pool_def)
qed

section \<open>The user's frames\<close>

definition same_pool :: "pool \<Rightarrow> pool \<Rightarrow> bool" where
  "same_pool p q \<longleftrightarrow> phy_addr_start q = phy_addr_start p \<and> bm_bits (pool_bitmap q) = bm_bits (pool_bitmap p) \<and>
     free_frames p \<subseteq> free_frames q"

definition frees :: "kernel \<Rightarrow> kernel \<Rightarrow> bool" where
  "frees k k' \<longleftrightarrow> k' = k\<lparr>kernel_pool := kernel_pool k', user_pool := user_pool k'\<rparr> \<and>
     same_pool (kernel_pool k) (kernel_pool k') \<and> same_pool (user_pool k) (user_pool k')"

lemma frees_refl: "frees k k"
  by (simp add: frees_def same_pool_def)

lemma frees_trans: "frees k k1 \<Longrightarrow> frees k1 k2 \<Longrightarrow> frees k k2"
proof -
  assume a: "frees k k1" "frees k1 k2"
  then have 1: "k1 = k\<lparr>kernel_pool := kernel_pool k1, user_pool := user_pool k1\<rparr>"
    and 2: "k2 = k1\<lparr>kernel_pool := kernel_pool k2, user_pool := user_pool k2\<rparr>"
    by (simp_all only: frees_def)
  have "k2 = k\<lparr>kernel_pool := kernel_pool k2, user_pool := user_pool k2\<rparr>" by (subst 2, subst 1) simp
  moreover have "same_pool (kernel_pool k) (kernel_pool k2)" "same_pool (user_pool k) (user_pool k2)"
    using a by (auto simp only: frees_def same_pool_def)
  ultimately show ?thesis unfolding frees_def by blast
qed

lemma frees_same:
  assumes "frees k k'"
  shows "ptab k' = ptab k" "kernel_vaddr k' = kernel_vaddr k" "mem_only k k'"
proof -
  have e: "k' = k\<lparr>kernel_pool := kernel_pool k', user_pool := user_pool k'\<rparr>" using assms by (simp only: frees_def)
  show pt: "ptab k' = ptab k" "kernel_vaddr k' = kernel_vaddr k" by (subst e, simp)+
  show "mem_only k k'" unfolding mem_only_def pt by (subst e) (rule kernel.equality, simp_all)
qed

lemma frees_pool_frames: "frees k k' \<Longrightarrow> pool_frames (get_pool pf k') = pool_frames (get_pool pf k)"
  by (rule pool_frames_cong) (auto simp only: frees_def same_pool_def get_pool_def split: if_splits)

lemma frees_ok: "frees k k' \<Longrightarrow> kmem_ok k \<Longrightarrow> kmem_ok k'"
  using frees_same [of k k'] unfolding kmem_ok_def pools_apart_def pool_ok_def
  by (auto simp only: frees_def same_pool_def)

lemma frees_owns: "frees k k' \<Longrightarrow> owns k v fs \<Longrightarrow> owns k' v fs"
  using frees_same [of k k'] frees_pool_frames [of k k' PF_KERNEL] by (simp add: owns_def get_pool_def)

lemma clear_bit_same_pool:
  assumes "bitmap_set (pool_bitmap p) i 0 = Some bm" "bm_bits (pool_bitmap p) < 2 ^ 32"
  shows "same_pool p (p\<lparr>pool_bitmap := bm\<rparr>)"
proof -
  have "bm_used bm j \<Longrightarrow> bm_used (pool_bitmap p) j" if "j < bm_bits (pool_bitmap p)" for j
    using bitmap_set_used [OF assms(1), of j] that assms(2) by (auto split: if_splits)
  then show ?thesis using bitmap_set_bits [OF assms(1)] by (auto simp: same_pool_def free_frames_def)
qed

lemma free_a_phy_page_frees:
  assumes "pools_apart k"
  shows "\<exists>k'. free_a_phy_page f k = Some k' \<and> frees k k' \<and>
    (\<forall>pf. f \<in> pool_frames (get_pool pf k) \<longrightarrow> f \<in> free_frames (get_pool pf k'))"
proof -
  define pf where "pf = (if f \<ge> phy_addr_start (user_pool k) then PF_USER else PF_KERNEL)"
  define p where "p = get_pool pf k"
  obtain bm where bm: "bitmap_set (pool_bitmap p) ((f - phy_addr_start p) div PG_SIZE) 0 = Some bm"
    using bitmap_set_total [of 0] by blast
  have N: "bm_bits (pool_bitmap (get_pool q k)) < 2 ^ 32" for q
    using assms pool_ok_bits by (auto simp: pools_apart_def get_pool_def)
  have sp: "same_pool p (p\<lparr>pool_bitmap := bm\<rparr>)" using clear_bit_same_pool [OF bm] N by (simp add: p_def)
  define k' where "k' = set_pool pf (p\<lparr>pool_bitmap := bm\<rparr>) k"
  have e: "free_a_phy_page f k = Some k'" using bm by (simp add: free_a_phy_page_def Let_def k'_def p_def pf_def)
  have r: "same_pool q q" for q by (simp add: same_pool_def)
  have "frees k k'" using sp r unfolding frees_def k'_def p_def
    by (cases pf) (simp_all add: set_pool_def get_pool_def)
  moreover have "f \<in> free_frames (get_pool q k')" if f: "f \<in> pool_frames (get_pool q k)" for q
  proof -
    obtain q' where "pfree f k = Some (set_pool q q' k)" "free_frames q' = insert f (free_frames (get_pool q k))"
      using pfree_spec [OF assms f] by blast
    moreover have "pfree f k = free_a_phy_page f k" by (simp add: pfree_def free_a_phy_page_def)
    ultimately have "get_pool q k' = q'" using e by simp
    then show ?thesis using \<open>free_frames q' = _\<close> by simp
  qed
  ultimately show ?thesis using e by blast
qed

lemma frees_mono: "frees k k' \<Longrightarrow> free_frames (get_pool pf k) \<subseteq> free_frames (get_pool pf k')"
  by (auto simp only: frees_def same_pool_def get_pool_def split: if_splits)

lemma frees_apart: "frees k k' \<Longrightarrow> pools_apart k \<Longrightarrow> pools_apart k'"
  unfolding pools_apart_def pool_ok_def by (auto simp only: frees_def same_pool_def)

lemma free_frames_of_frees:
  assumes "pools_apart k"
  shows "\<exists>k'. free_frames_of ps k = Some k' \<and> frees k k' \<and>
    (\<forall>p\<in>set ps. ptab k p AND 1 \<noteq> 0 \<and> ptab k p AND 0xfffff000 \<in> pool_frames (user_pool k) \<longrightarrow>
       ptab k p AND 0xfffff000 \<in> free_frames (user_pool k'))"
  using assms
proof (induction ps arbitrary: k)
  case Nil
  then show ?case by (simp add: frees_refl)
next
  case (Cons p ps)
  show ?case
  proof (cases "ptab k p AND 1 = 0")
    case True
    then show ?thesis using Cons by auto
  next
    case False
    obtain k1 where k1: "free_a_phy_page (ptab k p AND 0xfffff000) k = Some k1" "frees k k1"
      "\<forall>pf. ptab k p AND 0xfffff000 \<in> pool_frames (get_pool pf k) \<longrightarrow> ptab k p AND 0xfffff000 \<in> free_frames (get_pool pf k1)"
      using free_a_phy_page_frees [OF Cons.prems] by blast
    obtain k' where k': "free_frames_of ps k1 = Some k'" "frees k1 k'"
      "\<forall>p\<in>set ps. ptab k1 p AND 1 \<noteq> 0 \<and> ptab k1 p AND 0xfffff000 \<in> pool_frames (user_pool k1) \<longrightarrow>
         ptab k1 p AND 0xfffff000 \<in> free_frames (user_pool k')"
      using Cons.IH [OF frees_apart [OF k1(2) Cons.prems]] by blast
    have "ptab k1 = ptab k" "pool_frames (user_pool k1) = pool_frames (user_pool k)"
      using frees_same(1) [OF k1(2)] frees_pool_frames [OF k1(2), of PF_USER] by (simp_all add: get_pool_def)
    moreover have "free_frames (user_pool k1) \<subseteq> free_frames (user_pool k')"
      using frees_mono [OF k'(2), of PF_USER] by (simp add: get_pool_def)
    moreover have "ptab k p AND 0xfffff000 \<in> pool_frames (user_pool k) \<longrightarrow> ptab k p AND 0xfffff000 \<in> free_frames (user_pool k1)"
      using k1(3) [rule_format, of PF_USER] by (simp add: get_pool_def)
    ultimately show ?thesis using k1(1) k' False frees_trans [OF k1(2) k'(2)] by auto
  qed
qed

text \<open>The frame a user page is mapped to; \<open>dir_pages idxs\<close> are the pages below the given directory entries.\<close>

lemma free_tables_frees:
  assumes "pools_apart k"
  shows "\<exists>k'. free_tables idxs k = Some k' \<and> frees k k' \<and>
    (\<forall>v f. unat v div 2 ^ 22 \<in> set idxs \<and> page_aligned v \<and> translate (ptab k) v = Some f \<and> f \<in> pool_frames (user_pool k) \<longrightarrow>
       f \<in> free_frames (user_pool k'))"
  using assms
proof (induction idxs arbitrary: k)
  case Nil
  then show ?case by (simp add: frees_refl)
next
  case (Cons i idxs)
  have pde: "pde_ptr v = 0xfffff000 + 4 * of_nat (unat v div 2 ^ 22)" for v
  proof -
    have lt: "unat v div 2 ^ 22 < 1024" using unat_lt_32 [of v] by simp
    then have "unat (4 * of_nat (unat v div 2 ^ 22) :: u32) = 4 * (unat v div 2 ^ 22)"
      by (subst unat_mult_small) (simp_all add: unat_of_nat_32)
    then have "unat (0xfffff000 + 4 * of_nat (unat v div 2 ^ 22) :: u32) = unat (pde_ptr v)"
      unfolding unat_pde_ptr using lt by (subst unat_add_small) simp_all
    then show ?thesis by (simp only: word_eq_unat)
  qed
  show ?case
  proof (cases "ptab k (0xfffff000 + 4 * of_nat i) AND 1 = 0")
    case True
    obtain k' where k': "free_tables idxs k = Some k'" "frees k k'"
      "\<forall>v f. unat v div 2 ^ 22 \<in> set idxs \<and> page_aligned v \<and> translate (ptab k) v = Some f \<and> f \<in> pool_frames (user_pool k) \<longrightarrow>
         f \<in> free_frames (user_pool k')" using Cons.IH [OF Cons.prems] by blast
    have "translate (ptab k) v = None" if "unat v div 2 ^ 22 = i" for v
      using True that by (simp add: translate_def present_def pde)
    then show ?thesis using k' True by auto
  next
    case False
    define ptrs where "ptrs = map (\<lambda>pte_idx. pte_ptr (of_nat i * 0x400000) + 4 * of_nat pte_idx) [0..<1024]"
    obtain k1 where k1: "free_frames_of ptrs k = Some k1" "frees k k1"
      "\<forall>p\<in>set ptrs. ptab k p AND 1 \<noteq> 0 \<and> ptab k p AND 0xfffff000 \<in> pool_frames (user_pool k) \<longrightarrow>
         ptab k p AND 0xfffff000 \<in> free_frames (user_pool k1)" using free_frames_of_frees [OF Cons.prems] by blast
    note ap1 = frees_apart [OF k1(2) Cons.prems]
    obtain k2 where k2: "free_a_phy_page (ptab k (0xfffff000 + 4 * of_nat i) AND 0xfffff000) k1 = Some k2" "frees k1 k2"
      using free_a_phy_page_frees [OF ap1] by blast
    obtain k' where k': "free_tables idxs k2 = Some k'" "frees k2 k'"
      "\<forall>v f. unat v div 2 ^ 22 \<in> set idxs \<and> page_aligned v \<and> translate (ptab k2) v = Some f \<and> f \<in> pool_frames (user_pool k2) \<longrightarrow>
         f \<in> free_frames (user_pool k')" using Cons.IH [OF frees_apart [OF k2(2) ap1]] by blast
    note fr = frees_trans [OF k1(2) k2(2)]
    have same: "ptab k2 = ptab k" "pool_frames (user_pool k2) = pool_frames (user_pool k)"
      using frees_same(1) [OF fr] frees_pool_frames [OF fr, of PF_USER] by (simp_all add: get_pool_def)
    have mono: "free_frames (user_pool k1) \<subseteq> free_frames (user_pool k')"
      using frees_mono [OF frees_trans [OF k2(2) k'(2)], of PF_USER] by (simp add: get_pool_def)
    have "f \<in> free_frames (user_pool k')"
      if v: "unat v div 2 ^ 22 = i" "page_aligned v" "translate (ptab k) v = Some f" "f \<in> pool_frames (user_pool k)" for v f
    proof -
      have ilt: "i < 1024" using v(1) unat_lt_32 [of v] by auto
      define j where "j = unat v div 4096 mod 1024"
      have q: "unat v div 4096 = 1024 * i + j" using v(1) 
      proof -
        have "unat v div 2 ^ 22 = unat v div 4096 div 1024" by (simp add: div_mult2_eq [symmetric])
        then have "unat v div 4096 div 1024 = i" using v(1) by (simp only:)
        then show ?thesis unfolding j_def by (metis mult_div_mod_eq)
      qed
      have "unat (of_nat i * 0x400000 :: u32) = i * 0x400000"
        using ilt by (subst unat_mult_small) (simp_all add: unat_of_nat_32)
      then have b: "unat (pte_ptr (of_nat i * 0x400000)) = 0xffc00000 + 4 * (1024 * i)" unfolding unat_pte_ptr by simp
      have jlt: "j < 1024" by (simp add: j_def)
      have "unat (4 * of_nat j :: u32) = 4 * j" using jlt by (subst unat_mult_small) (simp_all add: unat_of_nat_32)
      then have "unat (pte_ptr (of_nat i * 0x400000) + 4 * of_nat j) = unat (pte_ptr v)"
        unfolding unat_pte_ptr [of v] q using b jlt ilt by (subst unat_add_small) simp_all
      then have pe: "pte_ptr v = pte_ptr (of_nat i * 0x400000) + 4 * of_nat j" by (simp only: word_eq_unat)
      then have mem: "pte_ptr v \<in> set ptrs" using jlt unfolding ptrs_def by auto
      have "ptab k (pte_ptr v) AND 1 \<noteq> 0" "f = ptab k (pte_ptr v) AND 0xfffff000"
        using v(3) aligned_offset [OF v(2)] by (auto simp: translate_def present_def addr_v2p_def split: if_splits)
      then have "f \<in> free_frames (user_pool k1)" using k1(3) mem v(4) by auto
      then show ?thesis using mono by blast
    qed
    moreover have "free_tables (i # idxs) k = Some k'"
      using False k1(1) k2(1) k'(1) by (simp add: ptrs_def [symmetric])
    ultimately show ?thesis using k'(3) frees_trans [OF fr k'(2)] unfolding same by auto
  qed
qed

section \<open>The steps of exit\<close>

lemma adopt_all_tasks:
  "tasks (adopt_all p ts k) t =
     (if t \<in> set ts \<and> parent_of k t = p then (tasks k t)\<lparr>parent_pid := 1\<rparr> else tasks k t)"
proof (induction ts arbitrary: k)
  case (Cons u ts)
  show ?case
  proof (cases "parent_of k u = p")
    case True
    then show ?thesis using Cons [of "upd_task u (\<lambda>t. t\<lparr>parent_pid := 1\<rparr>) k"]
      by (cases "t = u") (simp_all add: init_adopt_a_child_def parent_of_def)
  next
    case False
    then show ?thesis using Cons [of k] by (cases "t = u") (simp_all add: init_adopt_a_child_def)
  qed
qed simp

lemma adopt_all_rest: "\<exists>F. adopt_all p ts k = k\<lparr>tasks := F\<rparr>"
proof (induction ts arbitrary: k)
  case Nil
  have "adopt_all p [] k = k\<lparr>tasks := tasks k\<rparr>" by simp
  then show ?case by blast
next
  case (Cons u ts)
  obtain G where "init_adopt_a_child p u k = k\<lparr>tasks := G\<rparr>"
  proof (cases "parent_of k u = p")
    case True
    show ?thesis by (rule that) (simp add: True init_adopt_a_child_def upd_task_def)
  next
    case False
    show ?thesis by (rule that [of "tasks k"]) (simp add: False init_adopt_a_child_def)
  qed
  moreover obtain F where "adopt_all p ts (k\<lparr>tasks := G\<rparr>) = k\<lparr>tasks := G\<rparr>\<lparr>tasks := F\<rparr>" using Cons by blast
  ultimately have "adopt_all p (u # ts) k = k\<lparr>tasks := F\<rparr>" by simp
  then show ?case by blast
qed

lemma close_fds_closed:
  "\<forall>fd\<in>set fds. fd_table (tasks k t) ! unat fd = -1 \<Longrightarrow> close_fds fds t k = Some k"
  by (induction fds) simp_all

lemma kmem_cong: "kernel_pool k' = kernel_pool k \<Longrightarrow> user_pool k' = user_pool k \<Longrightarrow> kernel_vaddr k' = kernel_vaddr k \<Longrightarrow>
    kmem_ok k' = kmem_ok k"
  by (simp add: kmem_ok_def pools_apart_def)

lemma owns_cong:
  assumes "kmem_ok k" "owns k v fs" "kernel_pool k' = kernel_pool k" "kernel_vaddr k' = kernel_vaddr k"
    "\<forall>p. \<not> own_window p \<longrightarrow> ptab k' p = ptab k p"
  shows "owns k' v fs"
proof -
  have "translate (ptab k') (page_at v i) = translate (ptab k) (page_at v i)" if "i < length fs" for i
    using translate_shared [OF _ _ assms(5), of "page_at v i"] owns_at [OF assms(1,2)] that
    by (auto simp: low_addr_def)
  then show ?thesis using assms(2-4) by (simp add: owns_def mapped_run_def)
qed

lemma release_prog_resource_spec:
  assumes ok: "kmem_ok k" and own: "owns k (bits_addr k t) bs"
    and n: "unat (btmp_bytes_len (vaddr_bitmap (userprog_vaddr k t)) div PG_SIZE) = length bs"
    and fds: "\<forall>fd\<in>{3, 4, 5, 6, 7}. fd_table (tasks k t) ! unat (fd :: u32) = -1"
  shows "\<exists>k'. release_prog_resource t k = Some k' \<and> mem_only k k' \<and> kmem_ok k' \<and>
    (\<forall>v f. user_addr v \<and> page_aligned v \<and> translate (ptab k) v = Some f \<and> f \<in> pool_frames (user_pool k) \<longrightarrow>
       f \<in> free_frames (user_pool k')) \<and>
    set bs \<subseteq> free_frames (kernel_pool k') \<and>
    (\<forall>w gs. owns k w gs \<and> apart (bits_addr k t) (length bs) w (length gs) \<longrightarrow> owns k' w gs)"
proof -
  have ap: "pools_apart k" using ok by (simp add: kmem_ok_def)
  obtain k1 where k1: "free_tables [0..<768] k = Some k1" "frees k k1"
    "\<forall>v f. unat v div 2 ^ 22 \<in> set [0..<768] \<and> page_aligned v \<and> translate (ptab k) v = Some f \<and> f \<in> pool_frames (user_pool k) \<longrightarrow>
       f \<in> free_frames (user_pool k1)" using free_tables_frees [OF ap, of "[0..<768]"] by blast
  note m1 = frees_same(3) [OF k1(2)] and ok1 = frees_ok [OF k1(2) ok] and own1 = frees_owns [OF k1(2) own]
  obtain k2 where k2: "mfree_page PF_KERNEL (bits_addr k t) (btmp_bytes_len (vaddr_bitmap (userprog_vaddr k t)) div PG_SIZE) k1 = Some k2"
    "mem_only k1 k2" "kmem_ok k2" "free_frames (kernel_pool k2) = set bs \<union> free_frames (kernel_pool k1)" "user_pool k2 = user_pool k1"
    "\<forall>w gs. owns k1 w gs \<and> apart (bits_addr k t) (length bs) w (length gs) \<longrightarrow> owns k2 w gs"
    using free_kernel_pages [OF ok1 own1 n] by blast
  note same1 = mem_only_same [OF m1] and same2 = mem_only_same [OF k2(2)]
  have "close_fds [3, 4, 5, 6, 7] t k2 = Some k2"
    by (rule close_fds_closed) (use fds in \<open>simp add: same1 same2\<close>)
  then have "release_prog_resource t k = Some k2"
    using k1(1) k2(1) by (simp add: release_prog_resource_def same1)
  moreover have "unat v div 2 ^ 22 < 768" if "user_addr v" for v :: u32 using that by simp
  then have "\<forall>v f. user_addr v \<and> page_aligned v \<and> translate (ptab k) v = Some f \<and> f \<in> pool_frames (user_pool k) \<longrightarrow>
       f \<in> free_frames (user_pool k2)"
    using k1(3) unfolding k2(5) set_upt atLeastLessThan_iff by (metis zero_le)
  ultimately show ?thesis
    using mem_only_trans [OF m1 k2(2)] k2(3,4,6) frees_owns [OF k1(2)] by auto
qed

lemma schedule_blocked:
  assumes "intr s = INTR_OFF" "stat s (running s) \<noteq> TASK_RUNNING" "thread_ready_list s = t # rest" "t \<noteq> 0"
  shows "\<exists>c e. schedule s = Some ((set_status t TASK_RUNNING (s\<lparr>thread_ready_list := rest\<rparr>))\<lparr>cr3 := c, tss_esp0 := e, running := t\<rparr>)"
proof -
  define s1 where "s1 = set_status t TASK_RUNNING (s\<lparr>thread_ready_list := rest\<rparr>)"
  obtain c e where "process_activate t s1 = Some (s1\<lparr>cr3 := c, tss_esp0 := e\<rparr>)"
    using process_activate_ok [OF assms(4), of s1] by blast
  then have "schedule s = Some (s1\<lparr>cr3 := c, tss_esp0 := e, running := t\<rparr>)"
    using assms by (simp add: schedule_def s1_def [symmetric] switch_to_def)
  then show ?thesis unfolding s1_def by blast
qed

lemma find_unique: "x \<in> set xs \<Longrightarrow> P x \<Longrightarrow> (\<And>y. y \<in> set xs \<Longrightarrow> P y \<Longrightarrow> y = x) \<Longrightarrow> find P xs = Some x"
proof (induction xs)
  case (Cons a xs)
  show ?case
  proof (cases "P a")
    case True
    then have "a = x" using Cons.prems(3) [of a] by simp
    then show ?thesis using True by simp
  next
    case False
    then have "x \<in> set xs" using Cons.prems(1,2) by auto
    moreover have "y = x" if "y \<in> set xs" "P y" for y using Cons.prems(3) [of y] that by simp
    ultimately have "find P xs = Some x" using Cons.IH Cons.prems(2) by blast
    then show ?thesis using False by simp
  qed
qed simp

lemma ucast_pid_inj: "(ucast (a :: u16) :: u32) = ucast b \<longleftrightarrow> a = b"
  by (simp add: word_eq_unat unat_ucast_pid)

lemma enter_space_more [simp]:
  "thread_all_list (enter_space c k) = thread_all_list k" "thread_ready_list (enter_space c k) = thread_ready_list k"
  "main_thread (enter_space c k) = main_thread k" "intr (enter_space c k) = intr k" "kernel_vaddr (enter_space c k) = kernel_vaddr k"
  "pid_bitmap (enter_space c k) = pid_bitmap k" "pid_start (enter_space c k) = pid_start k" "pid_lock (enter_space c k) = pid_lock k"
  "\<not> own_window p \<Longrightarrow> ptab (enter_space c k) p = ptab k p"
  by (simp_all add: enter_space_def load_space_def)

lemma pid_pool_cong: "pid_bitmap k' = pid_bitmap k \<Longrightarrow> pid_start k' = pid_start k \<Longrightarrow> pid_lock k' = pid_lock k \<Longrightarrow>
    running k' \<noteq> 0 \<Longrightarrow> pid_pool_ok k \<Longrightarrow> pid_pool_ok k' \<and> pids_in_use k' = pids_in_use k"
  by (simp add: pid_pool_ok_def pids_in_use_def)

text \<open>
  A process that can be collected: hanging, in no ready list, its directory and its task in pages of
  the kernel, its number taken.
\<close>

definition collectable :: "kernel \<Rightarrow> u32 \<Rightarrow> u32 \<Rightarrow> u32 \<Rightarrow> bool" where
  "collectable k c df tf \<longleftrightarrow> kmem_ok k \<and> pid_pool_ok k \<and> pid (tasks k c) \<noteq> 0 \<and>
     owns k (pgdir (tasks k c)) [df] \<and> owns k c [tf] \<and> apart (pgdir (tasks k c)) 1 c 1 \<and>
     c \<in> set (thread_all_list k) \<and> c \<notin> set (thread_ready_list k) \<and> c \<noteq> main_thread k"

lemma thread_exit_spec:
  assumes "collectable k c df tf"
  shows "\<exists>k'. thread_exit c False k = Some k' \<and> thread_all_list k' = remove1 c (thread_all_list k) \<and>
    thread_ready_list k' = thread_ready_list k \<and> pids_in_use k' = pids_in_use k - {pid (tasks k c)} \<and>
    {df, tf} \<union> free_frames (kernel_pool k) \<subseteq> free_frames (kernel_pool k') \<and> free_frames (user_pool k') = free_frames (user_pool k) \<and>
    (\<forall>t. t \<noteq> c \<longrightarrow> tasks k' t = tasks k t) \<and> running k' = running k"
proof -
  note A = assms [unfolded collectable_def]
  define k1 where "k1 = set_status c TASK_DIED (k\<lparr>intr := INTR_OFF\<rparr>)"
  have s1: "kernel_pool k1 = kernel_pool k" "user_pool k1 = user_pool k" "kernel_vaddr k1 = kernel_vaddr k" "ptab k1 = ptab k"
    "thread_all_list k1 = thread_all_list k" "thread_ready_list k1 = thread_ready_list k" "main_thread k1 = main_thread k"
    "running k1 = running k" "pid_bitmap k1 = pid_bitmap k" "pid_start k1 = pid_start k" "pid_lock k1 = pid_lock k"
    "pgdir (tasks k1 c) = pgdir (tasks k c)" "pid (tasks k1 c) = pid (tasks k c)" "\<forall>t. t \<noteq> c \<longrightarrow> tasks k1 t = tasks k t"
    by (simp_all add: k1_def set_status_def upd_task_def)
  have ok1: "kmem_ok k1" using A kmem_cong [OF s1(1-3)] by simp
  have own1: "owns k1 (pgdir (tasks k c)) [df]" "owns k1 c [tf]"
    using A owns_cong [of k _ _ k1] s1(1,3,4) by simp_all
  obtain k2 where k2: "mfree_page PF_KERNEL (pgdir (tasks k c)) 1 k1 = Some k2" "mem_only k1 k2" "kmem_ok k2"
    "free_frames (kernel_pool k2) = {df} \<union> free_frames (kernel_pool k1)" "user_pool k2 = user_pool k1" "owns k2 c [tf]"
    using free_kernel_pages [OF ok1 own1(1), of 1] own1(2) A by auto
  note s2 = mem_only_same [OF k2(2)]
  define k3 where "k3 = k2\<lparr>thread_all_list := remove1 c (thread_all_list k2)\<rparr>"
  have s3: "kernel_pool k3 = kernel_pool k2" "user_pool k3 = user_pool k2" "kernel_vaddr k3 = kernel_vaddr k2" "ptab k3 = ptab k2"
    by (simp_all add: k3_def)
  have ok3: "kmem_ok k3" "owns k3 c [tf]" using k2(3,6) kmem_cong [OF s3(1-3)] owns_cong [OF k2(3,6), of k3] s3 by simp_all
  obtain k4 where k4: "mfree_page PF_KERNEL c 1 k3 = Some k4" "mem_only k3 k4"
    "free_frames (kernel_pool k4) = {tf} \<union> free_frames (kernel_pool k3)" "user_pool k4 = user_pool k3"
    using free_kernel_pages [OF ok3, of 1] by auto
  note s4 = mem_only_same [OF k4(2)]
  have a4: "pid_pool_ok k4 \<and> pids_in_use k4 = pids_in_use k"
    using A by (intro pid_pool_cong) (simp_all add: s4 k3_def s2 s1 pid_pool_ok_def)
  obtain bm where bm: "bitmap_set (pid_bitmap k4) (ucast (pid (tasks k c)) - 1) 0 = Some bm" using bitmap_set_total [of 0] by blast
  define k5 where e5: "k5 = k4\<lparr>pid_bitmap := bm, pid_lock := lock_init\<rparr>"
  have r5: "release_pid (pid (tasks k c)) k4 = Some k5" using release_pid_eq [OF a4 [THEN conjunct1] bm] by (simp only: e5)
  have k5: "pids_in_use k5 = pids_in_use k - {pid (tasks k c)}"
    using release_pid_spec [of k4 "pid (tasks k c)"] r5 a4 A by auto
  have pg: "pgdir (tasks k c) \<noteq> 0"
  proof -
    have "0xc0000000 \<le> unat (pgdir (tasks k c))" using owns_at(2) [OF ok1 own1(1)] .
    then show ?thesis by auto
  qed
  have "thread_exit c False k = Some k5"
    unfolding thread_exit_def cpu_intr_disable_def
    using A k2(1) k4(1) r5 pg by (simp add: k1_def [symmetric] s1 s2 k3_def [symmetric]) (simp add: s4 k3_def s2 s1)
  then show ?thesis using k5 k2(4,5) k4(3,4)
    by (auto simp: e5 s4 k3_def s2 s1)
qed


section \<open>Exit and wait\<close>

text \<open>
  The running process is about to exit while its parent \<open>p\<close> sleeps in \<^verbatim>\<open>wait\<close>: the numbers are unique, no
  child of either hangs (the parent has looked before it slept), the files are closed, and the
  bitmap, the directory and the task lie in pages of their own.
\<close>

definition exit_ready :: "kernel \<Rightarrow> u32 \<Rightarrow> u32 list \<Rightarrow> u32 \<Rightarrow> u32 \<Rightarrow> bool" where
  "exit_ready k p bs df tf \<longleftrightarrow> (let c = running k in
     sched_inv k \<and> intr k = INTR_OFF \<and> p \<in> set (thread_all_list k) \<and> p \<noteq> c \<and> stat k p = TASK_WAITING \<and>
     distinct (thread_all_list k) \<and> c \<noteq> main_thread k \<and>
     parent_of k c = ucast (pid (tasks k p)) \<and> inj_on (\<lambda>t. pid (tasks k t)) (set (thread_all_list k)) \<and>
     (\<forall>t\<in>set (thread_all_list k). stat k t = TASK_HANGING \<longrightarrow>
        parent_of k t \<noteq> ucast (pid (tasks k p)) \<and> parent_of k t \<noteq> ucast (pid (tasks k c))) \<and>
     (\<forall>fd\<in>{3, 4, 5, 6, 7}. fd_table (tasks k c) ! unat (fd :: u32) = -1) \<and>
     kmem_ok k \<and> pid_pool_ok k \<and> pid (tasks k c) \<noteq> 0 \<and>
     unat (btmp_bytes_len (vaddr_bitmap (userprog_vaddr k c)) div PG_SIZE) = length bs \<and>
     owns k (bits_addr k c) bs \<and> owns k (pgdir (tasks k c)) [df] \<and> owns k c [tf] \<and>
     apart (pgdir (tasks k c)) 1 c 1 \<and> apart (bits_addr k c) (length bs) (pgdir (tasks k c)) 1 \<and>
     apart (bits_addr k c) (length bs) c 1)"

lemma sys_exit_spec:
  assumes "exit_ready k p bs df tf"
  defines "c \<equiv> running k"
  shows "\<exists>k'. sys_exit st k = Some k' \<and> running k' = p \<and> collectable k' c df tf \<and> pids_in_use k' = pids_in_use k \<and>
    thread_all_list k' = thread_all_list k \<and> thread_ready_list k' = thread_ready_list k \<and>
    set bs \<subseteq> free_frames (kernel_pool k') \<and>
    (\<forall>v f. user_addr v \<and> page_aligned v \<and> translate (ptab k) v = Some f \<and> f \<in> pool_frames (user_pool k) \<longrightarrow>
       f \<in> free_frames (user_pool k')) \<and>
    exit_status (tasks k' c) = ucast st \<and> parent_of k' c = parent_of k c \<and>
    (\<forall>t. pid (tasks k' t) = pid (tasks k t) \<and>
       stat k' t = (if t = c then TASK_HANGING else if t = p then TASK_RUNNING else stat k t) \<and>
       parent_of k' t = (if t \<in> set (thread_all_list k) \<and> parent_of k t = ucast (pid (tasks k c)) then 1 else parent_of k t))"
proof -
  note R = assms(1) [unfolded exit_ready_def Let_def, folded c_def]
  have inv: "sched_core k" "stat k c = TASK_RUNNING" using R by (simp_all add: sched_inv_def c_def)
  note core = inv(1) [unfolded sched_core_def]
  have call: "c \<in> set (thread_all_list k)" using core by (simp add: c_def)
  have pR: "p \<in> set (thread_all_list k)" "p \<noteq> c" "stat k p = TASK_WAITING" using R by simp_all
  have p0: "p \<noteq> 0" using core pR(1) by metis
  have ready: "t \<in> set (thread_all_list k) \<Longrightarrow> stat k t \<noteq> TASK_READY \<Longrightarrow> t \<notin> set (thread_ready_list k)" for t using core by blast
  have pnr: "p \<notin> set (thread_ready_list k)" using ready [OF pR(1)] pR(3) by simp
  have cnr: "c \<notin> set (thread_ready_list k)" using ready [OF call] inv(2) by simp
  have inj: "\<And>t u. t \<in> set (thread_all_list k) \<Longrightarrow> u \<in> set (thread_all_list k) \<Longrightarrow> pid (tasks k t) = pid (tasks k u) \<Longrightarrow> t = u"
    using R by (meson inj_onD)
  have pidne: "pid (tasks k p) \<noteq> pid (tasks k c)" using inj [of p c] R call by blast
  define k1 where "k1 = upd_task c (\<lambda>t. t\<lparr>exit_status := ucast st\<rparr>) k"
  define k2 where "k2 = adopt_all (ucast (pid (tasks k c))) (thread_all_list k) k1"
  have t2: "tasks k2 t = (let u = (if t = c then (tasks k c)\<lparr>exit_status := ucast st\<rparr> else tasks k t)
      in if t \<in> set (thread_all_list k) \<and> parent_of k t = ucast (pid (tasks k c)) then u\<lparr>parent_pid := 1\<rparr> else u)" for t
    unfolding k2_def adopt_all_tasks by (simp add: k1_def parent_of_def Let_def)
  obtain F where F: "k2 = k1\<lparr>tasks := F\<rparr>" unfolding k2_def using adopt_all_rest by blast
  have s2: "kernel_pool k2 = kernel_pool k" "user_pool k2 = user_pool k" "kernel_vaddr k2 = kernel_vaddr k" "ptab k2 = ptab k"
    "thread_all_list k2 = thread_all_list k" "thread_ready_list k2 = thread_ready_list k" "main_thread k2 = main_thread k"
    "running k2 = c" "intr k2 = intr k" "pid_bitmap k2 = pid_bitmap k" "pid_start k2 = pid_start k" "pid_lock k2 = pid_lock k"
    "bits_addr k2 = bits_addr k" "userprog_vaddr k2 = userprog_vaddr k"
    unfolding F by (simp_all add: k1_def upd_task_def c_def)
  have ok2: "kmem_ok k2" using R kmem_cong [OF s2(1-3)] by simp
  have own2: "owns k2 v fs" if "owns k v fs" for v fs using owns_cong [OF _ that, of k2] R s2(1,3,4) by simp
  have f2: "pgdir (tasks k2 t) = pgdir (tasks k t)" "pid (tasks k2 t) = pid (tasks k t)" "fd_table (tasks k2 t) = fd_table (tasks k t)"
    "stat k2 t = stat k t" for t by (simp_all add: t2 Let_def)
  obtain k3 where k3: "release_prog_resource c k2 = Some k3" "mem_only k2 k3" "kmem_ok k3"
    "\<forall>v f. user_addr v \<and> page_aligned v \<and> translate (ptab k) v = Some f \<and> f \<in> pool_frames (user_pool k) \<longrightarrow>
       f \<in> free_frames (user_pool k3)"
    "set bs \<subseteq> free_frames (kernel_pool k3)" "owns k3 (pgdir (tasks k c)) [df]" "owns k3 c [tf]"
    using release_prog_resource_spec [OF ok2, of c bs] own2 R by (auto simp: s2 f2)
  note s3 = mem_only_same [OF k3(2)]
  have par: "parent_of k3 c = parent_of k c"
    using R pidne by (simp add: parent_of_def s3 t2 Let_def ucast_pid_inj)
  have "find (pid_check k3 (ucast (pid (tasks k p)))) (thread_all_list k) = Some p"
  proof (rule find_unique)
    show "p \<in> set (thread_all_list k)" "pid_check k3 (ucast (pid (tasks k p))) p" using R by (simp_all add: pid_check_def s3 f2)
    show "y = p" if "y \<in> set (thread_all_list k)" "pid_check k3 (ucast (pid (tasks k p))) y" for y
      using inj [of y p] that R by (simp add: pid_check_def s3 f2 ucast_pid_inj)
  qed
  then have pt: "pid2thread (parent_of k3 c) k3 = p" using R by (simp add: pid2thread_def par s3 s2)
  define k4 where "k4 = set_status p TASK_READY (k3\<lparr>thread_ready_list := p # thread_ready_list k3\<rparr>)"
  have wp: "stat k3 p = TASK_WAITING" using R by (simp add: s3 f2)
  have ub: "thread_unblock p k3 = Some k4"
    using thread_unblock_eq [of k3 p] pnr wp by (simp add: k4_def s3 s2)
  define k5 where "k5 = set_status c TASK_HANGING (k4\<lparr>intr := INTR_OFF\<rparr>)"
  have s4: "running k4 = c" "cr3 k4 = cr3 k3" by (simp_all add: k4_def s3 s2 set_status_def upd_task_def)
  have bl: "thread_block TASK_HANGING k4 = schedule k5" by (simp add: thread_block_def cpu_intr_disable_def k5_def s4)
  have q5: "intr k5 = INTR_OFF" "stat k5 (running k5) \<noteq> TASK_RUNNING" "thread_ready_list k5 = p # thread_ready_list k"
    by (simp_all add: k5_def s4 k4_def s3 s2)
  obtain cr e where "schedule k5 = Some ((set_status p TASK_RUNNING (k5\<lparr>thread_ready_list := thread_ready_list k\<rparr>))\<lparr>cr3 := cr, tss_esp0 := e, running := p\<rparr>)"
    using schedule_blocked [OF q5 p0] by blast
  then obtain k6 where k6: "schedule k5 = Some k6"
    "k6 = (set_status p TASK_RUNNING (k5\<lparr>thread_ready_list := thread_ready_list k\<rparr>))\<lparr>cr3 := cr, tss_esp0 := e, running := p\<rparr>" by blast
  define k' where "k' = enter_space (cr3 k4) k6"
  have nm: "parent_pid (tasks k c) \<noteq> -1"
  proof
    assume "parent_pid (tasks k c) = -1"
    then have "(ucast (pid (tasks k p)) :: u32) = scast (-1 :: u16)" using R by (simp add: parent_of_def)
    then have "(ucast (pid (tasks k p)) :: u32) = -1" by simp
    then have "unat (ucast (pid (tasks k p)) :: u32) = unat (-1 :: u32)" by simp
    then have "unat (pid (tasks k p)) = 2 ^ 32 - 1" unfolding unat_ucast_pid by (simp add: unsigned_minus_1_eq_mask mask_eq_exp_minus_1)
    then show False using unsigned_less [of "pid (tasks k p)", where 'a = nat] by simp
  qed
  have k1s: "thread_all_list k1 = thread_all_list k" "pid (tasks k1 c) = pid (tasks k c)" by (simp_all add: k1_def)
  have ex: "sys_exit st k = Some k'"
    using nm k3(1) ub wp k6(1) p0
    by (simp add: sys_exit_def c_def [symmetric] k1_def [symmetric] k1s k2_def [symmetric] pt switching_def bl k'_def)
  have s6: "kernel_pool k' = kernel_pool k3" "user_pool k' = user_pool k3" "kernel_vaddr k' = kernel_vaddr k3"
    "running k' = p" "thread_all_list k' = thread_all_list k" "thread_ready_list k' = thread_ready_list k" "main_thread k' = main_thread k"
    "pid_bitmap k' = pid_bitmap k" "pid_start k' = pid_start k" "pid_lock k' = pid_lock k"
    "\<not> own_window x \<Longrightarrow> ptab k' x = ptab k3 x" for x
    by (simp_all add: k'_def k6(2) k5_def k4_def set_status_def upd_task_def s3 s2)
  have t6: "tasks k' t = (if t = p then (tasks k2 p)\<lparr>status := TASK_RUNNING\<rparr> else if t = c then (tasks k2 c)\<lparr>status := TASK_HANGING\<rparr>
      else tasks k2 t)" for t
    using R by (simp add: k'_def k6(2) k5_def k4_def set_status_def upd_task_def s3)
  have f6: "pid (tasks k' t) = pid (tasks k t)" "pgdir (tasks k' t) = pgdir (tasks k t)" for t by (simp_all add: t6 f2)
  have ok6: "kmem_ok k'" using k3(3) kmem_cong [OF s6(1-3)] by simp
  have own6: "owns k' v fs" if "owns k3 v fs" for v fs using owns_cong [OF k3(3) that s6(1,3)] s6(11) by blast
  have pp6: "pid_pool_ok k' \<and> pids_in_use k' = pids_in_use k" using R p0 s6 by (intro pid_pool_cong) simp_all
  have "collectable k' c df tf"
  proof -
    have "pid (tasks k c) \<noteq> 0" "apart (pgdir (tasks k c)) 1 c 1" "c \<noteq> main_thread k" using R by simp_all
    then show ?thesis unfolding collectable_def f6 s6 using ok6 pp6 own6 [OF k3(6)] own6 [OF k3(7)] call cnr by blast
  qed
  moreover have "stat k' t = (if t = c then TASK_HANGING else if t = p then TASK_RUNNING else stat k t)" for t
    using pR(2) by (simp add: t6 f2)
  moreover have "parent_of k' t = (if t \<in> set (thread_all_list k) \<and> parent_of k t = ucast (pid (tasks k c)) then 1 else parent_of k t)" for t
    by (simp add: parent_of_def t6 t2 Let_def)
  moreover have "exit_status (tasks k' c) = ucast st" using pR(2) by (simp add: t6 t2 Let_def)
  moreover have "parent_of k' c = parent_of k c" using par pR(2) by (simp add: parent_of_def t6 s3)
  moreover have "\<forall>v f. user_addr v \<and> page_aligned v \<and> translate (ptab k) v = Some f \<and> f \<in> pool_frames (user_pool k) \<longrightarrow>
       f \<in> free_frames (user_pool k')" using k3(4) by (simp only: s6(2))
  moreover have "set bs \<subseteq> free_frames (kernel_pool k')" using k3(5) by (simp only: s6(1))
  ultimately show ?thesis using ex pp6 f6(1) s6(4-6) by (intro exI [of _ k'] conjI) blast+
qed


text \<open>In \<open>demo_kernel\<close> process 3 runs and its parent, process 2, waits.\<close>

definition demo_exit :: kernel where
  "demo_exit = demo_kernel\<lparr>running := 0xc0102000, thread_ready_list := [],
     tasks := (\<lambda>_. demo_task)(
        0xc0101000 := demo_task\<lparr>pid := 2, status := TASK_WAITING, pgdir := 0xc0103000, parent_pid := 1\<rparr>,
        0xc0102000 := demo_task\<lparr>pid := 3, status := TASK_RUNNING, pgdir := 0xc0104000, parent_pid := 2\<rparr>),
     userprog_vaddr := (\<lambda>_. \<lparr>vaddr_bitmap = \<lparr>btmp_bytes_len = 4096, bits = (\<lambda>_. 0)\<rparr>, vaddr_start = USER_VADDR_START\<rparr>)\<rparr>"

lemma demo_exit_fields:
  "running demo_exit = 0xc0102000" "thread_ready_list demo_exit = []" "thread_all_list demo_exit = [0xc0101000, 0xc0102000, 0xc0100000]"
  "main_thread demo_exit = 0xc009e000" "idle_thread demo_exit = 0xc0100000" "intr demo_exit = INTR_OFF" "ptab demo_exit = demo_ptab"
  "kernel_pool demo_exit = \<lparr>pool_bitmap = \<lparr>btmp_bytes_len = 8, bits = (\<lambda>_. 0xff)\<rparr>, phy_addr_start = 0x200000, pool_size = 0x40000, pool_lock = lock_init\<rparr>"
  "phy_addr_start (user_pool demo_exit) = 0x240000" "btmp_bytes_len (pool_bitmap (user_pool demo_exit)) = 8"
  "kernel_vaddr demo_exit = \<lparr>vaddr_bitmap = \<lparr>btmp_bytes_len = 8, bits = (\<lambda>_. 0xff)\<rparr>, vaddr_start = K_HEAP_START\<rparr>"
  "pid_start demo_exit = 1" "btmp_bytes_len (pid_bitmap demo_exit) = 128" "pid_lock demo_exit = lock_init"
  "bits_addr demo_exit t = 0xc0110000"
  "userprog_vaddr demo_exit t = \<lparr>vaddr_bitmap = \<lparr>btmp_bytes_len = 4096, bits = (\<lambda>_. 0)\<rparr>, vaddr_start = USER_VADDR_START\<rparr>"
  "tasks demo_exit t = (if t = 0xc0102000 then demo_task\<lparr>pid := 3, status := TASK_RUNNING, pgdir := 0xc0104000, parent_pid := 2\<rparr>
     else if t = 0xc0101000 then demo_task\<lparr>pid := 2, status := TASK_WAITING, pgdir := 0xc0103000, parent_pid := 1\<rparr> else demo_task)"
  by (simp_all add: demo_exit_def demo_kernel_def)

lemma demo_owns:
  assumes "v = page_at K_HEAP_START i" "i < 64" "f = 0x200000 + of_nat i * PG_SIZE" "translate demo_ptab v = Some f"
  shows "owns demo_exit v [f]"
proof -
  have u: "unat v = 0xc0100000 + 4096 * i" unfolding assms(1)
    using assms(2) by (subst unat_page_at) (simp_all add: K_HEAP_START_def)
  have "unat (of_nat i * PG_SIZE) = 4096 * i"
    using assms(2) by (subst unat_page_offset) (simp_all add: unat_of_nat_32)
  then have f: "unat f = 0x200000 + 4096 * i" unfolding assms(3) using assms(2) by (subst unat_add_small) simp_all
  have "f \<in> pool_frames (kernel_pool demo_exit)"
    unfolding pool_frames_def using f assms(2) by (auto simp: demo_exit_fields bm_bits_def)
  moreover have "in_region (kernel_vaddr demo_exit) v i 1"
    using assms(1,2) by (simp add: in_region_def demo_exit_fields bm_bits_def)
  moreover have "page_aligned v" "unat v + 4096 \<le> 0xffc00000" using u assms(2) by (simp_all add: page_aligned_def mod_mult_self2)
  ultimately show ?thesis using assms(4) by (auto simp: owns_def mapped_run_def demo_exit_fields)
qed


end
