(* ===== verification/Exec.thy ===== *)
theory Exec
  imports Fork KString
begin

text \<open>
  Loading a program, \<^verbatim>\<open>src/userprog/exec.c\<close>: the ELF header, the loadable segments and the
  frame with which the process enters the new program.
\<close>

section \<open>The file format\<close>

definition rd16 :: "u8 list \<Rightarrow> nat \<Rightarrow> u16" where
  "rd16 bs off = of_nat (of_le (take 2 (drop off bs)))"

record Elf32_Ehdr =
  e_ident :: "u8 list"
  e_type :: u16
  e_machine :: u16
  e_version :: u32
  e_entry :: u32
  e_phoff :: u32
  e_phentsize :: u16
  e_phnum :: u16

record Elf32_Phdr =
  p_type :: u32
  p_offset :: u32
  p_vaddr :: u32
  p_filesz :: u32

text \<open>The fields the loader uses, at their offsets in the 52 and 32 bytes of the two headers.\<close>

definition sizeof_Ehdr :: nat where "sizeof_Ehdr = 52"
definition sizeof_Phdr :: nat where "sizeof_Phdr = 32"

definition bytes_Ehdr :: "u8 list \<Rightarrow> Elf32_Ehdr" where
  "bytes_Ehdr bs =
     \<lparr>e_ident = take 16 bs, e_type = rd16 bs 16, e_machine = rd16 bs 18, e_version = rd32 bs 20, e_entry = rd32 bs 24,
      e_phoff = rd32 bs 28, e_phentsize = rd16 bs 42, e_phnum = rd16 bs 44\<rparr>"

definition bytes_Phdr :: "u8 list \<Rightarrow> Elf32_Phdr" where
  "bytes_Phdr bs = \<lparr>p_type = rd32 bs 0, p_offset = rd32 bs 4, p_vaddr = rd32 bs 8, p_filesz = rd32 bs 16\<rparr>"

definition PT_LOAD :: u32 where "PT_LOAD = 1"

definition elf_ok :: "Elf32_Ehdr \<Rightarrow> bool" where
  "elf_ok h \<longleftrightarrow> take 7 (e_ident h) = [0x7f, 0x45, 0x4c, 0x46, 1, 1, 1] \<and> e_type h = 2 \<and> e_machine h = 3 \<and>
     e_version h = 1 \<and> e_phnum h \<le> 1024 \<and> unat (e_phentsize h) = sizeof_Phdr"

section \<open>Segments\<close>

definition segment_pages :: "u32 \<Rightarrow> u32 \<Rightarrow> u32" where
  "segment_pages filesz vaddr =
     (let size_in_first_page = PG_SIZE - (vaddr AND 0xfff)
      in if filesz > size_in_first_page
         then (filesz - size_in_first_page + PG_SIZE - 1) div PG_SIZE + 1 else 1)"

fun segment_map :: "nat \<Rightarrow> u32 \<Rightarrow> kernel \<Rightarrow> (bool \<times> kernel) option" where
  "segment_map 0 vaddr_page k = Some (True, k)"
| "segment_map (Suc n) vaddr_page k =
     (if \<not> page_present k vaddr_page then
        do { (p, k) \<leftarrow> get_a_page PF_USER vaddr_page k;
             if p = 0 then Some (False, k) else segment_map n (vaddr_page + PG_SIZE) k }
      else segment_map n (vaddr_page + PG_SIZE) k)"

definition store_bytes :: "u32 \<Rightarrow> u8 list \<Rightarrow> mem \<Rightarrow> mem" where
  "store_bytes p bs m = (\<lambda>a. if unat (a - p) < length bs then bs ! unat (a - p) else m a)"

text \<open>The results of \<^verbatim>\<open>sys_lseek\<close> and \<^verbatim>\<open>sys_read\<close> are not tested.\<close>

definition segment_load :: "u32 \<Rightarrow> u32 \<Rightarrow> u32 \<Rightarrow> u32 \<Rightarrow> kernel \<Rightarrow> (bool \<times> kernel) option" where
  "segment_load fd offset filesz vaddr k =
     do { let vaddr_first_page = vaddr AND 0xfffff000;
          let occupy_pages = segment_pages filesz vaddr;
          (ok, k) \<leftarrow> segment_map (unat occupy_pages) vaddr_first_page k;
          if \<not> ok then Some (False, k)
          else do {
            (_, k) \<leftarrow> fs_run (sys_lseek fd offset 1) k;
            (bs, k) \<leftarrow> fs_run (sys_read fd filesz) k;
            Some (True, (case bs of None \<Rightarrow> k | Some bs \<Rightarrow> k\<lparr>data := store_bytes vaddr bs (data k)\<rparr>)) } }"

fun load_segments :: "nat \<Rightarrow> u32 \<Rightarrow> u32 \<Rightarrow> kernel \<Rightarrow> (bool \<times> kernel) option" where
  "load_segments 0 fd prog_header_offset k = Some (True, k)"
| "load_segments (Suc n) fd prog_header_offset k =
     do { (_, k) \<leftarrow> fs_run (sys_lseek fd prog_header_offset 1) k;
          (bs, k) \<leftarrow> fs_run (sys_read fd (of_nat sizeof_Phdr)) k;
          (case bs of
             None \<Rightarrow> Some (False, k)
           | Some bs \<Rightarrow>
               if length bs \<noteq> sizeof_Phdr then Some (False, k)
               else let ph = bytes_Phdr bs
                 in if p_type ph = PT_LOAD then
                      do { (ok, k) \<leftarrow> segment_load fd (p_offset ph) (p_filesz ph) (p_vaddr ph) k;
                           if \<not> ok then Some (False, k)
                           else load_segments n fd (prog_header_offset + of_nat sizeof_Phdr) k }
                    else load_segments n fd (prog_header_offset + of_nat sizeof_Phdr) k) }"

text \<open>The body between \<^verbatim>\<open>sys_open\<close> and the label \<^verbatim>\<open>done\<close>: the entry point, or \<open>-1\<close>.\<close>

definition load_image :: "u32 \<Rightarrow> kernel \<Rightarrow> (u32 \<times> kernel) option" where
  "load_image fd k =
     do { (bs, k) \<leftarrow> fs_run (sys_read fd (of_nat sizeof_Ehdr)) k;
          (case bs of
             None \<Rightarrow> Some (-1, k)
           | Some bs \<Rightarrow>
               if length bs \<noteq> sizeof_Ehdr then Some (-1, k)
               else let h = bytes_Ehdr bs
                 in if \<not> elf_ok h then Some (-1, k)
                    else do { (ok, k) \<leftarrow> load_segments (unat (e_phnum h)) fd (e_phoff h) k;
                              Some (if ok then e_entry h else -1, k) }) }"

definition load :: "u8 list \<Rightarrow> kernel \<Rightarrow> (u32 \<times> kernel) option" where
  "load pathname k =
     do { (fd, k) \<leftarrow> fs_run (sys_open pathname 0) k;
          if fd = -1 then Some (-1, k)
          else do { (ret, k) \<leftarrow> load_image fd k;
                    (_, k) \<leftarrow> fs_run (sys_close fd) k;
                    Some (ret, k) } }"

section \<open>The call\<close>

partial_function (option) argc_loop :: "mem \<Rightarrow> u32 \<Rightarrow> u32 \<Rightarrow> u32 option" where
  "argc_loop m argv argc = (if read32 m (argv + 4 * argc) \<noteq> 0 then argc_loop m argv (argc + 1) else Some argc)"

partial_function (option) c_string :: "mem \<Rightarrow> u32 \<Rightarrow> u8 list option" where
  "c_string m p = (if m p \<noteq> 0 then do { s \<leftarrow> c_string m (p + 1); Some (m p # s) } else Some [])"

text \<open>\<open>-1\<close>, or 0 for the jump to \<^verbatim>\<open>intr_exit\<close> that enters the program. The name is read when the segments are in place.\<close>

definition sys_execv :: "u32 \<Rightarrow> u32 \<Rightarrow> kernel \<Rightarrow> (u32 \<times> kernel) option" where
  "sys_execv path argv k =
     do { argc \<leftarrow> argc_loop (data k) argv 0;
          pathname \<leftarrow> c_string (data k) path;
          (entry_point, k) \<leftarrow> load pathname k;
          if entry_point = -1 then Some (-1, k)
          else do {
            let cur = running k;
            let k = upd_task cur (\<lambda>t. t\<lparr>task_name := (map (\<lambda>i. data k (path + of_nat i)) [0..<16])[15 := 0]\<rparr>) k;
            let intr_0_stack = cur + PG_SIZE - sizeof_intr_stack;
            Some (0, k\<lparr>kstk := (kstk k)(intr_0_stack + 20 := argv, intr_0_stack + 28 := argc,
              intr_0_stack + 56 := entry_point, intr_0_stack + 68 := 0xc0000000)\<rparr>) } }"

end
