(* ===== verification/Path.thy ===== *)
theory Path
  imports Fs
begin

text \<open>
  Clearing of path names, \<^verbatim>\<open>wash_path\<close> and \<^verbatim>\<open>make_clear_abs_path\<close> of
  \<^verbatim>\<open>src/shell/builtin_cmd.c\<close>: the empty components, \<^verbatim>\<open>.\<close> and \<^verbatim>\<open>..\<close> are taken out of an absolute path.
\<close>

section \<open>The code\<close>

definition dot :: "u8 list" where "dot = [46]"
definition dotdot :: "u8 list" where "dotdot = [46, 46]"

text \<open>The position of the last slash (\<^verbatim>\<open>strrchr\<close>); the path always begins with one.\<close>

definition last_slash :: "u8 list \<Rightarrow> nat" where
  "last_slash p = length p - 1 - length (takeWhile (\<lambda>c. c \<noteq> slash) (rev p))"

definition wash_name :: "u8 list \<Rightarrow> u8 list \<Rightarrow> u8 list" where
  "wash_name name new_abs_path =
     (if name = dotdot then
        let slash_ptr = last_slash new_abs_path
        in if slash_ptr \<noteq> 0 then take slash_ptr new_abs_path else take (slash_ptr + 1) new_abs_path
      else if name \<noteq> dot then
        (if new_abs_path \<noteq> [slash] then new_abs_path @ [slash] else new_abs_path) @ name
      else new_abs_path)"

lemma path_parse_shorter: "path_parse p = (Some r, n) \<Longrightarrow> length r < length p"
proof -
  assume a: "path_parse p = (Some r, n)"
  define q where "q = (if p \<noteq> [] \<and> p ! 0 = slash then dropWhile (\<lambda>c. c = slash) p else p)"
  have "(if dropWhile (\<lambda>c. c \<noteq> slash) q = [] then None else Some (dropWhile (\<lambda>c. c \<noteq> slash) q)) = Some r"
    using a unfolding path_parse_def Let_def q_def [symmetric] by simp
  then have r: "r = dropWhile (\<lambda>c. c \<noteq> slash) q" "r \<noteq> []"
    by (auto split: if_split_asm simp del: dropWhile_eq_Nil_conv)
  show ?thesis
  proof (cases "p \<noteq> [] \<and> p ! 0 = slash")
    case True
    then obtain p' where "p = slash # p'" by (cases p) auto
    then have "length q \<le> length p'" using True length_dropWhile_le [of "\<lambda>c. c = slash" p'] by (simp add: q_def)
    moreover have "length r \<le> length q" unfolding r(1) by (rule length_dropWhile_le)
    ultimately show ?thesis using \<open>p = slash # p'\<close> by simp
  next
    case False
    then have q: "q = p" unfolding q_def by (rule if_not_P)
    then obtain c p' where "p = c # p'" "c \<noteq> slash" using r False by (cases p) auto
    then show ?thesis using r(1) q length_dropWhile_le [of "\<lambda>c. c \<noteq> slash" p'] by simp
  qed
qed

lemma parse_name_shorter: "parse_name p = Some (Some r, n) \<Longrightarrow> length r < length p"
  using path_parse_shorter [of p r n] by (auto simp: parse_name_def split: prod.splits if_splits)

function wash_loop :: "u8 list option \<Rightarrow> u8 list \<Rightarrow> u8 list \<Rightarrow> u8 list option" where
  "wash_loop sub_path name new_abs_path =
     (if name = [] then Some new_abs_path
      else do {
        let new_abs_path = wash_name name new_abs_path;
        (sub_path, name) \<leftarrow> (case sub_path of None \<Rightarrow> Some (None, []) | Some p \<Rightarrow> parse_name p);
        wash_loop sub_path name new_abs_path })"
  by pat_completeness auto
termination
  by (relation "measure (\<lambda>(p, name, q). 2 * (case p of None \<Rightarrow> 0 | Some p \<Rightarrow> Suc (length p)) + (if name = [] then 0 else 1))")
    (auto split: option.splits dest!: parse_name_shorter)

declare wash_loop.simps [simp del]

definition wash_path :: "u8 list \<Rightarrow> u8 list option" where
  "wash_path old_abs_path =
     (if old_abs_path = [] \<or> old_abs_path ! 0 \<noteq> slash then None
      else do {
        (sub_path, name) \<leftarrow> parse_name old_abs_path;
        if name = [] then Some [slash] else wash_loop sub_path name [slash] })"

text \<open>
  Without a working directory the path stays relative, which \<^verbatim>\<open>wash_path\<close> does not survive. The
  buffer has 512 bytes.
\<close>

definition make_clear_abs_path :: "u8 list \<Rightarrow> fs \<Rightarrow> (u8 list \<times> fs) option" where
  "make_clear_abs_path path s =
     do { (abs_path, s) \<leftarrow>
            (if path = [] \<or> path ! 0 \<noteq> slash then do {
               (cwd, s) \<leftarrow> sys_getcwd (of_nat MAX_PATH_LEN) s;
               Some (case cwd of None \<Rightarrow> [] | Some p \<Rightarrow> if p = [slash] then p else p @ [slash], s) }
             else Some ([], s));
          let abs_path = abs_path @ path;
          if MAX_PATH_LEN \<le> length abs_path then None
          else do { final_path \<leftarrow> wash_path abs_path; Some (final_path, s) } }"

section \<open>Names\<close>

text \<open>The reference: split at the slashes, drop empty names and dots, let a double dot take the name before it.\<close>

fun split_on :: "'b \<Rightarrow> 'b list \<Rightarrow> 'b list list" where
  "split_on c [] = [[]]"
| "split_on c (x # xs) = (if x = c then [] # split_on c xs else (x # hd (split_on c xs)) # tl (split_on c xs))"

definition names :: "u8 list \<Rightarrow> u8 list list" where
  "names p = filter (\<lambda>n. n \<noteq> []) (split_on slash p)"

definition walk :: "u8 list list \<Rightarrow> u8 list \<Rightarrow> u8 list list" where
  "walk stack n = (if n = dotdot then butlast stack else if n = dot then stack else stack @ [n])"

definition normalise :: "u8 list list \<Rightarrow> u8 list list" where
  "normalise ns = foldl walk [] ns"

definition render :: "u8 list list \<Rightarrow> u8 list" where
  "render ns = (if ns = [] then [slash] else concat (map (\<lambda>n. slash # n) ns))"

lemma split_on_ne [simp]: "split_on c xs \<noteq> []"
  by (cases xs) simp_all

lemma split_on_plain: "c \<notin> set xs \<Longrightarrow> split_on c xs = [xs]"
  by (induction xs) auto

lemma split_on_sep: "c \<notin> set xs \<Longrightarrow> split_on c (xs @ c # ys) = xs # split_on c ys"
  by (induction xs) auto

lemma split_on_takeWhile:
  "split_on c xs = takeWhile (\<lambda>x. x \<noteq> c) xs # (case dropWhile (\<lambda>x. x \<noteq> c) xs of [] \<Rightarrow> [] | _ # ys \<Rightarrow> split_on c ys)"
  by (induction xs) (auto split: list.splits)

lemma names_skip: "names (dropWhile (\<lambda>c. c = slash) p) = names p"
  by (induction p) (auto simp: names_def)

lemma names_Nil [simp]: "names [] = []" "names (slash # p) = names p"
  by (simp_all add: names_def)

text \<open>\<^verbatim>\<open>path_parse\<close> takes the first name off.\<close>

lemma path_parse_alt:
  "path_parse p = (let rest = dropWhile (\<lambda>c. c \<noteq> slash) (dropWhile (\<lambda>c. c = slash) p) in
     (if rest = [] then None else Some rest, takeWhile (\<lambda>c. c \<noteq> slash) (dropWhile (\<lambda>c. c = slash) p)))"
proof -
  have "(if p \<noteq> [] \<and> p ! 0 = slash then dropWhile (\<lambda>c. c = slash) p else p) = dropWhile (\<lambda>c. c = slash) p"
    by (cases p) simp_all
  then show ?thesis unfolding path_parse_def Let_def by (rule arg_cong)
qed

lemma path_parse_names:
  assumes "path_parse p = (r, n)"
  shows "names p = (if n = [] then [] else n # (case r of None \<Rightarrow> [] | Some r \<Rightarrow> names r)) \<and> slash \<notin> set n \<and>
    (n = [] \<longrightarrow> r = None)"
proof -
  define q where "q = dropWhile (\<lambda>c. c = slash) p"
  have "(r, n) = (let rest = dropWhile (\<lambda>c. c \<noteq> slash) q in (if rest = [] then None else Some rest, takeWhile (\<lambda>c. c \<noteq> slash) q))"
    using assms unfolding path_parse_alt q_def by simp
  then have e: "r = (if dropWhile (\<lambda>c. c \<noteq> slash) q = [] then None else Some (dropWhile (\<lambda>c. c \<noteq> slash) q))"
    "n = takeWhile (\<lambda>c. c \<noteq> slash) q" unfolding Let_def prod.inject by blast+
  have s: "slash \<notin> set n" unfolding e(2) by (auto dest: set_takeWhileD)
  have np: "names p = names q" by (simp add: q_def names_skip)
  show ?thesis
  proof (cases "q = []")
    case True
    then show ?thesis using e np s by simp
  next
    case False
    then have "hd q \<noteq> slash" using hd_dropWhile [of "\<lambda>c. c = slash" p] unfolding q_def by blast
    then have nn: "n \<noteq> []" using False e(2) by (cases q) auto
    show ?thesis
    proof (cases "dropWhile (\<lambda>c. c \<noteq> slash) q")
      case Nil
      then have "names q = [n]" using nn e(2)
        by (simp add: names_def split_on_takeWhile [of slash q] del: dropWhile_eq_Nil_conv)
      then show ?thesis using nn np s e(1) Nil by (simp del: dropWhile_eq_Nil_conv)
    next
      case (Cons x ys)
      then have x: "x = slash" using hd_dropWhile [of "\<lambda>c. c \<noteq> slash" q] by simp
      then have "names q = n # names ys" using nn e(2) Cons by (simp add: names_def split_on_takeWhile [of slash q])
      then show ?thesis using nn np s e(1) Cons x by simp
    qed
  qed
qed

lemma parse_name_names:
  assumes "\<forall>m \<in> set (names p). length m < MAX_FILE_NAME_LEN"
  obtains r n where "parse_name p = Some (r, n)" "path_parse p = (r, n)"
proof -
  obtain r n where p: "path_parse p = (r, n)" by fastforce
  from path_parse_names [OF this] assms have "length n < MAX_FILE_NAME_LEN"
    by (cases "n = []") (auto simp: MAX_FILE_NAME_LEN_def)
  with p that show ?thesis by (simp add: parse_name_def)
qed

lemma parse_name_long:
  assumes "path_parse p = (r, n)" "parse_name p = None"
  shows "n \<in> set (names p)" "MAX_FILE_NAME_LEN \<le> length n"
  using assms path_parse_names [OF assms(1)] by (auto simp: parse_name_def MAX_FILE_NAME_LEN_def split: if_splits)

section \<open>Clearing\<close>

text \<open>The text of a list of names; its last slash is where the last name begins.\<close>

lemma render_snoc: "render (ns @ [n]) = (if ns = [] then [slash] @ n else render ns @ slash # n)"
  by (simp add: render_def)

lemma render_root: "render ns = [slash] \<longleftrightarrow> ns = [] \<or> ns = [[]]"
  by (cases ns) (auto simp: render_def)

lemma last_slash_render:
  assumes "slash \<notin> set n" shows "last_slash (xs @ slash # n) = length xs"
proof -
  have "takeWhile (\<lambda>c. c \<noteq> slash) (rev n @ slash # rev xs) = rev n"
    using assms by (subst takeWhile_append2) auto
  then show ?thesis by (simp add: last_slash_def)
qed

text \<open>One step of the loop on the text is one step on the stack of names.\<close>

definition plain :: "u8 list \<Rightarrow> bool" where
  "plain n = (n \<noteq> [] \<and> slash \<notin> set n)"

lemma wash_name_walk:
  assumes "plain n" "\<forall>m \<in> set ns. plain m"
  shows "wash_name n (render ns) = render (walk ns n)"
proof -
  have ne: "m \<noteq> []" if "m \<in> set ns" for m using that assms(2) by (auto simp: plain_def)
  consider "n = dotdot" | "n \<noteq> dotdot" by blast
  then show ?thesis
  proof cases
    case 1
    show ?thesis
    proof (cases ns rule: rev_cases)
      case Nil
      then show ?thesis using 1 last_slash_render [of "[]" "[]"] by (simp add: wash_name_def walk_def render_def)
    next
      case (snoc ms m)
      then have "slash \<notin> set m" using assms(2) by (simp add: plain_def)
      with snoc 1 show ?thesis
        using last_slash_render [of m "[]"] last_slash_render [of m "render ms"]
        by (cases "ms = []") (simp_all add: wash_name_def walk_def render_snoc, simp_all add: render_def)
    qed
  next
    case 2
    have "render ns \<noteq> [slash] \<longleftrightarrow> ns \<noteq> []" using ne by (auto simp: render_root)
    with 2 show ?thesis by (simp add: wash_name_def walk_def render_snoc) (simp add: render_def)
  qed
qed

lemma walk_plain: "plain n \<Longrightarrow> \<forall>m \<in> set ns. plain m \<Longrightarrow> \<forall>m \<in> set (walk ns n). plain m"
  by (auto simp: walk_def dest: in_set_butlastD)

lemma wash_loop_walk:
  assumes "name \<noteq> [] \<longrightarrow> plain name" "name = [] \<longrightarrow> sub = None" "\<forall>m \<in> set ns. plain m"
    "\<forall>m \<in> set (case sub of None \<Rightarrow> [] | Some p \<Rightarrow> names p). length m < MAX_FILE_NAME_LEN"
  shows "wash_loop sub name (render ns) =
    Some (render (foldl walk ns ((if name = [] then [] else [name]) @ (case sub of None \<Rightarrow> [] | Some p \<Rightarrow> names p))))"
  using assms
proof (induction sub name "render ns" arbitrary: ns rule: wash_loop.induct)
  case (1 sub name)
  show ?case
  proof (cases "name = []")
    case True
    then show ?thesis using "1.prems"(2) by (simp add: wash_loop.simps)
  next
    case False
    have w: "wash_name name (render ns) = render (walk ns name)"
      using False "1.prems"(1,3) by (blast intro: wash_name_walk)
    have wp: "\<forall>m \<in> set (walk ns name). plain m" using False "1.prems"(1,3) walk_plain by blast
    show ?thesis
    proof (cases sub)
      case None
      then show ?thesis using False w by (simp add: wash_loop.simps)
    next
      case (Some p)
      with "1.prems"(4) have l: "\<forall>m \<in> set (names p). length m < MAX_FILE_NAME_LEN" by simp
      obtain r n where pn: "parse_name p = Some (r, n)" "path_parse p = (r, n)"
        using parse_name_names [OF l] by blast
      note q = path_parse_names [OF pn(2)]
      have "wash_loop r n (render (walk ns name)) = Some (render (foldl walk (walk ns name)
         ((if n = [] then [] else [n]) @ (case r of None \<Rightarrow> [] | Some p \<Rightarrow> names p))))"
        using False Some pn q l wp
        by (intro "1.hyps" [OF False _ _ refl]) (auto simp: w plain_def)
      then show ?thesis using False Some pn q w by (subst wash_loop.simps) simp
    qed
  qed
qed

lemma wash_path_walk:
  assumes "p \<noteq> []" "p ! 0 = slash" "\<forall>m \<in> set (names p). length m < MAX_FILE_NAME_LEN"
  shows "wash_path p = Some (render (normalise (names p)))"
proof -
  obtain r n where pn: "parse_name p = Some (r, n)" "path_parse p = (r, n)"
    using parse_name_names [OF assms(3)] by blast
  note q = path_parse_names [OF pn(2)]
  show ?thesis
  proof (cases "n = []")
    case True
    then show ?thesis using assms pn q by (simp add: wash_path_def normalise_def render_def)
  next
    case False
    have "wash_loop r n (render []) = Some (render (foldl walk []
       ((if n = [] then [] else [n]) @ (case r of None \<Rightarrow> [] | Some p \<Rightarrow> names p))))"
      using q assms(3) False by (intro wash_loop_walk) (auto simp: plain_def)
    then show ?thesis using assms(1,2) pn q False by (simp add: wash_path_def normalise_def render_def)
  qed
qed

lemma split_on_free: "m \<in> set (split_on c p) \<Longrightarrow> c \<notin> set m"
proof (induction p arbitrary: m)
  case (Cons x xs)
  obtain a b where "split_on c xs = a # b" by (cases "split_on c xs") auto
  with Cons show ?case by (auto split: if_splits)
qed simp

lemma names_plain: "m \<in> set (names p) \<Longrightarrow> plain m"
  by (auto simp: names_def plain_def dest: split_on_free)

definition clear_name :: "u8 list \<Rightarrow> bool" where
  "clear_name n = (plain n \<and> n \<noteq> dot \<and> n \<noteq> dotdot)"

lemma normalise_clear:
  "\<forall>m \<in> set ns. plain m \<Longrightarrow> \<forall>m \<in> set st. clear_name m \<Longrightarrow> \<forall>m \<in> set (foldl walk st ns). clear_name m \<and> m \<in> set st \<union> set ns"
proof (induction ns arbitrary: st)
  case (Cons n ns)
  have "\<forall>m \<in> set (walk st n). clear_name m \<and> m \<in> set st \<union> {n}"
    using Cons.prems by (auto simp: walk_def clear_name_def dest: in_set_butlastD)
  then show ?case using Cons.IH [of "walk st n"] Cons.prems(1) by auto
qed simp

lemma normalise_fixed: "\<forall>m \<in> set ns. clear_name m \<Longrightarrow> foldl walk st ns = st @ ns"
  by (induction ns arbitrary: st) (auto simp: walk_def clear_name_def)

lemma names_append_slash: "slash \<notin> set n \<Longrightarrow> n \<noteq> [] \<Longrightarrow> names (n @ slash # p) = n # names p"
  by (simp add: names_def split_on_sep)

lemma names_render: "\<forall>m \<in> set ns. plain m \<Longrightarrow> names (render ns) = ns"
proof (induction ns)
  case (Cons n ns)
  have n: "slash \<notin> set n" "n \<noteq> []" using Cons.prems by (simp_all add: plain_def)
  show ?case
  proof (cases ns)
    case Nil
    then show ?thesis using n by (simp add: render_def names_def split_on_plain)
  next
    case (Cons m ms)
    then have "render (n # ns) = slash # n @ slash # m @ concat (map (\<lambda>n. slash # n) ms)"
      "render ns = slash # m @ concat (map (\<lambda>n. slash # n) ms)" by (simp_all add: render_def)
    then show ?thesis using Cons.IH Cons.prems n by (simp add: names_append_slash)
  qed
qed (simp add: render_def)

lemma render_absolute: "render ns \<noteq> []" "render ns ! 0 = slash"
  by (cases ns; simp add: render_def)+

section \<open>The cleared path\<close>

text \<open>
  C23. \<^verbatim>\<open>wash_path\<close> on an absolute path whose names fit its name buffer: the result is the
  path of the normalised list of names (no empty name, no dot, every double dot has taken the name
  before it away, at the root nothing), so no name of the result is a dot or a double dot; and a
  cleared path is cleared already: washing it again returns it.
\<close>

theorem wash_path_normalises:
  assumes "p \<noteq> []" "p ! 0 = slash" "\<forall>m \<in> set (names p). length m < MAX_FILE_NAME_LEN"
  shows "\<exists>q. wash_path p = Some q \<and> q = render (normalise (names p)) \<and> names q = normalise (names p) \<and>
    dot \<notin> set (names q) \<and> dotdot \<notin> set (names q) \<and> wash_path q = Some q"
proof -
  let ?ns = "normalise (names p)"
  have c: "\<forall>m \<in> set ?ns. clear_name m \<and> m \<in> set (names p)"
    using normalise_clear [of "names p" "[]"] names_plain by (auto simp: normalise_def)
  then have n: "names (render ?ns) = ?ns" by (intro names_render) (simp add: clear_name_def)
  have "normalise ?ns = ?ns" unfolding normalise_def [of ?ns] using c by (simp add: normalise_fixed)
  then have "wash_path (render ?ns) = Some (render ?ns)"
    using wash_path_walk [of "render ?ns"] render_absolute [of ?ns] n c assms(3) by simp
  then show ?thesis using wash_path_walk [OF assms] n c by (auto simp: clear_name_def)
qed

text \<open>\<^verbatim>\<open>/a//./b/../../..//c\<close>.\<close>

theorem wash_path_normalises_witness:
  "\<exists>q. wash_path [47, 97, 47, 47, 46, 47, 98, 47, 46, 46, 47, 46, 46, 47, 46, 46, 47, 47, 99] = Some q \<and> names q = [[99]]"
proof -
  let ?p = "[47, 97, 47, 47, 46, 47, 98, 47, 46, 46, 47, 46, 46, 47, 46, 46, 47, 47, 99] :: u8 list"
  have n: "names ?p = [[97], dot, [98], dotdot, dotdot, dotdot, [99]]"
    by (simp add: names_def slash_def dot_def dotdot_def)
  then have "normalise (names ?p) = [[99]]" by (simp add: normalise_def walk_def dot_def dotdot_def)
  then show ?thesis using wash_path_normalises [of ?p] n
    by (auto simp: slash_def dot_def dotdot_def MAX_FILE_NAME_LEN_def)
qed

end
