(* ===== verification/Userio.thy ===== *)
theory Userio
  imports Path FileData
begin

text \<open>
  What the shell's programs use of the C library and of the system calls: \<^verbatim>\<open>printf\<close> of
  \<^verbatim>\<open>src/impl/stdio.c\<close> on the bytes its format produces, \<^verbatim>\<open>putchar\<close>, \<^verbatim>\<open>clear\<close>, and the interface
  through which a file is read from front to back.
\<close>

section \<open>Text\<close>

definition ascii :: "string \<Rightarrow> u8 list" where
  "ascii cs = map (\<lambda>c. of_nat (of_char c)) cs"

text \<open>The digits of \<^verbatim>\<open>%d\<close>: the argument is an \<^verbatim>\<open>int\<close>, printed by \<^verbatim>\<open>itoa\<close> on a \<^verbatim>\<open>uint32_t\<close>.\<close>

definition fmt_d :: "u32 \<Rightarrow> u8 list" where
  "fmt_d n = (if sint n < 0 then 45 # decimal (unat (0 - n)) else decimal (unat n))"

text \<open>\<^verbatim>\<open>printf\<close> formats into 1024 zeroed bytes (a longer text overruns them, \<open>None\<close>) and writes them to descriptor 1.\<close>

definition printf :: "u8 list \<Rightarrow> fs \<Rightarrow> fs option" where
  "printf bs s = do { (_, s) \<leftarrow> sys_write 1 bs s; Some s }"

definition cls_screen :: "fs \<Rightarrow> fs" where
  "cls_screen s = s\<lparr>console := []\<rparr>"

lemma printf_short: "length bs < 1024 \<Longrightarrow> printf bs s = Some (s\<lparr>console := console s @ cstr bs\<rparr>)"
  by (simp add: printf_def sys_write_def)

lemma cstr_plain: "0 \<notin> set bs \<Longrightarrow> cstr bs = bs"
  by (simp add: cstr_def takeWhile_eq_all_conv) metis

lemma cstr_append_zero: "0 \<notin> set bs \<Longrightarrow> cstr (bs @ 0 # xs) = bs"
  unfolding cstr_def by (subst takeWhile_append2) auto

section \<open>Reading from front to back\<close>

text \<open>
  \<open>rd fd d p s\<close>: descriptor \<open>fd\<close> is open on a file with the bytes \<open>d\<close>, at position \<open>p\<close>. A reader relies
  on this: a read returns the bytes at the position and moves it, or fails at the end of the file; it
  touches nothing the reader sees, and what the reader prints or allocates does not disturb the file.
\<close>

locale byte_stream =
  fixes rd :: "u32 \<Rightarrow> u8 list \<Rightarrow> nat \<Rightarrow> fs \<Rightarrow> bool"
  assumes read_step: "rd fd d p s \<Longrightarrow> 0 < unat n \<Longrightarrow> unat n < 65536 \<Longrightarrow>
      \<exists>s'. sys_read fd n s = Some (if p = length d then None else Some (take (unat n) (drop p d)), s') \<and>
        rd fd d (min (length d) (p + unat n)) s' \<and> console s' = console s \<and> kbd_input s' = kbd_input s"
    and stream_bound: "rd fd d p s \<Longrightarrow> p \<le> length d \<and> length d < 71168"
    and stream_console: "rd fd d p s \<Longrightarrow> rd fd d p (s\<lparr>console := c\<rparr>)"
    and stream_alloc: "rd fd d p s \<Longrightarrow> \<exists>s'. heap_alloc s = (True, s') \<and> rd fd d p s' \<and> console s' = console s \<and> kbd_input s' = kbd_input s"

text \<open>An open regular file provides it.\<close>

definition at_file :: "u32 \<Rightarrow> u8 list \<Rightarrow> nat \<Rightarrow> fs \<Rightarrow> bool" where
  "at_file fd d p s \<longleftrightarrow> 0 \<le> sint fd \<and> fd \<notin> {0, 1, 2} \<and> layout_ok s \<and> sectors_ok (part_medium s) \<and> (\<forall>k. mallocs s k) \<and>
     length d < 71168 \<and> p \<le> length d \<and>
     (\<exists>fi ip i. fd_local2global fd s = Some fi \<and> fi < length (file_table s) \<and> fd_inode (file_table s ! fi) = ip \<and>
        unat (fd_pos (file_table s ! fi)) = p \<and> inodes s ip = Some i \<and> file_ok s i \<and> unat (i_size i) = length d \<and>
        file_bytes (part_medium s) i = d)"

lemma file_read_frame:
  assumes "layout_ok s" "sectors_ok (part_medium s)" "inodes s ip = Some i" "file_ok s i"
    "\<forall>k. mallocs s k" "unat (i_size i) < 71168" "fi < length (file_table s)" "fd_inode (file_table s ! fi) = ip"
    "fd_pos (file_table s ! fi) \<le> i_size i" "unat (fd_pos (file_table s ! fi)) + unat count < 2 ^ 32" "0 < count"
  shows "\<exists>c. file_read fi count s =
      Some (if fd_pos (file_table s ! fi) = i_size i then None
            else Some (take (unat count) (drop (unat (fd_pos (file_table s ! fi))) (file_bytes (part_medium s) i))),
        s\<lparr>malloc_cnt := c, file_table := (file_table s)[fi := (file_table s ! fi)\<lparr>fd_pos :=
           of_nat (min (unat (i_size i)) (unat (fd_pos (file_table s ! fi)) + unat count))\<rparr>]\<rparr>)"
proof -
  let ?m = "part_medium s" and ?bm = "block_bitmap (cur_part s)" and ?p = "fd_pos (file_table s ! fi)"
  have s: "W s ip (malloc_cnt s) (file_table s) ?m ?bm i = s" by (rule W_self [OF assms(3)])
  have sW: "W s ip c t ?m ?bm i = s\<lparr>malloc_cnt := c, file_table := t\<rparr>" for c t
    using assms(3) by (auto simp: W_def part_medium_def fun_upd_idem intro!: fs.equality partition.equality)
  obtain n f t where fm: "file_map s ?m ?bm i n f t" "n = 0 \<and> i_size i = 0 \<or> n = unat (i_size i) div 512 + 1"
    using assms(4) by (auto simp: file_ok_def)
  have n: "n = 0 \<and> unat (i_size i) = 0 \<or> n = unat (i_size i) div 512 + 1" using fm(2) by auto
  have p: "unat ?p \<le> unat (i_size i)" using assms(9) by (simp add: word_le_nat_alt)
  have cnt: "0 < unat count" using assms(11) by (simp add: word_less_nat_alt)
  note r = file_read_W [OF assms(1,2) fm(1) refl n assms(5,6,7,8) refl p assms(10), of "malloc_cnt s", unfolded s]
  show ?thesis
  proof (cases "?p = i_size i")
    case True
    have "(of_nat (min (unat (i_size i)) (unat ?p + unat count)) :: u32) = ?p" using True by simp
    then have "s\<lparr>malloc_cnt := malloc_cnt s, file_table := (file_table s)[fi := (file_table s ! fi)\<lparr>fd_pos :=
           of_nat (min (unat (i_size i)) (unat ?p + unat count))\<rparr>]\<rparr> = s" by simp
    then show ?thesis using r True cnt by (intro exI [of _ "malloc_cnt s"]) simp
  next
    case False
    then have "unat ?p \<noteq> unat (i_size i)" by (simp add: word_unat_eq_iff)
    then show ?thesis using r n p False unfolding sW by (intro exI [of _ "Suc (Suc (malloc_cnt s))"]) auto
  qed
qed

lemma quiet_simps [simp]:
  "part_medium (s\<lparr>malloc_cnt := c\<rparr>) = part_medium s" "part_medium (s\<lparr>console := cs\<rparr>) = part_medium s"
  "part_medium (s\<lparr>file_table := t\<rparr>) = part_medium s"
  "layout_ok (s\<lparr>malloc_cnt := c\<rparr>) = layout_ok s" "layout_ok (s\<lparr>console := cs\<rparr>) = layout_ok s"
  "layout_ok (s\<lparr>file_table := t\<rparr>) = layout_ok s"
  "file_ok (s\<lparr>malloc_cnt := c\<rparr>) i = file_ok s i" "file_ok (s\<lparr>console := cs\<rparr>) i = file_ok s i"
  "file_ok (s\<lparr>file_table := t\<rparr>) i = file_ok s i"
  "fd_local2global fd (s\<lparr>malloc_cnt := c\<rparr>) = fd_local2global fd s"
  "fd_local2global fd (s\<lparr>console := cs\<rparr>) = fd_local2global fd s"
  "fd_local2global fd (s\<lparr>file_table := t\<rparr>) = fd_local2global fd s"
  by (simp_all add: layout_ok_def part_medium_def itab_def data_base_def blk_ok_def Let_def
      file_ok_def file_map_def used_blk_def blk_lba_def fd_local2global_def)

lemma at_file_quiet [simp]:
  "at_file fd d p (s\<lparr>malloc_cnt := c\<rparr>) = at_file fd d p s" "at_file fd d p (s\<lparr>console := cs\<rparr>) = at_file fd d p s"
  by (simp_all add: at_file_def)

lemma at_file_read:
  assumes "at_file fd d p s" "0 < unat n" "unat n < 65536"
  shows "\<exists>s'. sys_read fd n s = Some (if p = length d then None else Some (take (unat n) (drop p d)), s') \<and>
        at_file fd d (min (length d) (p + unat n)) s' \<and> console s' = console s \<and> kbd_input s' = kbd_input s"
proof -
  obtain fi ip i where f: "fd_local2global fd s = Some fi" "fi < length (file_table s)" "fd_inode (file_table s ! fi) = ip"
      "unat (fd_pos (file_table s ! fi)) = p" "inodes s ip = Some i" "file_ok s i" "unat (i_size i) = length d"
      "file_bytes (part_medium s) i = d"
    and g: "0 \<le> sint fd" "fd \<notin> {0, 1, 2}" "layout_ok s" "sectors_ok (part_medium s)" "\<forall>k. mallocs s k"
      "length d < 71168" "p \<le> length d"
    using assms(1) unfolding at_file_def by blast
  have "fd_pos (file_table s ! fi) \<le> i_size i" using f(4,7) g(7) by (simp add: word_le_nat_alt)
  moreover have "unat (fd_pos (file_table s ! fi)) + unat n < 2 ^ 32" using f(4) g(6,7) assms(3) by simp
  moreover have "0 < n" using assms(2) by (simp add: word_less_nat_alt)
  moreover have "unat (i_size i) < 71168" using f(7) g(6) by simp
  ultimately obtain c where r: "file_read fi n s =
      Some (if fd_pos (file_table s ! fi) = i_size i then None
            else Some (take (unat n) (drop p d)),
        s\<lparr>malloc_cnt := c, file_table := (file_table s)[fi := (file_table s ! fi)\<lparr>fd_pos :=
           of_nat (min (length d) (p + unat n))\<rparr>]\<rparr>)" (is "_ = Some (_, ?s)")
    using file_read_frame [OF g(3,4) f(5,6) g(5) _ f(2,3), of n] unfolding f(4,7,8) by blast
  have e: "fd_pos (file_table s ! fi) = i_size i \<longleftrightarrow> p = length d" using f(4,7) by (simp add: word_unat_eq_iff)
  have "unat (of_nat (min (length d) (p + unat n)) :: u32) = min (length d) (p + unat n)"
    using g(6) by (subst unat_of_nat_32) auto
  then have "at_file fd d (min (length d) (p + unat n)) ?s"
    using f g by (simp add: at_file_def)
  moreover have "sys_read fd n s = Some (if p = length d then None else Some (take (unat n) (drop p d)), ?s)"
    using g(1,2) f(1) r e by (simp add: sys_read_def)
  ultimately show ?thesis by (intro exI [of _ ?s]) simp
qed

interpretation file_stream: byte_stream at_file
proof
  fix fd d p s and n :: u32 and c
  show "at_file fd d p s \<Longrightarrow> 0 < unat n \<Longrightarrow> unat n < 65536 \<Longrightarrow>
      \<exists>s'. sys_read fd n s = Some (if p = length d then None else Some (take (unat n) (drop p d)), s') \<and>
        at_file fd d (min (length d) (p + unat n)) s' \<and> console s' = console s \<and> kbd_input s' = kbd_input s"
    by (rule at_file_read)
  show "at_file fd d p s \<Longrightarrow> p \<le> length d \<and> length d < 71168" by (simp add: at_file_def)
  show "at_file fd d p s \<Longrightarrow> at_file fd d p (s\<lparr>console := c\<rparr>)" by simp
  assume a: "at_file fd d p s"
  then have "\<forall>k. mallocs s k" by (simp add: at_file_def)
  with a show "\<exists>s'. heap_alloc s = (True, s') \<and> at_file fd d p s' \<and> console s' = console s \<and> kbd_input s' = kbd_input s"
    by (simp add: heap_alloc_def)
qed

section \<open>Writing\<close>

text \<open>\<open>wr fd d s\<close>: descriptor \<open>fd\<close> is open for writing on a file with the bytes \<open>d\<close>, which has room to grow.\<close>

locale byte_sink =
  fixes wr :: "u32 \<Rightarrow> u8 list \<Rightarrow> fs \<Rightarrow> bool"
  assumes write_step: "wr fd d s \<Longrightarrow> length d + length b < 71168 \<Longrightarrow>
      \<exists>s'. sys_write fd b s = Some (of_nat (length b), s') \<and> wr fd (d @ b) s'"

definition to_file :: "u32 \<Rightarrow> u8 list \<Rightarrow> fs \<Rightarrow> bool" where
  "to_file fd d s \<longleftrightarrow> 0 \<le> sint fd \<and> fd \<notin> {0, 1, 2} \<and> layout_ok s \<and> sectors_ok (part_medium s) \<and> (\<forall>k. mallocs s k) \<and>
     length d < 71168 \<and>
     (\<exists>fi ip i. fd_local2global fd s = Some fi \<and> fi < length (file_table s) \<and> fd_inode (file_table s ! fi) = ip \<and>
        fd_flag (file_table s ! fi) AND O_RDWR \<noteq> 0 \<and> inodes s ip = Some i \<and> file_room s i 284 \<and>
        unat (i_size i) = length d \<and> file_bytes (part_medium s) i = d)"

lemma to_file_write:
  assumes "to_file fd d s" "length d + length b < 71168"
  shows "\<exists>s'. sys_write fd b s = Some (of_nat (length b), s') \<and> to_file fd (d @ b) s'"
proof -
  obtain fi ip i where f: "fd_local2global fd s = Some fi" "fi < length (file_table s)" "fd_inode (file_table s ! fi) = ip"
      "fd_flag (file_table s ! fi) AND O_RDWR \<noteq> 0" "inodes s ip = Some i" "file_room s i 284"
      "unat (i_size i) = length d" "file_bytes (part_medium s) i = d"
    and g: "0 \<le> sint fd" "fd \<notin> {0, 1, 2}" "layout_ok s" "sectors_ok (part_medium s)" "\<forall>k. mallocs s k"
    using assms(1) unfolding to_file_def by blast
  have "unat (i_size i) + length b < 71680" using f(7) assms(2) by simp
  then obtain s' i' where w: "file_write fi b s = Some (of_nat (length b), s')" "inodes s' = (inodes s)(ip \<mapsto> i')"
    "layout_ok s'" "sectors_ok (part_medium s')" "file_room s' i' 284" "mallocs s' = mallocs s"
    "unat (i_size i') = unat (i_size i) + length b" "file_bytes (part_medium s') i' = file_bytes (part_medium s) i @ b"
    "tasks s' = tasks s" "running s' = running s" "length (file_table s') = length (file_table s)"
    "fd_inode (file_table s' ! fi) = ip" "fd_flag (file_table s' ! fi) = fd_flag (file_table s ! fi)"
    using file_write_room [OF g(3,4) f(5,6) g(5) _ f(2,3), of b] by blast
  have fd: "fd_local2global fd s' = Some fi" using f(1) w(9,10) by (simp add: fd_local2global_def)
  have "sys_write fd b s = Some (of_nat (length b), s')" using f(1,4) g(1,2) w(1) by (simp add: sys_write_def)
  moreover have "to_file fd (d @ b) s'"
    unfolding to_file_def using fd f(2,4,7,8) g assms(2) w by (auto intro!: exI [of _ fi])
  ultimately show ?thesis by blast
qed

interpretation file_sink: byte_sink to_file
  by unfold_locales (rule to_file_write)

text \<open>Back at the beginning, the file can be read.\<close>

lemma to_file_rewind:
  assumes "to_file fd d s"
  shows "\<exists>s'. sys_lseek fd 0 1 s = Some (0, s') \<and> at_file fd d 0 s'"
proof -
  obtain fi ip i where f: "fd_local2global fd s = Some fi" "fi < length (file_table s)" "fd_inode (file_table s ! fi) = ip"
      "inodes s ip = Some i" "file_room s i 284" "unat (i_size i) = length d" "file_bytes (part_medium s) i = d"
    and g: "0 \<le> sint fd" "fd \<notin> {0, 1, 2}" "layout_ok s" "sectors_ok (part_medium s)" "\<forall>k. mallocs s k" "length d < 71168"
    using assms unfolding to_file_def by blast
  have "0 \<le> sint (i_size i)" using f(6) g(6) by (simp add: sint_small)
  then have "sys_lseek fd 0 1 s = Some (0, set_file fi ((file_table s ! fi)\<lparr>fd_pos := 0\<rparr>) s)"
    using g(1) f(1,3,4) by (simp add: sys_lseek_def)
  moreover have "at_file fd d 0 (set_file fi ((file_table s ! fi)\<lparr>fd_pos := 0\<rparr>) s)"
    using f g file_room_ok [OF f(5)] by (simp add: at_file_def)
  ultimately show ?thesis by blast
qed

text \<open>The demo partition with its empty file.\<close>

lemma demo_to_file: "to_file 3 [] demo_fs"
proof -
  let ?b = "block_bitmap (cur_part demo_fs)"
  have unused: "\<not> bm_used ?b j" if "8 \<le> j" "j < 1024" for j
  proof -
    have "unat (of_nat j :: u32) = j" using that by (intro unat_of_nat_32) simp
    then have "of_nat j div 8 \<noteq> (0 :: u32)" using that by (simp add: word_unat_eq_iff unat_div)
    then show ?thesis by (simp add: demo_fs_def demo_part_def bm_used_def bitmap_scan_test_def)
  qed
  have "{8..<1024} \<subseteq> free_blocks ?b"
    using unused by (auto simp: free_blocks_def) (simp add: demo_fs_def demo_part_def bm_bits_def)
  from card_mono [OF finite_free_blocks this] have "284 \<le> card (free_blocks ?b)" by simp
  then have "file_room demo_fs demo_inode 284"
    unfolding file_room_def
    by (intro exI [of _ 0] exI [of _ "\<lambda>_. 0"] exI [of _ 0]) (simp add: file_map_def demo_inode_def own_blks_def)
  moreover have "fd_local2global 3 demo_fs = Some 3" by (simp add: fd_local2global_def demo_fs_def demo_sched_def)
  moreover have "fd_flag (file_table demo_fs ! 3) AND O_RDWR \<noteq> 0" by (simp add: demo_fs_def O_RDWR_def)
  ultimately show ?thesis
    using demo_layout by (auto simp: to_file_def file_bytes_def intro!: exI [of _ 3])
qed

lemma demo_at_file: "length d < 71168 \<Longrightarrow> \<exists>s. at_file 3 d 0 s"
  using file_sink.write_step [OF demo_to_file, of d] to_file_rewind by auto blast

end
