(* ===== verification/DirCorrect.thy ===== *)
theory DirCorrect
  imports FileData
begin

text \<open>
  What a directory is for: a name that was entered is found, with its inode number, and all other
  names are found as before. For directories of up to twelve blocks (252 entries): a thirteenth makes
  \<^verbatim>\<open>sync_dir_entry\<close> read stack words it has not set.
\<close>

section \<open>Sectors of entries\<close>

text \<open>Every name ends within its field, and a free entry has no name.\<close>

definition sector_names :: "u8 list \<Rightarrow> bool" where
  "sector_names buf \<longleftrightarrow> length buf = 512 \<and>
     (\<forall>k<21. 0 \<in> set (take 16 (drop (24 * k) buf)) \<and> (f_type (de_at buf k) = FT_UNKNOWN \<longrightarrow> name_at buf k = []))"

definition entry_ok :: "dir_entry \<Rightarrow> u8 list \<Rightarrow> bool" where
  "entry_ok e name \<longleftrightarrow> 0 < length name \<and> length name < 16 \<and> 0 \<notin> set name \<and>
     filename e = name @ replicate (16 - length name) 0 \<and> f_type e \<noteq> FT_UNKNOWN"

lemma create_entry_ok:
  assumes "0 < length name" "length name < 16" "0 \<notin> set name" "ft \<noteq> FT_UNKNOWN"
  obtains e where "create_dir_entry name ino ft zero_de = Some e" "entry_ok e name" "de_i_no e = ino" "f_type e = ft"
proof -
  have "take 16 (name @ drop (length name) (replicate 16 0 @ xs)) = name @ replicate (16 - length name) 0" for xs :: "u8 list"
    using assms(2) by simp
  then show ?thesis
    using assms by (intro that [of "\<lparr>filename = name @ replicate (16 - length name) 0, de_i_no = ino, f_type = ft\<rparr>"])
      (simp_all add: create_dir_entry_def entry_ok_def zero_de_def de_bytes_def bytes_de_def splice_def)
qed

lemma de_bytes_length: "entry_ok e name \<Longrightarrow> length (de_bytes e) = 24"
  by (simp add: entry_ok_def de_bytes_def)

lemma bytes_de_bytes: "entry_ok e name \<Longrightarrow> bytes_de (de_bytes e) = e"
  by (cases e) (simp add: entry_ok_def de_bytes_def bytes_de_def codec_simps rd32_le32 [where bs = "[]", simplified])

lemma cstr_prefix: "0 \<in> set (take n xs) \<Longrightarrow> cstr xs = cstr (take n xs)"
  unfolding cstr_def using takeWhile_append1 [of 0 "take n xs" "\<lambda>b. b \<noteq> 0" "drop n xs"] by simp

lemma slot_splice:
  assumes "length buf = 512" "j < 21" "k < 21" "length bs = 24"
  shows "take 24 (drop (24 * j) (splice buf (24 * k) bs)) = (if j = k then bs else take 24 (drop (24 * j) buf))"
proof (rule nth_equalityI)
  show "length (take 24 (drop (24 * j) (splice buf (24 * k) bs))) = length (if j = k then bs else take 24 (drop (24 * j) buf))"
    using assms by simp
  fix i assume "i < length (take 24 (drop (24 * j) (splice buf (24 * k) bs)))"
  then have i: "i < 24" "24 * j + i < 512" using assms by simp_all
  have "24 * k \<le> 24 * j + i \<and> 24 * j + i < 24 * k + 24 \<longleftrightarrow> j = k" using i(1) by auto
  then show "take 24 (drop (24 * j) (splice buf (24 * k) bs)) ! i = (if j = k then bs else take 24 (drop (24 * j) buf)) ! i"
    using assms i by (simp add: nth_splice)
qed

lemma name_at_slot: "0 \<in> set (take 16 (drop (24 * k) buf)) \<Longrightarrow> name_at buf k = cstr (take 24 (drop (24 * k) buf))"
  unfolding name_at_def by (rule cstr_prefix) (auto dest: set_take_subset_set_take [THEN subsetD, of 16 24, simplified])

lemma entry_name: "entry_ok e name \<Longrightarrow> cstr (de_bytes e) = name \<and> 0 \<in> set (take 16 (de_bytes e))"
proof -
  assume e: "entry_ok e name"
  then have q: "16 - length name = Suc (15 - length name)" and "0 \<notin> set name" by (auto simp: entry_ok_def)
  have "de_bytes e = name @ 0 # replicate (15 - length name) 0 @ le32 (de_i_no e) @ le32 (f_type e)"
    using e q by (simp add: entry_ok_def de_bytes_def)
  moreover have "cstr (name @ 0 # xs) = name" for xs
    using \<open>0 \<notin> set name\<close> unfolding cstr_def by (subst takeWhile_append2) auto
  ultimately show ?thesis using e q by (auto simp: entry_ok_def)
qed

lemma sector_insert:
  assumes "sector_names buf" "k < 21" "entry_ok e name"
  shows "sector_names (splice buf (24 * k) (de_bytes e))"
    "j < 21 \<Longrightarrow> name_at (splice buf (24 * k) (de_bytes e)) j = (if j = k then name else name_at buf j)"
    "j < 21 \<Longrightarrow> de_at (splice buf (24 * k) (de_bytes e)) j = (if j = k then e else de_at buf j)"
proof -
  let ?b = "splice buf (24 * k) (de_bytes e)"
  have l: "length buf = 512" "length (de_bytes e) = 24" using assms(1,3) by (simp_all add: sector_names_def de_bytes_length)
  have t: "take 24 (drop (24 * j) ?b) = (if j = k then de_bytes e else take 24 (drop (24 * j) buf))" if "j < 21" for j
    by (rule slot_splice [OF l(1) that assms(2) l(2)])
  have t16: "take 16 (drop (24 * j) ?b) = (if j = k then take 16 (de_bytes e) else take 16 (drop (24 * j) buf))" if "j < 21" for j
    using arg_cong [OF t [OF that], of "take 16"] by (simp add: min_def split: if_splits)
  have z: "0 \<in> set (take 16 (drop (24 * j) ?b))" if "j < 21" for j
    using that t16 [OF that] assms(1) entry_name [OF assms(3)] by (auto simp: sector_names_def)
  show n: "name_at ?b j = (if j = k then name else name_at buf j)" if "j < 21" for j
    using that t [OF that] name_at_slot [OF z [OF that]] name_at_slot [of j buf] entry_name [OF assms(3)] assms(1)
    by (auto simp: sector_names_def)
  show d: "de_at ?b j = (if j = k then e else de_at buf j)" if "j < 21" for j
    using t [OF that] bytes_de_bytes [OF assms(3)] by (simp add: de_at_def)
  show "sector_names ?b"
    using z n d l assms by (auto simp: sector_names_def entry_ok_def)
qed

lemma zero_sector: "sector_names (replicate 512 0)" "k < 21 \<Longrightarrow> name_at (replicate 512 0) k = []"
  by (auto simp: sector_names_def name_at_def cstr_def de_at_def bytes_de_def min_def)

section \<open>Looking through the sectors\<close>

fun scan_secs :: "u8 list \<Rightarrow> u8 list list \<Rightarrow> dir_entry option" where
  "scan_secs name [] = None"
| "scan_secs name (buf # bufs) =
     (case find (\<lambda>k. name_at buf k = name) [0..<21] of Some k \<Rightarrow> Some (de_at buf k) | None \<Rightarrow> scan_secs name bufs)"

lemma find_here: "k < n \<Longrightarrow> (\<forall>j<n. P j \<longleftrightarrow> j = k) \<Longrightarrow> find P [0..<n] = Some k"
  unfolding find_Some_iff by (intro exI [of _ k]) auto

lemma scan_secs_insert:
  assumes "\<forall>b \<in> set bufs. sector_names b" "t < length bufs" "k < 21" "f_type (de_at (bufs ! t) k) = FT_UNKNOWN"
    "entry_ok e name" "scan_secs name bufs = None" "x \<noteq> []"
  shows "scan_secs x (bufs[t := splice (bufs ! t) (24 * k) (de_bytes e)]) = (if x = name then Some e else scan_secs x bufs)"
  using assms(1,2,4,6)
proof (induction bufs arbitrary: t)
  case (Cons buf bufs)
  have none: "find (\<lambda>k. name_at buf k = name) [0..<21] = None" "scan_secs name bufs = None"
    using Cons.prems(4) by (auto split: option.splits)
  have other: "\<forall>j<21. name_at buf j \<noteq> name" using none(1) by (auto simp: find_None_iff)
  show ?case
  proof (cases t)
    case 0
    note ins = sector_insert [OF _ assms(3,5), of buf]
    have ok: "sector_names buf" using Cons.prems(1) by simp
    have empty: "name_at buf k = []" using ok assms(3) Cons.prems(3) 0 by (simp add: sector_names_def)
    let ?b = "splice buf (24 * k) (de_bytes e)"
    show ?thesis
    proof (cases "x = name")
      case True
      have "find (\<lambda>j. name_at ?b j = x) [0..<21] = Some k"
        using True other ins(2) [OF ok] by (intro find_here assms(3)) auto
      then show ?thesis using 0 True ins(3) [OF ok assms(3)] by simp
    next
      case False
      have f: "find (\<lambda>j. name_at ?b j = x) [0..<21] = find (\<lambda>j. name_at buf j = x) [0..<21]"
        using False empty assms(7) ins(2) [OF ok] by (intro find_cong) auto
      have "de_at ?b j = de_at buf j" if "find (\<lambda>j. name_at buf j = x) [0..<21] = Some j" for j
        using that empty assms(7) ins(3) [OF ok, of j] by (auto simp: find_Some_iff)
      then show ?thesis using 0 False f by (auto split: option.splits)
    qed
  next
    case (Suc t')
    then have "scan_secs x (bufs[t' := splice (bufs ! t') (24 * k) (de_bytes e)]) = (if x = name then Some e else scan_secs x bufs)"
      using Cons.IH [of t'] Cons.prems none(2) by simp
    moreover have "find (\<lambda>k. name_at buf k = x) [0..<21] = None" if "x = name" using that none(1) by simp
    ultimately show ?thesis using Suc by (auto split: option.splits)
  qed
qed simp

lemma scan_secs_append: "scan_secs x (as @ bs) = (case scan_secs x as of Some e \<Rightarrow> Some e | None \<Rightarrow> scan_secs x bs)"
  by (induction as) (auto split: option.splits)

section \<open>A directory\<close>

text \<open>Its first \<open>n\<close> blocks are set, the others and the table are not.\<close>

definition dir_blocks :: "fs \<Rightarrow> nat \<Rightarrow> nat \<Rightarrow> inode \<Rightarrow> nat \<Rightarrow> (nat \<Rightarrow> nat) \<Rightarrow> bool" where
  "dir_blocks s pdir ip i n f \<longleftrightarrow>
     map_option d_inode (dirs s pdir) = Some ip \<and> inodes s ip = Some i \<and> layout_ok s \<and> sectors_ok (part_medium s) \<and>
     (\<forall>k. mallocs s k) \<and> dir_entry_size (sb (cur_part s)) = 24 \<and> n \<le> 12 \<and>
     file_map s (part_medium s) (block_bitmap (cur_part s)) i n f 0 \<and>
     (\<forall>k<n. sector_names (part_medium s (blk_lba s (f k)))) \<and> 24 dvd unat (i_size i) \<and> unat (i_size i) < 2 ^ 31"

definition dir_bufs :: "fs \<Rightarrow> nat \<Rightarrow> (nat \<Rightarrow> nat) \<Rightarrow> u8 list list" where
  "dir_bufs s n f = map (\<lambda>k. part_medium s (blk_lba s (f k))) [0..<n]"

definition dir_lookup :: "nat \<Rightarrow> u8 list \<Rightarrow> fs \<Rightarrow> dir_entry option option" where
  "dir_lookup pdir name s = map_option fst (search_dir_entry pdir name s)"

lemma dir_sectors:
  assumes "dir_blocks s pdir ip i n f"
  shows "take 12 (i_sectors i) = map (\<lambda>k. blk_lba s (f k)) [0..<n] @ replicate (12 - n) 0" "i_sectors i ! 12 = 0"
    "length (i_sectors i) = 13" "k < n \<Longrightarrow> blk_lba s (f k) \<le> max_lba \<and> blk_lba s (f k) \<noteq> 0 \<and> blk_ok s (f k)"
proof -
  have m: "length (i_sectors i) = 13" "\<forall>k<n. used_blk s (block_bitmap (cur_part s)) (f k) \<and> fblk (part_medium s) i k = blk_lba s (f k)"
    "\<forall>k<12. n \<le> k \<longrightarrow> i_sectors i ! k = 0" "i_sectors i ! 12 = 0" "n \<le> 12" and lo: "layout_ok s"
    using assms by (auto simp: dir_blocks_def file_map_def)
  show "length (i_sectors i) = 13" "i_sectors i ! 12 = 0" by (rule m)+
  show "take 12 (i_sectors i) = map (\<lambda>k. blk_lba s (f k)) [0..<n] @ replicate (12 - n) 0"
  proof (rule nth_equalityI)
    fix k assume "k < length (take 12 (i_sectors i))"
    then have "k < 12" by simp
    moreover have "i_sectors i ! k = blk_lba s (f k)" if "k < n" using that m(2,5) by (simp add: fblk_def)
    ultimately show "take 12 (i_sectors i) ! k = (map (\<lambda>k. blk_lba s (f k)) [0..<n] @ replicate (12 - n) 0) ! k"
      using m(3) by (simp add: nth_append)
  qed (use m in simp)
  show "k < n \<Longrightarrow> blk_lba s (f k) \<le> max_lba \<and> blk_lba s (f k) \<noteq> 0 \<and> blk_ok s (f k)"
    using m(2) blk_lba_max [OF lo] by (auto simp: used_blk_def)
qed

lemma search_blocks_zeros: "search_blocks cnt name (replicate z 0) s = Some None"
proof (induction z rule: less_induct)
  case (less z)
  show ?case
  proof (cases z)
    case (Suc y)
    then show ?thesis using less [of "y - 1"] by (cases y) auto
  qed simp
qed

lemma search_blocks_secs:
  "\<forall>b \<in> set bs. b \<noteq> 0 \<and> b \<le> max_lba \<Longrightarrow> de_size s = 24 \<Longrightarrow>
     search_blocks 21 name (bs @ replicate z 0) s = Some (scan_secs name (map (part_medium s) bs))"
  by (induction bs) (auto simp: search_blocks_zeros part_read_medium de_at_def split: option.splits)

lemma dir_lookup_scan:
  assumes "dir_blocks s pdir ip i n f"
  shows "dir_lookup pdir name s = Some (scan_secs name (dir_bufs s n f))"
proof -
  have d: "map_option d_inode (dirs s pdir) = Some ip" "inodes s ip = Some i" "\<forall>k. mallocs s k"
    "dir_entry_size (sb (cur_part s)) = 24" "n \<le> 12"
    using assms by (simp_all add: dir_blocks_def)
  let ?s = "s\<lparr>malloc_cnt := Suc (malloc_cnt s)\<rparr>" let ?t = "?s\<lparr>malloc_cnt := Suc (Suc (malloc_cnt s))\<rparr>"
  note sec = dir_sectors [OF assms]
  have ab: "all_blocks_of i ?s = Some (map (\<lambda>k. blk_lba s (f k)) [0..<n] @ replicate (140 - n) 0)"
    using sec(1,2) d(5) by (simp add: all_blocks_of_def replicate_add [symmetric])
  have "search_blocks 21 name (map (\<lambda>k. blk_lba s (f k)) [0..<n] @ replicate (140 - n) 0) ?t =
      Some (scan_secs name (map (part_medium ?t) (map (\<lambda>k. blk_lba s (f k)) [0..<n])))"
    using sec(4) d(4) by (intro search_blocks_secs) (auto simp: de_size_def)
  then have "search_blocks 21 name (map (\<lambda>k. blk_lba s (f k)) [0..<n] @ replicate (140 - n) 0) ?t = Some (scan_secs name (dir_bufs s n f))"
    by (simp add: dir_bufs_def comp_def)
  moreover have "dir_inode_of pdir ?s = Some i" using d(1,2) by (auto simp: dir_inode_of_def)
  moreover have "entrys_per_sec ?t = Some 21" using d(4) by (simp add: entrys_per_sec_def)
  ultimately show ?thesis
    using d(3) ab by (simp add: dir_lookup_def search_dir_entry_def heap_alloc_def)
qed

section \<open>Inserting\<close>

lemma W_quiet [simp]:
  "dirs (W s ip c t m bm i) = dirs s" "junk_blocks (W s ip c t m bm i) = junk_blocks s"
  "blk_lba (W s ip c t m bm i) = blk_lba s" "data_base (W s ip c t m bm i) = data_base s"
  by (simp_all add: W_def blk_lba_def data_base_def fun_eq_iff)

lemma dir_blocks_W:
  assumes "dir_blocks s pdir ip i n f" "sectors_ok m'" "bm_ok s bm'" "n' \<le> 12" "file_map s m' bm' i' n' f' 0"
    "\<forall>k<n'. sector_names (m' (blk_lba s (f' k)))" "24 dvd unat (i_size i')" "unat (i_size i') < 2 ^ 31"
  shows "dir_blocks (W s ip c t m' bm' i') pdir ip i' n' f'"
  using assms W_layout [OF _ assms(3)] by (simp add: dir_blocks_def W_file_map)

lemma dir_bufs_W: "dir_bufs (W s ip c t m bm i) n f = map (\<lambda>k. m (blk_lba s (f k))) [0..<n]"
  by (simp add: dir_bufs_def)

text \<open>The first sector with a free entry takes the new one.\<close>

definition free_slot :: "u8 list \<Rightarrow> nat option" where
  "free_slot buf = find (\<lambda>k. f_type (de_at buf k) = FT_UNKNOWN) [0..<21]"

lemma sync_loop_slot:
  assumes "\<forall>k<n. all ! k \<noteq> 0 \<and> all ! k \<le> max_lba" "a \<le> b" "b < n" "n \<le> 140"
    "\<forall>j. a \<le> j \<and> j < b \<longrightarrow> free_slot (part_medium s (all ! j)) = None" "free_slot (part_medium s (all ! b)) = Some k"
    "part_write (all ! b) (splice (part_medium s (all ! b)) (24 * k) (take (de_size s) (de_bytes e))) s = Some s1"
  shows "sync_loop ip e 21 all [a..<140] s = Some (True, grow ip (dir_entry_size (sb (cur_part s1))) s1)"
  using assms(2,5)
proof (induction "b - a" arbitrary: a)
  case 0
  then have "a = b" by simp
  moreover have "[b..<140] = b # [Suc b..<140]" using assms(3,4) by (simp add: upt_conv_Cons)
  ultimately show ?case using assms(1,3,6,7) by (simp add: part_read_medium free_slot_def)
next
  case (Suc x)
  then have ab: "a < b" "x = b - Suc a" by simp_all
  then have "[a..<140] = a # [Suc a..<140]" using assms(3,4) by (simp add: upt_conv_Cons)
  moreover have "free_slot (part_medium s (all ! a)) = None" using Suc.prems(2) ab by simp
  moreover have "sync_loop ip e 21 all [Suc a..<140] s = Some (True, grow ip (dir_entry_size (sb (cur_part s1))) s1)"
    using Suc.prems(2) ab by (intro Suc.hyps(1)) auto
  ultimately show ?case using assms(1,3) ab by (simp add: part_read_medium free_slot_def)
qed

lemma sync_loop_full:
  assumes "\<forall>k<n. all ! k \<noteq> 0 \<and> all ! k \<le> max_lba" "a \<le> n" "n < 140" "all ! n = 0"
    "\<forall>j. a \<le> j \<and> j < n \<longrightarrow> free_slot (part_medium s (all ! j)) = None"
  shows "sync_loop ip e 21 all [a..<140] s = sync_new_block ip e n all s"
  using assms(2,5)
proof (induction "n - a" arbitrary: a)
  case 0
  then have "a = n" by simp
  moreover have "[n..<140] = n # [Suc n..<140]" using assms(3) by (simp add: upt_conv_Cons)
  ultimately show ?case using assms(4) by simp
next
  case (Suc x)
  then have an: "a < n" "x = n - Suc a" by simp_all
  then have "[a..<140] = a # [Suc a..<140]" using assms(3) by (simp add: upt_conv_Cons)
  moreover have "free_slot (part_medium s (all ! a)) = None" using Suc.prems(2) an by simp
  moreover have "sync_loop ip e 21 all [Suc a..<140] s = sync_new_block ip e n all s"
    using Suc.prems(2) an by (intro Suc.hyps(1)) auto
  ultimately show ?case using assms(1) an by (simp add: part_read_medium free_slot_def)
qed

text \<open>What an insertion achieves.\<close>

definition inserted :: "fs \<Rightarrow> nat \<Rightarrow> dir_entry \<Rightarrow> u8 list \<Rightarrow> fs \<Rightarrow> bool" where
  "inserted s pdir e name s' \<longleftrightarrow> (\<exists>ip i n f. dir_blocks s' pdir ip i n f) \<and>
     (\<forall>x. x \<noteq> [] \<longrightarrow> dir_lookup pdir x s' = (if x = name then Some (Some e) else dir_lookup pdir x s))"

lemma insert_old_block:
  assumes D: "dir_blocks s pdir ip i n f" and e: "entry_ok e name" "dir_lookup pdir name s = Some None"
    and b: "b < n" "free_slot (part_medium s (blk_lba s (f b))) = Some k" "unat (i_size i) < 2 ^ 30"
  shows "\<exists>s1. part_write (blk_lba s (f b)) (splice (part_medium s (blk_lba s (f b))) (24 * k) (take (de_size s) (de_bytes e))) s = Some s1 \<and>
    inserted s pdir e name (grow ip (dir_entry_size (sb (cur_part s1))) s1)"
proof -
  let ?m = "part_medium s" and ?bm = "block_bitmap (cur_part s)" and ?lba = "blk_lba s (f b)"
  have d: "inodes s ip = Some i" "layout_ok s" "sectors_ok ?m" "dir_entry_size (sb (cur_part s)) = 24" "n \<le> 12"
    "file_map s ?m ?bm i n f 0" "\<forall>k<n. sector_names (?m (blk_lba s (f k)))" "24 dvd unat (i_size i)"
    using D by (simp_all add: dir_blocks_def)
  note sec = dir_sectors [OF D]
  let ?buf = "splice (?m ?lba) (24 * k) (de_bytes e)"
  have k: "k < 21" "f_type (de_at (?m ?lba) k) = FT_UNKNOWN" using b(2) by (auto simp: free_slot_def find_Some_iff)
  have sn: "sector_names (?m ?lba)" using d(7) b(1) by blast
  note ins = sector_insert [OF sn k(1) e(1)]
  have len: "length ?buf = 512" using ins(1) by (simp add: sector_names_def)
  let ?m' = "?m(?lba := ?buf)" and ?i' = "i\<lparr>i_size := i_size i + 24\<rparr>"
  let ?s1 = "W s ip (malloc_cnt s) (file_table s) ?m' ?bm i"
  have bytes: "take (de_size s) (de_bytes e) = de_bytes e" using d(4) de_bytes_length [OF e(1)] by (simp add: de_size_def)
  have "part_write ?lba ?buf (W s ip (malloc_cnt s) (file_table s) ?m ?bm i) = Some ?s1"
    using len sec(4) [OF b(1)] by (simp add: write_one)
  then have w: "part_write ?lba (splice (?m ?lba) (24 * k) (take (de_size s) (de_bytes e))) s = Some ?s1"
    unfolding bytes W_self [OF d(1)] .
  have g: "grow ip (dir_entry_size (sb (cur_part ?s1))) ?s1 = W s ip (malloc_cnt s) (file_table s) ?m' ?bm ?i'"
    using d(4) by (simp add: grow_def)
  have inj: "blk_lba s (f j) = ?lba \<longleftrightarrow> j = b" if "j < n" for j
    using blk_lba_inj [OF d(2), of "f j" "f b"] sec(4) that b(1) d(6) by (auto simp: file_map_def inj_on_def)
  have sz: "unat (i_size i + 24) = unat (i_size i) + 24" using b(3) by (subst unat_add_small) simp_all
  have dir': "dir_blocks (W s ip (malloc_cnt s) (file_table s) ?m' ?bm ?i') pdir ip ?i' n f"
  proof (rule dir_blocks_W [OF D])
    show "sectors_ok ?m'" using d(3) len by (simp add: sectors_ok_def)
    show "bm_ok s ?bm" by (simp add: bm_ok_def)
    show "file_map s ?m' ?bm ?i' n f 0" using d(5,6) by (auto simp: file_map_def fblk_def)
    show "\<forall>k<n. sector_names (?m' (blk_lba s (f k)))" using d(7) ins(1) by auto
    show "24 dvd unat (i_size ?i')" using d(8) sz by simp
    show "unat (i_size ?i') < 2 ^ 31" using b(3) sz by simp
  qed (rule d(5))
  have bufs: "dir_bufs (W s ip (malloc_cnt s) (file_table s) ?m' ?bm ?i') n f = (dir_bufs s n f)[b := ?buf]"
    unfolding dir_bufs_W by (rule nth_equalityI) (auto simp: dir_bufs_def nth_list_update inj b(1))
  have nb: "dir_bufs s n f ! b = ?m ?lba" "b < length (dir_bufs s n f)" using b(1) by (simp_all add: dir_bufs_def)
  have names: "\<forall>b \<in> set (dir_bufs s n f). sector_names b" using d(7) by (auto simp: dir_bufs_def)
  have none: "scan_secs name (dir_bufs s n f) = None" using e(2) dir_lookup_scan [OF D] by simp
  have "dir_lookup pdir x (W s ip (malloc_cnt s) (file_table s) ?m' ?bm ?i') =
      (if x = name then Some (Some e) else dir_lookup pdir x s)" if "x \<noteq> []" for x
    unfolding dir_lookup_scan [OF dir'] dir_lookup_scan [OF D] bufs
    using scan_secs_insert [OF names nb(2) k(1) _ e(1) none that] k(2) by (simp add: nb(1))
  then have "inserted s pdir e name (W s ip (malloc_cnt s) (file_table s) ?m' ?bm ?i')"
    unfolding inserted_def using dir' by blast
  then have "inserted s pdir e name (grow ip (dir_entry_size (sb (cur_part ?s1))) ?s1)" unfolding g .
  with w show ?thesis by blast
qed

lemma insert_new_block:
  assumes D: "dir_blocks s pdir ip i n f" and e: "entry_ok e name" "dir_lookup pdir name s = Some None"
    and n: "n < 12" "free_blocks (block_bitmap (cur_part s)) \<noteq> {}" "unat (i_size i) < 2 ^ 30"
  shows "\<exists>s'. sync_new_block ip e n all s = Some (True, s') \<and> inserted s pdir e name s'"
proof -
  let ?m = "part_medium s" and ?bm = "block_bitmap (cur_part s)"
  have d: "inodes s ip = Some i" "layout_ok s" "sectors_ok ?m" "dir_entry_size (sb (cur_part s)) = 24"
    "file_map s ?m ?bm i n f 0" "\<forall>k<n. sector_names (?m (blk_lba s (f k)))" "24 dvd unat (i_size i)"
    using D by (simp_all add: dir_blocks_def)
  note sec = dir_sectors [OF D]
  have bm: "bm_ok s ?bm" by (simp add: bm_ok_def)
  obtain j bm1 where j: "j \<in> free_blocks ?bm" "free_blocks bm1 = free_blocks ?bm - {j}" "bm_ok s bm1" "blk_ok s j"
    "\<And>c t m i. block_bitmap_alloc (W s ip c t m ?bm i) = Some (Some (blk_lba s j), W s ip c t m bm1 i)"
    using alloc_ok [OF d(2) bm n(2)] by metis
  let ?lba = "blk_lba s j" and ?i1 = "set_sector n (blk_lba s j) i"
  obtain m1 where m1: "bitmap_sync (?lba - data_base s) BLOCK_BITMAP (W s ip (malloc_cnt s) (file_table s) ?m bm1 i) =
      Some (W s ip (malloc_cnt s) (file_table s) m1 bm1 i)"
    "sectors_ok m1" "\<forall>x. unat (itab s) \<le> unat x \<longrightarrow> m1 x = ?m x"
    using sync_block_bit [OF d(2) j(4) d(3)] by blast
  let ?buf = "splice (replicate 512 0) (24 * 0) (de_bytes e)"
  have z: "f_type (de_at (replicate 512 0) 0) = FT_UNKNOWN" by (simp add: de_at_def bytes_de_def rd32_def FT_UNKNOWN_def numeral_eq_Suc)
  have lt: "(0::nat) < 21" by simp
  note ins = sector_insert [OF zero_sector(1) lt e(1)]
  have len: "length ?buf = 512" using ins(1) by (simp add: sector_names_def)
  let ?m' = "m1(?lba := ?buf)" and ?i' = "?i1\<lparr>i_size := i_size i + 24\<rparr>" and ?f' = "f(n := j)"
  let ?s' = "W s ip (malloc_cnt s) (file_table s) ?m' bm1 ?i'"
  have bytes: "take (de_size s) (de_bytes e) = de_bytes e" using d(4) de_bytes_length [OF e(1)] by (simp add: de_size_def)
  have run: "sync_new_block ip e n all (W s ip (malloc_cnt s) (file_table s) ?m ?bm i) = Some (True, ?s')"
    using m1(1) n(1) len blk_lba_max [OF d(2) j(4)] bytes d(4)
    by (simp add: sync_new_block_def j(5) data_base_def write_first_entry_def write_one grow_def de_size_def set_sector_def)
  have new: "f k \<noteq> j" "blk_lba s (f k) \<noteq> ?lba" "m1 (blk_lba s (f k)) = ?m (blk_lba s (f k))" if "k < n" for k
  proof -
    have u: "used_blk s ?bm (f k)" "blk_ok s (f k)" using d(5) that sec(4) by (auto simp: file_map_def)
    show f: "f k \<noteq> j" using u(1) j(1) by (auto simp: used_blk_def)
    show "blk_lba s (f k) \<noteq> ?lba" using blk_lba_inj [OF d(2) u(2) j(4)] f by simp
    show "m1 (blk_lba s (f k)) = ?m (blk_lba s (f k))" using m1(3) blk_lba_data [OF d(2) u(2)] by blast
  qed
  have sz: "unat (i_size i + 24) = unat (i_size i) + 24" using n(3) by (subst unat_add_small) simp_all
  have fm: "file_map s ?m' bm1 ?i' (Suc n) ?f' 0"
  proof -
    have "used_blk s bm1 (?f' k) \<and> fblk ?m' ?i' k = blk_lba s (?f' k)" if "k < Suc n" for k
      using that d(5) n(1) j(2,4) by (cases "k = n") (auto simp: file_map_def used_blk_def fblk_def set_sector_def nth_list_update)
    moreover have "inj_on ?f' {..<Suc n}" using d(5) new(1) by (auto simp: file_map_def lessThan_Suc inj_on_def)
    ultimately show ?thesis using d(5) n(1) by (auto simp: file_map_def set_sector_def nth_list_update)
  qed
  have dir': "dir_blocks ?s' pdir ip ?i' (Suc n) ?f'"
  proof (rule dir_blocks_W [OF D _ j(3) _ fm])
    show "sectors_ok ?m'" using m1(2) len by (simp add: sectors_ok_def)
    show "\<forall>k<Suc n. sector_names (?m' (blk_lba s (?f' k)))" using d(6) ins(1) new by (auto simp: less_Suc_eq)
    show "24 dvd unat (i_size ?i')" using d(7) sz by simp
    show "unat (i_size ?i') < 2 ^ 31" using n(3) sz by simp
  qed (use n(1) in simp)
  have bufs: "dir_bufs ?s' (Suc n) ?f' = dir_bufs s n f @ [?buf]"
    unfolding dir_bufs_W by (auto simp: dir_bufs_def new intro!: map_cong)
  have none: "scan_secs name (dir_bufs s n f) = None" using e(2) dir_lookup_scan [OF D] by simp
  have single: "scan_secs x [?buf] = (if x = name then Some e else None)" if "x \<noteq> []" for x
  proof -
    have "scan_secs y [replicate 512 0] = None" if "y \<noteq> []" for y
      using that zero_sector(2) by (auto simp: find_None_iff split: option.splits)
    moreover have "name \<noteq> []" using e(1) by (auto simp: entry_ok_def)
    ultimately show ?thesis
      using scan_secs_insert [of "[replicate 512 0]" 0 0 e name x] zero_sector(1) z e(1) that by simp
  qed
  have "dir_lookup pdir x ?s' = (if x = name then Some (Some e) else dir_lookup pdir x s)" if "x \<noteq> []" for x
    unfolding dir_lookup_scan [OF dir'] dir_lookup_scan [OF D] bufs scan_secs_append single [OF that]
    using none by (auto split: option.splits)
  then show ?thesis using run dir' unfolding inserted_def W_self [OF d(1)] by blast
qed

text \<open>A directory that can take an entry: a free one in a block it has, or a thirteenth is not needed and a block is free.\<close>

definition dir_room :: "fs \<Rightarrow> nat \<Rightarrow> bool" where
  "dir_room s pdir \<longleftrightarrow> (\<exists>ip i n f. dir_blocks s pdir ip i n f \<and> unat (i_size i) < 2 ^ 30 \<and>
     ((\<exists>b<n. free_slot (part_medium s (blk_lba s (f b))) \<noteq> None) \<or> n < 12 \<and> free_blocks (block_bitmap (cur_part s)) \<noteq> {}))"

lemma sync_dir_entry_inserts:
  assumes "dir_room s pdir" "entry_ok e name" "dir_lookup pdir name s = Some None"
  shows "\<exists>s'. sync_dir_entry pdir e s = Some (True, s') \<and> inserted s pdir e name s'"
proof -
  obtain ip i n f where D: "dir_blocks s pdir ip i n f" and sz: "unat (i_size i) < 2 ^ 30"
    and room: "(\<exists>b<n. free_slot (part_medium s (blk_lba s (f b))) \<noteq> None) \<or> n < 12 \<and> free_blocks (block_bitmap (cur_part s)) \<noteq> {}"
    using assms(1) unfolding dir_room_def by blast
  have d: "map_option d_inode (dirs s pdir) = Some ip" "inodes s ip = Some i" "dir_entry_size (sb (cur_part s)) = 24" "n \<le> 12"
    "24 dvd unat (i_size i)" using D by (simp_all add: dir_blocks_def)
  note sec = dir_sectors [OF D]
  define all where "all = take 12 (i_sectors i) @ take 128 (junk_blocks s)"
  have al: "all ! k = blk_lba s (f k)" if "k < n" for k using that d(4) by (simp add: all_def sec(1) nth_append)
  have an: "all ! n = 0" if "n < 12" using that by (simp add: all_def sec(1) nth_append)
  have a0: "\<forall>k<n. all ! k \<noteq> 0 \<and> all ! k \<le> max_lba" using al sec(4) by simp
  have "unat (i_size i mod 24) = 0" using d(5) by (simp add: unat_mod mod_eq_0_iff_dvd)
  then have m: "i_size i mod 24 = 0" by (simp add: word_unat_eq_iff)
  obtain z where z: "dirs s pdir = Some z" "d_inode z = ip" using d(1) by auto
  have per: "entrys_per_sec s = Some 21" using d(3) by (simp add: entrys_per_sec_def)
  have c: "(i_size i mod dir_entry_size (sb (cur_part s)) \<noteq> 0) = False" unfolding d(3) using m by blast
  have run: "sync_dir_entry pdir e s = sync_loop ip e 21 all [0..<140] s"
    unfolding sync_dir_entry_def z(1) by (simp only: Option.bind.bind_lunit z(2) d(2) per c if_False all_def)
  show ?thesis
  proof (cases "\<exists>b<n. free_slot (part_medium s (blk_lba s (f b))) \<noteq> None")
    case True
    define b where "b = (LEAST b. b < n \<and> free_slot (part_medium s (blk_lba s (f b))) \<noteq> None)"
    have b: "b < n" "free_slot (part_medium s (blk_lba s (f b))) \<noteq> None" using LeastI_ex [OF True] unfolding b_def by blast+
    have before: "free_slot (part_medium s (all ! j)) = None" if "j < b" for j
      using not_less_Least [of j "\<lambda>b. b < n \<and> free_slot (part_medium s (blk_lba s (f b))) \<noteq> None"] that b(1) al [of j]
      unfolding b_def [symmetric] by simp
    obtain k where k: "free_slot (part_medium s (blk_lba s (f b))) = Some k" using b(2) by blast
    obtain s1 where s1: "part_write (blk_lba s (f b)) (splice (part_medium s (blk_lba s (f b))) (24 * k) (take (de_size s) (de_bytes e))) s = Some s1"
      "inserted s pdir e name (grow ip (dir_entry_size (sb (cur_part s1))) s1)"
      using insert_old_block [OF D assms(2,3) b(1) k sz] by blast
    have "sync_loop ip e 21 all [0..<140] s = Some (True, grow ip (dir_entry_size (sb (cur_part s1))) s1)"
      using a0 b(1) d(4) before k s1(1) al [OF b(1)] by (intro sync_loop_slot) auto
    with run s1(2) show ?thesis by auto
  next
    case False
    then have n: "n < 12" "free_blocks (block_bitmap (cur_part s)) \<noteq> {}" using room by auto
    have "sync_loop ip e 21 all [0..<140] s = sync_new_block ip e n all s"
      using a0 n(1) an False al by (intro sync_loop_full) auto
    then show ?thesis using run insert_new_block [OF D assms(2,3) n sz, of all] by simp
  qed
qed

section \<open>Lookup after insertion\<close>


text \<open>The first name of an empty directory.\<close>

definition demo_dir :: fs where
  "demo_dir = demo_fs\<lparr>dirs := [5 \<mapsto> \<lparr>d_inode = 2, dir_pos = 0\<rparr>]\<rparr>"

lemma demo_dir_blocks: "dir_blocks demo_dir 5 2 demo_inode 0 f" "free_blocks (block_bitmap (cur_part demo_dir)) \<noteq> {}"
proof -
  have "layout_ok demo_dir = layout_ok demo_fs" "part_medium demo_dir = part_medium demo_fs" "inodes demo_dir = inodes demo_fs"
    "mallocs demo_dir = mallocs demo_fs" "cur_part demo_dir = cur_part demo_fs"
    by (simp_all add: demo_dir_def layout_ok_def itab_def data_base_def blk_ok_def part_medium_def Let_def)
  note eq = this
  have "dir_entry_size (sb (cur_part demo_fs)) = 24" by (simp add: demo_fs_def demo_part_def)
  then show "dir_blocks demo_dir 5 2 demo_inode 0 f"
    unfolding dir_blocks_def eq using demo_layout(1,2,3,5,8) by (simp add: demo_dir_def file_map_def demo_inode_def)
  show "free_blocks (block_bitmap (cur_part demo_dir)) \<noteq> {}" unfolding eq using demo_free by auto
qed


section \<open>Deleting\<close>

text \<open>What the scan of a sector counts: used entries other than the two dots; among them the one it looks for.\<close>

definition counts :: "u8 list \<Rightarrow> nat \<Rightarrow> bool" where
  "counts buf k \<longleftrightarrow> f_type (de_at buf k) \<noteq> FT_UNKNOWN \<and> name_at buf k \<noteq> [46] \<and> name_at buf k \<noteq> [46, 46]"

definition hits :: "u32 \<Rightarrow> u8 list \<Rightarrow> nat \<Rightarrow> bool" where
  "hits ino buf k \<longleftrightarrow> counts buf k \<and> de_i_no (de_at buf k) = ino"

definition has_dot :: "u8 list \<Rightarrow> nat list \<Rightarrow> bool" where
  "has_dot buf ks \<longleftrightarrow> (\<exists>k \<in> set ks. f_type (de_at buf k) \<noteq> FT_UNKNOWN \<and> name_at buf k = [46])"

lemma scan_block_append:
  "scan_block buf ino (as @ bs) sc = Option.bind (scan_block buf ino as sc) (scan_block buf ino bs)"
  by (induction as arbitrary: sc) (simp_all add: Let_def)

lemma scan_block_miss:
  "\<forall>k \<in> set ks. \<not> hits ino buf k \<Longrightarrow> scan_block buf ino ks sc =
     Some (sc\<lparr>is_dir_first_block := is_dir_first_block sc \<or> has_dot buf ks,
              dir_entry_cnt := dir_entry_cnt sc + length (filter (counts buf) ks)\<rparr>)"
  by (induction ks arbitrary: sc) (auto simp: hits_def counts_def has_dot_def Let_def)

lemma scan_block_hit:
  assumes "hits ino buf k" "k < 21" "\<forall>j<21. hits ino buf j \<longrightarrow> j = k"
  shows "\<exists>sc. scan_block buf ino [0..<21] \<lparr>is_dir_first_block = False, dir_entry_cnt = 0, dir_entry_found = None\<rparr> = Some sc \<and>
    dir_entry_found sc = Some k \<and> is_dir_first_block sc = has_dot buf [0..<21] \<and>
    dir_entry_cnt sc = length (filter (counts buf) [0..<21])"
proof -
  have r: "[0..<21] = [0..<k] @ k # [Suc k..<21]"
  proof -
    have "[0..<k + (21 - k)] = [0..<k] @ [k..<k + (21 - k)]" by (rule upt_add_eq_append) simp
    moreover have "k + (21 - k) = 21" "[k..<21] = k # [Suc k..<21]" using assms(2) by (simp_all add: upt_conv_Cons)
    ultimately show ?thesis by simp
  qed
  have "\<not> hits ino buf j" if "j < 21" "j \<noteq> k" for j using assms(3) that by blast
  then have miss: "\<forall>j \<in> set [0..<k]. \<not> hits ino buf j" "\<forall>j \<in> set [Suc k..<21]. \<not> hits ino buf j"
    using assms(2) by simp_all
  have c: "f_type (de_at buf k) \<noteq> FT_UNKNOWN" "name_at buf k \<noteq> [46]" "name_at buf k \<noteq> [46, 46]" "de_i_no (de_at buf k) = ino"
    "counts buf k" using assms(1) by (simp_all add: hits_def counts_def)
  have h: "has_dot buf (as @ k # bs) = (has_dot buf as \<or> has_dot buf bs)" for as bs using c(2) by (auto simp: has_dot_def)
  show ?thesis
    unfolding r scan_block_append scan_block_miss [OF miss(1)] by (simp add: c Let_def scan_block_miss [OF miss(2)] h)
qed

lemma zero_insert:
  assumes "sector_names buf" "k < 21"
  shows "sector_names (splice buf (24 * k) (replicate 24 0))"
    "j < 21 \<Longrightarrow> name_at (splice buf (24 * k) (replicate 24 0)) j = (if j = k then [] else name_at buf j)"
    "j < 21 \<Longrightarrow> j \<noteq> k \<Longrightarrow> de_at (splice buf (24 * k) (replicate 24 0)) j = de_at buf j"
proof -
  let ?b = "splice buf (24 * k) (replicate 24 0)"
  have l: "length buf = 512" using assms(1) by (simp add: sector_names_def)
  have t: "take 24 (drop (24 * j) ?b) = (if j = k then replicate 24 0 else take 24 (drop (24 * j) buf))" if "j < 21" for j
    by (rule slot_splice [OF l that assms(2)]) simp
  have t16: "take 16 (drop (24 * j) ?b) = (if j = k then replicate 16 0 else take 16 (drop (24 * j) buf))" if "j < 21" for j
    using arg_cong [OF t [OF that], of "take 16"] by (simp add: min_def split: if_splits)
  have z: "0 \<in> set (take 16 (drop (24 * j) ?b))" if "j < 21" for j
    using that t16 [OF that] assms(1) by (auto simp: sector_names_def)
  show n: "name_at ?b j = (if j = k then [] else name_at buf j)" if "j < 21" for j
    using that t [OF that] name_at_slot [OF z [OF that]] name_at_slot [of j buf] assms(1)
    by (auto simp: sector_names_def cstr_def)
  show d: "de_at ?b j = de_at buf j" if "j < 21" "j \<noteq> k" for j using t [OF that(1)] that(2) by (simp add: de_at_def)
  have "f_type (de_at ?b j) = FT_UNKNOWN \<longrightarrow> name_at ?b j = []" if "j < 21" for j
    using that n [OF that] d [OF that] assms(1) by (auto simp: sector_names_def)
  then show "sector_names ?b" using z l assms(2) by (simp add: sector_names_def)
qed

lemma scan_secs_none: "\<forall>b \<in> set bufs. \<forall>k<21. name_at b k \<noteq> x \<Longrightarrow> scan_secs x bufs = None"
  by (induction bufs) (auto simp: find_None_iff split: option.splits)

lemma scan_secs_delete:
  assumes "\<forall>b \<in> set bufs. sector_names b" "t < length bufs" "k < 21" "name_at (bufs ! t) k = name" "x \<noteq> []"
    "\<forall>t'<length bufs. \<forall>k'<21. name_at (bufs ! t') k' = name \<longrightarrow> t' = t \<and> k' = k"
  shows "scan_secs x (bufs[t := splice (bufs ! t) (24 * k) (replicate 24 0)]) = (if x = name then None else scan_secs x bufs)"
proof -
  let ?b = "splice (bufs ! t) (24 * k) (replicate 24 0)"
  have ok: "sector_names (bufs ! t)" using assms(1,2) by simp
  note z = zero_insert [OF ok assms(3)]
  show ?thesis
  proof (cases "x = name")
    case True
    have "name_at (bufs[t := ?b] ! t') k' \<noteq> x" if "t' < length bufs" "k' < 21" for t' k'
    proof (cases "t' = t")
      case t: True
      have "k' \<noteq> k \<Longrightarrow> name_at (bufs ! t) k' \<noteq> x" using assms(6) True that t by blast
      then show ?thesis using t assms(2,5) z(2) [OF that(2)] by simp
    next
      case False
      moreover have "name_at (bufs ! t') k' \<noteq> x" using assms(6) True that False by blast
      ultimately show ?thesis by simp
    qed
    then have "\<forall>b \<in> set (bufs[t := ?b]). \<forall>k'<21. name_at b k' \<noteq> x"
      by (metis in_set_conv_nth length_list_update)
    with True show ?thesis by (simp add: scan_secs_none)
  next
    case False
    have f: "find (\<lambda>j. name_at ?b j = x) [0..<21] = find (\<lambda>j. name_at (bufs ! t) j = x) [0..<21]"
      using False assms(4,5) z(2) by (intro find_cong) auto
    have d: "de_at ?b j = de_at (bufs ! t) j" if "find (\<lambda>j. name_at (bufs ! t) j = x) [0..<21] = Some j" for j
      using that False assms(4) z(3) [of j] by (cases "j = k") (auto simp: find_Some_iff)
    have one: "scan_secs x (?b # as) = scan_secs x (bufs ! t # as)" for as using f d by (auto split: option.splits)
    have "scan_secs x (take t bufs @ ?b # drop (Suc t) bufs) = scan_secs x (take t bufs @ bufs ! t # drop (Suc t) bufs)"
      unfolding scan_secs_append one ..
    then show ?thesis
      using False upd_conv_take_nth_drop [OF assms(2), of ?b] id_take_nth_drop [OF assms(2)] by presburger
  qed
qed

lemma delete_loop_at:
  assumes "\<forall>k<n. all ! k \<noteq> 0 \<and> all ! k \<le> max_lba" "a \<le> b" "b < n" "n \<le> 140"
    "\<forall>j. a \<le> j \<and> j < b \<longrightarrow> (\<forall>k<21. \<not> hits ino (part_medium s (all ! j)) k)"
    "hits ino buf k" "k < 21" "\<forall>j<21. hits ino buf j \<longrightarrow> j = k" "buf = part_medium s (all ! b)"
    "has_dot buf [0..<21] \<or> length (filter (counts buf) [0..<21]) \<noteq> 1"
    "part_write (all ! b) (splice buf (24 * k) (replicate (de_size s) 0)) s = Some s1" "inodes s1 ip = Some i"
    "\<not> i_size i < dir_entry_size (sb (cur_part s1))"
  shows "delete_loop ip ino 21 all [a..<140] s =
    do { let s = upd_inode ip (\<lambda>i. i\<lparr>i_size := i_size i - dir_entry_size (sb (cur_part s1))\<rparr>) s1;
         i \<leftarrow> inodes s ip;
         s \<leftarrow> inode_sync i s;
         Some (True, s) }"
  using assms(2,5)
proof (induction "b - a" arbitrary: a)
  case 0
  then have "a = b" by simp
  moreover have "[b..<140] = b # [Suc b..<140]" using assms(3,4) by (simp add: upt_conv_Cons)
  moreover obtain sc where sc: "scan_block buf ino [0..<21] \<lparr>is_dir_first_block = False, dir_entry_cnt = 0, dir_entry_found = None\<rparr> = Some sc"
    "dir_entry_found sc = Some k" "is_dir_first_block sc = has_dot buf [0..<21]"
    "dir_entry_cnt sc = length (filter (counts buf) [0..<21])"
    using scan_block_hit [OF assms(6,7,8)] by blast
  moreover have "1 \<le> length (filter (counts buf) [0..<21])"
  proof -
    have "k \<in> set (filter (counts buf) [0..<21])" using assms(6,7) by (simp add: hits_def)
    then have "0 < length (filter (counts buf) [0..<21])" by (rule length_pos_if_in_set)
    then show ?thesis by linarith
  qed
  ultimately show ?case using assms(1,3,9,10,11,12,13) by (auto simp: part_read_medium)
next
  case (Suc x)
  then have ab: "a < b" "x = b - Suc a" by simp_all
  then have "[a..<140] = a # [Suc a..<140]" using assms(3,4) by (simp add: upt_conv_Cons)
  moreover have "\<forall>k \<in> set [0..<21]. \<not> hits ino (part_medium s (all ! a)) k" using Suc.prems(2) ab by simp
  note scan_block_miss [OF this]
  moreover note Suc.hyps(1) [OF ab(2)] Suc.prems(2) ab
  ultimately show ?case using assms(1,3) by (simp add: part_read_medium)
qed

text \<open>
  \<open>dir_holds\<close>: the directory has one entry with the inode number and it is the only one of its name. The
  block it is in keeps another entry, or is the one with the dot: otherwise the code gives the block back and
  leaves a hole.
\<close>

definition dir_holds :: "fs \<Rightarrow> nat \<Rightarrow> u32 \<Rightarrow> u8 list \<Rightarrow> bool" where
  "dir_holds s pdir ino name \<longleftrightarrow> (\<exists>ip i n f b k. dir_blocks s pdir ip i n f \<and> b < n \<and> k < 21 \<and> 24 \<le> unat (i_size i) \<and>
     (let sec = (\<lambda>b. part_medium s (blk_lba s (f b))) in
      hits ino (sec b) k \<and> name_at (sec b) k = name \<and> name \<noteq> [] \<and>
      (\<forall>b'<n. \<forall>k'<21. hits ino (sec b') k' \<or> name_at (sec b') k' = name \<longrightarrow> b' = b \<and> k' = k) \<and>
      (has_dot (sec b) [0..<21] \<or> length (filter (counts (sec b)) [0..<21]) \<noteq> 1)))"


text \<open>A directory with a block that holds the dot, the two dots and one name, whose inode number is 7.\<close>

definition demo_entry :: "u8 list \<Rightarrow> u32 \<Rightarrow> u32 \<Rightarrow> dir_entry" where
  "demo_entry name ino ft = \<lparr>filename = name @ replicate (16 - length name) 0, de_i_no = ino, f_type = ft\<rparr>"

definition demo_block :: "u8 list" where
  "demo_block = splice (splice (splice (replicate 512 0) (24 * 0) (de_bytes (demo_entry [46] 2 FT_DIRECTORY)))
     (24 * 1) (de_bytes (demo_entry [46, 46] 0 FT_DIRECTORY))) (24 * 2) (de_bytes (demo_entry [104, 105] 7 FT_REGULAR))"

lemma demo_block:
  "sector_names demo_block" "k < 21 \<Longrightarrow> name_at demo_block k = (if k = 2 then [104, 105] else if k = 1 then [46, 46] else if k = 0 then [46] else [])"
  "k < 21 \<Longrightarrow> de_at demo_block k = (if k = 2 then demo_entry [104, 105] 7 FT_REGULAR else if k = 1 then demo_entry [46, 46] 0 FT_DIRECTORY
     else if k = 0 then demo_entry [46] 2 FT_DIRECTORY else de_at (replicate 512 0) k)"
proof -
  have e: "entry_ok (demo_entry [46] 2 FT_DIRECTORY) [46]" "entry_ok (demo_entry [46, 46] 0 FT_DIRECTORY) [46, 46]" "entry_ok (demo_entry [104, 105] 7 FT_REGULAR) [104, 105]"
    by (simp_all add: entry_ok_def demo_entry_def FT_DIRECTORY_def FT_REGULAR_def FT_UNKNOWN_def)
  note s1 = sector_insert [OF zero_sector(1) _ e(1), of 0]
  note s2 = sector_insert [OF s1(1) _ e(2), of 1]
  note s3 = sector_insert [OF s2(1) _ e(3), of 2]
  show "sector_names demo_block" unfolding demo_block_def by (rule s3(1)) simp_all
  show "name_at demo_block k = (if k = 2 then [104, 105] else if k = 1 then [46, 46] else if k = 0 then [46] else [])" if "k < 21"
    using that s1(2) [of k] s2(2) [of k] s3(2) [of k] zero_sector(2) [of k] by (simp add: demo_block_def)
  show "de_at demo_block k = (if k = 2 then demo_entry [104, 105] 7 FT_REGULAR else if k = 1 then demo_entry [46, 46] 0 FT_DIRECTORY
     else if k = 0 then demo_entry [46] 2 FT_DIRECTORY else de_at (replicate 512 0) k)" if "k < 21"
    using that s1(3) [of k] s2(3) [of k] s3(3) [of k] by (simp add: demo_block_def)
qed

definition demo_names :: fs where
  "demo_names = W demo_dir 2 0 [] ((part_medium demo_dir)(blk_lba demo_dir 0 := demo_block)) (block_bitmap (cur_part demo_dir))
     (demo_inode\<lparr>i_size := 72, i_sectors := blk_lba demo_dir 0 # replicate 12 0\<rparr>)"

lemma demo_names_holds: "dir_holds demo_names 5 7 [104, 105]"
proof -
  let ?i = "demo_inode\<lparr>i_size := 72, i_sectors := blk_lba demo_dir 0 # replicate 12 0\<rparr>"
  let ?m = "(part_medium demo_dir)(blk_lba demo_dir 0 := demo_block)"
  note D = demo_dir_blocks(1) [of "\<lambda>_. 0"]
  have "sectors_ok (part_medium demo_dir)" using D by (simp add: dir_blocks_def)
  then have m: "sectors_ok ?m" using demo_block(1) by (simp add: sectors_ok_def sector_names_def)
  have used: "used_blk demo_dir (block_bitmap (cur_part demo_dir)) 0"
    by (simp add: used_blk_def blk_ok_def free_blocks_def bm_used_def bitmap_scan_test_def demo_dir_def demo_fs_def demo_part_def
        bm_bits_def data_base_def bitmap_mask_def)
  have "dir_blocks demo_names 5 2 ?i 1 (\<lambda>_. 0)"
    unfolding demo_names_def
    by (rule dir_blocks_W [OF D m]) (use used demo_block(1) in \<open>simp_all add: bm_ok_def file_map_def inj_on_def fblk_def\<close>)
  moreover have sec: "part_medium demo_names (blk_lba demo_names 0) = demo_block"
    by (simp add: demo_names_def)
  have h: "hits 7 demo_block k \<longleftrightarrow> k = 2" if "k < 21" for k
  proof -
    have "rd32 (replicate 24 0) 20 = 0" by (simp add: rd32_def eval_nat_numeral)
    then have z: "f_type (de_at (replicate 512 0) k) = 0" using that by (auto simp: de_at_def bytes_de_def min_def)
    show ?thesis
      unfolding hits_def counts_def demo_block(2,3) [OF that] using z
      by (auto simp: demo_entry_def FT_DIRECTORY_def FT_REGULAR_def FT_UNKNOWN_def)
  qed
  have dot: "has_dot demo_block [0..<21]"
    unfolding has_dot_def by (rule bexI [of _ 0]) (simp_all add: demo_block(2,3) demo_entry_def FT_DIRECTORY_def FT_REGULAR_def FT_UNKNOWN_def)
  show ?thesis
    unfolding dir_holds_def Let_def
    by (intro exI [of _ 2] exI [of _ ?i] exI [of _ 1] exI [of _ "\<lambda>_. 0"] exI [of _ 0] exI [of _ "2::nat"])
      (use calculation h dot in \<open>auto simp: sec demo_block(2)\<close>)
qed


end
