(* ===== verification/OpenCorrect.thy ===== *)
theory OpenCorrect
  imports Userio DirCorrect
begin

text \<open>
  Opening a file by its name: \<^verbatim>\<open>sys_open\<close> goes from the path through the root directory and the inode
  table to a descriptor, from which the file's bytes are read.
\<close>

section \<open>The path\<close>

definition plain_name :: "u8 list \<Rightarrow> bool" where
  "plain_name name \<longleftrightarrow> name \<noteq> [] \<and> length name < 16 \<and> slash \<notin> set name \<and> name \<noteq> [46] \<and> name \<noteq> [46, 46]"

lemma parse_root_name: "plain_name name \<Longrightarrow> parse_name (slash # name) = Some (None, name)"
proof -
  assume n: "plain_name name"
  then have dw: "dropWhile (\<lambda>c. c = slash) name = name" by (cases name) (auto simp: plain_name_def)
  have w: "dropWhile (\<lambda>c. c \<noteq> slash) name = []" "takeWhile (\<lambda>c. c \<noteq> slash) name = name"
    using n by (auto simp: plain_name_def takeWhile_eq_all_conv)
  have "path_parse (slash # name) = (None, name)"
    unfolding path_parse_def Let_def by (simp only: dropWhile.simps nth_Cons_0 if_True dw w simp_thms list.distinct)
  then show ?thesis using n by (simp add: parse_name_def plain_name_def MAX_FILE_NAME_LEN_def)
qed

lemma root_name_depth: "plain_name name \<Longrightarrow> path_depth_cnt junk (slash # name) = Some 1"
  by (simp add: path_depth_cnt_def parse_root_name) (subst depth_loop.simps, simp add: plain_name_def)

section \<open>Lookup\<close>

lemma search_dir_entry_quiet:
  "search_dir_entry pdir name s = Some (r, s') \<Longrightarrow> \<forall>k. mallocs s k \<Longrightarrow> s' = s\<lparr>malloc_cnt := Suc (Suc (malloc_cnt s))\<rparr>"
  by (auto simp: search_dir_entry_def heap_alloc_def split: bind_splits)

lemma search_file_root:
  assumes n: "plain_name name" and s: "\<forall>k. mallocs s k" "dir_lookup root_dir name s = Some (Some e)" "f_type e = FT_REGULAR"
  shows "search_file (slash # name) s =
    Some (de_i_no e, \<lparr>searched_path = slash # name, parent_dir = root_dir, file_type = FT_REGULAR\<rparr>,
      s\<lparr>malloc_cnt := Suc (Suc (malloc_cnt s))\<rparr>)"
proof -
  have f: "search_dir_entry root_dir name s = Some (Some e, s\<lparr>malloc_cnt := Suc (Suc (malloc_cnt s))\<rparr>)"
    using s(2) search_dir_entry_quiet [OF _ s(1)] by (auto simp: dir_lookup_def)
  have N: "name \<noteq> []" "Suc (length name) < 512" "\<not> root_path (slash # name)" using n by (auto simp: plain_name_def root_path_def)
  have "FT_REGULAR \<noteq> FT_DIRECTORY" by (simp add: FT_REGULAR_def FT_DIRECTORY_def)
  then have "search_loop None name root_dir 0 (junk_ino s) \<lparr>searched_path = [], parent_dir = root_dir, file_type = FT_UNKNOWN\<rparr> s =
    Some (de_i_no e, \<lparr>searched_path = slash # name, parent_dir = root_dir, file_type = FT_REGULAR\<rparr>,
      s\<lparr>malloc_cnt := Suc (Suc (malloc_cnt s))\<rparr>)"
    using N f s(3) by (subst search_loop.simps) (simp add: MAX_PATH_LEN_def Let_def)
  then show ?thesis using N parse_root_name [OF n] by (simp add: search_file_def MAX_PATH_LEN_def)
qed

section \<open>The inode and the descriptor\<close>

text \<open>The inode of a number, as it is in memory when it is open, else as it is on the disk.\<close>

definition inode_numbered :: "fs \<Rightarrow> u32 \<Rightarrow> inode \<Rightarrow> bool" where
  "inode_numbered s no j \<longleftrightarrow>
     (case find_open (inodes s) no (open_inodes (cur_part s)) of
        Some (Some p) \<Rightarrow> inodes s p = Some j
      | Some None \<Rightarrow> unat no < 4096 \<and> disk_inode s (unat no) = j
      | None \<Rightarrow> False)"

definition same_contents :: "inode \<Rightarrow> inode \<Rightarrow> bool" where
  "same_contents i j \<longleftrightarrow> i_size i = i_size j \<and> i_sectors i = i_sectors j"

lemma same_contents:
  assumes "same_contents i j"
  shows "file_bytes m i = file_bytes m j" "file_ok s i = file_ok s j"
proof -
  have f: "fblk m i = fblk m j" for m using assms by (simp add: same_contents_def fblk_def fun_eq_iff)
  show "file_ok s i = file_ok s j" using assms f by (simp add: same_contents_def file_ok_def file_map_def)
  show "file_bytes m i = file_bytes m j" using assms f by (simp add: same_contents_def file_bytes_def fbyte_def)
qed

lemma inode_open_numbered:
  assumes "inode_numbered s no j" "table_ok s" "\<forall>k. mallocs s k"
  shows "\<exists>p c q os ji. same_contents ji j \<and>
    inode_open no s = Some (p, s\<lparr>malloc_cnt := c, next_ptr := q, cur_part := (cur_part s)\<lparr>open_inodes := os\<rparr>,
       inodes := (inodes s)(p \<mapsto> ji)\<rparr>)"
proof (cases "find_open (inodes s) no (open_inodes (cur_part s))")
  case None
  then show ?thesis using assms(1) by (simp add: inode_numbered_def)
next
  case (Some r)
  show ?thesis
  proof (cases r)
    case None
    then have n: "unat no < 4096" "disk_inode s (unat no) = j" using Some assms(1) by (simp_all add: inode_numbered_def)
    have "find_open (inodes s) (of_nat (unat no)) (open_inodes (cur_part s)) = Some None" using Some None by simp
    from inode_open_fresh [OF assms(2) n(1) assms(3) this] n(2) show ?thesis
      by (intro exI [of _ "next_ptr s"] exI [of _ "malloc_cnt s + 2"] exI [of _ "next_ptr s + 1"]
          exI [of _ "next_ptr s # open_inodes (cur_part s)"] exI [of _ "j\<lparr>i_open_cnts := 1\<rparr>"]) (simp add: same_contents_def)
  next
    case p: (Some p)
    then have j: "inodes s p = Some j" using Some assms(1) by (simp add: inode_numbered_def)
    let ?j = "j\<lparr>i_open_cnts := i_open_cnts j + 1\<rparr>"
    have "inode_open no s = Some (p, s\<lparr>inodes := (inodes s)(p \<mapsto> ?j)\<rparr>)"
      using Some p j by (simp add: inode_open_def upd_inode_def)
    then show ?thesis
      by (intro exI [of _ p] exI [of _ "malloc_cnt s"] exI [of _ "next_ptr s"] exI [of _ "open_inodes (cur_part s)"] exI [of _ ?j]) (simp add: same_contents_def)
  qed
qed

definition fd_room :: "nat \<Rightarrow> nat \<Rightarrow> fs \<Rightarrow> bool" where
  "fd_room fd gi s \<longleftrightarrow> get_free_slot_in_global s = Some gi \<and> gi < length (file_table s) \<and>
     find (\<lambda>k. fd_table (tasks s (running s)) ! k = -1) [3..<8] = Some fd \<and> length (fd_table (tasks s (running s))) = 8"

lemma find_upt: "find P [a..<b] = Some k \<Longrightarrow> a \<le> k \<and> k < b \<and> P k"
  by (auto simp: find_Some_iff)

lemma find_from: "a \<le> k \<Longrightarrow> k < b \<Longrightarrow> P k \<Longrightarrow> \<forall>j. a \<le> j \<and> j < k \<longrightarrow> \<not> P j \<Longrightarrow> find P [a..<b] = Some k"
  by (auto simp: find_Some_iff intro!: exI [of _ "k - a"])

lemma install_first:
  assumes "fd_room fd gi s" "tasks t = tasks s" "running t = running s"
  shows "pcb_fd_install g t = (of_nat fd, upd_task (running s) (\<lambda>p. p\<lparr>fd_table := (fd_table (tasks s (running s)))[fd := g]\<rparr>) t)"
  using assms(1) unfolding fd_room_def pcb_fd_install_def Let_def assms(2,3) MAX_FILES_OPEN_PER_PROC_def by (simp only: option.case)

lemma at_file_installed:
  assumes "layout_ok s" "sectors_ok (part_medium s)" "\<forall>k. mallocs s k" "file_ok s j" "unat (i_size j) < 71168"
    "same_contents ji j" "fd_room fd gi s"
  shows "at_file (of_nat fd) (file_bytes (part_medium s) j) 0
    (upd_task (running s) (\<lambda>t. t\<lparr>fd_table := (fd_table (tasks s (running s)))[fd := of_nat gi]\<rparr>)
      (set_file gi \<lparr>fd_pos = 0, fd_flag = fl, fd_inode = p\<rparr>
        (s\<lparr>malloc_cnt := c, next_ptr := q, cur_part := (cur_part s)\<lparr>open_inodes := os\<rparr>, inodes := (inodes s)(p \<mapsto> ji)\<rparr>)))"
    (is "at_file _ _ _ ?s")
proof -
  have fd: "3 \<le> fd" "fd < 8" using assms(7) find_upt [of _ 3 8 fd] unfolding fd_room_def by blast+
  have gi: "gi < 32" "gi < length (file_table s)"
    using assms(7) find_upt [of _ 3 32 gi] unfolding fd_room_def get_free_slot_in_global_def MAX_FILE_OPEN_def by blast+
  have u: "unat (of_nat fd :: u32) = fd" "unat (of_nat gi :: u32) = gi" using fd gi by (simp_all add: unat_of_nat_32)
  then have n: "0 \<le> sint (of_nat fd :: u32)" "(of_nat fd :: u32) \<notin> {0, 1, 2}" "0 \<le> sint (of_nat gi :: u32)" "sint (of_nat gi :: u32) < 32"
    using fd gi by (auto simp: sint_small word_unat_eq_iff)
  have same: "layout_ok ?s = layout_ok s" "part_medium ?s = part_medium s" "mallocs ?s = mallocs s" "\<And>i. file_ok ?s i = file_ok s i"
    by (simp_all add: upd_task_def set_file_def layout_ok_def part_medium_def itab_def data_base_def blk_ok_def Let_def
      file_ok_def file_map_def used_blk_def blk_lba_def)
  have loc: "fd_local2global (of_nat fd) ?s = Some gi"
    using u fd n assms(7) by (simp add: fd_local2global_def upd_task_def set_file_def fd_room_def)
  have len: "length (file_bytes (part_medium s) j) = unat (i_size j)" by (simp add: file_bytes_def)
  have "file_table ?s ! gi = \<lparr>fd_pos = 0, fd_flag = fl, fd_inode = p\<rparr>" "length (file_table ?s) = length (file_table s)"
    "inodes ?s p = Some ji" using gi by (simp_all add: upd_task_def set_file_def)
  then show ?thesis
    unfolding at_file_def same using assms(1-5) n loc len gi same_contents [OF assms(6)] assms(6)
    by (auto simp: same_contents_def intro!: exI [of _ gi] exI [of _ p] exI [of _ ji])
qed

section \<open>Opening\<close>

text \<open>The root directory has a regular file \<open>name\<close> of the bytes \<open>d\<close>.\<close>

definition file_named :: "fs \<Rightarrow> u8 list \<Rightarrow> u8 list \<Rightarrow> bool" where
  "file_named s name d \<longleftrightarrow> (\<exists>ip i n f e j.
     dir_blocks s root_dir ip i n f \<and> dir_lookup root_dir name s = Some (Some e) \<and> f_type e = FT_REGULAR \<and> de_i_no e \<noteq> -1 \<and>
     inode_numbered s (de_i_no e) j \<and> file_ok s j \<and> unat (i_size j) < 71168 \<and> file_bytes (part_medium s) j = d)"

lemma sys_open_named:
  assumes "file_named s name d" "plain_name name" "fd_room fd gi s"
  shows "\<exists>s'. sys_open (slash # name) 0 s = Some (of_nat fd, s') \<and> at_file (of_nat fd) d 0 s' \<and> part_medium s' = part_medium s \<and>
    sched.truncate s' = sched.truncate (upd_task (running s)
      (\<lambda>t. t\<lparr>fd_table := (fd_table (tasks s (running s)))[fd := of_nat gi]\<rparr>) s)"
proof -
  obtain ip i n f e j where a: "dir_blocks s root_dir ip i n f" "dir_lookup root_dir name s = Some (Some e)" "f_type e = FT_REGULAR"
    "de_i_no e \<noteq> -1" "inode_numbered s (de_i_no e) j" "file_ok s j" "unat (i_size j) < 71168" "file_bytes (part_medium s) j = d"
    using assms(1) unfolding file_named_def by blast
  have d: "layout_ok s" "sectors_ok (part_medium s)" "\<forall>k. mallocs s k" using a(1) by (simp_all add: dir_blocks_def)
  let ?s = "s\<lparr>malloc_cnt := Suc (Suc (malloc_cnt s))\<rparr>"
  have s: "layout_ok ?s" "sectors_ok (part_medium ?s)" "\<forall>k. mallocs ?s k" "file_ok ?s j" "fd_room fd gi ?s" "inode_numbered ?s (de_i_no e) j"
    using d a(5,6) assms(3) by (simp_all add: fd_room_def get_free_slot_in_global_def inode_numbered_def disk_inode_def itab_def
        cong: option.case_cong)
  have tab: "unat (itab ?s) + 864 \<le> unat (data_base ?s)" "unat (data_base ?s) \<le> 163840"
    using s(1) by (simp_all add: layout_ok_def Let_def)
  have tok: "table_ok ?s" using s(1,2) tab by (simp add: table_ok_def layout_ok_def Let_def max_lba_def)
  obtain p c q os ji where ji: "same_contents ji j"
    "inode_open (de_i_no e) ?s = Some (p, ?s\<lparr>malloc_cnt := c, next_ptr := q, cur_part := (cur_part ?s)\<lparr>open_inodes := os\<rparr>,
       inodes := (inodes ?s)(p \<mapsto> ji)\<rparr>)"
    using inode_open_numbered [OF s(6) tok s(3)] by blast
  let ?t = "?s\<lparr>malloc_cnt := c, next_ptr := q, cur_part := (cur_part ?s)\<lparr>open_inodes := os\<rparr>, inodes := (inodes ?s)(p \<mapsto> ji)\<rparr>"
  define s' where "s' = upd_task (running ?s) (\<lambda>t. t\<lparr>fd_table := (fd_table (tasks ?s (running ?s)))[fd := of_nat gi]\<rparr>)
      (set_file gi \<lparr>fd_pos = 0, fd_flag = 0, fd_inode = p\<rparr> ?t)"
  have "get_free_slot_in_global ?s = Some gi" using s(5) by (simp add: fd_room_def)
  moreover have "pcb_fd_install (of_nat gi) (set_file gi \<lparr>fd_pos = 0, fd_flag = 0, fd_inode = p\<rparr> ?t) = (of_nat fd, s')"
    unfolding s'_def by (rule install_first [OF s(5)]) (simp_all add: set_file_def)
  ultimately have "file_open (de_i_no e) 0 ?s = Some (of_nat fd, s')"
    using ji(2) by (simp add: file_open_def set_file_def)
  moreover have "last name \<noteq> slash" using assms(2) by (metis last_in_set plain_name_def)
  ultimately have "sys_open (slash # name) 0 s = Some (of_nat fd, s')"
    using search_file_root [OF assms(2) d(3) a(2,3)] root_name_depth [OF assms(2)] assms(2) a(4)
    by (simp add: sys_open_def plain_name_def Let_def FT_REGULAR_def FT_DIRECTORY_def)
  moreover have "at_file (of_nat fd) (file_bytes (part_medium ?s) j) 0 s'"
    unfolding s'_def by (rule at_file_installed [OF s(1-4) a(7) ji(1) s(5)])
  moreover have "part_medium s' = part_medium s" by (simp add: s'_def upd_task_def set_file_def part_medium_def)
  moreover have "sched.truncate s' = sched.truncate (upd_task (running s)
      (\<lambda>t. t\<lparr>fd_table := (fd_table (tasks s (running s)))[fd := of_nat gi]\<rparr>) s)"
    by (simp add: s'_def upd_task_def set_file_def sched.defs)
  ultimately show ?thesis using a(8) by auto
qed


text \<open>The demo partition with a root directory that has a file \<open>hi\<close> (inode 7, open as 5) of the bytes \<open>d\<close>.\<close>

definition demo_file :: "u8 list \<Rightarrow> inode" where
  "demo_file d = demo_inode\<lparr>i_no := 7, i_size := of_nat (length d), i_sectors := 869 # replicate 12 0\<rparr>"

definition demo_base :: "u8 list \<Rightarrow> fs" where
  "demo_base d = demo_fs\<lparr>dirs := [root_dir \<mapsto> \<lparr>d_inode = 2, dir_pos = 0\<rparr>], inodes := [2 \<mapsto> demo_inode, 5 \<mapsto> demo_file d],
     cur_part := demo_part\<lparr>open_inodes := [5]\<rparr>\<rparr>"

definition demo_bm :: bitmap where
  "demo_bm = \<lparr>btmp_bytes_len = 128, bits = (\<lambda>i. if i = 0 then 3 else 0)\<rparr>"

definition demo_root :: "u8 list \<Rightarrow> fs" where
  "demo_root d = W (demo_base d) 2 0 (file_table demo_fs)
     ((part_medium demo_fs)(868 := demo_block, 869 := d @ replicate (512 - length d) 0)) demo_bm
     (demo_inode\<lparr>i_size := 72, i_sectors := 868 # replicate 12 0\<rparr>)"

lemma demo_bm: "bm_ok (demo_base d) demo_bm" "used_blk (demo_base d) demo_bm 0" "used_blk (demo_base d) demo_bm 1"
proof -
  have "bm_used demo_bm j" if "bm_used (block_bitmap demo_part) j" for j
    using that unfolding bm_used_def scan_test_bit demo_bm_def demo_part_def by (auto simp: bit_1_iff split: if_splits)
  then show "bm_ok (demo_base d) demo_bm"
    by (auto simp: bm_ok_def free_blocks_def demo_base_def demo_bm_def bm_bits_def demo_part_def)
  show "used_blk (demo_base d) demo_bm 0" "used_blk (demo_base d) demo_bm 1"
    by (simp_all add: used_blk_def blk_ok_def free_blocks_def bm_used_def bitmap_scan_test_def demo_base_def demo_part_def
        demo_bm_def bm_bits_def data_base_def bitmap_mask_def)
qed

lemma demo_root:
  assumes "length d < 512"
  shows "dir_blocks (demo_root d) root_dir 2 (demo_inode\<lparr>i_size := 72, i_sectors := 868 # replicate 12 0\<rparr>) 1 (\<lambda>_. 0)"
    "dir_lookup root_dir [104, 105] (demo_root d) = Some (Some (demo_entry [104, 105] 7 FT_REGULAR))"
    "inode_numbered (demo_root d) 7 (demo_file d)" "file_ok (demo_root d) (demo_file d)"
    "file_bytes (part_medium (demo_root d)) (demo_file d) = d" "fd_room 4 4 (demo_root d)"
proof -
  let ?m = "(part_medium demo_fs)(868 := demo_block, 869 := d @ replicate (512 - length d) 0)"
  let ?i = "demo_inode\<lparr>i_size := 72, i_sectors := 868 # replicate 12 0\<rparr>"
  have lba: "blk_lba (demo_base d) 0 = 868" "blk_lba (demo_base d) 1 = 869"
    by (simp_all add: blk_lba_def data_base_def demo_base_def demo_part_def)
  have eq: "layout_ok (demo_base d) = layout_ok demo_fs" "part_medium (demo_base d) = part_medium demo_fs"
      "mallocs (demo_base d) = mallocs demo_fs" "dir_entry_size (sb (cur_part (demo_base d))) = 24"
    by (simp_all add: demo_base_def demo_fs_def demo_part_def layout_ok_def itab_def data_base_def blk_ok_def part_medium_def Let_def)
  have D: "dir_blocks (demo_base d) root_dir 2 demo_inode 0 (\<lambda>_. 0)"
    unfolding dir_blocks_def eq using demo_layout(1,2,5) by (simp add: demo_base_def file_map_def demo_inode_def)
  have "sectors_ok (part_medium demo_fs)" by (rule demo_layout(2))
  then have m: "sectors_ok ?m" using demo_block(1) assms by (simp add: sectors_ok_def sector_names_def)
  show B: "dir_blocks (demo_root d) root_dir 2 ?i 1 (\<lambda>_. 0)"
    unfolding demo_root_def
    by (rule dir_blocks_W [OF D m demo_bm(1)])
      (use demo_bm(2) demo_block(1) lba in \<open>simp_all add: file_map_def fblk_def inj_on_def\<close>)
  have "dir_bufs (demo_root d) 1 (\<lambda>_. 0) = [demo_block]" by (simp add: demo_root_def dir_bufs_W lba)
  moreover have "find (\<lambda>k. name_at demo_block k = [104, 105]) [0..<21] = Some 2"
    by (rule find_here) (simp_all add: demo_block(2))
  ultimately show "dir_lookup root_dir [104, 105] (demo_root d) = Some (Some (demo_entry [104, 105] 7 FT_REGULAR))"
    using dir_lookup_scan [OF B, of "[104, 105]"] demo_block(3) [of 2] by simp
  show "inode_numbered (demo_root d) 7 (demo_file d)"
    by (simp add: inode_numbered_def demo_root_def W_def demo_base_def demo_file_def)
  have sz: "unat (i_size (demo_file d)) = length d" using assms by (simp add: demo_file_def unat_of_nat_32)
  then have "unat (i_size (demo_file d)) div 512 = 0" using assms by simp
  moreover have "file_map (demo_root d) (part_medium (demo_root d)) demo_bm (demo_file d) 1 (\<lambda>_. 1) 0"
    unfolding demo_root_def W_file_map [OF demo_bm(1)] using demo_bm(3) lba
    by (simp add: file_map_def fblk_def inj_on_def demo_file_def)
  ultimately show "file_ok (demo_root d) (demo_file d)"
    unfolding file_ok_def by (intro exI [of _ 1] exI [of _ "\<lambda>_. 1"] exI [of _ 0]) (simp add: demo_root_def)
  show "file_bytes (part_medium (demo_root d)) (demo_file d) = d"
  proof (rule nth_equalityI)
    show "length (file_bytes (part_medium (demo_root d)) (demo_file d)) = length d" by (simp add: file_bytes_def sz)
    fix k assume "k < length (file_bytes (part_medium (demo_root d)) (demo_file d))"
    then have "k < length d" by (simp add: file_bytes_def sz)
    moreover from this have "k div 512 = 0" "k mod 512 = k" using assms by simp_all
    ultimately have "fbyte (part_medium (demo_root d)) (demo_file d) k = d ! k"
      by (simp add: fbyte_def fblk_def demo_root_def demo_file_def nth_append)
    then show "file_bytes (part_medium (demo_root d)) (demo_file d) ! k = d ! k"
      using \<open>k < length d\<close> by (simp add: file_bytes_def sz)
  qed
  have "get_free_slot_in_global (demo_root d) = Some 4"
    unfolding get_free_slot_in_global_def
    by (rule find_from) (simp_all add: demo_root_def demo_fs_def MAX_FILE_OPEN_def less_Suc_eq_le)
  then show "fd_room 4 4 (demo_root d)"
    by (simp add: fd_room_def demo_root_def demo_base_def demo_fs_def W_def)
qed

lemma demo_named: "length d < 512 \<Longrightarrow> file_named (demo_root d) [104, 105] d"
  unfolding file_named_def using demo_root [of d]
  by (intro exI [of _ 2] exI [of _ "demo_inode\<lparr>i_size := 72, i_sectors := 868 # replicate 12 0\<rparr>"] exI [of _ 1] exI [of _ "\<lambda>_. 0"]
      exI [of _ "demo_entry [104, 105] 7 FT_REGULAR"] exI [of _ "demo_file d"])
    (simp add: demo_entry_def demo_file_def unat_of_nat_32)

lemma demo_name: "plain_name [104, 105]"
  by (simp add: plain_name_def slash_def)


end
