(* ===== verification/ExecCorrect.thy ===== *)
theory ExecCorrect
  imports Exec ForkCorrect OpenCorrect
begin

text \<open>
  What the program loader does: from the bytes of an executable it maps the pages of every segment that
  are not yet mapped and puts the segment's bytes there; \<^verbatim>\<open>sys_execv\<close> then leaves the entry point and the
  arguments in the frame that \<^verbatim>\<open>intr_exit\<close> pops.
\<close>

section \<open>Pages\<close>

abbreviation cur_vaddr :: "kernel \<Rightarrow> virtual_addr" where
  "cur_vaddr k \<equiv> userprog_vaddr k (running k)"

text \<open>A process runs, the page pools are sound and free, and its address bitmap covers user addresses only.\<close>

definition loader_ready :: "kernel \<Rightarrow> bool" where
  "loader_ready k \<longleftrightarrow>
     pool_ok (kernel_pool k) \<and> pool_ok (user_pool k) \<and> pool_lock (user_pool k) = lock_init \<and> running k \<noteq> 0 \<and>
     pgdir (tasks k (running k)) \<noteq> 0 \<and> page_aligned (vaddr_start (cur_vaddr k)) \<and> vaddr_start (cur_vaddr k) \<noteq> 0 \<and>
     unat (vaddr_start (cur_vaddr k)) + 4096 * bm_bits (vaddr_bitmap (cur_vaddr k)) \<le> 0xc0000000"

definition user_range :: "kernel \<Rightarrow> nat \<Rightarrow> nat \<Rightarrow> bool" where
  "user_range k lo hi \<longleftrightarrow> unat (vaddr_start (cur_vaddr k)) \<le> lo \<and>
     hi \<le> unat (vaddr_start (cur_vaddr k)) + 4096 * bm_bits (vaddr_bitmap (cur_vaddr k))"

text \<open>
  What loading changes: the page tables, the pools, the bitmap of the process, memory and the file
  system; no page that was mapped moves.
\<close>

definition maps_more :: "kernel \<Rightarrow> kernel \<Rightarrow> bool" where
  "maps_more k k' \<longleftrightarrow>
     k' = k\<lparr>ptab := ptab k', kernel_pool := kernel_pool k', user_pool := user_pool k', userprog_vaddr := userprog_vaddr k',
       data := data k', kfs := kfs k'\<rparr> \<and>
     pool_le (kernel_pool k') (kernel_pool k) \<and> pool_le (user_pool k') (user_pool k) \<and>
     (\<forall>t. t \<noteq> running k \<longrightarrow> userprog_vaddr k' t = userprog_vaddr k t) \<and>
     vaddr_start (cur_vaddr k') = vaddr_start (cur_vaddr k) \<and>
     bm_bits (vaddr_bitmap (cur_vaddr k')) = bm_bits (vaddr_bitmap (cur_vaddr k)) \<and>
     (\<forall>w. low_addr w \<and> page_present k w \<longrightarrow> translate (ptab k') w = translate (ptab k) w)"

lemma maps_more_refl: "maps_more k k"
  by (simp add: maps_more_def)

lemma kfs_upd [simp]:
  "running (kfs_update f k) = running k" "tasks (kfs_update f k) = tasks k" "ptab (kfs_update f k) = ptab k"
  by (cases k; simp)+

lemma maps_more_same:
  assumes "maps_more k k'"
  shows "running k' = running k" "tasks k' = tasks k" "kstk k' = kstk k"
proof -
  define x where "x = k'"
  have "k' = k\<lparr>ptab := ptab x, kernel_pool := kernel_pool x, user_pool := user_pool x, userprog_vaddr := userprog_vaddr x,
      data := data x, kfs := kfs x\<rparr>"
    using assms unfolding maps_more_def x_def by blast
  then show "running k' = running k" "tasks k' = tasks k" "kstk k' = kstk k" by simp_all
qed

lemma maps_more_trans:
  assumes "maps_more k k1" "maps_more k1 k2"
  shows "maps_more k k2"
proof -
  note a = assms(1) [unfolded maps_more_def] and b = assms(2) [unfolded maps_more_def]
  define x where "x = k2"
  have 1: "k1 = k\<lparr>ptab := ptab k1, kernel_pool := kernel_pool k1, user_pool := user_pool k1, userprog_vaddr := userprog_vaddr k1,
      data := data k1, kfs := kfs k1\<rparr>"
    and 2: "k2 = k1\<lparr>ptab := ptab x, kernel_pool := kernel_pool x, user_pool := user_pool x, userprog_vaddr := userprog_vaddr x,
      data := data x, kfs := kfs x\<rparr>"
    using a b unfolding x_def by blast+
  have "k2 = k\<lparr>ptab := ptab x, kernel_pool := kernel_pool x, user_pool := user_pool x, userprog_vaddr := userprog_vaddr x,
      data := data x, kfs := kfs x\<rparr>"
    by (subst 2, subst 1) simp
  moreover have r: "running k1 = running k" "running k2 = running k" using maps_more_same assms by metis+
  moreover have "\<forall>w. low_addr w \<and> page_present k w \<longrightarrow> translate (ptab k2) w = translate (ptab k) w"
    using a b unfolding present_translate by metis
  ultimately show ?thesis unfolding maps_more_def r x_def using a b unfolding r by (metis pool_le_trans)
qed

lemma maps_more_ready: "maps_more k k' \<Longrightarrow> loader_ready k \<Longrightarrow> loader_ready k'"
  using maps_more_same [of k k'] pool_le_ok unfolding maps_more_def loader_ready_def pool_le_def by metis

lemma maps_more_range: "maps_more k k' \<Longrightarrow> user_range k' lo hi = user_range k lo hi"
  unfolding maps_more_def user_range_def by metis

lemma maps_more_present: "maps_more k k' \<Longrightarrow> low_addr w \<Longrightarrow> page_present k w \<Longrightarrow> page_present k' w"
  unfolding maps_more_def present_translate by metis

lemma get_page_maps:
  assumes r: "loader_ready k" and v: "user_range k (unat v) (Suc (unat v))" and un: "\<not> page_present k v"
    and fr: "free_frames (user_pool k) \<noteq> {}"
  shows "\<exists>k'. get_a_page PF_USER v k = Some (v, k') \<and> maps_more k k' \<and> data k' = data k \<and> kfs k' = kfs k \<and> page_present k' v \<and>
    card (free_frames (user_pool k)) \<le> Suc (card (free_frames (user_pool k')))"
proof -
  define va where "va = cur_vaddr k"
  define h where "h = held_once (running k)"
  have R: "pool_ok (kernel_pool k)" "pool_ok (user_pool k)" "pool_lock (user_pool k) = lock_init" "running k \<noteq> 0"
    "pgdir (tasks k (running k)) \<noteq> 0" "unat (vaddr_start va) + 4096 * bm_bits (vaddr_bitmap va) \<le> 0xc0000000"
    using r by (simp_all add: loader_ready_def va_def)
  have V: "unat (vaddr_start va) \<le> unat v" "unat v < unat (vaddr_start va) + 4096 * bm_bits (vaddr_bitmap va)"
    using v by (simp_all add: user_range_def va_def)
  have low: "low_addr v" using V R(6) by (simp add: low_addr_def)
  have un': "translate (ptab k) v = None" using un by (simp add: present_translate)
  have acq: "pool_acquire PF_USER k = Some (k\<lparr>user_pool := (user_pool k)\<lparr>pool_lock := h\<rparr>\<rparr>)"
    using R(3,4) by (simp add: pool_acquire_def get_pool_def set_pool_def h_def)
  have ff: "free_frames (q\<lparr>pool_lock := x\<rparr>) = free_frames q" for q x by (simp add: free_frames_def)
  define idx where "idx = (v - vaddr_start va) div PG_SIZE"
  have "unat (v - vaddr_start va) = unat v - unat (vaddr_start va)" using V(1) by (intro unat_sub_le) (simp add: word_le_nat_alt)
  then have "unat idx < 2 ^ 31" using R(6) V by (simp add: idx_def unat_div PG_SIZE_def)
  then have idx: "0 \<le> sint idx" by (simp add: sint_small)
  obtain bm where bm: "bitmap_set (vaddr_bitmap va) idx 1 = Some bm" using bitmap_set_total [of 1] by blast
  have "pool_ok ((user_pool k)\<lparr>pool_lock := h\<rparr>)" using R(2) by (simp add: pool_ok_def)
  then obtain f q where q: "palloc ((user_pool k)\<lparr>pool_lock := h\<rparr>) = Some (f, q)"
    "pool_le q ((user_pool k)\<lparr>pool_lock := h\<rparr>)" "f \<in> free_frames (user_pool k)" "free_frames q = free_frames (user_pool k) - {f}"
    using palloc_le [of "(user_pool k)\<lparr>pool_lock := h\<rparr>"] fr unfolding ff by metis
  have fa: "f \<noteq> 0" "page_aligned f" using frame_aligned [OF R(2)] q(3) free_frames_sub by blast+
  define vs where "vs = (userprog_vaddr k)(running k := va\<lparr>vaddr_bitmap := bm\<rparr>)"
  define k1 where "k1 = k\<lparr>userprog_vaddr := vs, user_pool := q\<rparr>"
  have k1: "kernel_pool k1 = kernel_pool k" "ptab k1 = ptab k" "running k1 = running k" by (simp_all add: k1_def)
  obtain p d where pd: "page_table_add v f k1 = Some (k1\<lparr>kernel_pool := p, ptab := map_page (ptab k1) v f d\<rparr>)"
    "pool_le p (kernel_pool k1)" using page_table_add_spec [of k1 v f] R(1) low un' unfolding k1 by metis
  define p' where "p' = q\<lparr>pool_lock := lock_init\<rparr>"
  define k2 where "k2 = k1\<lparr>kernel_pool := p, ptab := map_page (ptab k1) v f d\<rparr>"
  have us: "user_pool k2 = q" "running k2 = running k" by (simp_all add: k2_def k1_def)
  have "pool_lock q = held_once (running k2)" using q(2) by (simp add: pool_le_def h_def us)
  then have "lock_release (pool_lock (user_pool k2)) k2 = Some (lock_init, k2)" using lock_release_once [of k2] by (simp only: us)
  then have rel: "pool_release PF_USER k2 = Some (k2\<lparr>user_pool := p'\<rparr>)"
    by (simp add: pool_release_def get_pool_def set_pool_def us p'_def)
  define k' where "k' = k\<lparr>ptab := map_page (ptab k) v f d, kernel_pool := p, user_pool := p', userprog_vaddr := vs\<rparr>"
  have k': "k2\<lparr>user_pool := p'\<rparr> = k'" by (simp add: k2_def k1_def k'_def)
  have "get_a_page PF_USER v k = Some (v, k')"
    using acq q(1) fa(1) pd(1) rel idx bm R(5) unfolding k' [symmetric] k2_def [symmetric]
    by (simp add: get_a_page_def get_pool_def set_pool_def get_vaddr_def set_vaddr_def va_def [symmetric] idx_def [symmetric]
        vs_def [symmetric] k1_def [symmetric] k2_def [symmetric])
  moreover have "pool_le p' (user_pool k)" using q(2) R(3) by (simp add: pool_le_def p'_def ff)
  moreover have tr: "translate (ptab k') w = (if same_page v w then Some (f + (w AND 0xfff)) else translate (ptab k) w)"
    if "low_addr w" for w
    unfolding k'_def using translate_map_page [OF low that fa(2) un', of d] by simp
  moreover have "maps_more k k'"
  proof -
    have keep: "translate (ptab k') w = translate (ptab k) w" if w: "low_addr w" "page_present k w" for w
    proof -
      have "\<not> same_page v w"
        using w(2) un same_page_pde [of v w] same_page_pte [of v w] by (auto simp: page_present_def)
      then show ?thesis using tr [OF w(1)] by simp
    qed
    have sel: "ptab k' = map_page (ptab k) v f d" "kernel_pool k' = p" "user_pool k' = p'" "userprog_vaddr k' = vs"
      "data k' = data k" "kfs k' = kfs k" by (simp_all add: k'_def)
    have "k' = k\<lparr>ptab := ptab k', kernel_pool := kernel_pool k', user_pool := user_pool k', userprog_vaddr := userprog_vaddr k',
         data := data k', kfs := kfs k'\<rparr>"
      unfolding sel by (cases k) (simp add: k'_def)
    moreover have "pool_le (kernel_pool k') (kernel_pool k)" using pd(2) by (simp add: k'_def k1)
    moreover have "pool_le (user_pool k') (user_pool k)" using q(2) R(3) by (simp add: k'_def pool_le_def p'_def ff)
    moreover have "running k' = running k" "userprog_vaddr k' = vs" by (simp_all add: k'_def)
    ultimately show ?thesis
      unfolding maps_more_def using keep bitmap_set_bits [OF bm] by (auto simp: vs_def va_def [symmetric])
  qed
  moreover have "card (free_frames (user_pool k)) \<le> Suc (card (free_frames p'))"
    using q(3,4) by (simp add: p'_def ff card_Diff_singleton)
  ultimately show ?thesis using tr [OF low] by (intro exI [of _ k']) (simp add: present_translate same_page_def k'_def)
qed

lemma maps_more_card: "maps_more k k' \<Longrightarrow> card (free_frames (user_pool k')) \<le> card (free_frames (user_pool k))"
  unfolding maps_more_def pool_le_def by (simp add: card_mono)

lemma segment_map_maps:
  assumes "loader_ready k" "user_range k (unat v) (unat v + 4096 * n)" "n \<le> card (free_frames (user_pool k))"
  shows "\<exists>k'. segment_map n v k = Some (True, k') \<and> maps_more k k' \<and> data k' = data k \<and> kfs k' = kfs k \<and>
    (\<forall>i<n. page_present k' (v + of_nat i * PG_SIZE)) \<and> card (free_frames (user_pool k)) \<le> n + card (free_frames (user_pool k'))"
  using assms
proof (induction n arbitrary: v k)
  case 0
  then show ?case by (simp add: maps_more_refl)
next
  case (Suc n)
  have top: "unat v + 4096 * Suc n \<le> 0xc0000000" and v0: "v \<noteq> 0"
    using Suc.prems(1,2) by (auto simp: loader_ready_def user_range_def unat_eq_0)
  have nx: "unat (v + PG_SIZE) = unat v + 4096" using top by (subst unat_add_small) (simp_all add: PG_SIZE_def)
  obtain k1 where k1: "segment_map (Suc n) v k = segment_map n (v + PG_SIZE) k1" "maps_more k k1" "data k1 = data k \<and> kfs k1 = kfs k" "page_present k1 v"
    "card (free_frames (user_pool k)) \<le> Suc (card (free_frames (user_pool k1)))"
    "n \<le> card (free_frames (user_pool k1))"
  proof (cases "page_present k v")
    case True
    then show ?thesis using Suc.prems(3) by (intro that [of k]) (simp_all add: maps_more_refl)
  next
    case False
    have "user_range k (unat v) (Suc (unat v))" using Suc.prems(2) by (simp add: user_range_def)
    moreover have "free_frames (user_pool k) \<noteq> {}" using Suc.prems(3) by auto
    ultimately obtain k1 where "get_a_page PF_USER v k = Some (v, k1)" "maps_more k k1" "data k1 = data k \<and> kfs k1 = kfs k" "page_present k1 v"
      "card (free_frames (user_pool k)) \<le> Suc (card (free_frames (user_pool k1)))"
      using get_page_maps [OF Suc.prems(1) _ False] by blast
    then show ?thesis using False v0 Suc.prems(3) by (intro that [of k1]) simp_all
  qed
  have "user_range k1 (unat (v + PG_SIZE)) (unat (v + PG_SIZE) + 4096 * n)"
    unfolding maps_more_range [OF k1(2)] nx using Suc.prems(2) by (simp add: user_range_def)
  then obtain k' where k': "segment_map n (v + PG_SIZE) k1 = Some (True, k')" "maps_more k1 k'" "data k' = data k1 \<and> kfs k' = kfs k1"
    "\<forall>i<n. page_present k' (v + PG_SIZE + of_nat i * PG_SIZE)"
    "card (free_frames (user_pool k1)) \<le> n + card (free_frames (user_pool k'))"
    using Suc.IH [OF maps_more_ready [OF k1(2) Suc.prems(1)]] k1(6) by blast
  have "low_addr v" using top by (simp add: low_addr_def)
  then have "page_present k' v" using maps_more_present [OF k'(2)] k1(4) by blast
  then have "page_present k' (v + of_nat i * PG_SIZE)" if "i < Suc n" for i
    using that k'(4) by (cases i) (auto simp: algebra_simps)
  then show ?case using k1(1,2,3,5) k'(1,2,3,5) maps_more_trans [of k k1 k']
    by (intro exI [of _ k']) (simp del: segment_map.simps)
qed

text \<open>The pages the code counts are those the bytes of the segment lie in.\<close>

lemma page_base_unat: "unat (v AND 0xfffff000 :: u32) = unat v div 4096 * 4096"
proof -
  have "v AND 0xfffff000 = push_bit 12 (drop_bit 12 v)" by (rule page_base_drop)
  moreover have "unat (drop_bit 12 v) = unat v div 4096" by (simp add: drop_bit_eq_div unat_div)
  moreover have "unat v div 4096 * 4096 < 2 ^ 32" using unat_lt_32 [of v] by simp
  ultimately show ?thesis by (simp add: push_bit_eq_mult unat_mult_lem [THEN iffD1])
qed

lemma page_offset_unat: "unat (v AND 0xfff :: u32) = unat v mod 4096"
proof -
  have "v AND 0xfff = take_bit 12 v" by (simp add: take_bit_eq_mask mask_eq_exp_minus_1)
  then show ?thesis by (simp add: take_bit_eq_mod unat_mod)
qed

lemma pages_nat:
  assumes "4096 - r < (n :: nat)" "r < 4096"
  shows "(q * 4096 + r + n + 4095) div 4096 = q + 1 + (n - (4096 - r) + 4095) div 4096"
proof -
  have e: "q * 4096 + r + n + 4095 = (n - (4096 - r) + 4095) + (q + 1) * 4096" using assms by simp
  show ?thesis unfolding e by (subst div_mult_self1) simp_all
qed

lemma pages_one: "0 < n \<Longrightarrow> n \<le> 4096 - r \<Longrightarrow> r < 4096 \<Longrightarrow> (q * 4096 + r + n + 4095) div 4096 = q + (1 :: nat)"
  by (rule div_nat_eqI) simp_all

lemma segment_pages_exact:
  assumes "0 < unat filesz" "unat vaddr + unat filesz \<le> 0xc0000000"
  shows "unat (vaddr AND 0xfffff000) + 4096 * unat (segment_pages filesz vaddr) = (unat vaddr + unat filesz + 4095) div 4096 * 4096"
proof -
  let ?o = "unat vaddr mod 4096"
  have f: "unat (PG_SIZE - (vaddr AND 0xfff)) = 4096 - ?o"
    using page_offset_unat [of vaddr] by (subst unat_sub_le) (simp_all add: PG_SIZE_def word_le_nat_alt)
  have v: "unat vaddr = unat vaddr div 4096 * 4096 + ?o" by simp
  have o: "?o < 4096" by simp
  show ?thesis
  proof (cases "filesz > PG_SIZE - (vaddr AND 0xfff)")
    case True
    then have lt: "4096 - ?o < unat filesz" using f by (simp add: word_less_nat_alt)
    have 1: "unat (filesz - (PG_SIZE - (vaddr AND 0xfff))) = unat filesz - (4096 - ?o)"
      using lt f by (subst unat_sub_le) (simp_all add: word_le_nat_alt)
    have 2: "unat (filesz - (PG_SIZE - (vaddr AND 0xfff)) + PG_SIZE) = unat filesz - (4096 - ?o) + 4096"
      using assms(2) 1 by (subst unat_add_small) (simp_all add: PG_SIZE_def)
    have 3: "unat (filesz - (PG_SIZE - (vaddr AND 0xfff)) + PG_SIZE - 1) = unat filesz - (4096 - ?o) + 4095"
      using 2 by (subst unat_sub_le) (simp_all add: word_le_nat_alt)
    let ?q = "(filesz - (PG_SIZE - (vaddr AND 0xfff)) + PG_SIZE - 1) div PG_SIZE"
    have "unat ?q = (unat filesz - (4096 - ?o) + 4095) div 4096" unfolding unat_div 3 by (simp add: PG_SIZE_def)
    moreover have "(unat filesz - (4096 - ?o) + 4095) div 4096 + 1 < 2 ^ 32" using assms(2) by simp
    ultimately have "unat (?q + 1) = (unat filesz - (4096 - ?o) + 4095) div 4096 + 1" by (subst unat_add_small) simp_all
    moreover have "segment_pages filesz vaddr = ?q + 1" using True by (simp only: segment_pages_def Let_def if_True)
    ultimately have "unat (segment_pages filesz vaddr) = (unat filesz - (4096 - ?o) + 4095) div 4096 + 1" by simp
    moreover have "(unat vaddr + unat filesz + 4095) div 4096 =
        unat vaddr div 4096 + 1 + (unat filesz - (4096 - ?o) + 4095) div 4096"
      using pages_nat [OF lt o, of "unat vaddr div 4096"] by (simp only: v [symmetric])
    ultimately show ?thesis unfolding page_base_unat by linarith
  next
    case False
    then have "unat filesz \<le> 4096 - ?o" using f by (simp add: word_less_nat_alt)
    moreover have "unat (segment_pages filesz vaddr) = 1" using False by (simp add: segment_pages_def)
    moreover have "(unat vaddr + unat filesz + 4095) div 4096 = unat vaddr div 4096 + 1"
      using pages_one [OF assms(1) _ o, of "unat vaddr div 4096"] calculation(1) by (simp only: v [symmetric])
    ultimately show ?thesis unfolding page_base_unat by simp
  qed
qed

section \<open>The file\<close>

definition fs_of :: "kernel \<Rightarrow> fs" where
  "fs_of k = sched.extend (sched.truncate k) (sched.more (kfs k))"

lemma fs_of_simps [simp]:
  "fs_of (k\<lparr>data := m\<rparr>) = fs_of k" "fs_of (k\<lparr>kernel_pool := p\<rparr>) = fs_of k" "fs_of (k\<lparr>user_pool := p\<rparr>) = fs_of k"
  "fs_of (k\<lparr>userprog_vaddr := v\<rparr>) = fs_of k" "fs_of (k\<lparr>ptab := t\<rparr>) = (fs_of k)\<lparr>ptab := t\<rparr>"
  by (simp_all add: fs_of_def sched.defs)

lemma fs_run_same:
  assumes "f (fs_of k) = Some (r, s)" "sched.truncate s = sched.truncate k"
  shows "fs_run f k = Some (r, k\<lparr>kfs := s\<rparr>)" "fs_of (k\<lparr>kfs := s\<rparr>) = s"
proof -
  have "sched.extend (sched.truncate k) (sched.more (k\<lparr>kfs := s\<rparr>)) = k\<lparr>kfs := s\<rparr>"
    by (cases k) (simp add: sched.defs)
  then show "fs_run f k = Some (r, k\<lparr>kfs := s\<rparr>)"
    using assms by (simp add: fs_run_def fs_of_def [symmetric])
  show "fs_of (k\<lparr>kfs := s\<rparr>) = s"
    using assms(2) by (cases k; cases s) (simp add: fs_of_def sched.defs)
qed

text \<open>Descriptor \<open>fd\<close> of the process is open on the bytes \<open>d\<close>, at position \<open>p\<close>.\<close>

definition on_file :: "u32 \<Rightarrow> u8 list \<Rightarrow> nat \<Rightarrow> kernel \<Rightarrow> bool" where
  "on_file fd d p k \<longleftrightarrow> at_file fd d p (fs_of k)"

lemma at_file_ptab [simp]: "at_file fd d p (s\<lparr>ptab := t\<rparr>) = at_file fd d p s"
  by (simp add: at_file_def layout_ok_def part_medium_def itab_def data_base_def blk_ok_def Let_def
      file_ok_def file_map_def used_blk_def blk_lba_def fd_local2global_def)

lemma on_file_data [simp]: "on_file fd d p (k\<lparr>data := m\<rparr>) = on_file fd d p k"
  by (simp add: on_file_def)

lemma on_file_maps:
  assumes "maps_more k k'" "kfs k' = kfs k"
  shows "on_file fd d p k' = on_file fd d p k"
proof -
  define x where "x = k'"
  have "k' = k\<lparr>ptab := ptab x, kernel_pool := kernel_pool x, user_pool := user_pool x, userprog_vaddr := userprog_vaddr x,
      data := data x, kfs := kfs x\<rparr>"
    using assms(1) unfolding maps_more_def x_def by blast
  moreover have "kfs x = kfs k" using assms(2) by (simp add: x_def)
  ultimately have e: "k' = k\<lparr>ptab := ptab x, kernel_pool := kernel_pool x, user_pool := user_pool x,
      userprog_vaddr := userprog_vaddr x, data := data x\<rparr>" by (cases k) simp
  show ?thesis unfolding on_file_def by (subst e) simp
qed

lemma at_file_read_same:
  assumes "at_file fd d p s" "0 < unat n" "unat n < 65536" "p < length d"
  shows "\<exists>s'. sys_read fd n s = Some (Some (take (unat n) (drop p d)), s') \<and>
        at_file fd d (min (length d) (p + unat n)) s' \<and> sched.truncate s' = sched.truncate s"
proof -
  obtain fi ip i where f: "fd_local2global fd s = Some fi" "fi < length (file_table s)" "fd_inode (file_table s ! fi) = ip"
      "unat (fd_pos (file_table s ! fi)) = p" "inodes s ip = Some i" "file_ok s i" "unat (i_size i) = length d"
      "file_bytes (part_medium s) i = d"
    and g: "0 \<le> sint fd" "fd \<notin> {0, 1, 2}" "layout_ok s" "sectors_ok (part_medium s)" "\<forall>k. mallocs s k"
      "length d < 71168" "p \<le> length d"
    using assms(1) unfolding at_file_def by blast
  have "fd_pos (file_table s ! fi) \<le> i_size i" using f(4,7) g(7) by (simp add: word_le_nat_alt)
  moreover have "unat (fd_pos (file_table s ! fi)) + unat n < 2 ^ 32" using f(4) g(6,7) assms(3) by simp
  moreover have "0 < n" using assms(2) by (simp add: word_less_nat_alt)
  moreover have "unat (i_size i) < 71168" using f(7) g(6) by simp
  moreover have "fd_pos (file_table s ! fi) \<noteq> i_size i" using f(4,7) assms(4) by auto
  ultimately obtain c where "file_read fi n s = Some (Some (take (unat n) (drop p d)),
        s\<lparr>malloc_cnt := c, file_table := (file_table s)[fi := (file_table s ! fi)\<lparr>fd_pos :=
           of_nat (min (length d) (p + unat n))\<rparr>]\<rparr>)"
    using file_read_frame [OF g(3,4) f(5,6) g(5) _ f(2,3), of n] unfolding f(4,7,8) by auto
  then have r: "sys_read fd n s = Some (Some (take (unat n) (drop p d)),
        s\<lparr>malloc_cnt := c, file_table := (file_table s)[fi := (file_table s ! fi)\<lparr>fd_pos :=
           of_nat (min (length d) (p + unat n))\<rparr>]\<rparr>)"
    using g(1,2) f(1) by (simp add: sys_read_def)
  obtain s' where s': "sys_read fd n s = Some (if p = length d then None else Some (take (unat n) (drop p d)), s')"
    "at_file fd d (min (length d) (p + unat n)) s'" using at_file_read [OF assms(1-3)] by blast
  have "sched.truncate s' = sched.truncate s" using r s'(1) by (auto simp: sched.defs)
  then show ?thesis using s' assms(4) by (intro exI [of _ s']) simp
qed

lemma at_file_seek_same:
  assumes "at_file fd d p s" "unat off \<le> length d"
  shows "\<exists>s'. sys_lseek fd off 1 s = Some (off, s') \<and> at_file fd d (unat off) s' \<and> sched.truncate s' = sched.truncate s"
proof -
  obtain fi ip i where f: "fd_local2global fd s = Some fi" "fi < length (file_table s)" "fd_inode (file_table s ! fi) = ip"
      "inodes s ip = Some i" "file_ok s i" "unat (i_size i) = length d" "file_bytes (part_medium s) i = d"
    and g: "0 \<le> sint fd" "fd \<notin> {0, 1, 2}" "layout_ok s" "sectors_ok (part_medium s)" "\<forall>k. mallocs s k"
      "length d < 71168"
    using assms(1) unfolding at_file_def by blast
  let ?s = "set_file fi ((file_table s ! fi)\<lparr>fd_pos := off\<rparr>) s"
  have "sint (i_size i) = int (length d)" "sint off = int (unat off)" using f(6) g(6) assms(2) by (simp_all add: sint_small)
  then have "\<not> sint (i_size i) < sint off" "\<not> sint off < 0" using assms(2) by linarith+
  then have "sys_lseek fd off 1 s = Some (off, ?s)"
    using g(1) f(1,3,4) by (simp add: sys_lseek_def)
  moreover have "at_file fd d (unat off) ?s" using f g assms(2) by (simp add: at_file_def)
  moreover have "sched.truncate ?s = sched.truncate s" by (simp add: set_file_def sched.defs)
  ultimately show ?thesis by blast
qed

lemma image_read:
  assumes "on_file fd d p k" "0 < unat n" "unat n < 65536" "p + unat n \<le> length d"
  obtains s where "fs_run (sys_read fd n) k = Some (Some (take (unat n) (drop p d)), k\<lparr>kfs := s\<rparr>)"
    "on_file fd d (p + unat n) (k\<lparr>kfs := s\<rparr>)"
proof -
  have "p < length d" using assms(2,4) by simp
  then obtain s where s: "sys_read fd n (fs_of k) = Some (Some (take (unat n) (drop p d)), s)"
    "at_file fd d (min (length d) (p + unat n)) s" "sched.truncate s = sched.truncate (fs_of k)"
    using at_file_read_same [OF assms(1) [unfolded on_file_def] assms(2,3)] by blast
  have "sched.truncate (fs_of k) = sched.truncate k" by (simp add: fs_of_def sched.defs)
  with s show ?thesis using fs_run_same [of "sys_read fd n" k, OF s(1)] assms(4)
    by (intro that [of s]) (simp_all add: on_file_def min_absorb2)
qed

lemma image_seek:
  assumes "on_file fd d p k" "unat off \<le> length d"
  obtains s where "fs_run (sys_lseek fd off 1) k = Some (off, k\<lparr>kfs := s\<rparr>)" "on_file fd d (unat off) (k\<lparr>kfs := s\<rparr>)"
proof -
  obtain s where s: "sys_lseek fd off 1 (fs_of k) = Some (off, s)" "at_file fd d (unat off) s"
    "sched.truncate s = sched.truncate (fs_of k)"
    using at_file_seek_same [OF assms(1) [unfolded on_file_def] assms(2)] by blast
  have "sched.truncate (fs_of k) = sched.truncate k" by (simp add: fs_of_def sched.defs)
  with s show ?thesis using fs_run_same [of "sys_lseek fd off 1" k, OF s(1)]
    by (intro that [of s]) (simp_all add: on_file_def)
qed

section \<open>Segments\<close>

lemma maps_more_upd: "maps_more k (k\<lparr>kfs := s\<rparr>)" "maps_more k (k\<lparr>data := m\<rparr>)"
  by (cases k; simp add: maps_more_def page_present_def)+

lemma page_present_same: "same_page v w \<Longrightarrow> page_present k v = page_present k w"
  using same_page_pde [of v w] same_page_pte [of v w] by (simp add: page_present_def)

lemma segment_pages_present:
  assumes "0 < unat filesz" "unat vaddr + unat filesz \<le> 0xc0000000"
    "\<forall>i<unat (segment_pages filesz vaddr). page_present k ((vaddr AND 0xfffff000) + of_nat i * PG_SIZE)"
    "a - vaddr < filesz"
  shows "page_present k a"
proof -
  have "unat (a - vaddr) < unat filesz" using assms(4) by (simp add: word_less_nat_alt)
  moreover from this have "unat ((a - vaddr) + vaddr) = unat (a - vaddr) + unat vaddr" using assms(2) by (intro unat_add_small) simp
  ultimately have a: "unat vaddr \<le> unat a" "unat a < unat vaddr + unat filesz" by simp_all
  let ?n = "unat (segment_pages filesz vaddr)" and ?q = "unat vaddr div 4096" and ?b = "vaddr AND 0xfffff000"
  define i where "i = unat a div 4096 - ?q"
  have le: "?q \<le> unat a div 4096" using a(1) by (rule div_le_mono)
  have "unat a < (unat vaddr + unat filesz + 4095) div 4096 * 4096" using a(2) by simp
  then have "unat a < (?q + ?n) * 4096" using segment_pages_exact [OF assms(1,2)] by (simp add: page_base_unat)
  then have "unat a div 4096 < ?q + ?n" by (simp add: less_mult_imp_div_less)
  then have i: "i < ?n" "unat a div 4096 = ?q + i" using le by (simp_all add: i_def)
  have "4096 * i \<le> unat a" using i(2) by simp
  then have "unat (of_nat i * PG_SIZE) = 4096 * i" using a(2) assms(2) by (simp add: PG_SIZE_def unat_word_ariths unat_of_nat)
  then have "unat (?b + of_nat i * PG_SIZE) = ?q * 4096 + 4096 * i"
    using i(2) a(2) assms(2) by (subst unat_add_small) (simp_all add: page_base_unat)
  then have "same_page (?b + of_nat i * PG_SIZE) a" using i(2) by (simp add: same_page_def)
  then show ?thesis using assms(3) i(1) page_present_same by blast
qed

definition segment_fits :: "kernel \<Rightarrow> u8 list \<Rightarrow> Elf32_Phdr \<Rightarrow> bool" where
  "segment_fits k d h \<longleftrightarrow> p_type h = PT_LOAD \<longrightarrow>
     0 < unat (p_filesz h) \<and> unat (p_filesz h) < 65536 \<and> unat (p_offset h) + unat (p_filesz h) \<le> length d \<and>
     user_range k (unat (p_vaddr h)) (unat (p_vaddr h) + unat (p_filesz h))"

lemma range_pages:
  assumes "loader_ready k" "0 < unat filesz" "user_range k (unat vaddr) (unat vaddr + unat filesz)"
  shows "user_range k (unat (vaddr AND 0xfffff000)) (unat (vaddr AND 0xfffff000) + 4096 * unat (segment_pages filesz vaddr))"
    "unat vaddr + unat filesz \<le> 0xc0000000"
proof -
  let ?s = "unat (vaddr_start (cur_vaddr k))" and ?n = "bm_bits (vaddr_bitmap (cur_vaddr k))"
  have s: "?s mod 4096 = 0" "?s + 4096 * ?n \<le> 0xc0000000" using assms(1) by (simp_all add: loader_ready_def page_aligned_def)
  then obtain q where q: "?s = q * 4096" by (metis mod_0_imp_dvd dvd_div_mult_self)
  have u: "q * 4096 \<le> unat vaddr" "unat vaddr + unat filesz \<le> (q + ?n) * 4096"
    using assms(3) q by (simp_all add: user_range_def)
  then show e: "unat vaddr + unat filesz \<le> 0xc0000000" using s(2) q by simp
  have "q \<le> unat vaddr div 4096" using div_le_mono [OF u(1), of 4096] by simp
  moreover have "(unat vaddr + unat filesz + 4095) div 4096 \<le> ((q + ?n) * 4096 + 4095) div 4096"
    using u(2) by (intro div_le_mono) simp
  then have "(unat vaddr + unat filesz + 4095) div 4096 \<le> q + ?n" by simp
  ultimately show "user_range k (unat (vaddr AND 0xfffff000)) (unat (vaddr AND 0xfffff000) + 4096 * unat (segment_pages filesz vaddr))"
    unfolding segment_pages_exact [OF assms(2) e] user_range_def q by (simp add: page_base_unat)
qed

definition segment_bytes :: "u8 list \<Rightarrow> Elf32_Phdr \<Rightarrow> u8 list" where
  "segment_bytes d h = take (unat (p_filesz h)) (drop (unat (p_offset h)) d)"

lemma segment_load_ok:
  assumes "loader_ready k" "on_file fd d p k" "segment_fits k d h" "p_type h = PT_LOAD"
    "unat (segment_pages (p_filesz h) (p_vaddr h)) \<le> card (free_frames (user_pool k))"
  shows "\<exists>k' q. segment_load fd (p_offset h) (p_filesz h) (p_vaddr h) k = Some (True, k') \<and> maps_more k k' \<and> on_file fd d q k' \<and>
    data k' = store_bytes (p_vaddr h) (segment_bytes d h) (data k) \<and> (\<forall>a. a - p_vaddr h < p_filesz h \<longrightarrow> page_present k' a) \<and>
    card (free_frames (user_pool k)) \<le> unat (segment_pages (p_filesz h) (p_vaddr h)) + card (free_frames (user_pool k'))"
proof -
  let ?v = "p_vaddr h" and ?f = "p_filesz h" and ?o = "p_offset h" and ?n = "segment_pages (p_filesz h) (p_vaddr h)"
  have F: "0 < unat ?f" "unat ?f < 65536" "unat ?o + unat ?f \<le> length d" "user_range k (unat ?v) (unat ?v + unat ?f)"
    using assms(3,4) by (simp_all add: segment_fits_def)
  note r = range_pages [OF assms(1) F(1,4)]
  obtain k1 where k1: "segment_map (unat ?n) (?v AND 0xfffff000) k = Some (True, k1)" "maps_more k k1" "data k1 = data k \<and> kfs k1 = kfs k"
    "\<forall>i<unat ?n. page_present k1 ((?v AND 0xfffff000) + of_nat i * PG_SIZE)"
    "card (free_frames (user_pool k)) \<le> unat ?n + card (free_frames (user_pool k1))"
    using segment_map_maps [OF assms(1) r(1) assms(5)] by blast
  have f1: "on_file fd d p k1" using on_file_maps [OF k1(2)] k1(3) assms(2) by simp
  obtain s1 where s1: "fs_run (sys_lseek fd ?o 1) k1 = Some (?o, k1\<lparr>kfs := s1\<rparr>)" "on_file fd d (unat ?o) (k1\<lparr>kfs := s1\<rparr>)"
    using image_seek [OF f1, of ?o] F(3) by auto
  obtain s2 where s2: "fs_run (sys_read fd ?f) (k1\<lparr>kfs := s1\<rparr>) = Some (Some (take (unat ?f) (drop (unat ?o) d)), k1\<lparr>kfs := s2\<rparr>)"
    "on_file fd d (unat ?o + unat ?f) (k1\<lparr>kfs := s2\<rparr>)"
    using image_read [OF s1(2) F(1,2,3)] by auto
  let ?k2 = "k1\<lparr>kfs := s2\<rparr>"
  define k' where "k' = ?k2\<lparr>data := store_bytes ?v (segment_bytes d h) (data ?k2)\<rparr>"
  have "segment_load fd ?o ?f ?v k = Some (True, k')"
    using k1(1) s1(1) s2(1) by (simp add: segment_load_def Let_def k'_def segment_bytes_def)
  moreover have "maps_more k k'"
    unfolding k'_def using k1(2) maps_more_upd maps_more_trans by blast
  moreover have "on_file fd d (unat ?o + unat ?f) k'" using s2(2) by (simp add: k'_def)
  moreover have "data k' = store_bytes ?v (segment_bytes d h) (data k)" using k1(3) by (simp add: k'_def)
  moreover have pp: "page_present k' a = page_present k1 a" for a by (simp add: k'_def page_present_def)
  have "page_present k' a" if "a - ?v < ?f" for a
    unfolding pp using segment_pages_present [OF F(1) r(2) k1(4) that] .
  moreover have "user_pool k' = user_pool k1" by (simp add: k'_def)
  ultimately show ?thesis using k1(5) by metis
qed

section \<open>The image\<close>

text \<open>The headers of the segments in the bytes of the file, the pages they need, and memory with all of them in place.\<close>

definition program_headers :: "u8 list \<Rightarrow> nat \<Rightarrow> nat \<Rightarrow> Elf32_Phdr list" where
  "program_headers d off n = map (\<lambda>i. bytes_Phdr (take 32 (drop (off + 32 * i) d))) [0..<n]"

fun image_pages :: "Elf32_Phdr list \<Rightarrow> nat" where
  "image_pages [] = 0"
| "image_pages (h # hs) = (if p_type h = PT_LOAD then unat (segment_pages (p_filesz h) (p_vaddr h)) else 0) + image_pages hs"

fun image_memory :: "u8 list \<Rightarrow> Elf32_Phdr list \<Rightarrow> mem \<Rightarrow> mem" where
  "image_memory d [] m = m"
| "image_memory d (h # hs) m =
     image_memory d hs (if p_type h = PT_LOAD then store_bytes (p_vaddr h) (segment_bytes d h) m else m)"

definition image_present :: "Elf32_Phdr list \<Rightarrow> kernel \<Rightarrow> bool" where
  "image_present hs k \<longleftrightarrow> (\<forall>h\<in>set hs. p_type h = PT_LOAD \<longrightarrow> (\<forall>a. a - p_vaddr h < p_filesz h \<longrightarrow> page_present k a))"

lemma program_headers_Suc:
  "program_headers d off (Suc n) = bytes_Phdr (take 32 (drop off d)) # program_headers d (off + 32) n"
  by (simp add: program_headers_def upt_conv_Cons map_Suc_upt [symmetric] algebra_simps del: upt_Suc)

lemma segment_fits_maps: "maps_more k k' \<Longrightarrow> segment_fits k' d h = segment_fits k d h"
  by (simp add: segment_fits_def maps_more_range)

lemma segment_low:
  assumes "loader_ready k" "segment_fits k d h" "p_type h = PT_LOAD" "a - p_vaddr h < p_filesz h"
  shows "low_addr a"
proof -
  have F: "0 < unat (p_filesz h)" "user_range k (unat (p_vaddr h)) (unat (p_vaddr h) + unat (p_filesz h))"
    using assms(2,3) by (simp_all add: segment_fits_def)
  have e: "unat (p_vaddr h) + unat (p_filesz h) \<le> 0xc0000000" by (rule range_pages(2) [OF assms(1) F])
  have "unat (a - p_vaddr h) < unat (p_filesz h)" using assms(4) by (simp add: word_less_nat_alt)
  moreover from this have "unat ((a - p_vaddr h) + p_vaddr h) = unat (a - p_vaddr h) + unat (p_vaddr h)"
    using e by (intro unat_add_small) simp
  ultimately show ?thesis using e by (simp add: low_addr_def)
qed

lemma load_segments_ok:
  assumes "loader_ready k" "on_file fd d p k" "hs = program_headers d (unat off) n" "unat off + 32 * n \<le> length d"
    "\<forall>h\<in>set hs. segment_fits k d h" "image_pages hs \<le> card (free_frames (user_pool k))"
  shows "\<exists>k' q. load_segments n fd off k = Some (True, k') \<and> maps_more k k' \<and> on_file fd d q k' \<and>
    data k' = image_memory d hs (data k) \<and> image_present hs k'"
  using assms
proof (induction n arbitrary: off k p hs)
  case 0
  then show ?case by (auto simp: program_headers_def image_present_def maps_more_refl)
next
  case (Suc n)
  define h where "h = bytes_Phdr (take 32 (drop (unat off) d))"
  have ld: "length d < 71168" using Suc.prems(2) by (simp add: on_file_def at_file_def)
  have nx: "unat (off + of_nat sizeof_Phdr) = unat off + 32"
    using Suc.prems(4) ld by (subst unat_add_small) (simp_all add: sizeof_Phdr_def)
  define hs' where "hs' = program_headers d (unat (off + of_nat sizeof_Phdr)) n"
  have hs: "hs = h # hs'" using Suc.prems(3) unfolding hs'_def nx by (simp add: program_headers_Suc h_def)
  obtain s1 where s1: "fs_run (sys_lseek fd off 1) k = Some (off, k\<lparr>kfs := s1\<rparr>)" "on_file fd d (unat off) (k\<lparr>kfs := s1\<rparr>)"
    using image_seek [OF Suc.prems(2), of off] Suc.prems(4) by auto
  have sz: "unat (of_nat sizeof_Phdr :: u32) = 32" by (simp add: sizeof_Phdr_def)
  obtain s2 where s2: "fs_run (sys_read fd (of_nat sizeof_Phdr)) (k\<lparr>kfs := s1\<rparr>) = Some (Some (take 32 (drop (unat off) d)), k\<lparr>kfs := s2\<rparr>)"
    "on_file fd d (unat off + 32) (k\<lparr>kfs := s2\<rparr>)"
    using image_read [OF s1(2), of "of_nat sizeof_Phdr"] Suc.prems(4) unfolding sz by auto
  define k0 where "k0 = k\<lparr>kfs := s2\<rparr>"
  have m0: "maps_more k k0" unfolding k0_def by (rule maps_more_upd)
  have k0: "data k0 = data k" "user_pool k0 = user_pool k" by (simp_all add: k0_def)
  have len: "length (take 32 (drop (unat off) d)) = sizeof_Phdr" using Suc.prems(4) by (simp add: sizeof_Phdr_def)
  have run: "load_segments (Suc n) fd off k =
      (if p_type h = PT_LOAD then
         do { (ok, k) \<leftarrow> segment_load fd (p_offset h) (p_filesz h) (p_vaddr h) k0;
              if \<not> ok then Some (False, k) else load_segments n fd (off + of_nat sizeof_Phdr) k }
       else load_segments n fd (off + of_nat sizeof_Phdr) k0)"
    using s1(1) s2(1) len by (simp add: h_def [symmetric] k0_def Let_def)
  have rd0: "loader_ready k0" by (rule maps_more_ready [OF m0 Suc.prems(1)])
  have f0: "segment_fits k0 d h" using Suc.prems(5) unfolding hs segment_fits_maps [OF m0] by simp
  obtain k1 q1 where k1: "load_segments (Suc n) fd off k = load_segments n fd (off + of_nat sizeof_Phdr) k1"
    "maps_more k k1" "on_file fd d q1 k1" "image_memory d hs' (data k1) = image_memory d hs (data k)"
    "p_type h = PT_LOAD \<longrightarrow> (\<forall>a. a - p_vaddr h < p_filesz h \<longrightarrow> page_present k1 a)"
    "image_pages hs' \<le> card (free_frames (user_pool k1))"
  proof (cases "p_type h = PT_LOAD")
    case True
    have "unat (segment_pages (p_filesz h) (p_vaddr h)) \<le> card (free_frames (user_pool k0))"
      using Suc.prems(6) True by (simp add: hs k0)
    then obtain k1 q where k1: "segment_load fd (p_offset h) (p_filesz h) (p_vaddr h) k0 = Some (True, k1)" "maps_more k0 k1"
      "on_file fd d q k1" "data k1 = store_bytes (p_vaddr h) (segment_bytes d h) (data k0)"
      "\<forall>a. a - p_vaddr h < p_filesz h \<longrightarrow> page_present k1 a"
      "card (free_frames (user_pool k0)) \<le> unat (segment_pages (p_filesz h) (p_vaddr h)) + card (free_frames (user_pool k1))"
      using segment_load_ok [OF rd0 s2(2) [folded k0_def] f0 True] by blast
    show ?thesis
      using k1(1,3-6) run True Suc.prems(6) maps_more_trans [OF m0 k1(2)]
      by (intro that [of k1 q]) (simp_all add: hs k0)
  next
    case False
    then show ?thesis using run m0 s2(2) Suc.prems(6) by (intro that [of k0]) (simp_all add: hs k0 k0_def)
  qed
  have "\<exists>k' q. load_segments n fd (off + of_nat sizeof_Phdr) k1 = Some (True, k') \<and> maps_more k1 k' \<and> on_file fd d q k' \<and>
    data k' = image_memory d hs' (data k1) \<and> image_present hs' k'"
  proof (rule Suc.IH [OF maps_more_ready [OF k1(2) Suc.prems(1)] k1(3) hs'_def])
    show "unat (off + of_nat sizeof_Phdr) + 32 * n \<le> length d" unfolding nx using Suc.prems(4) by simp
    show "\<forall>h\<in>set hs'. segment_fits k1 d h" using Suc.prems(5) unfolding hs segment_fits_maps [OF k1(2)] by simp
    show "image_pages hs' \<le> card (free_frames (user_pool k1))" by (rule k1(6))
  qed
  then obtain k' q where k': "load_segments n fd (off + of_nat sizeof_Phdr) k1 = Some (True, k')" "maps_more k1 k'"
    "on_file fd d q k'" "data k' = image_memory d hs' (data k1)" "image_present hs' k'" by blast
  have fit: "segment_fits k d h" using Suc.prems(5) by (simp add: hs)
  have "page_present k' a" if "p_type h = PT_LOAD" "a - p_vaddr h < p_filesz h" for a
    using maps_more_present [OF k'(2) segment_low [OF Suc.prems(1) fit that]] k1(5) that by blast
  then have "image_present hs k'" using k'(5) by (simp add: image_present_def hs)
  then show ?case using k1(1,4) k' maps_more_trans [OF k1(2) k'(2)] by (intro exI [of _ k'] exI [of _ q]) (simp del: load_segments.simps)
qed

text \<open>A file the loader accepts: header and header table are in it, the segments are in it and in the user's range.\<close>

definition executable :: "kernel \<Rightarrow> u8 list \<Rightarrow> bool" where
  "executable k d \<longleftrightarrow>
     (let h = bytes_Ehdr (take 52 d); hs = program_headers d (unat (e_phoff h)) (unat (e_phnum h))
      in 52 \<le> length d \<and> elf_ok h \<and> unat (e_phoff h) + 32 * unat (e_phnum h) \<le> length d \<and>
         (\<forall>h\<in>set hs. segment_fits k d h) \<and> image_pages hs \<le> card (free_frames (user_pool k)))"

abbreviation segments_of :: "u8 list \<Rightarrow> Elf32_Phdr list" where
  "segments_of d \<equiv> program_headers d (unat (e_phoff (bytes_Ehdr (take 52 d)))) (unat (e_phnum (bytes_Ehdr (take 52 d))))"

lemma load_image_ok:
  assumes "loader_ready k" "on_file fd d 0 k" "executable k d"
  shows "\<exists>k' q. load_image fd k = Some (e_entry (bytes_Ehdr (take 52 d)), k') \<and> maps_more k k' \<and> on_file fd d q k' \<and>
    data k' = image_memory d (segments_of d) (data k) \<and> image_present (segments_of d) k'"
proof -
  let ?h = "bytes_Ehdr (take 52 d)"
  have X: "52 \<le> length d" "elf_ok ?h" "unat (e_phoff ?h) + 32 * unat (e_phnum ?h) \<le> length d"
    "\<forall>h\<in>set (segments_of d). segment_fits k d h" "image_pages (segments_of d) \<le> card (free_frames (user_pool k))"
    using assms(3) by (simp_all add: executable_def Let_def)
  have sz: "unat (of_nat sizeof_Ehdr :: u32) = 52" by (simp add: sizeof_Ehdr_def)
  obtain s where s: "fs_run (sys_read fd (of_nat sizeof_Ehdr)) k = Some (Some (take 52 d), k\<lparr>kfs := s\<rparr>)"
    "on_file fd d 52 (k\<lparr>kfs := s\<rparr>)"
    using image_read [OF assms(2), of "of_nat sizeof_Ehdr"] X(1) unfolding sz by auto
  let ?k = "k\<lparr>kfs := s\<rparr>"
  note m = maps_more_upd(1) [of k s]
  have "\<exists>k' q. load_segments (unat (e_phnum ?h)) fd (e_phoff ?h) ?k = Some (True, k') \<and> maps_more ?k k' \<and> on_file fd d q k' \<and>
    data k' = image_memory d (segments_of d) (data ?k) \<and> image_present (segments_of d) k'"
    using X(4,5) by (intro load_segments_ok [OF maps_more_ready [OF m assms(1)] s(2) refl X(3)])
      (simp_all add: segment_fits_maps [OF m])
  then show ?thesis
    using s(1) X(1,2) maps_more_trans [OF m] by (fastforce simp: load_image_def Let_def sizeof_Ehdr_def)
qed

section \<open>Opening and closing\<close>

lemma fs_run_task:
  assumes "f (fs_of k) = Some (r, s)" "sched.truncate s = sched.truncate (upd_task t g (fs_of k))"
  shows "fs_run f k = Some (r, (upd_task t g k)\<lparr>kfs := s\<rparr>)" "fs_of ((upd_task t g k)\<lparr>kfs := s\<rparr>) = s"
proof -
  have e: "sched.truncate s = sched.truncate (upd_task t g k)"
    using assms(2) by (simp add: upd_task_def fs_of_def sched.defs)
  have "sched.extend (sched.truncate (upd_task t g k)) (sched.more (k\<lparr>kfs := s\<rparr>)) = (upd_task t g k)\<lparr>kfs := s\<rparr>"
    by (cases k) (simp add: sched.defs upd_task_def)
  then show "fs_run f k = Some (r, (upd_task t g k)\<lparr>kfs := s\<rparr>)"
    using assms(1) e by (simp add: fs_run_def fs_of_def [symmetric])
  show "fs_of ((upd_task t g k)\<lparr>kfs := s\<rparr>) = s"
    using e by (cases k; cases s) (simp add: fs_of_def sched.defs upd_task_def)
qed

lemma inode_close_quiet:
  "inodes s p = Some i \<Longrightarrow> \<exists>s'. inode_close p s = Some s' \<and> sched.truncate s' = sched.truncate s"
  by (simp add: inode_close_def Let_def cpu_intr_disable_def cpu_intr_set_status_def upd_inode_def upd_part_def sched.defs)

lemma at_file_close:
  assumes "at_file fd d p s"
  shows "\<exists>s'. sys_close fd s = Some (0, s') \<and> sched.truncate s' = sched.truncate (upd_task (running s)
    (\<lambda>t. t\<lparr>fd_table := (fd_table t)[unat fd := -1]\<rparr>) s)"
proof -
  obtain fi ip i where f: "fd_local2global fd s = Some fi" "fd_inode (file_table s ! fi) = ip" "inodes s ip = Some i"
    and g: "0 \<le> sint fd" "fd \<notin> {0, 1, 2}"
    using assms unfolding at_file_def by blast
  have e: "fd = word_of_int (sint fd)" by simp
  have "sint fd \<noteq> 0" "sint fd \<noteq> 1" "sint fd \<noteq> 2" using g(2) by (subst (asm) e, auto)+
  then have fd: "2 < sint fd" using g(1) by linarith
  define s1 where "s1 = upd_inode ip (\<lambda>i. i\<lparr>write_deny := False\<rparr>) s"
  have i1: "inodes s1 ip = Some (i\<lparr>write_deny := False\<rparr>)" using f(3) by (simp add: s1_def upd_inode_def)
  obtain s2 where s2: "inode_close ip s1 = Some s2" "sched.truncate s2 = sched.truncate s"
    using inode_close_quiet [OF i1] by (auto simp: s1_def upd_inode_def sched.defs)
  let ?t = "set_file fi ((file_table s ! fi)\<lparr>fd_inode := 0\<rparr>) s2"
  have "file_close fi s = Some (0, ?t)"
    using f i1 s2(1) by (simp add: file_close_def s1_def [symmetric])
  then have "sys_close fd s = Some (0, upd_task (running ?t) (\<lambda>t. t\<lparr>fd_table := (fd_table t)[unat fd := -1]\<rparr>) ?t)"
    using fd f(1) by (simp add: sys_close_def)
  moreover have "sched.truncate ?t = sched.truncate s" using s2(2) by (simp add: set_file_def sched.defs)
  then have "sched.truncate (upd_task (running ?t) g ?t) = sched.truncate (upd_task (running s) g s)" for g
    by (simp add: upd_task_def sched.defs)
  ultimately show ?thesis by blast
qed

section \<open>The arguments\<close>

definition string_at :: "mem \<Rightarrow> u32 \<Rightarrow> u8 list \<Rightarrow> bool" where
  "string_at m p str \<longleftrightarrow> (\<forall>i<length str. m (p + of_nat i) = str ! i \<and> str ! i \<noteq> 0) \<and> m (p + of_nat (length str)) = 0"

definition args_at :: "mem \<Rightarrow> u32 \<Rightarrow> nat \<Rightarrow> bool" where
  "args_at m argv n \<longleftrightarrow> (\<forall>i<n. read32 m (argv + 4 * of_nat i) \<noteq> 0) \<and> read32 m (argv + 4 * of_nat n) = 0"

lemma c_string_at: "string_at m p str \<Longrightarrow> c_string m p = Some str"
proof (induction str arbitrary: p)
  case Nil
  then show ?case by (subst c_string.simps) (simp add: string_at_def)
next
  case (Cons c str)
  have "m p = c" "c \<noteq> 0" using Cons.prems by (auto simp: string_at_def dest: spec [of _ 0])
  moreover have "string_at m (p + 1) str"
    unfolding string_at_def
  proof (intro conjI allI impI)
    fix i assume "i < length str"
    then have "Suc i < length (c # str)" by simp
    then have "m (p + of_nat (Suc i)) = (c # str) ! Suc i \<and> (c # str) ! Suc i \<noteq> 0" using Cons.prems unfolding string_at_def by blast
    then show "m (p + 1 + of_nat i) = str ! i" "str ! i \<noteq> 0" by (simp_all add: algebra_simps)
  next
    show "m (p + 1 + of_nat (length str)) = 0" using Cons.prems by (simp add: string_at_def algebra_simps)
  qed
  ultimately show ?case using Cons.IH by (subst c_string.simps) simp
qed

lemma argc_loop_at: "args_at m argv n \<Longrightarrow> argc_loop m argv 0 = Some (of_nat n)"
proof -
  assume a: "args_at m argv n"
  have "argc_loop m argv (of_nat j) = Some (of_nat n)" if "j \<le> n" for j
    using that
  proof (induction j rule: inc_induct)
    case base
    then show ?case using a by (subst argc_loop.simps) (simp add: args_at_def)
  next
    case (step j)
    then have "read32 m (argv + 4 * of_nat j) \<noteq> 0" using a by (simp add: args_at_def)
    then show ?case using step.IH by (subst argc_loop.simps) (simp add: add.commute)
  qed
  from this [of 0] show ?thesis by simp
qed

section \<open>Entering the program\<close>

lemma loader_ready_task:
  assumes "loader_ready k" "\<forall>t. pgdir (g t) = pgdir t"
  shows "loader_ready ((upd_task (running k) g k)\<lparr>kfs := s\<rparr>)"
  using assms by (simp add: loader_ready_def upd_task_def)

text \<open>The frame that \<^verbatim>\<open>intr_exit\<close> pops at the top of the kernel stack.\<close>

definition user_frame :: "kernel \<Rightarrow> u32" where
  "user_frame k = running k + PG_SIZE - sizeof_intr_stack"


text \<open>The fields of the file system are those of \<open>kfs\<close>.\<close>

lemma fs_of_kfs [simp]:
  "cur_part (fs_of k) = cur_part (kfs k)" "inodes (fs_of k) = inodes (kfs k)" "dirs (fs_of k) = dirs (kfs k)"
  "mallocs (fs_of k) = mallocs (kfs k)" "media (fs_of k) = media (kfs k)" "file_table (fs_of k) = file_table (kfs k)"
  "tasks (fs_of k) = tasks k" "running (fs_of k) = running k"
  by (cases "kfs k"; simp add: fs_of_def sched.defs)+

lemma file_named_kfs: "file_named (kfs k) name d \<Longrightarrow> file_named (fs_of k) name d"
proof -
  assume "file_named (kfs k) name d"
  then obtain ip i n f e j where a: "dir_blocks (kfs k) root_dir ip i n f" "dir_lookup root_dir name (kfs k) = Some (Some e)"
    "f_type e = FT_REGULAR" "de_i_no e \<noteq> -1" "inode_numbered (kfs k) (de_i_no e) j" "file_ok (kfs k) j" "unat (i_size j) < 71168"
    "file_bytes (part_medium (kfs k)) j = d" unfolding file_named_def by blast
  have m: "part_medium (fs_of k) = part_medium (kfs k)" by (simp add: part_medium_def)
  have l: "blk_lba (fs_of k) = blk_lba (kfs k)" "used_blk (fs_of k) = used_blk (kfs k)" "layout_ok (fs_of k) = layout_ok (kfs k)"
    "disk_inode (fs_of k) = disk_inode (kfs k)"
    by (simp_all add: fun_eq_iff blk_lba_def data_base_def used_blk_def blk_ok_def layout_ok_def itab_def Let_def disk_inode_def m)
  have fm: "file_map (fs_of k) = file_map (kfs k)" by (simp add: fun_eq_iff file_map_def l)
  have D: "dir_blocks (fs_of k) root_dir ip i n f" using a(1) by (simp add: dir_blocks_def m l fm)
  have "dir_bufs (fs_of k) n f = dir_bufs (kfs k) n f" by (simp add: dir_bufs_def m l)
  then have "dir_lookup root_dir name (fs_of k) = Some (Some e)"
    using a(2) dir_lookup_scan [OF a(1)] dir_lookup_scan [OF D] by simp
  moreover have "inode_numbered (fs_of k) (de_i_no e) j" using a(5) by (simp only: inode_numbered_def l fs_of_kfs)
  moreover have "file_ok (fs_of k) j" using a(6) by (simp add: file_ok_def m fm)
  ultimately show ?thesis using D a(3,4,7,8) m unfolding file_named_def by auto
qed

text \<open>An executable with one segment of four bytes across a page boundary; the second page is not mapped yet.\<close>

definition demo_elf :: "u8 list" where
  "demo_elf =
     [0x7f, 0x45, 0x4c, 0x46, 1, 1, 1, 0, 0, 0, 0, 0, 0, 0, 0, 0, 2, 0, 3, 0, 1, 0, 0, 0, 0xfe, 0x8f, 4, 8, 52, 0, 0, 0,
      0, 0, 0, 0, 0, 0, 0, 0, 52, 0, 32, 0, 1, 0, 0, 0, 0, 0, 0, 0,
      1, 0, 0, 0, 84, 0, 0, 0, 0xfe, 0x8f, 4, 8, 0, 0, 0, 0, 4, 0, 0, 0, 4, 0, 0, 0, 5, 0, 0, 0, 0, 16, 0, 0,
      0x90, 0x90, 0xeb, 0xfc]"

definition demo_exec :: kernel where
  "demo_exec = demo_kernel\<lparr>tasks := (\<lambda>t. (tasks demo_kernel t)\<lparr>fd_table := [0, 1, 2, 3, -1, -1, -1, -1]\<rparr>),
     kfs := demo_root demo_elf, data := (\<lambda>_. 0)(0x804f100 := 47, 0x804f101 := 104, 0x804f102 := 105)\<rparr>"

definition demo_segment :: Elf32_Phdr where
  "demo_segment = \<lparr>p_type = PT_LOAD, p_offset = 84, p_vaddr = 0x8048ffe, p_filesz = 4\<rparr>"

lemma demo_elf:
  "elf_ok (bytes_Ehdr (take 52 demo_elf))" "e_entry (bytes_Ehdr (take 52 demo_elf)) = 0x8048ffe"
  "e_phoff (bytes_Ehdr (take 52 demo_elf)) = 52" "e_phnum (bytes_Ehdr (take 52 demo_elf)) = 1"
  "segments_of demo_elf = [demo_segment]" "segment_bytes demo_elf demo_segment = [0x90, 0x90, 0xeb, 0xfc]" "length demo_elf = 88"
proof -
  show "elf_ok (bytes_Ehdr (take 52 demo_elf))" "e_entry (bytes_Ehdr (take 52 demo_elf)) = 0x8048ffe"
    and o: "e_phoff (bytes_Ehdr (take 52 demo_elf)) = 52" and n: "e_phnum (bytes_Ehdr (take 52 demo_elf)) = 1"
    by (simp_all add: bytes_Ehdr_def demo_elf_def elf_ok_def rd16_def rd32_def sizeof_Phdr_def)
  show "segments_of demo_elf = [demo_segment]"
    unfolding o n by (simp add: program_headers_def bytes_Phdr_def demo_segment_def demo_elf_def rd32_def PT_LOAD_def)
  show "segment_bytes demo_elf demo_segment = [0x90, 0x90, 0xeb, 0xfc]" "length demo_elf = 88"
    by (simp_all add: segment_bytes_def demo_segment_def demo_elf_def)
qed

lemma demo_exec_ready: "loader_ready demo_exec" "executable demo_exec demo_elf"
proof -
  show "loader_ready demo_exec"
    by (simp add: loader_ready_def demo_exec_def demo_kernel_def pool_ok_def page_aligned_def bm_bits_def USER_VADDR_START_def)
  have "0x242000 \<in> free_frames (user_pool demo_exec)" unfolding free_frames_def
    by (simp, rule exI [of _ 2])
      (simp add: demo_exec_def demo_kernel_def bm_bits_def bm_used_def bitmap_scan_test_def bitmap_mask_def)
  moreover have "0x243000 \<in> free_frames (user_pool demo_exec)" unfolding free_frames_def
    by (simp, rule exI [of _ 3])
      (simp add: demo_exec_def demo_kernel_def bm_bits_def bm_used_def bitmap_scan_test_def bitmap_mask_def)
  ultimately have "card {0x242000, 0x243000 :: u32} \<le> card (free_frames (user_pool demo_exec))" by (intro card_mono) simp_all
  moreover have "image_pages [demo_segment] = 2" by (simp add: demo_segment_def segment_pages_def PG_SIZE_def)
  moreover have "segment_fits demo_exec demo_elf demo_segment"
    by (simp add: segment_fits_def demo_segment_def demo_elf(7) user_range_def demo_exec_def demo_kernel_def USER_VADDR_START_def bm_bits_def)
  ultimately show "executable demo_exec demo_elf"
    unfolding executable_def Let_def demo_elf(5) using demo_elf(1,3,4,7) by simp
qed


end
