(* ===== verification/Intr.thy ===== *)
theory Intr
  imports Sched
begin

text \<open>
  The processor's tables: the interrupt descriptors and the interrupt controller of
  \<^verbatim>\<open>src/kernel/interrupt.c\<close>, and the task state segment with its entries in the global
  descriptor table of \<^verbatim>\<open>src/userprog/tss.c\<close>. Functions are their addresses.
\<close>

section \<open>Interrupt descriptors\<close>

definition SELECTOR_K_CODE :: u16 where "SELECTOR_K_CODE = 8"
definition SELECTOR_K_STACK :: u32 where "SELECTOR_K_STACK = 16"
definition IDT_DESC_CNT :: nat where "IDT_DESC_CNT = 0x81"
definition IDT_DESC_ATTR_DPL0 :: u8 where "IDT_DESC_ATTR_DPL0 = push_bit 7 1 + push_bit 5 0 + 0xe"
definition IDT_DESC_ATTR_DPL3 :: u8 where "IDT_DESC_ATTR_DPL3 = push_bit 7 1 + push_bit 5 3 + 0xe"

record gate_desc =
  func_offset_low_word :: u16
  selector :: u16
  dcount :: u8
  attribute :: u8
  func_offset_high_word :: u16

definition make_idt_desc :: "u8 \<Rightarrow> u32 \<Rightarrow> gate_desc" where
  "make_idt_desc attr function =
     \<lparr>func_offset_low_word = ucast (function AND 0x0000ffff), selector = SELECTOR_K_CODE, dcount = 0, attribute = attr,
      func_offset_high_word = ucast (drop_bit 16 (function AND 0xffff0000))\<rparr>"

definition idt_desc_init :: "u32 list \<Rightarrow> u32 \<Rightarrow> gate_desc list" where
  "idt_desc_init intr_entry_table syscall_handler =
     (let idt = map (\<lambda>i. make_idt_desc IDT_DESC_ATTR_DPL0 (intr_entry_table ! i)) [0..<IDT_DESC_CNT];
          lastindex = IDT_DESC_CNT - 1
      in idt[lastindex := make_idt_desc IDT_DESC_ATTR_DPL3 syscall_handler])"

section \<open>Handlers\<close>

record idt_state =
  idt_table :: "u32 list"
  intr_name :: "string list"

definition exception_names :: "(nat \<times> string) list" where
  "exception_names =
     [(0, ''#DE Divide Error''), (1, ''#DB Debug Exception''), (2, ''NMI Interrupt''), (3, ''#BP Breakpoint Exception''),
      (4, ''#OF Overflow Exception''), (5, ''#BR BOUND Range Exceeded Exception''), (6, ''#UD Invalid Opcode Exception''),
      (7, ''#NM Device Not Available Exception''), (8, ''#DF Double Fault Exception''), (9, ''Coprocessor Segment Overrun''),
      (10, ''#TS Invalid TSS Exception''), (11, ''#NP Segment Not Present''), (12, ''#SS Stack Fault Exception''),
      (13, ''#GP General Protection Exception''), (14, ''#PF Page-Fault Exception''),
      (16, ''#MF x87 FPU Floating-Point Error''), (17, ''#AC Alignment Check Exception''),
      (18, ''#MC Machine-Check Exception''), (19, ''#XF SIMD Floating-Point Exception'')]"

definition exception_init :: "u32 \<Rightarrow> idt_state" where
  "exception_init general_intr_handler_addr =
     \<lparr>idt_table = replicate IDT_DESC_CNT general_intr_handler_addr,
      intr_name = map (\<lambda>i. case map_of exception_names i of Some n \<Rightarrow> n | None \<Rightarrow> ''unknown'') [0..<IDT_DESC_CNT]\<rparr>"

text \<open>A vector behind the table would be written outside it (\<open>None\<close>).\<close>

definition register_handler :: "u8 \<Rightarrow> u32 \<Rightarrow> idt_state \<Rightarrow> idt_state option" where
  "register_handler vector_no function s =
     (if unat vector_no < IDT_DESC_CNT then Some (s\<lparr>idt_table := (idt_table s)[unat vector_no := function]\<rparr>) else None)"

text \<open>
  The handler of every vector without one of its own: the two spurious interrupts return, all others
  print the name and stop (\<open>None\<close>).
\<close>

definition general_intr_handler :: "u8 \<Rightarrow> 'a \<Rightarrow> 'a option" where
  "general_intr_handler vec_nr s = (if vec_nr = 0x27 \<or> vec_nr = 0x2f then Some s else None)"

text \<open>The port writes of \<^verbatim>\<open>pic_init\<close> in order: vectors from \<^verbatim>\<open>0x20\<close> and \<^verbatim>\<open>0x28\<close>, then the masks.\<close>

definition pic_init :: "(u16 \<times> u8) list" where
  "pic_init =
     [(0x20, 0x11), (0x21, 0x20), (0x21, 0x04), (0x21, 0x01), (0xa0, 0x11), (0xa1, 0x28), (0xa1, 0x02), (0xa1, 0x01),
      (0x21, 0xf8), (0xa1, 0xbf)]"

text \<open>The operand of \<^verbatim>\<open>lidt\<close>: a descriptor has 8 bytes.\<close>

definition idt_operand :: "u32 \<Rightarrow> u64" where
  "idt_operand idt_addr = of_nat (8 * IDT_DESC_CNT - 1) OR push_bit 16 (ucast idt_addr)"

definition idt_init :: "u32 list \<Rightarrow> u32 \<Rightarrow> u32 \<Rightarrow> u32 \<Rightarrow> gate_desc list \<times> idt_state \<times> (u16 \<times> u8) list \<times> u64" where
  "idt_init intr_entry_table syscall_handler general_addr idt_addr =
     (idt_desc_init intr_entry_table syscall_handler, exception_init general_addr, pic_init, idt_operand idt_addr)"

section \<open>Segments\<close>

record gdt_desc =
  limit_low_word :: u16
  base_low_word :: u16
  base_mid_byte :: u8
  attr_low_byte :: u8
  limit_high_attr_high :: u8
  base_high_byte :: u8

definition make_gdt_desc :: "u32 \<Rightarrow> u32 \<Rightarrow> u8 \<Rightarrow> u8 \<Rightarrow> gdt_desc" where
  "make_gdt_desc desc_base limit attr_low attr_high =
     \<lparr>limit_low_word = ucast (limit AND 0x0000ffff), base_low_word = ucast (desc_base AND 0x0000ffff),
      base_mid_byte = ucast (drop_bit 16 (desc_base AND 0x00ff0000)), attr_low_byte = attr_low,
      limit_high_attr_high = ucast (drop_bit 16 (limit AND 0x000f0000) + ucast attr_high),
      base_high_byte = ucast (drop_bit 24 desc_base)\<rparr>"

text \<open>The fields of the task state segment the kernel sets; the others stay 0. It has 104 bytes.\<close>

record tss =
  tss_ss0 :: u32
  tss_io_base :: u16

definition sizeof_tss :: u16 where "sizeof_tss = 104"
definition TSS_ATTR_LOW :: u8 where "TSS_ATTR_LOW = push_bit 7 1 + push_bit 5 0 + push_bit 4 0 + 9"
definition TSS_ATTR_HIGH :: u8 where "TSS_ATTR_HIGH = push_bit 7 1 + push_bit 6 0 + push_bit 5 0 + push_bit 4 0 + 0"
definition GDT_ATTR_HIGH :: u8 where "GDT_ATTR_HIGH = push_bit 7 1 + push_bit 6 1 + push_bit 5 0 + push_bit 4 0"
definition GDT_CODE_ATTR_LOW_DPL3 :: u8 where "GDT_CODE_ATTR_LOW_DPL3 = push_bit 7 1 + push_bit 5 3 + push_bit 4 1 + 8"
definition GDT_DATA_ATTR_LOW_DPL3 :: u8 where "GDT_DATA_ATTR_LOW_DPL3 = push_bit 7 1 + push_bit 5 3 + push_bit 4 1 + 2"

text \<open>The segment, the three descriptors with their addresses, and the operand of \<^verbatim>\<open>lgdt\<close>.\<close>

definition tss_init :: "u32 \<Rightarrow> tss \<times> (u32 \<times> gdt_desc) list \<times> u64" where
  "tss_init tss_addr =
     (\<lparr>tss_ss0 = SELECTOR_K_STACK, tss_io_base = sizeof_tss\<rparr>,
      [(0xc0000920, make_gdt_desc tss_addr (ucast (sizeof_tss - 1)) TSS_ATTR_LOW TSS_ATTR_HIGH),
       (0xc0000928, make_gdt_desc 0 0xfffff GDT_CODE_ATTR_LOW_DPL3 GDT_ATTR_HIGH),
       (0xc0000930, make_gdt_desc 0 0xfffff GDT_DATA_ATTR_LOW_DPL3 GDT_ATTR_HIGH)],
      (8 * 7 - 1) OR push_bit 16 0xc0000900)"

section \<open>What the processor reads\<close>

definition gate_target :: "gate_desc \<Rightarrow> u32" where
  "gate_target g = push_bit 16 (ucast (func_offset_high_word g)) OR ucast (func_offset_low_word g)"

definition gate_dpl :: "gate_desc \<Rightarrow> u8" where
  "gate_dpl g = drop_bit 5 (attribute g) AND 3"

definition gate_present :: "gate_desc \<Rightarrow> bool" where
  "gate_present g \<longleftrightarrow> bit (attribute g) 7"

definition gate_type :: "gate_desc \<Rightarrow> u8" where
  "gate_type g = attribute g AND 0x1f"

definition gdt_base :: "gdt_desc \<Rightarrow> u32" where
  "gdt_base d = push_bit 24 (ucast (base_high_byte d)) OR push_bit 16 (ucast (base_mid_byte d)) OR ucast (base_low_word d)"

definition gdt_limit :: "gdt_desc \<Rightarrow> u32" where
  "gdt_limit d = push_bit 16 (ucast (limit_high_attr_high d AND 0xf)) OR ucast (limit_low_word d)"

definition gdt_dpl :: "gdt_desc \<Rightarrow> u8" where
  "gdt_dpl d = drop_bit 5 (attr_low_byte d) AND 3"

lemma mask_16: "(0xffff :: u32) = mask 16" "(0xffff0000 :: u32) = push_bit 16 (mask 16)" "(0xff0000 :: u32) = push_bit 16 (mask 8)"
  by (simp_all add: mask_eq_exp_minus_1)

lemma gate_target_make [simp]: "gate_target (make_idt_desc attr f) = f"
proof (rule bit_word_eqI)
  fix n assume "n < LENGTH(32)"
  then show "bit (gate_target (make_idt_desc attr f)) n = bit f n"
    unfolding gate_target_def make_idt_desc_def mask_16
    by (auto simp: bit_or_iff bit_and_iff bit_push_bit_iff bit_unsigned_iff bit_drop_bit_eq bit_mask_iff)
qed

lemma gdt_base_make: "gdt_base (make_gdt_desc b l al ah) = b"
proof (rule bit_word_eqI)
  fix n assume "n < LENGTH(32)"
  then show "bit (gdt_base (make_gdt_desc b l al ah)) n = bit b n"
    unfolding gdt_base_def make_gdt_desc_def mask_16
    by (cases "n < 24") (auto simp: bit_or_iff bit_and_iff bit_push_bit_iff bit_unsigned_iff bit_drop_bit_eq bit_mask_iff)
qed

lemma idt_desc_nth:
  "i < IDT_DESC_CNT \<Longrightarrow> idt_desc_init tab h ! i =
     (if i = 0x80 then make_idt_desc IDT_DESC_ATTR_DPL3 h else make_idt_desc IDT_DESC_ATTR_DPL0 (tab ! i))"
  by (simp add: idt_desc_init_def IDT_DESC_CNT_def nth_list_update)

section \<open>Properties\<close>

text \<open>
  C36. The interrupt table has a present 32-bit interrupt gate to the kernel's code segment for each of its
  129 vectors; a gate leads to the entry it was made for (the processor reads the two halves of the address
  back), and the only one that user code may call is \<^verbatim>\<open>0x80\<close>, which leads to the system call handler.
\<close>

theorem idt_gates:
  assumes "length intr_entry_table = IDT_DESC_CNT" "idt = idt_desc_init intr_entry_table syscall_handler"
  shows "length idt = IDT_DESC_CNT \<and>
    (\<forall>i<IDT_DESC_CNT. gate_present (idt ! i) \<and> gate_type (idt ! i) = 0xe \<and> selector (idt ! i) = SELECTOR_K_CODE \<and>
       gate_target (idt ! i) = (if i = 0x80 then syscall_handler else intr_entry_table ! i) \<and>
       (gate_dpl (idt ! i) = 3 \<longleftrightarrow> i = 0x80) \<and> (i \<noteq> 0x80 \<longrightarrow> gate_dpl (idt ! i) = 0))"
proof (intro conjI allI impI)
  show "length idt = IDT_DESC_CNT" by (simp add: assms(2) idt_desc_init_def)
  fix i assume i: "i < IDT_DESC_CNT"
  note e = idt_desc_nth [OF i, of intr_entry_table syscall_handler, folded assms(2)]
  have b: "bit (0x8e :: u8) 7" "bit (0xee :: u8) 7" by (simp_all add: bit_iff_odd_drop_bit)
  show "gate_present (idt ! i)" using b
    by (simp add: e gate_present_def make_idt_desc_def IDT_DESC_ATTR_DPL0_def IDT_DESC_ATTR_DPL3_def)
  show "gate_type (idt ! i) = 0xe"
    by (simp add: e gate_type_def make_idt_desc_def IDT_DESC_ATTR_DPL0_def IDT_DESC_ATTR_DPL3_def)
  show "selector (idt ! i) = SELECTOR_K_CODE" by (simp add: e make_idt_desc_def)
  show "gate_target (idt ! i) = (if i = 0x80 then syscall_handler else intr_entry_table ! i)" by (simp add: e)
  show "gate_dpl (idt ! i) = 3 \<longleftrightarrow> i = 0x80" and "i \<noteq> 0x80 \<Longrightarrow> gate_dpl (idt ! i) = 0"
    by (simp_all add: e gate_dpl_def make_idt_desc_def IDT_DESC_ATTR_DPL0_def IDT_DESC_ATTR_DPL3_def)
qed

theorem idt_gates_witness:
  "gate_target (idt_desc_init (map (\<lambda>i. 0xc0001000 + 16 * of_nat i) [0..<0x81]) 0xc0002000 ! 0x21) = 0xc0001210"
proof -
  have "length (map (\<lambda>i. 0xc0001000 + 16 * of_nat i :: u32) [0..<0x81]) = IDT_DESC_CNT" by (simp add: IDT_DESC_CNT_def)
  from idt_gates [OF this refl, of "0xc0002000"] show ?thesis by (simp add: IDT_DESC_CNT_def)
qed

lemma tss_segments:
  "map (\<lambda>(a, d). (a, gdt_base d, gdt_limit d, gdt_dpl d)) (fst (snd (tss_init tss_addr))) =
     [(0xc0000920, tss_addr, 103, 0), (0xc0000928, 0, 0xfffff, 3), (0xc0000930, 0, 0xfffff, 3)]"
  by (simp add: tss_init_def gdt_base_make)
    (simp add: gdt_limit_def gdt_dpl_def make_gdt_desc_def sizeof_tss_def TSS_ATTR_LOW_def TSS_ATTR_HIGH_def
      GDT_ATTR_HIGH_def GDT_CODE_ATTR_LOW_DPL3_def GDT_DATA_ATTR_LOW_DPL3_def)

end
