(* ===== verification/Syscall.thy ===== *)
theory Syscall
  imports Sched
begin

text \<open>
  System calls: the stubs of \<^verbatim>\<open>src/user/syscall.c\<close> that user programs call, the table of
  \<^verbatim>\<open>src/userprog/syscall-init.c\<close>, and the dispatch in between (\<^verbatim>\<open>syscall_handler\<close> of
  \<^verbatim>\<open>src/kernel/kernel.s\<close>: it pushes \<^verbatim>\<open>edx\<close>, \<^verbatim>\<open>ecx\<close>, \<^verbatim>\<open>ebx\<close> and calls the entry \<^verbatim>\<open>eax\<close> selects).
  Pointers are addresses; \<open>kcall\<close> is the kernel function that runs, with its arguments.
\<close>

datatype syscall_nr =
    SYS_GETPID | SYS_WRITE | SYS_MALLOC | SYS_FREE | SYS_FORK | SYS_READ | SYS_PUTCHAR | SYS_CLEAR | SYS_GETCWD | SYS_OPEN
  | SYS_CLOSE | SYS_LSEEK | SYS_UNLINK | SYS_MKDIR | SYS_OPENDIR | SYS_CLOSEDIR | SYS_CHDIR | SYS_RMDIR | SYS_READDIR
  | SYS_REWINDDIR | SYS_STAT | SYS_PS | SYS_EXECV | SYS_EXIT | SYS_WAIT | SYS_PIPE | SYS_FD_REDIRECT

definition syscall_nrs :: "syscall_nr list" where
  "syscall_nrs =
     [SYS_GETPID, SYS_WRITE, SYS_MALLOC, SYS_FREE, SYS_FORK, SYS_READ, SYS_PUTCHAR, SYS_CLEAR, SYS_GETCWD, SYS_OPEN,
      SYS_CLOSE, SYS_LSEEK, SYS_UNLINK, SYS_MKDIR, SYS_OPENDIR, SYS_CLOSEDIR, SYS_CHDIR, SYS_RMDIR, SYS_READDIR,
      SYS_REWINDDIR, SYS_STAT, SYS_PS, SYS_EXECV, SYS_EXIT, SYS_WAIT, SYS_PIPE, SYS_FD_REDIRECT]"

fun index_in :: "'b list \<Rightarrow> 'b \<Rightarrow> nat" where
  "index_in [] x = 0"
| "index_in (y # ys) x = (if x = y then 0 else Suc (index_in ys x))"

definition nr :: "syscall_nr \<Rightarrow> u32" where
  "nr n = of_nat (index_in syscall_nrs n)"

section \<open>The user's side\<close>

record regs =
  eax :: u32
  ebx :: u32
  ecx :: u32
  edx :: u32

text \<open>The registers at \<^verbatim>\<open>int 0x80\<close>; those a macro does not set hold what they held (\<open>r\<close>).\<close>

definition syscall0 :: "syscall_nr \<Rightarrow> regs \<Rightarrow> regs" where
  "syscall0 n r = r\<lparr>eax := nr n\<rparr>"

definition syscall1 :: "syscall_nr \<Rightarrow> u32 \<Rightarrow> regs \<Rightarrow> regs" where
  "syscall1 n a r = r\<lparr>eax := nr n, ebx := a\<rparr>"

definition syscall2 :: "syscall_nr \<Rightarrow> u32 \<Rightarrow> u32 \<Rightarrow> regs \<Rightarrow> regs" where
  "syscall2 n a b r = r\<lparr>eax := nr n, ebx := a, ecx := b\<rparr>"

definition syscall3 :: "syscall_nr \<Rightarrow> u32 \<Rightarrow> u32 \<Rightarrow> u32 \<Rightarrow> regs \<Rightarrow> regs" where
  "syscall3 n a b c r = r\<lparr>eax := nr n, ebx := a, ecx := b, edx := c\<rparr>"

datatype ucall =
    U_getpid | U_write u32 u32 u32 | U_malloc u32 | U_free u32 | U_fork | U_read u32 u32 u32 | U_putchar u8 | U_clear
  | U_getcwd u32 u32 | U_open u32 u8 | U_close u32 | U_lseek u32 u32 u8 | U_unlink u32 | U_mkdir u32 | U_opendir u32
  | U_closedir u32 | U_rmdir u32 | U_readdir u32 | U_rewinddir u32 | U_stat u32 u32 | U_chdir u32 | U_ps | U_execv u32 u32
  | U_exit u32 | U_wait u32 | U_pipe u32 | U_fd_redirect u32 u32

text \<open>The stubs: \<^verbatim>\<open>char\<close> is extended with its sign, \<^verbatim>\<open>uint8_t\<close> without.\<close>

fun stub :: "ucall \<Rightarrow> regs \<Rightarrow> regs" where
  "stub U_getpid = syscall0 SYS_GETPID"
| "stub (U_write fd p n) = syscall3 SYS_WRITE fd p n"
| "stub (U_malloc n) = syscall1 SYS_MALLOC n"
| "stub (U_free p) = syscall1 SYS_FREE p"
| "stub U_fork = syscall0 SYS_FORK"
| "stub (U_read fd p n) = syscall3 SYS_READ fd p n"
| "stub (U_putchar c) = syscall1 SYS_PUTCHAR (scast c)"
| "stub U_clear = syscall0 SYS_CLEAR"
| "stub (U_getcwd p n) = syscall2 SYS_GETCWD p n"
| "stub (U_open p flag) = syscall2 SYS_OPEN p (ucast flag)"
| "stub (U_close fd) = syscall1 SYS_CLOSE fd"
| "stub (U_lseek fd off whence) = syscall3 SYS_LSEEK fd off (ucast whence)"
| "stub (U_unlink p) = syscall1 SYS_UNLINK p"
| "stub (U_mkdir p) = syscall1 SYS_MKDIR p"
| "stub (U_opendir p) = syscall1 SYS_OPENDIR p"
| "stub (U_closedir d) = syscall1 SYS_CLOSEDIR d"
| "stub (U_rmdir p) = syscall1 SYS_RMDIR p"
| "stub (U_readdir d) = syscall1 SYS_READDIR d"
| "stub (U_rewinddir d) = syscall1 SYS_REWINDDIR d"
| "stub (U_stat p st) = syscall2 SYS_STAT p st"
| "stub (U_chdir p) = syscall1 SYS_CHDIR p"
| "stub U_ps = syscall0 SYS_PS"
| "stub (U_execv p argv) = syscall2 SYS_EXECV p argv"
| "stub (U_exit st) = syscall1 SYS_EXIT st"
| "stub (U_wait st) = syscall1 SYS_WAIT st"
| "stub (U_pipe p) = syscall1 SYS_PIPE p"
| "stub (U_fd_redirect old new) = syscall2 SYS_FD_REDIRECT old new"

section \<open>The kernel's side\<close>

datatype kcall =
    K_sys_getpid | K_sys_write u32 u32 u32 | K_sys_malloc u32 | K_sys_free u32 | K_sys_fork | K_sys_read u32 u32 u32
  | K_sys_putchar u8 | K_cls_screen | K_sys_getcwd u32 u32 | K_sys_open u32 u8 | K_sys_close u32 | K_sys_lseek u32 u32 u8
  | K_sys_unlink u32 | K_sys_mkdir u32 | K_sys_opendir u32 | K_sys_closedir u32 | K_sys_chdir u32 | K_sys_rmdir u32
  | K_sys_readdir u32 | K_sys_rewinddir u32 | K_sys_stat u32 u32 | K_sys_ps | K_sys_execv u32 u32 | K_sys_exit u32
  | K_sys_wait u32 | K_sys_pipe u32 | K_sys_fd_redirect u32 u32

text \<open>
  The table after \<^verbatim>\<open>syscall_init\<close>: an entry takes from the three pushed words as many as the function
  has parameters, each cut to the parameter's width.
\<close>

definition syscall_init :: "(syscall_nr \<times> (u32 \<Rightarrow> u32 \<Rightarrow> u32 \<Rightarrow> kcall)) list" where
  "syscall_init =
     [(SYS_GETPID, \<lambda>b c d. K_sys_getpid), (SYS_WRITE, K_sys_write), (SYS_MALLOC, \<lambda>b c d. K_sys_malloc b),
      (SYS_FREE, \<lambda>b c d. K_sys_free b), (SYS_FORK, \<lambda>b c d. K_sys_fork), (SYS_READ, K_sys_read),
      (SYS_PUTCHAR, \<lambda>b c d. K_sys_putchar (ucast b)), (SYS_CLEAR, \<lambda>b c d. K_cls_screen),
      (SYS_GETCWD, \<lambda>b c d. K_sys_getcwd b c), (SYS_OPEN, \<lambda>b c d. K_sys_open b (ucast c)), (SYS_CLOSE, \<lambda>b c d. K_sys_close b),
      (SYS_LSEEK, \<lambda>b c d. K_sys_lseek b c (ucast d)), (SYS_UNLINK, \<lambda>b c d. K_sys_unlink b), (SYS_MKDIR, \<lambda>b c d. K_sys_mkdir b),
      (SYS_OPENDIR, \<lambda>b c d. K_sys_opendir b), (SYS_CLOSEDIR, \<lambda>b c d. K_sys_closedir b), (SYS_CHDIR, \<lambda>b c d. K_sys_chdir b),
      (SYS_RMDIR, \<lambda>b c d. K_sys_rmdir b), (SYS_READDIR, \<lambda>b c d. K_sys_readdir b), (SYS_REWINDDIR, \<lambda>b c d. K_sys_rewinddir b),
      (SYS_STAT, \<lambda>b c d. K_sys_stat b c), (SYS_PS, \<lambda>b c d. K_sys_ps), (SYS_EXECV, \<lambda>b c d. K_sys_execv b c),
      (SYS_EXIT, \<lambda>b c d. K_sys_exit b), (SYS_WAIT, \<lambda>b c d. K_sys_wait b), (SYS_PIPE, \<lambda>b c d. K_sys_pipe b),
      (SYS_FD_REDIRECT, \<lambda>b c d. K_sys_fd_redirect b c)]"

text \<open>Only the first 27 of the 32 entries are set, and \<^verbatim>\<open>eax\<close> is not checked (\<open>None\<close>).\<close>

definition syscall_dispatch :: "regs \<Rightarrow> kcall option" where
  "syscall_dispatch r =
     map_option (\<lambda>f. f (ebx r) (ecx r) (edx r)) (map_of (map (\<lambda>(n, f). (nr n, f)) syscall_init) (eax r))"

definition sys_getpid :: "'a sched_scheme \<Rightarrow> u32" where
  "sys_getpid s = ucast (pid (tasks s (running s)))"

text \<open>The kernel function of the same name, which is what the programmer of the stub means.\<close>

fun meant :: "ucall \<Rightarrow> kcall" where
  "meant U_getpid = K_sys_getpid"
| "meant (U_write fd p n) = K_sys_write fd p n"
| "meant (U_malloc n) = K_sys_malloc n"
| "meant (U_free p) = K_sys_free p"
| "meant U_fork = K_sys_fork"
| "meant (U_read fd p n) = K_sys_read fd p n"
| "meant (U_putchar c) = K_sys_putchar c"
| "meant U_clear = K_cls_screen"
| "meant (U_getcwd p n) = K_sys_getcwd p n"
| "meant (U_open p flag) = K_sys_open p flag"
| "meant (U_close fd) = K_sys_close fd"
| "meant (U_lseek fd off whence) = K_sys_lseek fd off whence"
| "meant (U_unlink p) = K_sys_unlink p"
| "meant (U_mkdir p) = K_sys_mkdir p"
| "meant (U_opendir p) = K_sys_opendir p"
| "meant (U_closedir d) = K_sys_closedir d"
| "meant (U_rmdir p) = K_sys_rmdir p"
| "meant (U_readdir d) = K_sys_readdir d"
| "meant (U_rewinddir d) = K_sys_rewinddir d"
| "meant (U_stat p st) = K_sys_stat p st"
| "meant (U_chdir p) = K_sys_chdir p"
| "meant U_ps = K_sys_ps"
| "meant (U_execv p argv) = K_sys_execv p argv"
| "meant (U_exit st) = K_sys_exit st"
| "meant (U_wait st) = K_sys_wait st"
| "meant (U_pipe p) = K_sys_pipe p"
| "meant (U_fd_redirect old new) = K_sys_fd_redirect old new"

lemma ucast_back: "ucast (ucast (b :: u8) :: u32) = b" "ucast (scast (b :: u8) :: u32) = b"
  by (rule bit_word_eqI; simp add: bit_unsigned_iff bit_signed_iff)+

text \<open>
  C37. Every stub reaches the kernel function it is named after, with its arguments in order and at their
  width, whatever the other registers hold: the numbers of the two sides agree and no two are the same.
\<close>

theorem stubs_reach_handlers:
  "syscall_dispatch (stub u r) = Some (meant u)"
  by (cases u)
    (simp_all add: syscall_dispatch_def syscall_init_def nr_def syscall_nrs_def syscall0_def syscall1_def syscall2_def
      syscall3_def ucast_back)

end
