(* ===== verification/Editor.thy ===== *)
theory Editor
  imports Userio
begin

text \<open>
  The line editor, \<^verbatim>\<open>src/shell/editor.c\<close>. Its state is the table of lines (each an allocated
  string with its newline) and the name of the file; \<^verbatim>\<open>lineCount\<close> is the length of the table.
  The editor runs in a process of its own, so it starts with no line. A \<^verbatim>\<open>malloc\<close> that fails
  stops it in the assertion of \<^verbatim>\<open>strcpy\<close> (\<open>None\<close>).
\<close>

section \<open>Input\<close>

definition MAX_LINES :: nat where "MAX_LINES = 100"
definition MAX_LENGTH :: nat where "MAX_LENGTH = 256"

record ed =
  lines :: "u8 list list"
  ed_filename :: "u8 list"

text \<open>\<^verbatim>\<open>read_line(buf, size)\<close>: \<open>room\<close> is \<^verbatim>\<open>size - 1 - i\<close>; the bytes before the final NUL, NULs that were typed included.\<close>

fun read_line_loop :: "nat \<Rightarrow> u8 list \<Rightarrow> fs \<Rightarrow> (u8 list \<times> fs) option" where
  "read_line_loop 0 buf s = Some (buf, s)"
| "read_line_loop (Suc room) buf s =
     do { (r, s) \<leftarrow> sys_read 0 1 s;
          (case r of
             None \<Rightarrow> Some (buf, s)
           | Some cs \<Rightarrow>
               let c = cs ! 0 in
               if c = 10 \<or> c = 13 then Some (buf, sys_putchar 10 s)
               else read_line_loop room (buf @ [c]) (sys_putchar c s)) }"

definition read_line :: "nat \<Rightarrow> fs \<Rightarrow> (u8 list \<times> fs) option" where
  "read_line buf_size s = read_line_loop (buf_size - 1) [] s"

text \<open>The digits before the first other character; \<^verbatim>\<open>int\<close> wraps.\<close>

fun int_of_digits :: "u32 \<Rightarrow> u8 list \<Rightarrow> u32" where
  "int_of_digits val [] = val"
| "int_of_digits val (c # cs) = (if 48 \<le> c \<and> c \<le> 57 then int_of_digits (val * 10 + (ucast c - 48)) cs else val)"

definition read_int :: "fs \<Rightarrow> (u32 \<times> fs) option" where
  "read_int s =
     do { (buf, s) \<leftarrow> read_line 32 s;
          let buf = cstr buf;
          let neg = (buf \<noteq> [] \<and> buf ! 0 = 45);
          let val = int_of_digits 0 (if neg then tl buf else buf);
          Some (if neg then - val else val, s) }"

section \<open>Lines\<close>

text \<open>The string stored for a buffer: up to its first NUL, with a newline when it does not end in one.\<close>

definition line_of :: "u8 list \<Rightarrow> u8 list" where
  "line_of buffer = (let l = cstr buffer in if l = [] \<or> last l \<noteq> 10 then l @ [10] else l)"

definition store_line :: "u8 list \<Rightarrow> ed \<Rightarrow> fs \<Rightarrow> (ed \<times> fs) option" where
  "store_line buffer e s =
     do { let (ok, s) = heap_alloc s;
          if ok then Some (e\<lparr>lines := lines e @ [line_of buffer]\<rparr>, s) else None }"

fun display_lines :: "nat \<Rightarrow> u8 list list \<Rightarrow> fs \<Rightarrow> fs option" where
  "display_lines i [] s = Some s"
| "display_lines i (l # ls) s =
     do { s \<leftarrow> printf (fmt_d (of_nat i + 1) @ ascii '': '' @ l) s;
          let s = (if l = [] \<or> last l \<noteq> 10 then sys_putchar 10 s else s);
          display_lines (i + 1) ls s }"

definition display :: "ed \<Rightarrow> fs \<Rightarrow> fs option" where
  "display e s =
     do { s \<leftarrow> printf ([10] @ ascii ''Content:'' @ [10]) s;
          s \<leftarrow> display_lines 0 (lines e) s;
          printf (ascii ''Total: '' @ fmt_d (of_nat (length (lines e))) @ ascii '' lines'' @ [10]) s }"

section \<open>Opening\<close>

text \<open>
  One byte: \<open>buffer\<close> holds the \<^verbatim>\<open>pos\<close> bytes before it. The line ends at a newline, which is not
  stored, or in the byte at offset \<^verbatim>\<open>MAX_LENGTH - 2\<close>, which is.
\<close>

definition load_byte :: "u8 \<Rightarrow> u8 list \<Rightarrow> ed \<Rightarrow> fs \<Rightarrow> (u8 list \<times> ed \<times> fs) option" where
  "load_byte c buffer e s =
     (if c = 10 \<or> length buffer = MAX_LENGTH - 2 then do {
        (e, s) \<leftarrow> store_line (if c = 10 then buffer else buffer @ [c]) e s;
        Some ([], e, s) }
      else Some (buffer @ [c], e, s))"

text \<open>The byte read when the table is full is dropped.\<close>

partial_function (option) load_loop :: "u32 \<Rightarrow> u8 list \<Rightarrow> ed \<Rightarrow> fs \<Rightarrow> (u8 list \<times> ed \<times> fs) option" where
  "load_loop fd buffer e s =
     do { (r, s) \<leftarrow> sys_read fd 1 s;
          (case r of
             None \<Rightarrow> Some (buffer, e, s)
           | Some cs \<Rightarrow>
               if length cs = 1 \<and> length (lines e) < MAX_LINES then do {
                 (buffer, e, s) \<leftarrow> load_byte (cs ! 0) buffer e s;
                 load_loop fd buffer e s }
               else Some (buffer, e, s)) }"

definition load_file :: "u32 \<Rightarrow> ed \<Rightarrow> fs \<Rightarrow> (ed \<times> fs) option" where
  "load_file fd e s =
     do { (buffer, e, s) \<leftarrow> load_loop fd [] e s;
          if buffer \<noteq> [] \<and> length (lines e) < MAX_LINES then store_line buffer e s else Some (e, s) }"

definition openFile :: "ed \<Rightarrow> fs \<Rightarrow> (ed \<times> fs) option" where
  "openFile e s =
     do { s \<leftarrow> printf (ascii ''File path: '') s;
          (name, s) \<leftarrow> read_line 256 s;
          let e = e\<lparr>ed_filename := cstr name\<rparr>;
          (final_path, s) \<leftarrow> make_clear_abs_path (ed_filename e) s;
          (fd, s) \<leftarrow> sys_open final_path 0 s;
          if sint fd < 0 then do { s \<leftarrow> printf (ascii ''Couldn'' @ [39] @ ascii ''t open file'' @ [10]) s; Some (e, s) }
          else do {
            (e, s) \<leftarrow> load_file fd (e\<lparr>lines := []\<rparr>) s;
            (_, s) \<leftarrow> sys_close fd s;
            s \<leftarrow> printf (ascii ''Loaded '' @ fmt_d (of_nat (length (lines e))) @ ascii '' lines'' @ [10]) s;
            Some (e, s) } }"

section \<open>Appending and saving\<close>

text \<open>\<open>room\<close> is \<^verbatim>\<open>MAX_LINES - lineCount\<close>.\<close>

fun append_loop :: "nat \<Rightarrow> ed \<Rightarrow> fs \<Rightarrow> (ed \<times> fs) option" where
  "append_loop 0 e s = Some (e, s)"
| "append_loop (Suc room) e s =
     do { (buffer, s) \<leftarrow> read_line MAX_LENGTH s;
          if cstr buffer = [] then Some (e, s)
          else do { (e, s) \<leftarrow> store_line buffer e s; append_loop room e s } }"

definition append :: "ed \<Rightarrow> fs \<Rightarrow> (ed \<times> fs) option" where
  "append e s =
     (if ed_filename e = [] then do { s \<leftarrow> printf (ascii ''Open a file first'' @ [10]) s; Some (e, s) }
      else do {
        s \<leftarrow> printf (ascii ''Contents (End with empty line):'' @ [10]) s;
        append_loop (MAX_LINES - length (lines e)) e s })"

fun save_lines :: "u32 \<Rightarrow> u8 list list \<Rightarrow> fs \<Rightarrow> fs option" where
  "save_lines fd [] s = Some s"
| "save_lines fd (l # ls) s = do { (_, s) \<leftarrow> sys_write fd l s; save_lines fd ls s }"

definition saveFile :: "ed \<Rightarrow> fs \<Rightarrow> fs option" where
  "saveFile e s =
     (if ed_filename e = [] then printf (ascii ''Open a file first'' @ [10]) s
      else do {
        (final_path, s) \<leftarrow> make_clear_abs_path (ed_filename e) s;
        (_, s) \<leftarrow> sys_unlink final_path s;
        (fd, s) \<leftarrow> sys_open final_path 6 s;
        if sint fd < 0 then printf (ascii ''Couldn'' @ [39] @ ascii ''t save file'' @ [10]) s
        else do {
          s \<leftarrow> save_lines fd (lines e) s;
          (_, s) \<leftarrow> sys_close fd s;
          printf (ascii ''Saved '' @ fmt_d (of_nat (length (lines e))) @ ascii '' lines'' @ [10]) s } })"

text \<open>The menu; the result is \<^verbatim>\<open>editor_main\<close>'s 0 and the state.\<close>

partial_function (option) editor_loop :: "ed \<Rightarrow> fs \<Rightarrow> (u32 \<times> fs) option" where
  "editor_loop e s =
     do { s \<leftarrow> printf (ascii ''1.Open 2.Show 3.Append 4.Save 5.Exit'' @ [10]) s;
          s \<leftarrow> printf (ascii ''Option: '') s;
          (choice, s) \<leftarrow> read_int s;
          (if choice = 1 then do { (e, s) \<leftarrow> openFile e s; editor_loop e s }
           else if choice = 2 then do { s \<leftarrow> display e s; editor_loop e s }
           else if choice = 3 then do { (e, s) \<leftarrow> append e s; editor_loop e s }
           else if choice = 4 then do { s \<leftarrow> saveFile e s; editor_loop e s }
           else if choice = 5 then Some (0, s)
           else do { s \<leftarrow> printf (ascii ''Invalid option'' @ [10]) s; editor_loop e s }) }"

definition editor_main :: "fs \<Rightarrow> (u32 \<times> fs) option" where
  "editor_main s = editor_loop \<lparr>lines = [], ed_filename = []\<rparr> s"

section \<open>Loading\<close>

text \<open>What the loop makes of the bytes: the rest in the buffer and the table.\<close>

fun load_text :: "u8 list \<Rightarrow> u8 list \<Rightarrow> u8 list list \<Rightarrow> u8 list \<times> u8 list list" where
  "load_text [] buffer ls = (buffer, ls)"
| "load_text (c # cs) buffer ls =
     (if MAX_LINES \<le> length ls then (buffer, ls)
      else if c = 10 \<or> length buffer = MAX_LENGTH - 2
      then load_text cs [] (ls @ [line_of (if c = 10 then buffer else buffer @ [c])])
      else load_text cs (buffer @ [c]) ls)"

context byte_stream
begin

lemma store_line_stored:
  assumes "rd fd d p s"
  shows "\<exists>s'. store_line b e s = Some (e\<lparr>lines := lines e @ [line_of b]\<rparr>, s') \<and> rd fd d p s' \<and> console s' = console s"
  using stream_alloc [OF assms] by (auto simp: store_line_def)

lemma load_loop_loads:
  assumes "rd fd d p s" "load_text (drop p d) buffer (lines e) = (buffer', ls)"
  shows "\<exists>s' p'. load_loop fd buffer e s = Some (buffer', e\<lparr>lines := ls\<rparr>, s') \<and> rd fd d p' s' \<and> console s' = console s"
  using assms
proof (induction "length d - p" arbitrary: p s buffer e)
  case (0 p s)
  then have p: "p = length d" using stream_bound [OF 0(2)] by simp
  obtain s' where "sys_read fd 1 s = Some (None, s')" "rd fd d p s'" "console s' = console s"
    using read_step [OF 0(2), of 1] p by auto
  then show ?case using 0(3) p by (subst load_loop.simps) auto
next
  case (Suc n p s)
  then have p: "p < length d" by simp
  then have dp: "drop p d = d ! p # drop (Suc p) d" by (simp add: Cons_nth_drop_Suc)
  obtain s1 where s1: "sys_read fd 1 s = Some (Some [d ! p], s1)" "rd fd d (Suc p) s1" "console s1 = console s"
    using read_step [OF Suc.prems(1), of 1] p by (auto simp: dp)
  show ?case
  proof (cases "MAX_LINES \<le> length (lines e)")
    case True
    then show ?thesis using s1 Suc.prems(2) dp by (subst load_loop.simps) auto
  next
    case False
    obtain b1 e1 s2 where b: "load_byte (d ! p) buffer e s1 = Some (b1, e1, s2)" "rd fd d (Suc p) s2" "console s2 = console s"
      "load_text (drop (Suc p) d) b1 (lines e1) = (buffer', ls)" "e1\<lparr>lines := ls\<rparr> = e\<lparr>lines := ls\<rparr>"
      using store_line_stored [OF s1(2), of "if d ! p = 10 then buffer else buffer @ [d ! p]" e] s1 Suc.prems(2) False
      by (auto simp: load_byte_def dp split: if_splits)
    have "n = length d - Suc p" using Suc.hyps(2) by simp
    from Suc.hyps(1) [OF this b(2,4)] show ?thesis
      using s1(1) False b by (subst load_loop.simps) (auto simp: b(5))
  qed
qed

lemma load_file_loads:
  assumes "rd fd d p s" "load_text (drop p d) [] (lines e) = ([], ls)"
  shows "\<exists>s' p'. load_file fd e s = Some (e\<lparr>lines := ls\<rparr>, s') \<and> rd fd d p' s' \<and> console s' = console s"
  using load_loop_loads [OF assms] by (auto simp: load_file_def)

end

text \<open>Lines the editor keeps as they are: a newline at the end, no other, no NUL, at most 254 bytes before it.\<close>

definition text_line :: "u8 list \<Rightarrow> bool" where
  "text_line l \<longleftrightarrow> l \<noteq> [] \<and> last l = 10 \<and> 10 \<notin> set (butlast l) \<and> 0 \<notin> set l \<and> length l < MAX_LENGTH"

lemma line_of_body: "0 \<notin> set b \<Longrightarrow> 10 \<notin> set b \<Longrightarrow> line_of b = b @ [10]"
  by (cases b rule: rev_cases) (auto simp: line_of_def Let_def cstr_plain)

lemma load_text_line:
  "10 \<notin> set b \<Longrightarrow> length buffer + length b \<le> 254 \<Longrightarrow> length ls < MAX_LINES \<Longrightarrow>
     load_text (b @ 10 # cs) buffer ls = load_text cs [] (ls @ [line_of (buffer @ b)])"
  by (induction b arbitrary: buffer) (auto simp: MAX_LENGTH_def)

lemma load_text_lines:
  assumes "\<forall>l \<in> set ls. text_line l" "length ls0 + length ls \<le> MAX_LINES"
  shows "load_text (concat ls) [] ls0 = ([], ls0 @ ls)"
  using assms
proof (induction ls arbitrary: ls0)
  case (Cons l ls)
  define b where "b = butlast l"
  have l: "l = b @ [10]" "0 \<notin> set b" "10 \<notin> set b" "length b \<le> 254"
    using Cons.prems(1) append_butlast_last_id [of l] by (auto simp: b_def text_line_def MAX_LENGTH_def dest: in_set_butlastD)
  then have "load_text (concat (l # ls)) [] ls0 = load_text (concat ls) [] (ls0 @ [l])"
    using load_text_line [of b "[]" ls0 "concat ls"] Cons.prems(2) by (simp add: line_of_body)
  then show ?case using Cons.IH [of "ls0 @ [l]"] Cons.prems by simp
qed simp

section \<open>Saving\<close>

context byte_sink
begin

lemma save_lines_writes:
  assumes "wr fd d s" "length d + length (concat ls) < 71168"
  shows "\<exists>s'. save_lines fd ls s = Some s' \<and> wr fd (d @ concat ls) s'"
  using assms
proof (induction ls arbitrary: d s)
  case (Cons l ls)
  then obtain s1 where s1: "sys_write fd l s = Some (of_nat (length l), s1)" "wr fd (d @ l) s1"
    using write_step [OF Cons.prems(1), of l] by auto
  then show ?case using Cons.IH [OF s1(2)] Cons.prems(2) by auto
qed auto

end

text \<open>
  C20. What the editor saves it loads again: the lines written to an empty file, one write per line, and
  read back byte by byte from its beginning are the lines the editor had. They are lines of text of
  at most 254 bytes and a newline, at most 100 of them (longer lines are cut in two).
\<close>

theorem editor_save_load:
  assumes "to_file fd [] s" "\<forall>l \<in> set (lines e). text_line l" "length (lines e) \<le> MAX_LINES"
  shows "\<exists>s1 s2 s3. save_lines fd (lines e) s = Some s1 \<and> sys_lseek fd 0 1 s1 = Some (0, s2) \<and>
    load_file fd (e\<lparr>lines := []\<rparr>) s2 = Some (e, s3)"
proof -
  have "length (concat ls) \<le> 255 * length ls" if "\<forall>l \<in> set ls. text_line l" for ls :: "u8 list list"
    using that by (induction ls) (auto simp: text_line_def MAX_LENGTH_def)
  from this [OF assms(2)] have "length (concat (lines e)) < 71168" using assms(3) by (simp add: MAX_LINES_def)
  then obtain s1 where s1: "save_lines fd (lines e) s = Some s1" "to_file fd (concat (lines e)) s1"
    using file_sink.save_lines_writes [OF assms(1), of "lines e"] by auto
  obtain s2 where s2: "sys_lseek fd 0 1 s1 = Some (0, s2)" "at_file fd (concat (lines e)) 0 s2"
    using to_file_rewind [OF s1(2)] by blast
  have "load_text (drop 0 (concat (lines e))) [] (lines (e\<lparr>lines := []\<rparr>)) = ([], lines e)"
    using load_text_lines [OF assms(2), of "[]"] assms(3) by simp
  from file_stream.load_file_loads [OF s2(2) this] s1(1) s2(1) show ?thesis by auto
qed

text \<open>Two lines, one of them empty.\<close>

theorem editor_save_load_witness:
  "\<exists>s1 s2 s3. save_lines 3 [[104, 105, 10], [10]] demo_fs = Some s1 \<and> sys_lseek 3 0 1 s1 = Some (0, s2) \<and>
     load_file 3 \<lparr>lines = [], ed_filename = []\<rparr> s2 = Some (\<lparr>lines = [[104, 105, 10], [10]], ed_filename = []\<rparr>, s3)"
  using editor_save_load [OF demo_to_file, of "\<lparr>lines = [[104, 105, 10], [10]], ed_filename = []\<rparr>"]
  by (simp add: text_line_def MAX_LENGTH_def MAX_LINES_def)

end
