(* ===== verification/Ps.thy ===== *)
theory Ps
  imports Userio
begin

text \<open>
  The task list printed by \<^verbatim>\<open>sys_ps\<close> of \<^verbatim>\<open>src/thread/thread.c\<close>: every value is formatted into a
  zeroed field of 16 bytes, padded with blanks, and 15 bytes of it are written.
\<close>

section \<open>Fields\<close>

fun hexadecimal :: "nat \<Rightarrow> u8 list" where
  "hexadecimal n =
     (let d = (\<lambda>m. of_nat (if m < 10 then m + 48 else m - 10 + 65))
      in if n < 16 then [d n] else hexadecimal (n div 16) @ [d (n mod 16)])"

declare hexadecimal.simps [simp del]

datatype pad_format = FMT_s "u8 list" | FMT_d u16 | FMT_x u32

text \<open>
  \<^verbatim>\<open>sprintf\<close> writes no terminator, so a second text goes over the first. Case \<^verbatim>\<open>'d'\<close> has no
  \<^verbatim>\<open>break\<close>: the \<^verbatim>\<open>%d\<close> of the \<^verbatim>\<open>int16_t\<close> is followed by the \<^verbatim>\<open>%x\<close> of the four bytes there, which for the two
  pid fields of the task are the pid and two bytes of padding that are zero.
\<close>

definition overwrite :: "u8 list \<Rightarrow> u8 list \<Rightarrow> u8 list" where
  "overwrite old new = new @ drop (length new) old"

fun pad_text :: "pad_format \<Rightarrow> u8 list" where
  "pad_text (FMT_s t) = t"
| "pad_text (FMT_d v) = overwrite (fmt_d (scast v)) (hexadecimal (unat v))"
| "pad_text (FMT_x v) = hexadecimal (unat v)"

text \<open>A text of 16 bytes or more overruns the field (\<open>None\<close>).\<close>

definition pad_print :: "pad_format \<Rightarrow> fs \<Rightarrow> fs option" where
  "pad_print f s =
     (let t = pad_text f in
      if length t < 16 then do { (_, s) \<leftarrow> sys_write 1 (take 15 (t @ replicate (16 - length t) 32)) s; Some s } else None)"

section \<open>Tasks\<close>

fun status_text :: "task_status \<Rightarrow> u8 list" where
  "status_text TASK_RUNNING = ascii ''RUNNING''"
| "status_text TASK_READY = ascii ''READY''"
| "status_text TASK_BLOCKED = ascii ''BLOCKED''"
| "status_text TASK_WAITING = ascii ''WAITING''"
| "status_text TASK_HANGING = ascii ''HANGING''"
| "status_text TASK_DIED = ascii ''DIED''"

text \<open>The name, its newline and the final NUL have to fit 16 bytes.\<close>

definition elem2thread_info :: "u32 \<Rightarrow> fs \<Rightarrow> fs option" where
  "elem2thread_info pthread s =
     do { let t = tasks s pthread;
          s \<leftarrow> pad_print (FMT_d (pid t)) s;
          s \<leftarrow> pad_print (if parent_pid t = -1 then FMT_s (ascii ''NULL'') else FMT_d (parent_pid t)) s;
          s \<leftarrow> pad_print (FMT_s (status_text (status t))) s;
          s \<leftarrow> pad_print (FMT_x (elapsed_ticks t)) s;
          let name = cstr (task_name t);
          if length name + 2 \<le> 16 then do { (_, s) \<leftarrow> sys_write 1 (name @ [10]) s; Some s } else None }"

fun ps_threads :: "u32 list \<Rightarrow> fs \<Rightarrow> fs option" where
  "ps_threads [] s = Some s"
| "ps_threads (t # ts) s = do { s \<leftarrow> elem2thread_info t s; ps_threads ts s }"

definition sys_ps :: "fs \<Rightarrow> fs option" where
  "sys_ps s =
     do { (_, s) \<leftarrow> sys_write 1
            (ascii ''PID            PPID           STAT           TICKS          COMMAND'' @ [10]) s;
          ps_threads (thread_all_list s) s }"

text \<open>Process 10 is shown as A0.\<close>

lemma pad_text_ten: "pad_text (FMT_d 10) = [65, 48]"
  by (simp add: overwrite_def fmt_d_def decimal.simps hexadecimal.simps)

end
