(* ===== verification/Builtin.thy ===== *)
theory Builtin
  imports Editor Ps
begin

text \<open>
  The shell's own commands, \<^verbatim>\<open>src/shell/builtin_cmd.c\<close>. A command gets its words, \<open>argv\<close>, of which
  the first is its name; the result is its return value, where it has one, and the state. \<^verbatim>\<open>final_path\<close>
  is a value here.
\<close>

section \<open>Directories\<close>

definition builtin_pwd :: "u8 list list \<Rightarrow> fs \<Rightarrow> fs option" where
  "builtin_pwd argv s =
     (if length argv \<noteq> 1 then printf (ascii ''pwd: no argument support!'' @ [10]) s
      else do {
        (r, s) \<leftarrow> sys_getcwd (of_nat MAX_PATH_LEN) s;
        (case r of
           Some final_path \<Rightarrow> printf (final_path @ [10]) s
         | None \<Rightarrow> printf (ascii ''pwd: get current work directory failed.'' @ [10]) s) })"

definition builtin_cd :: "u8 list list \<Rightarrow> fs \<Rightarrow> (u8 list option \<times> fs) option" where
  "builtin_cd argv s =
     (if 2 < length argv then do { s \<leftarrow> printf (ascii ''cd: only support 1 argument!'' @ [10]) s; Some (None, s) }
      else do {
        (final_path, s) \<leftarrow> (if length argv = 1 then Some ([slash], s) else make_clear_abs_path (argv ! 1) s);
        (ret, s) \<leftarrow> sys_chdir final_path s;
        if ret = -1 then do { s \<leftarrow> printf (ascii ''cd: no such directory '' @ final_path @ [10]) s; Some (None, s) }
        else Some (Some final_path, s) })"

section \<open>Listing\<close>

text \<open>The arguments: \<open>Inl\<close> the message that ends the command, \<open>Inr\<close> the path and \<^verbatim>\<open>-l\<close>.\<close>

fun ls_args :: "u8 list list \<Rightarrow> u8 list option \<Rightarrow> bool \<Rightarrow> u8 list + u8 list option \<times> bool" where
  "ls_args [] pathname long_info = Inr (pathname, long_info)"
| "ls_args (a # as) pathname long_info =
     (if a \<noteq> [] \<and> a ! 0 = 45 then
        if a = ascii ''-l'' then ls_args as pathname True
        else if a = ascii ''-h'' then
          Inl (ascii ''usage: -l list all infomation about the file.'' @ [10] @ ascii ''-h for help'' @ [10] @
               ascii ''list all files in the current dirctory if no option'' @ [10])
        else Inl (ascii ''ls: invalid option '' @ a @ [10] @ ascii ''Try `ls -h'' @ [39] @ ascii '' for more information.'' @ [10])
      else if pathname = None then ls_args as (Some a) long_info
      else Inl (ascii ''ls: only support one path'' @ [10]))"

text \<open>The loop of \<^verbatim>\<open>ls -l\<close>: \<open>False\<close> when a \<^verbatim>\<open>stat\<close> has failed, which returns without \<^verbatim>\<open>closedir\<close>.\<close>

partial_function (option) ls_long :: "nat \<Rightarrow> u8 list \<Rightarrow> fs \<Rightarrow> (bool \<times> fs) option" where
  "ls_long dir sub_pathname s =
     do { (r, s) \<leftarrow> sys_readdir dir s;
          (case r of
             None \<Rightarrow> Some (True, s)
           | Some dir_e \<Rightarrow> do {
               let ftype = (if f_type dir_e = FT_REGULAR then 45 else 100);
               let name = cstr (filename dir_e);
               if MAX_PATH_LEN \<le> length (sub_pathname @ name) then None
               else do {
                 (st, s) \<leftarrow> sys_stat (sub_pathname @ name) s;
                 (case st of
                    None \<Rightarrow> do {
                      s \<leftarrow> printf (ascii ''ls: cannot access '' @ name @ ascii '': No such file or directory'' @ [10]) s;
                      Some (False, s) }
                  | Some file_stat \<Rightarrow> do {
                      s \<leftarrow> printf ([ftype] @ ascii ''  '' @ fmt_d (de_i_no dir_e) @ ascii ''  '' @ fmt_d (st_size file_stat) @
                        ascii ''  '' @ name @ [10]) s;
                      ls_long dir sub_pathname s }) } }) }"

partial_function (option) ls_short :: "nat \<Rightarrow> fs \<Rightarrow> fs option" where
  "ls_short dir s =
     do { (r, s) \<leftarrow> sys_readdir dir s;
          (case r of
             None \<Rightarrow> Some s
           | Some dir_e \<Rightarrow> do { s \<leftarrow> printf (cstr (filename dir_e) @ [32]) s; ls_short dir s }) }"

text \<open>\<^verbatim>\<open>rewinddir\<close> on a directory that did not open ends the model.\<close>

definition ls_dir :: "u8 list \<Rightarrow> bool \<Rightarrow> stat \<Rightarrow> fs \<Rightarrow> fs option" where
  "ls_dir pathname long_info file_stat s =
     do { (dir, s) \<leftarrow> sys_opendir pathname s;
          let sub_pathname = (if last pathname \<noteq> slash then pathname @ [slash] else pathname);
          s \<leftarrow> sys_rewinddir dir s;
          (go_on, s) \<leftarrow>
            (if long_info then do {
               s \<leftarrow> printf (ascii ''total: '' @ fmt_d (st_size file_stat) @ [10]) s;
               ls_long dir sub_pathname s }
             else do {
               s \<leftarrow> ls_short dir s;
               s \<leftarrow> printf [10] s;
               Some (True, s) });
          if go_on then do { (_, s) \<leftarrow> sys_closedir dir s; Some s } else Some s }"

definition builtin_ls :: "u8 list list \<Rightarrow> fs \<Rightarrow> fs option" where
  "builtin_ls argv s =
     (case ls_args (tl argv) None False of
        Inl message \<Rightarrow> printf message s
      | Inr (pathname, long_info) \<Rightarrow> do {
          (pathname, s) \<leftarrow>
            (case pathname of
               None \<Rightarrow> sys_getcwd (of_nat MAX_PATH_LEN) s
             | Some p \<Rightarrow> do { (final_path, s) \<leftarrow> make_clear_abs_path p s; Some (Some final_path, s) });
          (case pathname of
             None \<Rightarrow> printf (ascii ''ls: getcwd for default path failed'' @ [10]) s
           | Some pathname \<Rightarrow> do {
               (st, s) \<leftarrow> sys_stat pathname s;
               (case st of
                  None \<Rightarrow> printf (ascii ''ls: cannot access '' @ pathname @ ascii '': No such file or directory'' @ [10]) s
                | Some file_stat \<Rightarrow>
                    if st_filetype file_stat = FT_DIRECTORY then ls_dir pathname long_info file_stat s
                    else if long_info then
                      printf (ascii ''-  '' @ fmt_d (st_ino file_stat) @ ascii ''  '' @ fmt_d (st_size file_stat) @ ascii ''  '' @
                        pathname @ [10]) s
                    else printf (pathname @ [10]) s) }) })"

section \<open>Tasks and screen\<close>

definition builtin_ps :: "u8 list list \<Rightarrow> fs \<Rightarrow> fs option" where
  "builtin_ps argv s = (if length argv \<noteq> 1 then printf (ascii ''ps: no argument support!'' @ [10]) s else sys_ps s)"

definition builtin_clear :: "u8 list list \<Rightarrow> fs \<Rightarrow> fs option" where
  "builtin_clear argv s =
     (if length argv \<noteq> 1 then printf (ascii ''clear: no argument support!'' @ [10]) s else Some (cls_screen s))"

section \<open>Creating and deleting\<close>

definition builtin_mkdir :: "u8 list list \<Rightarrow> fs \<Rightarrow> (u32 \<times> fs) option" where
  "builtin_mkdir argv s =
     (if length argv \<noteq> 2 then do { s \<leftarrow> printf (ascii ''mkdir: only support 1 argument!'' @ [10]) s; Some (-1, s) }
      else do {
        (final_path, s) \<leftarrow> make_clear_abs_path (argv ! 1) s;
        if final_path \<noteq> [slash] then do {
          (ret, s) \<leftarrow> sys_mkdir final_path s;
          if ret = 0 then Some (0, s)
          else do { s \<leftarrow> printf (ascii ''mkdir: create directory '' @ argv ! 1 @ ascii '' failed.'' @ [10]) s; Some (-1, s) } }
        else Some (-1, s) })"

definition builtin_rmdir :: "u8 list list \<Rightarrow> fs \<Rightarrow> (u32 \<times> fs) option" where
  "builtin_rmdir argv s =
     (if length argv \<noteq> 2 then do { s \<leftarrow> printf (ascii ''rmdir: only support 1 argument!'' @ [10]) s; Some (-1, s) }
      else do {
        (final_path, s) \<leftarrow> make_clear_abs_path (argv ! 1) s;
        if final_path \<noteq> [slash] then do {
          (ret, s) \<leftarrow> sys_rmdir final_path s;
          if ret = 0 then Some (0, s)
          else do { s \<leftarrow> printf (ascii ''rmdir: remove '' @ argv ! 1 @ ascii '' failed.'' @ [10]) s; Some (-1, s) } }
        else Some (-1, s) })"

definition builtin_rm :: "u8 list list \<Rightarrow> fs \<Rightarrow> (u32 \<times> fs) option" where
  "builtin_rm argv s =
     (if length argv \<noteq> 2 then do { s \<leftarrow> printf (ascii ''rm: only support 1 argument!'' @ [10]) s; Some (-1, s) }
      else do {
        (final_path, s) \<leftarrow> make_clear_abs_path (argv ! 1) s;
        if final_path \<noteq> [slash] then do {
          (ret, s) \<leftarrow> sys_unlink final_path s;
          if ret = 0 then Some (0, s)
          else do { s \<leftarrow> printf (ascii ''rm: delete '' @ argv ! 1 @ ascii '' failed.'' @ [10]) s; Some (-1, s) } }
        else Some (-1, s) })"

definition builtin_touch :: "u8 list list \<Rightarrow> fs \<Rightarrow> (u32 \<times> fs) option" where
  "builtin_touch argv s =
     (if length argv \<noteq> 2 then do { s \<leftarrow> printf (ascii ''touch: only support 1 argument!'' @ [10]) s; Some (-1, s) }
      else do {
        (final_path, s) \<leftarrow> make_clear_abs_path (argv ! 1) s;
        if final_path \<noteq> [slash] then do {
          (fd, s) \<leftarrow> sys_open final_path 6 s;
          if fd \<noteq> -1 then do { (_, s) \<leftarrow> sys_close fd s; Some (0, s) }
          else do { s \<leftarrow> printf (ascii ''touch: create file '' @ argv ! 1 @ ascii '' failed.'' @ [10]) s; Some (-1, s) } }
        else Some (-1, s) })"

section \<open>Text\<close>

fun echo_words :: "u8 list list \<Rightarrow> fs \<Rightarrow> fs option" where
  "echo_words [] s = Some s"
| "echo_words (w # ws) s =
     do { s \<leftarrow> printf w s;
          if ws = [] then Some (sys_putchar 10 s) else do { s \<leftarrow> printf [32] s; echo_words ws s } }"

definition builtin_echo :: "u8 list list \<Rightarrow> fs \<Rightarrow> fs option" where
  "builtin_echo argv s =
     do { let s = (if length argv = 1 then sys_putchar 10 s else s);
          if length argv = 2 then printf (argv ! 1 @ [10]) s else echo_words (tl argv) s }"

fun put_chars :: "u8 list \<Rightarrow> fs \<Rightarrow> fs" where
  "put_chars [] s = s"
| "put_chars (c # cs) s = put_chars cs (sys_putchar c s)"

partial_function (option) cat_loop :: "u32 \<Rightarrow> fs \<Rightarrow> fs option" where
  "cat_loop fd s =
     do { (r, s) \<leftarrow> sys_read fd 128 s;
          (case r of
             None \<Rightarrow> Some s
           | Some cs \<Rightarrow> if cs = [] then Some s else cat_loop fd (put_chars cs s)) }"

definition builtin_cat :: "u8 list list \<Rightarrow> fs \<Rightarrow> (u32 \<times> fs) option" where
  "builtin_cat argv s =
     (if length argv \<noteq> 2 then do { s \<leftarrow> printf (ascii ''cat: only support 1 argument!'' @ [10]) s; Some (-1, s) }
      else do {
        (final_path, s) \<leftarrow> make_clear_abs_path (argv ! 1) s;
        (fd, s) \<leftarrow> sys_open final_path 0 s;
        if fd = -1 then do { s \<leftarrow> printf (ascii ''cat: cannot open '' @ argv ! 1 @ [10]) s; Some (-1, s) }
        else do {
          s \<leftarrow> cat_loop fd s;
          let s = sys_putchar 10 s;
          (_, s) \<leftarrow> sys_close fd s;
          Some (0, s) } })"

definition help_lines :: "string list" where
  "help_lines =
     [''builtin commands:'',
      ''       ls: show directory or file information'',
      ''       cd: change current work directory'',
      ''       mkdir: create a directory'',
      ''       rmdir: remove a empty directory'',
      ''       rm: remove a regular file'',
      ''       touch: create an empty file'',
      ''       echo: print text to the screen'',
      ''       pwd: show current work directory'',
      ''       ps: show process information'',
      ''       clear: clear screen'',
      ''       cat: read and print file content'',
      ''       putin: append text to file'',
      ''       ed: a simple text editor'',
      ''       help: show this help message'',
      ''   shortcut key:'',
      ''       ctrl+l: clear screen'',
      ''       ctrl+u: clear input'']"

definition builtin_help :: "u8 list list \<Rightarrow> fs \<Rightarrow> fs option" where
  "builtin_help argv s = printf (32 # concat (map (\<lambda>l. ascii l @ [10]) help_lines)) s"

text \<open>A file that has bytes gets a newline before the text; the results of \<^verbatim>\<open>write\<close> are not looked at.\<close>

definition putin_write :: "u32 \<Rightarrow> u8 list \<Rightarrow> bool \<Rightarrow> fs \<Rightarrow> fs option" where
  "putin_write fd txt nonempty s =
     do { s \<leftarrow> (if nonempty then do { (_, s) \<leftarrow> sys_write fd [10] s; Some s } else Some s);
          (_, s) \<leftarrow> sys_write fd txt s;
          Some s }"

definition builtin_putin :: "u8 list list \<Rightarrow> fs \<Rightarrow> (u32 \<times> fs) option" where
  "builtin_putin argv s =
     (if length argv \<noteq> 3 then do { s \<leftarrow> printf (ascii ''putin: usage: putin <file> <text>'' @ [10]) s; Some (-1, s) }
      else do {
        (final_path, s) \<leftarrow> make_clear_abs_path (argv ! 1) s;
        (fd, s) \<leftarrow> sys_open final_path 2 s;
        (fd, s) \<leftarrow> (if fd = -1 then sys_open final_path 6 s else Some (fd, s));
        if fd = -1 then do { s \<leftarrow> printf (ascii ''putin: cannot open or create '' @ argv ! 1 @ [10]) s; Some (-1, s) }
        else do {
          (st, s) \<leftarrow> sys_stat final_path s;
          s \<leftarrow> putin_write fd (argv ! 2) (case st of None \<Rightarrow> False | Some st \<Rightarrow> 0 < st_size st) s;
          (_, s) \<leftarrow> sys_close fd s;
          Some (0, s) } })"

definition builtin_ed :: "u8 list list \<Rightarrow> fs \<Rightarrow> (u32 \<times> fs) option" where
  "builtin_ed argv s = editor_main s"

section \<open>What cat prints\<close>

lemma put_chars_console: "put_chars cs s = s\<lparr>console := console s @ cs\<rparr>"
  by (induction cs arbitrary: s) (simp_all add: sys_putchar_def)

context byte_stream
begin

lemma cat_loop_prints:
  assumes "rd fd d p s"
  shows "\<exists>s'. cat_loop fd s = Some s' \<and> console s' = console s @ drop p d \<and> rd fd d (length d) s'"
  using assms
proof (induction "length d - p" arbitrary: p s rule: less_induct)
  case less
  have b: "p \<le> length d" using stream_bound [OF less.prems] by simp
  obtain s1 where s1: "sys_read fd 128 s = Some (if p = length d then None else Some (take 128 (drop p d)), s1)"
    "rd fd d (min (length d) (p + 128)) s1" "console s1 = console s"
    using read_step [OF less.prems, of 128] by auto
  show ?case
  proof (cases "p = length d")
    case True
    then show ?thesis using s1 by (subst cat_loop.simps) (auto simp: min_def)
  next
    case False
    let ?s = "put_chars (take 128 (drop p d)) s1"
    have ne: "take 128 (drop p d) \<noteq> []" using b False by auto
    have "rd fd d (min (length d) (p + 128)) ?s" unfolding put_chars_console by (rule stream_console [OF s1(2)])
    moreover have "length d - min (length d) (p + 128) < length d - p" using b False by auto
    ultimately obtain s' where s': "cat_loop fd ?s = Some s'"
      "console s' = console ?s @ drop (min (length d) (p + 128)) d" "rd fd d (length d) s'"
      using less.hyps by blast
    have "take 128 (drop p d) @ drop (min (length d) (p + 128)) d = drop p d"
    proof (cases "p + 128 \<le> length d")
      case True
      then show ?thesis using append_take_drop_id [of 128 "drop p d"] by (simp add: min_def add.commute)
    qed simp
    then have "console s' = console s @ drop p d" using s'(2) s1(3) by (simp add: put_chars_console)
    then show ?thesis using s'(1,3) s1(1) False ne by (subst cat_loop.simps) auto
  qed
qed

end



end
