(* ===== verification/Shell.thy ===== *)
theory Shell
  imports Builtin
begin

text \<open>
  The command interpreter, \<^verbatim>\<open>src/shell/shell.c\<close>: the line reader, the splitting of a line into words,
  and the execution of a command. \<^verbatim>\<open>fork\<close> divides a command into what the shell does before it, what the
  child does and what the shell does after \<^verbatim>\<open>wait\<close>; they are three functions, the first of which
  says how it goes on. A call with NULL, an overrun array and a failed assertion end the model (\<open>None\<close>).
\<close>

section \<open>The line reader\<close>

definition MAX_ARG_NR :: nat where "MAX_ARG_NR = 16"
definition cmd_len :: nat where "cmd_len = 128"

definition print_prompt :: "u8 list \<Rightarrow> fs \<Rightarrow> fs option" where
  "print_prompt cwd_cache s = printf (ascii ''[wayuto@winx '' @ cwd_cache @ ascii '']# '') s"

definition set_byte :: "nat \<Rightarrow> u8 \<Rightarrow> u8 list \<Rightarrow> u8 list option" where
  "set_byte k c buf = (if k < length buf then Some (buf[k := c]) else None)"

text \<open>\<^verbatim>\<open>ctrl-u\<close>: the position goes back to the beginning; the first byte stays.\<close>

fun erase_loop :: "nat \<Rightarrow> u8 list \<Rightarrow> fs \<Rightarrow> u8 list \<times> fs" where
  "erase_loop 0 buf s = (buf, s)"
| "erase_loop (Suc pos) buf s = erase_loop pos (buf[Suc pos := 0]) (sys_putchar 8 s)"

text \<open>
  \<^verbatim>\<open>buf\<close> is always \<^verbatim>\<open>cmd_line\<close>, whose first byte the backspace tests: at the beginning it is the backspace
  itself. The end of the loop without a newline returns the buffer as it is.
\<close>

partial_function (option) readline_loop :: "u8 list \<Rightarrow> nat \<Rightarrow> nat \<Rightarrow> u8 list \<Rightarrow> fs \<Rightarrow> (u8 list \<times> fs) option" where
  "readline_loop cwd_cache count pos buf s =
     do { (r, s) \<leftarrow> sys_read 0 1 s;
          (case r of
             None \<Rightarrow> do {
               s \<leftarrow> printf (ascii ''readline: can`t find enter_key in the cmd_line, max num of char is 128'' @ [10]) s;
               Some (buf, s) }
           | Some cs \<Rightarrow> do {
               let c = cs ! 0;
               buf \<leftarrow> set_byte pos c buf;
               (if \<not> pos < count then do {
                  s \<leftarrow> printf (ascii ''readline: can`t find enter_key in the cmd_line, max num of char is 128'' @ [10]) s;
                  Some (buf, s) }
                else if c = 10 \<or> c = 13 then do {
                  buf \<leftarrow> set_byte pos 0 buf;
                  Some (buf, sys_putchar 10 s) }
                else if c = 8 then
                  (if buf ! 0 \<noteq> 8 then readline_loop cwd_cache count (pos - 1) buf (sys_putchar 8 s)
                   else readline_loop cwd_cache count pos buf s)
                else if c = 108 - 97 then do {
                  buf \<leftarrow> set_byte pos 0 buf;
                  s \<leftarrow> print_prompt cwd_cache (cls_screen s);
                  s \<leftarrow> printf (cstr buf) s;
                  readline_loop cwd_cache count pos buf s }
                else if c = 117 - 97 then
                  (let (buf, s) = erase_loop pos buf s in readline_loop cwd_cache count 0 buf s)
                else readline_loop cwd_cache count (pos + 1) buf (sys_putchar c s)) }) }"

definition readline :: "u8 list \<Rightarrow> nat \<Rightarrow> u8 list \<Rightarrow> fs \<Rightarrow> (u8 list \<times> fs) option" where
  "readline cwd_cache count buf s = (if 0 < count then readline_loop cwd_cache count 0 buf s else None)"

section \<open>Words\<close>

text \<open>
  \<^verbatim>\<open>cmd_parse\<close> puts the address of each word into \<^verbatim>\<open>argv\<close> and a NUL behind it; its result is the number of
  words. The 17th is stored behind the array before the count is tested.
\<close>

function parse_loop :: "u8 \<Rightarrow> u8 list \<Rightarrow> u8 list list \<Rightarrow> u8 list list option" where
  "parse_loop token next argv =
     (if next = [] then Some argv
      else
        let next = dropWhile (\<lambda>c. c = token) next in
        if next = [] then Some argv
        else if MAX_ARG_NR \<le> length argv then None
        else parse_loop token (tl (dropWhile (\<lambda>c. c \<noteq> token) next)) (argv @ [takeWhile (\<lambda>c. c \<noteq> token) next]))"
  by pat_completeness auto
termination
proof (relation "measure (\<lambda>(token, next, argv). length next)")
  fix token argv and "next" q :: "u8 list"
  assume a: "next \<noteq> []" "q = dropWhile (\<lambda>c. c = token) next" "q \<noteq> []"
  have "length (tl (dropWhile (\<lambda>c. c \<noteq> token) q)) < length q"
    unfolding length_tl using length_greater_0_conv [of q] a(3) length_dropWhile_le [of "\<lambda>c. c \<noteq> token" q] by linarith
  also have "length q \<le> length next" unfolding a(2) by (rule length_dropWhile_le)
  finally show "((token, tl (dropWhile (\<lambda>c. c \<noteq> token) q), argv @ [takeWhile (\<lambda>c. c \<noteq> token) q]), token, next, argv)
      \<in> measure (\<lambda>(token, next, argv). length next)" by simp
qed simp

declare parse_loop.simps [simp del]

definition cmd_parse :: "u8 list \<Rightarrow> u8 \<Rightarrow> u8 list list option" where
  "cmd_parse cmd_str token = parse_loop token cmd_str []"

section \<open>Commands\<close>

definition builtin_names :: "u8 list list" where
  "builtin_names = map ascii [''ls'', ''pwd'', ''ps'', ''clear'', ''mkdir'', ''rmdir'', ''rm'', ''touch'', ''cat'', ''echo'', ''help'',
     ''putin'', ''ed'', ''calc'']"

definition is_builtin :: "u8 list \<Rightarrow> bool" where
  "is_builtin cmd \<longleftrightarrow> cmd \<in> set builtin_names"

definition run_builtin :: "u8 list list \<Rightarrow> fs \<Rightarrow> fs option" where
  "run_builtin argv s =
     (let cmd = argv ! 0 in
      if cmd = ascii ''ls'' then builtin_ls argv s
      else if cmd = ascii ''pwd'' then builtin_pwd argv s
      else if cmd = ascii ''ps'' then builtin_ps argv s
      else if cmd = ascii ''clear'' then builtin_clear argv s
      else if cmd = ascii ''mkdir'' then map_option snd (builtin_mkdir argv s)
      else if cmd = ascii ''rmdir'' then map_option snd (builtin_rmdir argv s)
      else if cmd = ascii ''rm'' then map_option snd (builtin_rm argv s)
      else if cmd = ascii ''touch'' then map_option snd (builtin_touch argv s)
      else if cmd = ascii ''cat'' then map_option snd (builtin_cat argv s)
      else if cmd = ascii ''echo'' then builtin_echo argv s
      else if cmd = ascii ''help'' then builtin_help argv s
      else if cmd = ascii ''putin'' then map_option snd (builtin_putin argv s)
      else if cmd = ascii ''ed'' then map_option snd (builtin_ed argv s)
      else Some s)"

text \<open>
  How a command goes on. After \<^verbatim>\<open>cd\<close> the directory is copied into \<^verbatim>\<open>cwd_cache\<close>, 64 bytes of which 512 are
  cleared first; what that does to \<^verbatim>\<open>final_path\<close>, one of the arrays in its reach, is the linker's
  choice and a parameter (\<open>spill\<close>).
\<close>

datatype fork_plan = No_fork | Fork_builtin "u8 list list" | Fork_program "u8 list list"

definition cmd_execute ::
  "(u8 list \<Rightarrow> u8 list) \<Rightarrow> u8 list list \<Rightarrow> u8 list \<Rightarrow> fs \<Rightarrow> (fork_plan \<times> u8 list \<times> fs) option" where
  "cmd_execute spill argv cwd_cache s =
     (if argv = [] then None
      else if argv ! 0 = ascii ''cd'' then do {
        (r, s) \<leftarrow> builtin_cd argv s;
        (case r of
           None \<Rightarrow> Some (No_fork, cwd_cache, s)
         | Some final_path \<Rightarrow>
             if length (spill final_path) < 64 then Some (No_fork, spill final_path, s) else None) }
      else if is_builtin (argv ! 0) then Some (Fork_builtin argv, cwd_cache, s)
      else Some (Fork_program argv, cwd_cache, s))"

text \<open>The child: its end is \<^verbatim>\<open>exit\<close>, or \<^verbatim>\<open>execv\<close>, which goes on in the shell's loop when it fails.\<close>

datatype child_end = Exit_with u32 | Execv_of "u8 list" "u8 list list"

fun child_run :: "fork_plan \<Rightarrow> fs \<Rightarrow> (child_end \<times> fs) option" where
  "child_run No_fork s = None"
| "child_run (Fork_builtin argv) s = do { s \<leftarrow> run_builtin argv s; Some (Exit_with 0, s) }"
| "child_run (Fork_program argv) s =
     do { (final_path, s) \<leftarrow> make_clear_abs_path (argv ! 0) s;
          (st, s) \<leftarrow> sys_stat final_path s;
          (case st of
             None \<Rightarrow> do {
               s \<leftarrow> printf (ascii ''my_shell: cannot access '' @ final_path @ ascii '': No such file or directory'' @ [10]) s;
               Some (Exit_with (-1), s) }
           | Some file_stat \<Rightarrow> Some (Execv_of final_path (final_path # tl argv), s)) }"

text \<open>
  The shell after \<^verbatim>\<open>wait\<close>. The pid is a \<^verbatim>\<open>pid_t\<close>, 16 bits, kept in an \<^verbatim>\<open>int32_t\<close>: -1 there
  panics.
\<close>

fun parent_goes_on :: "fork_plan \<Rightarrow> u32 \<Rightarrow> u32 \<Rightarrow> fs \<Rightarrow> fs option" where
  "parent_goes_on No_fork child_pid st s = Some s"
| "parent_goes_on (Fork_builtin argv) child_pid st s = (if child_pid = -1 then None else Some s)"
| "parent_goes_on (Fork_program argv) child_pid st s =
     (if child_pid = -1 then None
      else printf (ascii ''child_pid '' @ fmt_d child_pid @ ascii '', it'' @ [39] @ ascii ''s status: '' @ fmt_d st @ [10]) s)"

section \<open>A line\<close>

text \<open>
  What \<^verbatim>\<open>my_shell\<close> does with a line: \<^verbatim>\<open>pipe\<close>, the redirections of descriptors 0 and 1 to the ends of
  the pipe and back, the commands, and the closing of both ends.
\<close>

datatype shell_op = Op_pipe | Op_out_to_pipe | Op_in_from_pipe | Op_out_back | Op_in_back | Op_run "u8 list" | Op_close_ends

fun run_middle :: "u8 list list \<Rightarrow> shell_op list" where
  "run_middle [] = []"
| "run_middle [c] = [Op_out_back, Op_run c]"
| "run_middle (c # d # cs) = Op_run c # run_middle (d # cs)"

definition line_ops :: "u8 list \<Rightarrow> shell_op list" where
  "line_ops cmd_line =
     (if cmd_line = [] then []
      else case split_on 124 cmd_line of
          c # d # cs \<Rightarrow> [Op_pipe, Op_out_to_pipe, Op_run c, Op_in_from_pipe] @ run_middle (d # cs) @ [Op_in_back, Op_close_ends]
        | _ \<Rightarrow> [Op_run cmd_line])"

text \<open>One command of the line: words, then \<^verbatim>\<open>cmd_execute\<close>.\<close>

definition run_command :: "(u8 list \<Rightarrow> u8 list) \<Rightarrow> u8 list \<Rightarrow> u8 list \<Rightarrow> fs \<Rightarrow> (fork_plan \<times> u8 list \<times> fs) option" where
  "run_command spill cmd cwd_cache s = do { argv \<leftarrow> cmd_parse cmd 32; cmd_execute spill argv cwd_cache s }"

text \<open>The beginning of a round of the loop: the line that was typed.\<close>

definition shell_line :: "u8 list \<Rightarrow> fs \<Rightarrow> (u8 list \<times> fs) option" where
  "shell_line cwd_cache s =
     do { s \<leftarrow> print_prompt cwd_cache s;
          (cmd_line, s) \<leftarrow> readline cwd_cache MAX_PATH_LEN (replicate cmd_len 0) s;
          Some (cstr cmd_line, s) }"

section \<open>Words of a line\<close>

lemma words_skip: "filter (\<lambda>w. w \<noteq> []) (split_on t (dropWhile (\<lambda>c. c = t) xs)) = filter (\<lambda>w. w \<noteq> []) (split_on t xs)"
  by (induction xs) auto

lemma words_tl:
  assumes "q \<noteq> []" "hd q \<noteq> t"
  shows "filter (\<lambda>w. w \<noteq> []) (split_on t q) =
    takeWhile (\<lambda>c. c \<noteq> t) q # filter (\<lambda>w. w \<noteq> []) (split_on t (tl (dropWhile (\<lambda>c. c \<noteq> t) q)))"
proof -
  have "takeWhile (\<lambda>c. c \<noteq> t) q \<noteq> []" using assms by (cases q) auto
  then show ?thesis
    by (subst split_on_takeWhile) (cases "dropWhile (\<lambda>c. c \<noteq> t) q"; simp del: dropWhile_eq_Nil_conv)
qed

lemma parse_loop_words:
  assumes "length argv \<le> MAX_ARG_NR"
  shows "parse_loop t xs argv =
    (let ws = argv @ filter (\<lambda>w. w \<noteq> []) (split_on t xs) in if length ws \<le> MAX_ARG_NR then Some ws else None)"
  using assms
proof (induction t xs argv rule: parse_loop.induct)
  case (1 t xs argv)
  define q where "q = dropWhile (\<lambda>c. c = t) xs"
  note w = words_skip [of t xs, folded q_def]
  show ?case
  proof (cases "xs = [] \<or> q = []")
    case True
    then have "filter (\<lambda>w. w \<noteq> []) (split_on t xs) = []" using w by auto
    then show ?thesis using True 1(2) by (subst parse_loop.simps) (auto simp: Let_def q_def simp del: dropWhile_eq_Nil_conv)
  next
    case False
    then have h: "hd q \<noteq> t" using hd_dropWhile [of "\<lambda>c. c = t" xs] unfolding q_def by blast
    have ws: "filter (\<lambda>w. w \<noteq> []) (split_on t xs) =
        takeWhile (\<lambda>c. c \<noteq> t) q # filter (\<lambda>w. w \<noteq> []) (split_on t (tl (dropWhile (\<lambda>c. c \<noteq> t) q)))"
      using words_tl [OF _ h] False w by simp
    have step: "parse_loop t xs argv = (if MAX_ARG_NR \<le> length argv then None
        else parse_loop t (tl (dropWhile (\<lambda>c. c \<noteq> t) q)) (argv @ [takeWhile (\<lambda>c. c \<noteq> t) q]))"
    proof -
      have n: "(xs = []) = False" "(dropWhile (\<lambda>c. c = t) xs = []) = False" using False by (simp_all add: q_def del: dropWhile_eq_Nil_conv)
      show ?thesis unfolding parse_loop.simps [of t xs argv] q_def Let_def by (simp only: n if_False)
    qed
    show ?thesis
    proof (cases "MAX_ARG_NR \<le> length argv")
      case True
      then show ?thesis unfolding step ws by (simp add: Let_def)
    next
      case F: False
      then have "parse_loop t (tl (dropWhile (\<lambda>c. c \<noteq> t) q)) (argv @ [takeWhile (\<lambda>c. c \<noteq> t) q]) =
        (let ws = (argv @ [takeWhile (\<lambda>c. c \<noteq> t) q]) @ filter (\<lambda>w. w \<noteq> []) (split_on t (tl (dropWhile (\<lambda>c. c \<noteq> t) q)))
         in if length ws \<le> MAX_ARG_NR then Some ws else None)"
        using False by (intro 1(1) [OF _ q_def]) auto
      then show ?thesis using F unfolding step ws by simp
    qed
  qed
qed

text \<open>
  C22. \<^verbatim>\<open>cmd_parse\<close> returns for every line, and its words are the pieces between the separators that are not
  empty, in order, however many separators stand between them, before the first and behind the last;
  exactly from the 17th word on it writes behind \<^verbatim>\<open>argv\<close>.
\<close>

theorem cmd_parse_words:
  "cmd_parse cmd_str token =
     (let ws = filter (\<lambda>w. w \<noteq> []) (split_on token cmd_str) in if length ws \<le> MAX_ARG_NR then Some ws else None)"
  by (simp add: cmd_parse_def parse_loop_words)

section \<open>Line editing\<close>

text \<open>
  The reference: a key appends itself, takes the last one back, clears the line or repaints the
  screen. The line has to stay below the 128 bytes of \<^verbatim>\<open>cmd_line\<close> throughout.
\<close>

definition edit_key :: "u8 list \<Rightarrow> u8 \<Rightarrow> u8 list" where
  "edit_key line c = (if c = 8 then butlast line else if c = 11 then line else if c = 20 then [] else line @ [c])"

fun fits :: "u8 list \<Rightarrow> u8 list \<Rightarrow> bool" where
  "fits line [] = True"
| "fits line (c # cs) = (length (edit_key line c) < cmd_len \<and> fits (edit_key line c) cs)"

text \<open>What the console shows: a backspace takes the last character away.\<close>

definition show_byte :: "u8 list \<Rightarrow> u8 \<Rightarrow> u8 list" where
  "show_byte sc c = (if c = 8 then butlast sc else sc @ [c])"

definition shown :: "u8 list \<Rightarrow> u8 list" where
  "shown cs = foldl show_byte [] cs"

definition prompt_text :: "u8 list \<Rightarrow> u8 list" where
  "prompt_text cwd = ascii ''[wayuto@winx '' @ cwd @ ascii '']# ''"

lemma shown_append: "shown (cs @ [c]) = show_byte (shown cs) c"
  by (simp add: shown_def)

lemma shown_plain: "8 \<notin> set cs \<Longrightarrow> shown (xs @ cs) = shown xs @ cs"
proof (induction cs arbitrary: xs)
  case (Cons c cs)
  then show ?case using Cons.IH [of "xs @ [c]"] by (simp add: shown_append show_byte_def)
qed simp

lemma shown_back: "shown cs = xs @ ys \<Longrightarrow> shown (cs @ replicate (length ys) 8) = xs"
proof (induction ys arbitrary: cs rule: rev_induct)
  case (snoc y ys)
  have "shown (cs @ [8]) = xs @ ys" using snoc.prems by (simp add: shown_append show_byte_def butlast_append)
  from snoc.IH [OF this] show ?case by simp
qed simp

lemma erase_loop_back: "length buf = n \<Longrightarrow> \<exists>buf'. erase_loop pos buf s = (buf', s\<lparr>console := console s @ replicate pos 8\<rparr>) \<and> length buf' = n"
proof (induction pos arbitrary: buf s)
  case (Suc pos)
  have "length (buf[Suc pos := 0]) = n" using Suc.prems by simp
  from Suc.IH [OF this, of "sys_putchar 8 s"] obtain buf' where
    "erase_loop pos (buf[Suc pos := 0]) (sys_putchar 8 s) =
      (buf', (sys_putchar 8 s)\<lparr>console := console (sys_putchar 8 s) @ replicate pos 8\<rparr>)" "length buf' = n"
    by blast
  then show ?case by (simp add: sys_putchar_def replicate_app_Cons_same)
qed simp

lemma prompt_printed:
  assumes "length cwd < 900" "0 \<notin> set cwd"
  shows "print_prompt cwd s = Some (s\<lparr>console := console s @ prompt_text cwd\<rparr>)"
proof -
  have "0 \<notin> set (prompt_text cwd)" using assms(2) by (simp add: prompt_text_def ascii_def of_char_of)
  moreover have "length (prompt_text cwd) < 1024" using assms(1) by (simp add: prompt_text_def ascii_def)
  ultimately show ?thesis by (simp add: print_prompt_def prompt_text_def printf_short cstr_plain)
qed

definition editing :: "u8 list \<Rightarrow> u8 list \<Rightarrow> u8 list \<Rightarrow> fs \<Rightarrow> bool" where
  "editing cwd line buf s \<longleftrightarrow> length buf = cmd_len \<and> length line < cmd_len \<and> take (length line) buf = line \<and>
     0 \<notin> set line \<and> 8 \<notin> set line \<and> (\<exists>pre. shown (console s) = pre @ prompt_text cwd @ line)"

lemma editing_key:
  assumes "editing cwd line buf s" "length cwd < 900" "0 \<notin> set cwd" "8 \<notin> set cwd"
    "kbd_input s = c # ks" "c \<notin> {0, 10, 13}" "length (edit_key line c) < cmd_len"
  shows "\<exists>buf' s'. readline_loop cwd 512 (length line) buf s = readline_loop cwd 512 (length (edit_key line c)) buf' s' \<and>
    editing cwd (edit_key line c) buf' s' \<and> kbd_input s' = ks"
proof -
  let ?pos = "length line" let ?b = "buf[?pos := c]" let ?s = "s\<lparr>kbd_input := ks\<rparr>"
  obtain pre where e: "length buf = 128" "?pos < 128" "take ?pos buf = line" "0 \<notin> set line" "8 \<notin> set line"
    "shown (console s) = pre @ prompt_text cwd @ line"
    using assms(1) by (auto simp: editing_def cmd_len_def)
  have rd: "sys_read 0 1 s = Some (Some [c], ?s)" using assms(5) by (simp add: sys_read_def)
  have sb: "set_byte ?pos c buf = Some ?b" using e(1,2) by (simp add: set_byte_def)
  have b: "length ?b = 128" "take ?pos ?b = line" "?b ! ?pos = c" using e(1,2,3) by simp_all
  note step = readline_loop.simps [of cwd 512 ?pos buf s]
  consider "c = 8" "line = []" | "c = 8" "line \<noteq> []" | "c = 11" | "c = 20" | "c \<notin> {8, 11, 20}" by blast
  then show ?thesis
  proof cases
    case 1
    then have "?b ! 0 = 8" using b(3) by simp
    then have "readline_loop cwd 512 ?pos buf s = readline_loop cwd 512 0 ?b ?s"
      using 1 e(2) sb by (subst step) (simp add: rd)
    moreover have "editing cwd (edit_key line c) ?b ?s" using 1 b e by (simp add: editing_def edit_key_def cmd_len_def)
    ultimately show ?thesis using 1 by (intro exI [of _ ?b] exI [of _ ?s]) (simp add: edit_key_def)
  next
    case 2
    have "?b ! 0 = line ! 0" using 2 b(2) by (metis length_greater_0_conv nth_take)
    then have "?b ! 0 \<noteq> 8" using 2 e(5) by (metis length_greater_0_conv nth_mem)
    then have "readline_loop cwd 512 ?pos buf s = readline_loop cwd 512 (?pos - 1) ?b (sys_putchar 8 ?s)"
      using 2 e(2) sb by (subst step) (simp add: rd)
    moreover have "editing cwd (edit_key line c) ?b (sys_putchar 8 ?s)"
    proof -
      have "take (?pos - 1) ?b = butlast line" using b(2) e(1,2) by (metis butlast_take b(1) less_imp_le)
      moreover have "shown (console s @ [8]) = pre @ prompt_text cwd @ butlast line"
        using 2 e(6) by (simp add: shown_append show_byte_def butlast_append)
      ultimately show ?thesis using 2 b e by (auto simp: editing_def edit_key_def cmd_len_def sys_putchar_def dest: in_set_butlastD)
    qed
    ultimately show ?thesis using 2
      by (intro exI [of _ ?b] exI [of _ "sys_putchar 8 ?s"]) (simp add: edit_key_def sys_putchar_def)
  next
    case 3
    let ?b0 = "?b[?pos := 0]"
    let ?s1 = "?s\<lparr>console := prompt_text cwd @ line\<rparr>"
    have "?b0 = line @ 0 # drop (Suc ?pos) buf" using e(1,2,3) by (simp add: upd_conv_take_nth_drop)
    then have z: "cstr ?b0 = line" using e(4) by (simp add: cstr_append_zero)
    have "print_prompt cwd (cls_screen ?s) = Some (?s\<lparr>console := prompt_text cwd\<rparr>)"
      using prompt_printed [OF assms(2,3), of "cls_screen ?s"] by (simp add: cls_screen_def)
    moreover have "printf line (?s\<lparr>console := prompt_text cwd\<rparr>) = Some ?s1" using e(2,4) by (simp add: printf_short cstr_plain)
    ultimately have "readline_loop cwd 512 ?pos buf s = readline_loop cwd 512 ?pos ?b0 ?s1"
      using 3 e(1,2) z by (subst step) (simp add: rd set_byte_def)
    moreover have "shown (prompt_text cwd @ line) = prompt_text cwd @ line"
    proof -
      have "8 \<notin> set (prompt_text cwd @ line)" using assms(4) e(5) by (simp add: prompt_text_def ascii_def of_char_of)
      from shown_plain [OF this, of "[]"] show ?thesis by (simp add: shown_def)
    qed
    then have "editing cwd (edit_key line c) ?b0 ?s1" using 3 b e by (simp add: editing_def edit_key_def cmd_len_def)
    ultimately show ?thesis using 3 by (intro exI [of _ ?b0] exI [of _ ?s1]) (simp add: edit_key_def)
  next
    case 4
    obtain b' where b': "erase_loop ?pos ?b ?s = (b', ?s\<lparr>console := console ?s @ replicate ?pos 8\<rparr>)" "length b' = 128"
      using erase_loop_back [OF b(1)] by blast
    let ?s1 = "?s\<lparr>console := console ?s @ replicate ?pos 8\<rparr>"
    have "readline_loop cwd 512 ?pos buf s = readline_loop cwd 512 0 b' ?s1"
      using 4 e(2) sb b'(1) by (subst step) (simp add: rd)
    moreover have "shown (console s @ replicate ?pos 8) = pre @ prompt_text cwd"
      using shown_back [of "console s" "pre @ prompt_text cwd" line] e(6) by simp
    then have "editing cwd (edit_key line c) b' ?s1" using 4 b'(2) by (simp add: editing_def edit_key_def cmd_len_def)
    ultimately show ?thesis using 4 by (intro exI [of _ b'] exI [of _ ?s1]) (simp add: edit_key_def)
  next
    case 5
    then have k: "edit_key line c = line @ [c]" by (simp add: edit_key_def)
    have "readline_loop cwd 512 ?pos buf s = readline_loop cwd 512 (?pos + 1) ?b (sys_putchar c ?s)"
      using 5 e(2) assms(6) sb by (subst step) (simp add: rd)
    moreover have "take (Suc ?pos) ?b = line @ [c]" using b e(1,2) by (simp add: take_Suc_conv_app_nth)
    then have "editing cwd (edit_key line c) ?b (sys_putchar c ?s)"
      using 5 b e assms(6,7) unfolding k by (simp add: editing_def sys_putchar_def shown_append show_byte_def cmd_len_def)
    ultimately show ?thesis unfolding k
      by (intro exI [of _ ?b] exI [of _ "sys_putchar c ?s"]) (simp add: sys_putchar_def)
  qed
qed

lemma readline_loop_edits:
  assumes "editing cwd line buf s" "length cwd < 900" "0 \<notin> set cwd" "8 \<notin> set cwd"
    "kbd_input s = keys @ enter # rest" "0 \<notin> set keys" "10 \<notin> set keys" "13 \<notin> set keys" "enter \<in> {10, 13}" "fits line keys"
  shows "\<exists>buf' s' pre. readline_loop cwd 512 (length line) buf s = Some (buf', s') \<and>
    cstr buf' = foldl edit_key line keys \<and> kbd_input s' = rest \<and>
    shown (console s') = pre @ prompt_text cwd @ foldl edit_key line keys @ [10]"
  using assms
proof (induction keys arbitrary: line buf s)
  case Nil
  let ?pos = "length line" let ?b = "buf[?pos := enter]" let ?s = "s\<lparr>kbd_input := rest\<rparr>"
  obtain pre where e: "length buf = 128" "?pos < 128" "take ?pos buf = line" "0 \<notin> set line" "8 \<notin> set line"
    "shown (console s) = pre @ prompt_text cwd @ line"
    using Nil.prems(1) by (auto simp: editing_def cmd_len_def)
  have "?b[?pos := 0] = line @ 0 # drop (Suc ?pos) buf" using e(1,2,3) by (simp add: upd_conv_take_nth_drop)
  then have z: "cstr (?b[?pos := 0]) = line" using e(4) by (simp add: cstr_append_zero)
  have rd: "sys_read 0 1 s = Some (Some [enter], ?s)" using Nil.prems(5) by (simp add: sys_read_def)
  have "readline_loop cwd 512 ?pos buf s = Some (?b[?pos := 0], sys_putchar 10 ?s)"
    using Nil.prems(9) e(1,2) by (subst readline_loop.simps) (auto simp: rd set_byte_def)
  moreover have "shown (console s @ [10]) = pre @ prompt_text cwd @ line @ [10]" using e(6) by (simp add: shown_append show_byte_def)
  ultimately show ?case using z by (auto simp: sys_putchar_def)
next
  case (Cons c keys)
  have "kbd_input s = c # (keys @ enter # rest)" "c \<notin> {0, 10, 13}" "length (edit_key line c) < cmd_len"
    using Cons.prems by auto
  from editing_key [OF Cons.prems(1-4) this] obtain b s1 where
    "readline_loop cwd 512 (length line) buf s = readline_loop cwd 512 (length (edit_key line c)) b s1"
    "editing cwd (edit_key line c) b s1" "kbd_input s1 = keys @ enter # rest" by blast
  then show ?case using Cons.IH [of "edit_key line c" b s1] Cons.prems by auto
qed

section \<open>The typed line\<close>

text \<open>
  C21. The shell gets the line that was typed and edited, and the screen shows it: printing the prompt
  and reading keys up to enter returns the line that the keys make in the reference editor (backspace
  takes back one character, \<^verbatim>\<open>ctrl-u\<close> all, \<^verbatim>\<open>ctrl-l\<close> none), what was typed later stays in the
  keyboard buffer, and the console shows the prompt and exactly that line, after a repaint too. The line
  stays below 128 bytes at every key.
\<close>

theorem shell_line_edits:
  assumes "kbd_input s = keys @ enter # rest" "enter \<in> {10, 13}" "0 \<notin> set keys" "10 \<notin> set keys" "13 \<notin> set keys"
    "fits [] keys" "length cwd < 900" "0 \<notin> set cwd" "8 \<notin> set cwd"
  shows "\<exists>s' pre. shell_line cwd s = Some (foldl edit_key [] keys, s') \<and> kbd_input s' = rest \<and>
    shown (console s') = pre @ prompt_text cwd @ foldl edit_key [] keys @ [10]"
proof -
  let ?s = "s\<lparr>console := console s @ prompt_text cwd\<rparr>"
  have p: "print_prompt cwd s = Some ?s" by (rule prompt_printed [OF assms(7,8)])
  have "8 \<notin> set (prompt_text cwd)" using assms(9) by (simp add: prompt_text_def ascii_def of_char_of)
  then have "editing cwd [] (replicate cmd_len 0) ?s" by (simp add: editing_def shown_plain cmd_len_def)
  from readline_loop_edits [OF this assms(7,8,9) _ assms(3,4,5,2,6), of rest] assms(1)
  show ?thesis using p by (auto simp: shell_line_def readline_def MAX_PATH_LEN_def)
qed

text \<open>The keys l s x, backspace, \<^verbatim>\<open>ctrl-l\<close>, enter.\<close>

theorem shell_line_edits_witness:
  "\<exists>s'. shell_line [47] (demo_fs\<lparr>kbd_input := [108, 115, 120, 8, 11, 13]\<rparr>) = Some ([108, 115], s') \<and> kbd_input s' = []"
  using shell_line_edits [of "demo_fs\<lparr>kbd_input := [108, 115, 120, 8, 11, 13]\<rparr>" "[108, 115, 120, 8, 11]" 13 "[]" "[47]"]
  by (auto simp: edit_key_def cmd_len_def)

end
