(* ===== verification/Spec2Isabelle.thy ===== *)
theory Spec2Isabelle
  imports Cmos KMath KString Keyboard Console HeapCorrect FileData ForkCorrect ExitCorrect ExecCorrect Intr Syscall Shell
begin

text \<open>
  Winx, a small 32-bit operating system in C (x86, protected mode, paging, one processor). This
  library models its kernel, its file system and its shell, and proves what makes them correct.

  \<^bold>\<open>The program.\<close> \<^verbatim>\<open>src/kernel\<close> sets up interrupts and memory and holds the lists and bitmaps
  everything else uses; \<^verbatim>\<open>src/thread\<close> and \<^verbatim>\<open>src/userprog\<close> are threads, locks, processes, \<^verbatim>\<open>fork\<close>,
  \<^verbatim>\<open>exit\<close>, \<^verbatim>\<open>wait\<close> and \<^verbatim>\<open>execv\<close>; \<^verbatim>\<open>src/device\<close> the drivers; \<^verbatim>\<open>src/fs\<close> an inode file system on
  an IDE disk; \<^verbatim>\<open>src/user\<close> and \<^verbatim>\<open>src/impl\<close> the system call stubs and the C library; \<^verbatim>\<open>src/shell\<close> the
  command interpreter with its commands and a line editor. Threads meet in the ready list
  (\<^verbatim>\<open>schedule\<close>), block and wake through semaphores, and share the page pools, the disk channel and the
  file table under locks. A user process enters the kernel by \<^verbatim>\<open>int 0x80\<close>.

  \<^bold>\<open>The theories\<close>, in the order of their imports; each opens with what it models.

  \<^item> \<open>WinxPrelude\<close>: bytes, words, little-endian codecs, list splicing, the collections of rules.
  \<^item> \<open>Bitmap\<close> (\<^verbatim>\<open>kernel/bitmap.c\<close>), \<open>KList\<close> (\<^verbatim>\<open>kernel/list.c\<close>, the interrupt flag),
    \<open>KMath\<close> (\<^verbatim>\<open>impl/math.c\<close>), \<open>Cmos\<close> (\<^verbatim>\<open>device/cmos.c\<close>), \<open>KString\<close> (\<^verbatim>\<open>impl/string.c\<close>, \<^verbatim>\<open>impl/stdio.c\<close>).
  \<^item> \<open>Sched\<close> (\<^verbatim>\<open>thread/thread.c\<close> scheduling, \<^verbatim>\<open>device/timer.c\<close>), \<open>Sync\<close> (\<^verbatim>\<open>thread/sync.c\<close>), \<open>Ioqueue\<close>
    (\<^verbatim>\<open>device/ioqueue.c\<close>, \<^verbatim>\<open>shell/pipe.c\<close>), \<open>Console\<close>, \<open>Keyboard\<close> (\<^verbatim>\<open>device/\<close>), \<open>Intr\<close>
    (\<^verbatim>\<open>kernel/interrupt.c\<close>, \<^verbatim>\<open>userprog/tss.c\<close>), \<open>Syscall\<close> (\<^verbatim>\<open>user/syscall.c\<close>, \<^verbatim>\<open>userprog/syscall-init.c\<close>).
  \<^item> \<open>Paging\<close>, \<open>Memory\<close>, \<open>Heap\<close>, \<open>HeapCorrect\<close> (\<^verbatim>\<open>kernel/memory.c\<close>: page tables, page pools, arenas).
  \<^item> \<open>Ide\<close> (\<^verbatim>\<open>device/ide.c\<close>), \<open>Inode\<close> (\<^verbatim>\<open>fs/inode.c\<close>), \<open>Dir\<close>, \<open>DirCorrect\<close> (\<^verbatim>\<open>fs/dir.c\<close>), \<open>File\<close>, \<open>FileData\<close>
    (\<^verbatim>\<open>fs/file.c\<close>), \<open>Fs\<close>, \<open>OpenCorrect\<close> (\<^verbatim>\<open>fs/fs.c\<close>; opening a file by its name).
  \<^item> \<open>Thread\<close> (the rest of \<^verbatim>\<open>thread/thread.c\<close>, \<^verbatim>\<open>userprog/process.c\<close>), \<open>Fork\<close>, \<open>ForkCorrect\<close>
    (\<^verbatim>\<open>userprog/fork.c\<close>), \<open>Exit\<close>, \<open>ExitCorrect\<close> (\<^verbatim>\<open>userprog/wait_exit.c\<close>), \<open>Exec\<close>, \<open>ExecCorrect\<close>
    (\<^verbatim>\<open>userprog/exec.c\<close>).
  \<^item> \<open>Path\<close>, \<open>Userio\<close>, \<open>Ps\<close>, \<open>Editor\<close>, \<open>Builtin\<close>, \<open>Shell\<close> (\<^verbatim>\<open>src/shell\<close>, and \<^verbatim>\<open>sys_ps\<close>).

  \<^bold>\<open>State.\<close> The states are records that extend each other: \<open>sched\<close> (tasks, ready and thread lists,
  the running thread, the interrupt flag, cr3) is the base of the page memory \<open>vm\<close> (pools, page tables, bytes,
  arenas), of \<open>machine\<close> (disks) and its extension \<open>fs\<close> (mounted partition, inodes and directories in
  memory, file table, keyboard input, console). \<open>kernel\<close> joins \<open>vm\<close>, the processes' address spaces
  and an \<open>fs\<close> part. A list the code links through its elements is a HOL list; that \<^verbatim>\<open>list.c\<close> implements it on
  pointers is the theorem of \<open>KList\<close>. Pointers into memory are addresses; objects that only the kernel
  reaches through a pointer (inodes, open directories) live in maps.

  \<^bold>\<open>Conventions.\<close> Integers keep their width as words, signed comparisons use \<open>sint\<close>. A function of the
  code returns an \<open>option\<close>: \<open>None\<close> is a failed \<^verbatim>\<open>ASSERT\<close> or \<^verbatim>\<open>assert\<close> (the machine stops), a division by
  zero, an access outside an array or through NULL, a read of memory nothing has set, or a loop that does
  not end. So a statement \<open>f s = Some r\<close> says that the code returns and does none of this. The error results
  of the code itself (-1, NULL, \<^verbatim>\<open>false\<close>) are values. Messages on the screen are left out in the
  kernel (they are the log of \<open>Keyboard\<close> and the text of \<open>Console\<close> and of the shell where they
  matter). \<^verbatim>\<open>sys_malloc\<close> is modelled in \<open>Heap\<close>; above it, the file system and the editor take the
  success of each call from an oracle (\<open>mallocs\<close>), so both outcomes of every allocation are covered.

  \<^bold>\<open>Loops and fuel.\<close> Loops over an index or a list are structural recursion or \<open>function\<close>s
  with a measure; loops that may not end (walks along pointers, scans for a zero bit or a NUL,
  the menus) are \<open>partial_function (option)\<close>, and the theorems prove that they return. No definition has
  a fuel argument of its own: where a number counts passes it is the loop counter of the code.
  Bounds in statements come from the code: 128 bytes of command line, 16 words, 512 bytes of path,
  16 bytes of name, 140 blocks of 512 bytes to a file, 12 of them direct, 32 open files, 4096 inodes.

  \<^bold>\<open>Interfaces.\<close> A locale states what a client needs, and is interpreted on the code's definitions:
  \<open>bit_allocator\<close> (\<open>Bitmap\<close>: scan, set and clear, whose client never hands out a bit twice), \<open>bounded_fifo\<close>
  (\<open>Ioqueue\<close>: the ring of bytes), \<open>linked_lists\<close> (\<open>KList\<close>: the list operations as the rest of the
  kernel sees them), \<open>byte_stream\<close> and \<open>byte_sink\<close> (\<open>Userio\<close>: reading and writing a file a byte or a
  string at a time, whose clients are the loops of \<^verbatim>\<open>cat\<close> and of the editor).

  \<^bold>\<open>What is proved.\<close> Processes: a fork copies the memory of the parent and shares none; a process
  that exits is collected by its waiting parent with its status, pid and pages given back; \<^verbatim>\<open>execv\<close> loads
  every segment of an executable and enters it; process numbers are unique
  while in use. Threads: the scheduler's invariant, that every ready thread runs within bounded
  ticks, mutual exclusion and no lost wakeup for locks over all interleavings. Memory: page allocation and release
  are inverse and keep disjointness, the heap's blocks are disjoint and inside their arenas. Files:
  a write appends, a read returns a slice, other files keep their bytes, no block is lost; an entered name is
  found and a deleted one is not; opening by name gives the bytes of that file; inodes survive the disk. Devices: every sector transfer arrives, the keyboard types its
  text. System calls: each stub reaches its handler with its arguments. Shell: the edited line is the one
  returned and shown, words are split, paths are cleared, \<^verbatim>\<open>cat\<close> prints the file, the editor loads what it saved.
  Some theorems state a fault of the code (a rollback that leaks, a truncated inode number).

  \<^bold>\<open>Not modelled.\<close> The boot sector and loader, \<^verbatim>\<open>print.s\<close>, \<^verbatim>\<open>switch.s\<close> and \<^verbatim>\<open>kernel.s\<close> are assembly: the
  video routines are a parameter of \<open>Console\<close>, the switch and the interrupt return appear as the state change they make.
  \<^verbatim>\<open>io.h\<close> (single instructions), \<^verbatim>\<open>init.c\<close> and \<^verbatim>\<open>main.c\<close> (a sequence of calls), \<^verbatim>\<open>debug.c\<close>, \<^verbatim>\<open>assert.c\<close>
  (print and stop) and \<^verbatim>\<open>printk\<close> have no definition of their own. Preemption inside
  the file system and the memory manager is not modelled (their locks are: \<open>Sync\<close> treats all interleavings of
  one lock). The shell's \<^verbatim>\<open>fork\<close> is cut into the parts before it, of the child and of the
  parent, and its pipes into the sequence of calls, because the two processes run concurrently.
\<close>

end
